(* ===== verification/Prelude.thy ===== *)
theory Prelude
  imports Main "HOL-Library.Word"
begin

text \<open>
  Shared vocabulary of the development: bytes and byte strings, the result of an operation on
  \<open>&mut self\<close> that may fail (\<open>outcome\<close>), the loop \<open>for x in xs { f(x)?; }\<close> (\<open>foldm\<close>), Rust's ASCII
  classification of bytes, and the generic lemmas on lists and words that the components share.
\<close>

unbundle bit_operations_syntax

type_synonym byte = "8 word"
type_synonym bytes = "byte list"

named_theorems step_defs \<open>definitions of the single steps of a component\<close>
named_theorems inv_intros \<open>preservation lemmas of component invariants\<close>

section \<open>Fallible operations on a mutable state\<close>

text \<open>
  A Rust method \<open>fn op(&mut self, ..) -> Result<(), E>\<close> leaves \<open>self\<close> modified even when it returns
  \<open>Err\<close>; both constructors therefore carry the state the call leaves behind.
\<close>

datatype ('e, 's) outcome = Done 's | Fail 'e 's

text \<open>\<open>r?; k\<close>: go on with \<open>k\<close> from the state \<open>r\<close> leaves behind, or stop at its error.\<close>

fun seq :: "('e, 's) outcome \<Rightarrow> ('s \<Rightarrow> ('e, 's) outcome) \<Rightarrow> ('e, 's) outcome" where
  "seq (Done s) f = f s"
| "seq (Fail e s) f = Fail e s"

lemma seq_cong [fundef_cong]:
  "r = r' \<Longrightarrow> (\<And>s. r' = Done s \<Longrightarrow> f s = f' s) \<Longrightarrow> seq r f = seq r' f'"
  by (cases r') auto

lemma seq_assoc: "seq (seq r f) g = seq r (\<lambda>s. seq (f s) g)"
  by (cases r) auto

lemma seq_Done [simp]: "seq r Done = r"
  by (cases r) auto

lemma seq_eq_Done_iff: "seq r f = Done t \<longleftrightarrow> (\<exists>s. r = Done s \<and> f s = Done t)"
  by (cases r) auto

text \<open>The state an operation leaves behind, whether it succeeded or not.\<close>

fun outcome_state :: "('e, 's) outcome \<Rightarrow> 's" where
  "outcome_state (Done s) = s"
| "outcome_state (Fail e s) = s"

fun is_done :: "('e, 's) outcome \<Rightarrow> bool" where
  "is_done (Done s) = True"
| "is_done (Fail e s) = False"

abbreviation into :: "('d \<Rightarrow> 's) \<Rightarrow> ('e, 'd) outcome \<Rightarrow> ('e, 's) outcome" where
  "into g \<equiv> map_outcome id g"

lemma outcome_state_map [simp]: "outcome_state (map_outcome f g r) = g (outcome_state r)"
  by (cases r) auto

lemma is_done_map [simp]: "is_done (map_outcome f g r) = is_done r"
  by (cases r) auto

lemma is_done_iff: "is_done r \<longleftrightarrow> (\<exists>s. r = Done s)"
  by (cases r) auto

lemma into_into: "into g (into h r) = into (\<lambda>d. g (h d)) r"
  by (cases r) auto

lemma into_Fail_iff: "into g r = Fail e t \<longleftrightarrow> (\<exists>u. r = Fail e u \<and> t = g u)"
  by (cases r) auto

section \<open>The loop over a slice\<close>

fun foldm :: "('s \<Rightarrow> 'a \<Rightarrow> ('e, 's) outcome) \<Rightarrow> 's \<Rightarrow> 'a list \<Rightarrow> ('e, 's) outcome" where
  "foldm f s [] = Done s"
| "foldm f s (x # xs) = seq (f s x) (\<lambda>s'. foldm f s' xs)"

lemma foldm_append: "foldm f s (xs @ ys) = seq (foldm f s xs) (\<lambda>s'. foldm f s' ys)"
  by (induction xs arbitrary: s) (auto simp: seq_assoc)

text \<open>An invariant of the loop body is an invariant of the loop, on success and on failure.\<close>

lemma foldm_invariant:
  assumes step: "\<And>s x. P s \<Longrightarrow> x \<in> set xs \<Longrightarrow> P (outcome_state (f s x))"
    and init: "P s"
  shows "P (outcome_state (foldm f s xs))"
  using init step
proof (induction xs arbitrary: s)
  case Nil
  then show ?case by simp
next
  case (Cons x xs)
  have head: "P (outcome_state (f s x))" using Cons.prems by simp
  show ?case
  proof (cases "f s x")
    case (Done s')
    with head have "P s'" by simp
    then have "P (outcome_state (foldm f s' xs))" using Cons.IH Cons.prems(2) by simp
    with Done show ?thesis by simp
  next
    case (Fail e s')
    with head show ?thesis by simp
  qed
qed

text \<open>A loop body that succeeds on every state satisfying the invariant never fails.\<close>

lemma foldm_total:
  assumes step: "\<And>s x. P s \<Longrightarrow> x \<in> set xs \<Longrightarrow> \<exists>s'. f s x = Done s' \<and> P s'"
    and init: "P s"
  shows "\<exists>s'. foldm f s xs = Done s' \<and> P s'"
  using init step
proof (induction xs arbitrary: s)
  case Nil
  then show ?case by simp
next
  case (Cons x xs)
  obtain s' where "f s x = Done s'" "P s'"
    using Cons.prems by (meson list.set_intros(1))
  then show ?case using Cons.IH Cons.prems(2) by simp
qed

text \<open>A loop body that simulates another through an abstraction makes the loops simulate.\<close>

lemma foldm_simulation:
  fixes A :: "'s \<Rightarrow> 't"
  assumes step: "\<And>s x. I s \<Longrightarrow> into A (f s x) = g (A s) x \<and> I (outcome_state (f s x))"
    and init: "I s"
  shows "into A (foldm f s xs) = foldm g (A s) xs \<and> I (outcome_state (foldm f s xs))"
  using init
proof (induction xs arbitrary: s)
  case Nil
  then show ?case by simp
next
  case (Cons x xs)
  show ?case
  proof (cases "f s x")
    case (Done t)
    have "g (A s) x = Done (A t)" "I t" using step [OF Cons.prems, of x] Done by auto
    then show ?thesis using Cons.IH [of t] Done by simp
  next
    case (Fail e t)
    have "g (A s) x = Fail e (A t)" "I t" using step [OF Cons.prems, of x] Fail by auto
    then show ?thesis using Fail by simp
  qed
qed

section \<open>Text as bytes\<close>

text \<open>An ASCII literal of the source as bytes (\<open>b"..."\<close>, or a \<open>&str\<close> used for its bytes).\<close>

definition str :: "string \<Rightarrow> bytes" where
  "str cs = map (\<lambda>c. of_nat (of_char c)) cs"

definition is_ascii_digit :: "byte \<Rightarrow> bool" where
  "is_ascii_digit b \<longleftrightarrow> 0x30 \<le> b \<and> b \<le> 0x39"

definition is_ascii_lower :: "byte \<Rightarrow> bool" where
  "is_ascii_lower b \<longleftrightarrow> 0x61 \<le> b \<and> b \<le> 0x7A"

definition is_ascii_upper :: "byte \<Rightarrow> bool" where
  "is_ascii_upper b \<longleftrightarrow> 0x41 \<le> b \<and> b \<le> 0x5A"

definition to_ascii_uppercase :: "byte \<Rightarrow> byte" where
  "to_ascii_uppercase b = (if is_ascii_lower b then b - 0x20 else b)"

section \<open>Words\<close>

lemma word_less_iff_unat: "(a :: 'a::len word) < b \<longleftrightarrow> unat a < unat b"
  by (simp add: word_less_nat_alt)

lemma word_le_iff_unat: "(a :: 'a::len word) \<le> b \<longleftrightarrow> unat a \<le> unat b"
  by (simp add: word_le_nat_alt)

text \<open>Every byte is one of 256 values: a fact about all bytes is checked on each of them.\<close>

lemma unat_byte_less [simp]: "unat (b :: byte) < 256"
  using unsigned_less [of b, where ?'a = nat] by simp

lemma unat_byte_le [simp]: "unat (b :: byte) \<le> 255"
  using unat_byte_less [of b] by linarith

text \<open>Bytes are equal when their eight bits are; bits above do not exist.\<close>

lemma byte_bitsI:
  fixes a b :: byte
  assumes "bit a 0 = bit b 0" "bit a 1 = bit b 1" "bit a 2 = bit b 2" "bit a 3 = bit b 3"
    "bit a 4 = bit b 4" "bit a 5 = bit b 5" "bit a 6 = bit b 6" "bit a 7 = bit b 7"
  shows "a = b"
proof (rule bit_word_eqI)
  fix n assume "n < LENGTH(8)"
  then have "n = 0 \<or> n = 1 \<or> n = 2 \<or> n = 3 \<or> n = 4 \<or> n = 5 \<or> n = 6 \<or> n = 7" by auto
  then show "bit a n = bit b n" using assms by auto
qed

lemma byte_bit_high: "8 \<le> n \<Longrightarrow> bit (b :: byte) n = False"
  using bit_imp_le_length [of b n] by auto

text \<open>\<open>n as u8\<close> keeps the low byte.\<close>

lemma of_nat_256 [simp]: "(of_nat (256 * k + n) :: byte) = of_nat n"
  by (simp only: word_unat_eq_iff unat_of_nat) simp

lemma byte_256_mult [simp]: "(256 :: byte) * x = 0" "(65536 :: byte) * x = 0"
proof -
  have "(256 :: byte) = 0" "(65536 :: byte) = 0" by simp_all
  then show "(256 :: byte) * x = 0" "(65536 :: byte) * x = 0" by (metis mult_zero_left)+
qed

lemma byte_cases_list: "(b :: byte) \<in> set (map of_nat [0..<256])"
proof -
  have "of_nat (unat b) = b" by simp
  moreover have "unat b \<in> set [0..<256]" by simp
  ultimately show ?thesis by (metis image_eqI set_map)
qed

lemma all_bytesI: "list_all P (map of_nat [0..<256]) \<Longrightarrow> P (b :: byte)"
  using byte_cases_list [of b] unfolding list_all_iff by blast

section \<open>Lists\<close>

lemma take_Suc_nth: "n < length xs \<Longrightarrow> take (Suc n) xs = take n xs @ [xs ! n]"
  by (rule take_Suc_conv_app_nth)

lemma list_update_last: "length xs = Suc n \<Longrightarrow> xs[n := x] = take n xs @ [x]"
  by (simp add: upd_conv_take_nth_drop)

end
