(* ===== verification/Pipeline.thy ===== *)
theory Pipeline
  imports Prelude
begin

text \<open>
  The streaming pipeline of \<open>crates/flpdf/src/pipeline.rs\<close>: the trait \<open>Pipeline\<close> as a record of the
  two operations a stage calls on its successor, \<open>PipelineError\<close>, the terminal and pass-through
  stages (\<open>discard.rs\<close>, \<open>string.rs\<close>, \<open>buffer.rs\<close>, \<open>count.rs\<close>, \<open>concatenate.rs\<close>), and the contract all
  stages share: how the caller cuts the data into \<open>write\<close> calls does not matter.
\<close>

section \<open>Errors and the trait\<close>

datatype pipe_error = Logic bytes | Runtime bytes

definition logic :: "string \<Rightarrow> pipe_error" where
  "logic m = Logic (str m)"

definition runtime :: "string \<Rightarrow> pipe_error" where
  "runtime m = Runtime (str m)"

text \<open>The successor of a stage: its state type and the two trait operations.\<close>

record 'd pipeline =
  pl_write :: "'d \<Rightarrow> bytes \<Rightarrow> (pipe_error, 'd) outcome"
  pl_finish :: "'d \<Rightarrow> (pipe_error, 'd) outcome"

text \<open>
  The provided trait method \<open>write_up_predictor_row\<close>: the filter byte is one write, and a row with a
  previous row supplies each difference byte separately.
\<close>

definition write_up_predictor_row ::
  "'d pipeline \<Rightarrow> 'd \<Rightarrow> bytes \<Rightarrow> bytes option \<Rightarrow> (pipe_error, 'd) outcome" where
  "write_up_predictor_row p d row previous =
     seq (pl_write p d [2])
       (\<lambda>d. case previous of
              Some prev \<Rightarrow> foldm (\<lambda>d (current, above). pl_write p d [current - above]) d (zip row prev)
            | None \<Rightarrow> pl_write p d row)"

section \<open>Terminal stages\<close>

definition discard_write :: "unit \<Rightarrow> bytes \<Rightarrow> (pipe_error, unit) outcome" where
  "discard_write d data = Done ()"

definition discard_finish :: "unit \<Rightarrow> (pipe_error, unit) outcome" where
  "discard_finish d = Done ()"

definition discard_pipeline :: "unit pipeline" where
  "discard_pipeline = \<lparr>pl_write = discard_write, pl_finish = discard_finish\<rparr>"

text \<open>\<open>PlString\<close> without a successor: everything written is appended to the destination vector.\<close>

definition vec_sink :: "bytes pipeline" where
  "vec_sink = \<lparr>pl_write = (\<lambda>d data. Done (d @ data)), pl_finish = Done\<rparr>"

lemma vec_sink_simps [simp]:
  "pl_write vec_sink d data = Done (d @ data)"
  "pl_finish vec_sink d = Done d"
  by (simp_all add: vec_sink_def)

section \<open>PlString\<close>

record 'd pl_string =
  st_destination :: bytes
  st_next :: "'d option"

definition string_write :: "'d pipeline \<Rightarrow> 'd pl_string \<Rightarrow> bytes \<Rightarrow> (pipe_error, 'd pl_string) outcome" where
  "string_write p s data =
     (let s = s\<lparr>st_destination := st_destination s @ data\<rparr>
      in case st_next s of
           Some d \<Rightarrow> into (\<lambda>d'. s\<lparr>st_next := Some d'\<rparr>) (pl_write p d data)
         | None \<Rightarrow> Done s)"

definition string_finish :: "'d pipeline \<Rightarrow> 'd pl_string \<Rightarrow> (pipe_error, 'd pl_string) outcome" where
  "string_finish p s =
     (case st_next s of
        Some d \<Rightarrow> into (\<lambda>d'. s\<lparr>st_next := Some d'\<rparr>) (pl_finish p d)
      | None \<Rightarrow> Done s)"

section \<open>Buffer\<close>

record 'd buffer =
  bf_next :: "'d option"
  bf_data :: bytes
  bf_ready :: bool

definition buffer_new :: "'d option \<Rightarrow> 'd buffer" where
  "buffer_new next = \<lparr>bf_next = next, bf_data = [], bf_ready = True\<rparr>"

text \<open>\<open>take_buffer\<close>: the accumulated bytes and the state after moving them out, or the logic error.\<close>

definition take_buffer :: "'d buffer \<Rightarrow> pipe_error + (bytes \<times> 'd buffer)" where
  "take_buffer s =
     (if \<not> bf_ready s then Inl (logic ''Pl_Buffer::getBuffer() called when not ready'')
      else Inr (bf_data s, s\<lparr>bf_data := []\<rparr>))"

definition buffer_write :: "'d pipeline \<Rightarrow> 'd buffer \<Rightarrow> bytes \<Rightarrow> (pipe_error, 'd buffer) outcome" where
  "buffer_write p s data =
     (let s = s\<lparr>bf_data := bf_data s @ data, bf_ready := False\<rparr>
      in case bf_next s of
           Some d \<Rightarrow> into (\<lambda>d'. s\<lparr>bf_next := Some d'\<rparr>) (pl_write p d data)
         | None \<Rightarrow> Done s)"

definition buffer_finish :: "'d pipeline \<Rightarrow> 'd buffer \<Rightarrow> (pipe_error, 'd buffer) outcome" where
  "buffer_finish p s =
     (let s = s\<lparr>bf_ready := True\<rparr>
      in case bf_next s of
           Some d \<Rightarrow> into (\<lambda>d'. s\<lparr>bf_next := Some d'\<rparr>) (pl_finish p d)
         | None \<Rightarrow> Done s)"

section \<open>Count\<close>

record 'd count =
  ct_identifier :: bytes
  ct_next :: 'd
  ct_count :: "64 word"
  ct_last_byte :: byte

definition count_new :: "bytes \<Rightarrow> 'd \<Rightarrow> 'd count" where
  "count_new ident next =
     \<lparr>ct_identifier = ident, ct_next = next, ct_count = 0, ct_last_byte = 0\<rparr>"

text \<open>\<open>u64::checked_add\<close>.\<close>

definition checked_add_u64 :: "64 word \<Rightarrow> 64 word \<Rightarrow> 64 word option" where
  "checked_add_u64 a b = (if unat a + unat b < 2 ^ 64 then Some (a + b) else None)"

definition count_write :: "'d pipeline \<Rightarrow> 'd count \<Rightarrow> bytes \<Rightarrow> (pipe_error, 'd count) outcome" where
  "count_write p s data =
     (if data = [] then Done s
      else case checked_add_u64 (ct_count s) (of_nat (length data)) of
             None \<Rightarrow> Fail (Runtime (ct_identifier s @ str '': byte count overflow'')) s
           | Some n \<Rightarrow>
               let s = s\<lparr>ct_count := n, ct_last_byte := last data\<rparr>
               in into (\<lambda>d'. s\<lparr>ct_next := d'\<rparr>) (pl_write p (ct_next s) data))"

definition count_finish :: "'d pipeline \<Rightarrow> 'd count \<Rightarrow> (pipe_error, 'd count) outcome" where
  "count_finish p s = into (\<lambda>d'. s\<lparr>ct_next := d'\<rparr>) (pl_finish p (ct_next s))"

section \<open>PlConcatenate\<close>

record 'd concatenate =
  cc_next :: 'd

definition concatenate_write ::
  "'d pipeline \<Rightarrow> 'd concatenate \<Rightarrow> bytes \<Rightarrow> (pipe_error, 'd concatenate) outcome" where
  "concatenate_write p s data = into (\<lambda>d'. s\<lparr>cc_next := d'\<rparr>) (pl_write p (cc_next s) data)"

definition concatenate_finish :: "'d concatenate \<Rightarrow> (pipe_error, 'd concatenate) outcome" where
  "concatenate_finish s = Done s"

definition manual_finish ::
  "'d pipeline \<Rightarrow> 'd concatenate \<Rightarrow> (pipe_error, 'd concatenate) outcome" where
  "manual_finish p s = into (\<lambda>d'. s\<lparr>cc_next := d'\<rparr>) (pl_finish p (cc_next s))"

section \<open>The contract of a stage\<close>

text \<open>A caller that hands the data over in pieces, stopping at the first error.\<close>

definition feed :: "('s \<Rightarrow> bytes \<Rightarrow> ('e, 's) outcome) \<Rightarrow> 's \<Rightarrow> bytes list \<Rightarrow> ('e, 's) outcome" where
  "feed wr s chunks = foldm wr s chunks"

text \<open>
  Writing two pieces is writing their concatenation, the error case and the state left behind
  included. Stages that count calls (a \<open>finished\<close> flag, a \<open>ready\<close> flag) promise only this.
\<close>

locale split_stage =
  fixes wr :: "'s \<Rightarrow> bytes \<Rightarrow> ('e, 's) outcome"
  assumes wr_split: "wr s (xs @ ys) = seq (wr s xs) (\<lambda>s'. wr s' ys)"
begin

lemma feed_concat_Cons: "feed wr s (c # cs) = wr s (concat (c # cs))"
proof (induction cs arbitrary: s c)
  case Nil
  then show ?case by (simp add: feed_def)
next
  case (Cons d cs)
  have "feed wr s (c # d # cs) = seq (wr s c) (\<lambda>s'. feed wr s' (d # cs))"
    by (simp add: feed_def)
  also have "\<dots> = wr s (concat (c # d # cs))"
    by (simp add: Cons.IH wr_split)
  finally show ?case .
qed

end

text \<open>The decoders promise more: an empty write is a no-op.\<close>

locale chunked_stage = split_stage wr for wr :: "'s \<Rightarrow> bytes \<Rightarrow> ('e, 's) outcome" +
  assumes wr_empty: "wr s [] = Done s"
begin

lemma feed_concat: "feed wr s chunks = wr s (concat chunks)"
  by (cases chunks) (simp add: feed_def wr_empty, metis feed_concat_Cons)

lemma feed_bytewise: "feed wr s (map (\<lambda>b. [b]) data) = wr s data"
proof -
  have "concat (map (\<lambda>b. [b]) data) = data" by (induction data) auto
  then show ?thesis by (simp add: feed_concat)
qed

lemma same_data_same_result:
  "concat cs = concat ds \<Longrightarrow> feed wr s cs = feed wr s ds"
  by (simp add: feed_concat)

end

text \<open>The loop \<open>for &byte in data\<close> is the archetype.\<close>

lemma chunked_foldm: "chunked_stage (foldm f)"
  by unfold_locales (simp_all add: foldm_append)

interpretation vec: chunked_stage "pl_write vec_sink"
  by unfold_locales simp_all

interpretation discard: chunked_stage discard_write
  by unfold_locales (simp_all add: discard_write_def)

text \<open>
  The tees store a piece before they forward it, so their law holds when the successor never fails:
  over a vector, or with no successor.
\<close>

lemma into_vec_write [simp]: "into g (pl_write vec_sink d data) = Done (g (d @ data))"
  by simp

interpretation buffer: split_stage "buffer_write vec_sink"
  by unfold_locales (simp add: buffer_write_def Let_def split: option.split)

interpretation pl_string: chunked_stage "string_write vec_sink"
proof unfold_locales
  fix s :: "bytes pl_string" and xs ys
  show "string_write vec_sink s [] = Done s"
    by (cases s) (simp add: string_write_def Let_def split: option.split)
  show "string_write vec_sink s (xs @ ys) = seq (string_write vec_sink s xs) (\<lambda>s. string_write vec_sink s ys)"
    by (simp add: string_write_def Let_def split: option.split)
qed

text \<open>\<open>PlConcatenate\<close> forwards both laws.\<close>

lemma concatenate_chunked:
  assumes "chunked_stage (pl_write p)"
  shows "chunked_stage (concatenate_write p)"
proof -
  have split: "pl_write p d (xs @ ys) = seq (pl_write p d xs) (\<lambda>d. pl_write p d ys)"
    and empty: "pl_write p d [] = Done d" for d xs ys
    using assms unfolding chunked_stage_def split_stage_def chunked_stage_axioms_def by blast+
  have "concatenate_write p s (xs @ ys) = seq (concatenate_write p s xs) (\<lambda>s. concatenate_write p s ys)" for s xs ys
    by (cases "pl_write p (cc_next s) xs") (simp_all add: concatenate_write_def split outcome.map_comp o_def)
  moreover have "concatenate_write p s [] = Done s" for s
    by (simp add: concatenate_write_def empty)
  ultimately show ?thesis by unfold_locales
qed

interpretation concatenate: chunked_stage "concatenate_write vec_sink"
  by (rule concatenate_chunked) (rule vec.chunked_stage_axioms)

end
