(* ===== verification/Ascii_Hex.thy ===== *)
theory Ascii_Hex
  imports Pipeline
begin

text \<open>
  The ASCIIHex decoding stage (\<open>crates/flpdf/src/pipeline/ascii_hex.rs\<close>): the incremental decoder
  with its two-byte input buffer, its state invariant, its agreement with a whole-input reference
  decoder over a growing vector, and its independence of the \<open>write\<close> boundaries.
\<close>

section \<open>The decoder\<close>

record 'd ascii_hex =
  ah_next :: 'd
  ah_inbuf :: bytes
  ah_pos :: nat
  ah_eod :: bool

definition ascii_hex_new :: "'d \<Rightarrow> 'd ascii_hex" where
  "ascii_hex_new next = \<lparr>ah_next = next, ah_inbuf = str ''00'', ah_pos = 0, ah_eod = False\<rparr>"

definition ascii_hex_digit :: "byte \<Rightarrow> byte" where
  "ascii_hex_digit b = (if b \<ge> 0x41 then b - 0x41 + 10 else b - 0x30)"

definition ascii_hex_flush ::
  "'d pipeline \<Rightarrow> 'd ascii_hex \<Rightarrow> (pipe_error, 'd ascii_hex) outcome" where
  "ascii_hex_flush p s =
     (if ah_pos s = 0 then Done s
      else
        let digits = map ascii_hex_digit (ah_inbuf s);
            output = [push_bit 4 (digits ! 0) + digits ! 1];
            s = s\<lparr>ah_pos := 0, ah_inbuf := str ''00''\<rparr>
        in into (\<lambda>d. s\<lparr>ah_next := d\<rparr>) (pl_write p (ah_next s) output))"

text \<open>The whitespace arm \<open>b' ' | b'\x0c' | b'\x0b' | b'\t' | b'\r' | b'\n'\<close> of the decoders.\<close>

definition is_filter_space :: "byte \<Rightarrow> bool" where
  "is_filter_space b \<longleftrightarrow> b \<in> {0x20, 0x0C, 0x0B, 0x09, 0x0D, 0x0A}"

definition is_upper_hex :: "byte \<Rightarrow> bool" where
  "is_upper_hex b \<longleftrightarrow> 0x30 \<le> b \<and> b \<le> 0x39 \<or> 0x41 \<le> b \<and> b \<le> 0x46"

definition hex_range_error :: "byte \<Rightarrow> pipe_error" where
  "hex_range_error ch =
     Runtime (str ''character out of range during base Hex decode: '' @ (if ch \<noteq> 0 then [ch] else []))"

text \<open>One iteration of the loop of \<open>write\<close>.\<close>

definition ascii_hex_byte ::
  "'d pipeline \<Rightarrow> 'd ascii_hex \<Rightarrow> byte \<Rightarrow> (pipe_error, 'd ascii_hex) outcome" where
  "ascii_hex_byte p s byte =
     (let ch = to_ascii_uppercase byte in
      if is_filter_space ch then Done s
      else if ch = 0x3E then ascii_hex_flush p (s\<lparr>ah_eod := True\<rparr>)
      else if is_upper_hex ch then
        let s = s\<lparr>ah_inbuf := (ah_inbuf s)[ah_pos s := ch], ah_pos := ah_pos s + 1\<rparr>
        in if ah_pos s = 2 then ascii_hex_flush p s else Done s
      else Fail (hex_range_error ch) s)"

fun ascii_hex_loop ::
  "'d pipeline \<Rightarrow> 'd ascii_hex \<Rightarrow> bytes \<Rightarrow> (pipe_error, 'd ascii_hex) outcome" where
  "ascii_hex_loop p s [] = Done s"
| "ascii_hex_loop p s (byte # data) =
     seq (ascii_hex_byte p s byte) (\<lambda>s. if ah_eod s then Done s else ascii_hex_loop p s data)"

definition ascii_hex_write ::
  "'d pipeline \<Rightarrow> 'd ascii_hex \<Rightarrow> bytes \<Rightarrow> (pipe_error, 'd ascii_hex) outcome" where
  "ascii_hex_write p s data = (if ah_eod s then Done s else ascii_hex_loop p s data)"

definition ascii_hex_finish ::
  "'d pipeline \<Rightarrow> 'd ascii_hex \<Rightarrow> (pipe_error, 'd ascii_hex) outcome" where
  "ascii_hex_finish p s =
     seq (ascii_hex_flush p s) (\<lambda>s. into (\<lambda>d. s\<lparr>ah_next := d\<rparr>) (pl_finish p (ah_next s)))"

definition ascii_hex_pipeline :: "'d pipeline \<Rightarrow> 'd ascii_hex pipeline" where
  "ascii_hex_pipeline p = \<lparr>pl_write = ascii_hex_write p, pl_finish = ascii_hex_finish p\<rparr>"

section \<open>Chunk independence\<close>

lemma ascii_hex_loop_append:
  "\<not> ah_eod s \<Longrightarrow>
   ascii_hex_loop p s (xs @ ys) = seq (ascii_hex_loop p s xs) (\<lambda>s. ascii_hex_write p s ys)"
proof (induction xs arbitrary: s)
  case Nil
  then show ?case by (simp add: ascii_hex_write_def)
next
  case (Cons x xs)
  show ?case
  proof (cases "ascii_hex_byte p s x")
    case (Done s')
    then show ?thesis using Cons.IH [of s'] by (simp add: ascii_hex_write_def)
  next
    case (Fail e s')
    then show ?thesis by simp
  qed
qed

interpretation ascii_hex: chunked_stage "ascii_hex_write p" for p
proof unfold_locales
  fix s :: "'a ascii_hex" and xs ys
  show "ascii_hex_write p s [] = Done s"
    by (simp add: ascii_hex_write_def)
  show "ascii_hex_write p s (xs @ ys) = seq (ascii_hex_write p s xs) (\<lambda>s'. ascii_hex_write p s' ys)"
    by (cases "ah_eod s") (simp_all add: ascii_hex_write_def [of p s] ascii_hex_loop_append
      ascii_hex_write_def [of p s ys])
qed

section \<open>Invariant\<close>

text \<open>
  Between two calls the buffer holds two upper-case hex digits, of which the unread tail is the
  padding \<open>'0'\<close>, and fewer than two are pending: the index \<open>inbuf[pos]\<close> and the subtractions of
  \<open>flush\<close> never go wrong.
\<close>

definition ascii_hex_inv :: "'d ascii_hex \<Rightarrow> bool" where
  "ascii_hex_inv s \<longleftrightarrow>
     (ah_pos s = 0 \<and> ah_inbuf s = [0x30, 0x30] \<or>
      ah_pos s = 1 \<and> (\<exists>c. is_upper_hex c \<and> ah_inbuf s = [c, 0x30]))"

lemma str_00 [simp]: "str ''00'' = [0x30, 0x30]"
  by (simp add: str_def)

lemma ascii_hex_inv_new: "ascii_hex_inv (ascii_hex_new d)"
  by (simp add: ascii_hex_inv_def ascii_hex_new_def)

lemma ascii_hex_inv_byte: "ascii_hex_inv s \<Longrightarrow> ascii_hex_inv (outcome_state (ascii_hex_byte p s b))"
  by (auto simp: ascii_hex_inv_def ascii_hex_byte_def ascii_hex_flush_def Let_def)

lemma ascii_hex_inv_loop: "ascii_hex_inv s \<Longrightarrow> ascii_hex_inv (outcome_state (ascii_hex_loop p s data))"
proof (induction data arbitrary: s)
  case Nil
  then show ?case by simp
next
  case (Cons b data)
  then show ?case
    using ascii_hex_inv_byte [OF Cons.prems, of p b] by (cases "ascii_hex_byte p s b") auto
qed

lemma ascii_hex_inv_write: "ascii_hex_inv s \<Longrightarrow> ascii_hex_inv (outcome_state (ascii_hex_write p s data))"
  by (simp add: ascii_hex_write_def ascii_hex_inv_loop)

section \<open>Reference decoder\<close>

text \<open>
  The digits of a whole input: whitespace skipped, stopping at \<open>'>'\<close>, at the end, or at the first
  byte that is none of these.
\<close>

fun hex_digits :: "bytes \<Rightarrow> (pipe_error, bytes) outcome" where
  "hex_digits [] = Done []"
| "hex_digits (b # bs) =
     (let ch = to_ascii_uppercase b in
      if is_filter_space ch then hex_digits bs
      else if ch = 0x3E then Done []
      else if is_upper_hex ch then map_outcome id ((#) (ascii_hex_digit ch)) (hex_digits bs)
      else Fail (hex_range_error ch) [])"

text \<open>Digits to bytes, high nibble first, an odd last digit padded with 0 or (mid-stream) held back.\<close>

fun nibble_pairs :: "bytes \<Rightarrow> bytes" where
  "nibble_pairs (h # l # ds) = (16 * h + l) # nibble_pairs ds"
| "nibble_pairs ds = []"

fun nibbles_padded :: "bytes \<Rightarrow> bytes" where
  "nibbles_padded (h # l # ds) = (16 * h + l) # nibbles_padded ds"
| "nibbles_padded [h] = [16 * h]"
| "nibbles_padded [] = []"

definition hex_reference :: "bytes \<Rightarrow> (pipe_error, bytes) outcome" where
  "hex_reference data =
     (case hex_digits data of
        Done ds \<Rightarrow> Done (nibbles_padded ds)
      | Fail e ds \<Rightarrow> Fail e (nibble_pairs ds))"

text \<open>Decoding a whole input into a vector: one \<open>write\<close>, then \<open>finish\<close>.\<close>

definition ascii_hex_decode :: "bytes \<Rightarrow> (pipe_error, bytes) outcome" where
  "ascii_hex_decode data =
     into ah_next (seq (ascii_hex_write vec_sink (ascii_hex_new []) data) (ascii_hex_finish vec_sink))"

definition pending_digits :: "'d ascii_hex \<Rightarrow> bytes" where
  "pending_digits s = map ascii_hex_digit (take (ah_pos s) (ah_inbuf s))"

lemma push_bit_4_byte [simp]: "push_bit 4 (x :: byte) = 16 * x"
  by (simp add: push_bit_eq_mult mult.commute)

lemma ascii_hex_digit_zero [simp]: "ascii_hex_digit 0x30 = 0"
  by (simp add: ascii_hex_digit_def)

text \<open>From any state of the invariant the rest of the input is decoded after the pending digit.\<close>

lemma ascii_hex_loop_reference:
  assumes "ascii_hex_inv s" and "\<not> ah_eod s"
  shows "into ah_next (seq (ascii_hex_loop vec_sink s data) (ascii_hex_finish vec_sink)) =
         (case hex_digits data of
            Done ds \<Rightarrow> Done (ah_next s @ nibbles_padded (pending_digits s @ ds))
          | Fail e ds \<Rightarrow> Fail e (ah_next s @ nibble_pairs (pending_digits s @ ds)))"
  using assms
proof (induction data arbitrary: s)
  case Nil
  then show ?case
    by (auto simp: ascii_hex_inv_def ascii_hex_finish_def ascii_hex_flush_def pending_digits_def Let_def)
next
  case (Cons b data)
  let ?ch = "to_ascii_uppercase b"
  consider (space) "is_filter_space ?ch" | (eod) "\<not> is_filter_space ?ch" "?ch = 0x3E"
    | (digit) "\<not> is_filter_space ?ch" "?ch \<noteq> 0x3E" "is_upper_hex ?ch"
    | (bad) "\<not> is_filter_space ?ch" "?ch \<noteq> 0x3E" "\<not> is_upper_hex ?ch" by blast
  then show ?case
  proof cases
    case space
    then show ?thesis using Cons by (simp add: ascii_hex_byte_def)
  next
    case eod
    then show ?thesis using Cons.prems
      by (auto simp: ascii_hex_byte_def Let_def ascii_hex_inv_def ascii_hex_finish_def
        ascii_hex_flush_def pending_digits_def)
  next
    case bad
    then show ?thesis using Cons.prems
      by (auto simp: ascii_hex_byte_def Let_def ascii_hex_inv_def pending_digits_def)
  next
    case digit
    obtain s' where s': "ascii_hex_byte vec_sink s b = Done s'"
      using digit Cons.prems
      by (auto simp: ascii_hex_byte_def Let_def ascii_hex_inv_def ascii_hex_flush_def)
    have inv': "ascii_hex_inv s'" using ascii_hex_inv_byte [OF Cons.prems(1), of vec_sink b] s' by simp
    have eod': "\<not> ah_eod s'" using s' digit Cons.prems
      by (auto simp: ascii_hex_byte_def Let_def ascii_hex_inv_def ascii_hex_flush_def)
    have step: "ah_next s' @ nibbles_padded (pending_digits s' @ ds) =
        ah_next s @ nibbles_padded (pending_digits s @ ascii_hex_digit ?ch # ds)"
      "ah_next s' @ nibble_pairs (pending_digits s' @ ds) =
        ah_next s @ nibble_pairs (pending_digits s @ ascii_hex_digit ?ch # ds)" for ds
      using s' digit Cons.prems
      by (auto simp: ascii_hex_byte_def Let_def ascii_hex_inv_def ascii_hex_flush_def pending_digits_def)
    show ?thesis
      using Cons.IH [OF inv' eod'] digit s' eod' step
      by (cases "hex_digits data") simp_all
  qed
qed

lemma ascii_hex_new_simps [simp]:
  "ah_next (ascii_hex_new d) = d" "ah_eod (ascii_hex_new d) = False"
  "pending_digits (ascii_hex_new d) = []"
  by (simp_all add: ascii_hex_new_def pending_digits_def)

text \<open>
  C20: the incremental ASCIIHex decoder computes the reference decoding of the whole input: digits in
  pairs, white space skipped, everything after \<open>>\<close> ignored, an odd last digit padded with zero, and on
  a bad character the error together with the complete pairs before it.
\<close>

theorem ascii_hex_decode_eq_reference: "ascii_hex_decode data = hex_reference data"
  using ascii_hex_loop_reference [OF ascii_hex_inv_new, of "[]" data]
  by (simp add: ascii_hex_decode_def hex_reference_def ascii_hex_write_def cong: outcome.case_cong)

end
