(* ===== verification/Ascii85.thy ===== *)
theory Ascii85
  imports Ascii_Hex
begin

text \<open>
  The ASCII85 decoding stage (\<open>crates/flpdf/src/pipeline/ascii85_decoder.rs\<close>): the incremental
  decoder, its invariant, chunk independence, and the theorem that it inverts the standard base-85
  encoding of any byte string, the \<open>z\<close> abbreviation and the short last group included.
\<close>

section \<open>The decoder\<close>

record 'd ascii85 =
  a85_next :: 'd
  a85_inbuf :: bytes
  a85_pos :: nat
  a85_eod :: nat

definition ascii85_new :: "'d \<Rightarrow> 'd ascii85" where
  "ascii85_new next = \<lparr>a85_next = next, a85_inbuf = replicate 5 0x75, a85_pos = 0, a85_eod = 0\<rparr>"

text \<open>The digit loop of \<open>flush\<close>: \<open>u32\<close> arithmetic that wraps.\<close>

definition ascii85_value :: "bytes \<Rightarrow> 32 word" where
  "ascii85_value inbuf = foldl (\<lambda>value byte. value * 85 + ucast (byte - 0x21)) 0 inbuf"

text \<open>The four bytes of a value, the most significant first (\<open>*byte = value as u8; value >>= 8\<close>).\<close>

definition be_bytes :: "32 word \<Rightarrow> bytes" where
  "be_bytes v = [ucast (drop_bit 24 v), ucast (drop_bit 16 v), ucast (drop_bit 8 v), ucast v]"

definition ascii85_flush :: "'d pipeline \<Rightarrow> 'd ascii85 \<Rightarrow> (pipe_error, 'd ascii85) outcome" where
  "ascii85_flush p s =
     (if a85_pos s = 0 then Done s
      else
        let out = be_bytes (ascii85_value (a85_inbuf s));
            output_len = a85_pos s - 1;
            s = s\<lparr>a85_pos := 0, a85_inbuf := replicate 5 0x75\<rparr>
        in into (\<lambda>d. s\<lparr>a85_next := d\<rparr>) (pl_write p (a85_next s) (take output_len out)))"

text \<open>One iteration of the loop of \<open>write\<close>; once \<open>eod\<close> is 2 every byte is skipped, as \<open>break\<close> does.\<close>

definition ascii85_byte :: "'d pipeline \<Rightarrow> 'd ascii85 \<Rightarrow> byte \<Rightarrow> (pipe_error, 'd ascii85) outcome" where
  "ascii85_byte p s byte =
     (if is_filter_space byte then Done s
      else if a85_eod s > 1 then Done s
      else if a85_eod s = 1 then
        if byte = 0x3E
        then seq (ascii85_flush p s) (\<lambda>s. Done (s\<lparr>a85_eod := 2\<rparr>))
        else Fail (runtime ''broken end-of-data sequence in base 85 data'') s
      else if byte = 0x7E then Done (s\<lparr>a85_eod := 1\<rparr>)
      else if byte = 0x7A \<and> a85_pos s = 0
        then into (\<lambda>d. s\<lparr>a85_next := d\<rparr>) (pl_write p (a85_next s) [0, 0, 0, 0])
      else if byte = 0x7A then Fail (runtime ''unexpected z during base 85 decode'') s
      else if 0x21 \<le> byte \<and> byte \<le> 0x75 then
        let s = s\<lparr>a85_inbuf := (a85_inbuf s)[a85_pos s := byte], a85_pos := a85_pos s + 1\<rparr>
        in if a85_pos s = 5 then ascii85_flush p s else Done s
      else Fail (runtime ''character out of range during base 85 decode'') s)"

definition ascii85_write :: "'d pipeline \<Rightarrow> 'd ascii85 \<Rightarrow> bytes \<Rightarrow> (pipe_error, 'd ascii85) outcome" where
  "ascii85_write p s data = (if a85_eod s > 1 then Done s else foldm (ascii85_byte p) s data)"

definition ascii85_finish :: "'d pipeline \<Rightarrow> 'd ascii85 \<Rightarrow> (pipe_error, 'd ascii85) outcome" where
  "ascii85_finish p s =
     seq (ascii85_flush p s) (\<lambda>s. into (\<lambda>d. s\<lparr>a85_next := d\<rparr>) (pl_finish p (a85_next s)))"

definition ascii85_pipeline :: "'d pipeline \<Rightarrow> 'd ascii85 pipeline" where
  "ascii85_pipeline p = \<lparr>pl_write = ascii85_write p, pl_finish = ascii85_finish p\<rparr>"

section \<open>Chunk independence\<close>

lemma ascii85_byte_eod: "a85_eod s > 1 \<Longrightarrow> ascii85_byte p s b = Done s"
  by (simp add: ascii85_byte_def)

lemma ascii85_foldm_eod: "a85_eod s > 1 \<Longrightarrow> foldm (ascii85_byte p) s data = Done s"
  by (induction data) (simp_all add: ascii85_byte_eod)

text \<open>The early return of \<open>write\<close> is what the loop would have done.\<close>

lemma ascii85_write_eq_foldm: "ascii85_write p s data = foldm (ascii85_byte p) s data"
  by (simp add: ascii85_write_def ascii85_foldm_eod)

interpretation ascii85: chunked_stage "ascii85_write p" for p
  by unfold_locales (simp_all add: ascii85_write_eq_foldm foldm_append)

section \<open>Invariant\<close>

text \<open>
  The buffer always holds the pending base-85 digits (fewer than five) followed by the padding digit
  \<open>'u'\<close>: \<open>byte - b'!'\<close> in \<open>flush\<close> and \<open>inbuf[pos]\<close> in \<open>write\<close> cannot panic.
\<close>

definition is_a85_digit :: "byte \<Rightarrow> bool" where
  "is_a85_digit b \<longleftrightarrow> 0x21 \<le> b \<and> b \<le> 0x75"

definition ascii85_pending :: "bytes \<Rightarrow> 'd ascii85 \<Rightarrow> bool" where
  "ascii85_pending ds s \<longleftrightarrow> length ds < 5 \<and> list_all is_a85_digit ds \<and>
     a85_pos s = length ds \<and> a85_inbuf s = ds @ replicate (5 - length ds) 0x75"

definition ascii85_inv :: "'d ascii85 \<Rightarrow> bool" where
  "ascii85_inv s \<longleftrightarrow> a85_eod s \<le> 2 \<and> (\<exists>ds. ascii85_pending ds s)"

lemma ascii85_pending_update [simp]:
  "ascii85_pending ds (s\<lparr>a85_next := d\<rparr>) = ascii85_pending ds s"
  "ascii85_pending ds (s\<lparr>a85_eod := n\<rparr>) = ascii85_pending ds s"
  "ascii85_pending [] (s\<lparr>a85_pos := 0, a85_inbuf := replicate 5 0x75\<rparr>)"
  by (simp_all add: ascii85_pending_def)

lemma ascii85_pending_new: "ascii85_pending [] (ascii85_new d)"
  by (simp add: ascii85_pending_def ascii85_new_def)

lemma ascii85_inv_new: "ascii85_inv (ascii85_new d)"
  using ascii85_pending_new [of d] by (auto simp: ascii85_inv_def ascii85_new_def)

text \<open>A digit appended to fewer than four pending ones stays pending.\<close>

lemma ascii85_store:
  "length ds < 5 \<Longrightarrow>
   (ds @ replicate (5 - length ds) (0x75 :: byte))[length ds := b] =
     ds @ b # replicate (4 - length ds) 0x75"
  by (cases "5 - length ds") (auto simp: list_update_append)

lemma ascii85_pending_flush:
  "ascii85_pending ds s \<Longrightarrow> \<exists>ds'. ascii85_pending ds' (outcome_state (ascii85_flush p s))"
  by (auto simp: ascii85_flush_def Let_def ascii85_pending_def)

lemma ascii85_flush_eod [simp]: "a85_eod (outcome_state (ascii85_flush p s)) = a85_eod s"
  by (simp add: ascii85_flush_def Let_def)

lemma ascii85_inv_flush: "ascii85_inv s \<Longrightarrow> ascii85_inv (outcome_state (ascii85_flush p s))"
  using ascii85_pending_flush [of _ s p] by (auto simp: ascii85_inv_def)

text \<open>Flushing a full buffer, which is not a state between two calls.\<close>

lemma ascii85_inv_flush_full:
  "a85_pos s = 5 \<Longrightarrow> a85_eod s \<le> 2 \<Longrightarrow> ascii85_inv (outcome_state (ascii85_flush p s))"
  by (auto simp: ascii85_inv_def ascii85_flush_def Let_def intro: exI [of _ "[]"])

lemma ascii85_inv_byte:
  assumes "ascii85_inv s"
  shows "ascii85_inv (outcome_state (ascii85_byte p s b))"
proof -
  obtain ds where ds: "ascii85_pending ds s" and eod: "a85_eod s \<le> 2"
    using assms by (auto simp: ascii85_inv_def)
  have len: "length ds = 4 \<or> length ds < 4"
    using ds by (auto simp: ascii85_pending_def)
  consider (ended) "a85_eod s = 1" "b = 0x3E" "\<not> is_filter_space b"
    | (full) "a85_eod s = 0" "is_a85_digit b" "length ds = 4" "\<not> is_filter_space b"
    | (digit) "a85_eod s = 0" "is_a85_digit b" "length ds < 4" "\<not> is_filter_space b"
    | (other) "is_filter_space b \<or> \<not> (a85_eod s = 1 \<and> b = 0x3E) \<and> \<not> (a85_eod s = 0 \<and> is_a85_digit b)"
    using len by satx
  then show ?thesis
  proof cases
    case ended
    then show ?thesis using ascii85_inv_flush [OF assms, of p]
      by (cases "ascii85_flush p s") (auto simp: ascii85_byte_def ascii85_inv_def)
  next
    case full
    then show ?thesis using ds ascii85_inv_flush_full [of _ p]
      by (auto simp: ascii85_byte_def is_a85_digit_def Let_def ascii85_pending_def)
  next
    case digit
    then have "ascii85_pending (ds @ [b])
        (s\<lparr>a85_inbuf := (a85_inbuf s)[a85_pos s := b], a85_pos := a85_pos s + 1\<rparr>)"
      using ds by (auto simp: ascii85_pending_def ascii85_store)
    then have "ascii85_inv (s\<lparr>a85_inbuf := (a85_inbuf s)[a85_pos s := b], a85_pos := a85_pos s + 1\<rparr>)"
      using eod by (auto simp: ascii85_inv_def)
    with digit ds show ?thesis
      by (auto simp: ascii85_byte_def is_a85_digit_def Let_def ascii85_pending_def)
  next
    case other
    then show ?thesis using assms ds eod
      by (auto simp: ascii85_byte_def ascii85_inv_def is_a85_digit_def)
  qed
qed

lemma ascii85_inv_write: "ascii85_inv s \<Longrightarrow> ascii85_inv (outcome_state (ascii85_write p s data))"
  unfolding ascii85_write_eq_foldm by (rule foldm_invariant) (auto intro: ascii85_inv_byte)

section \<open>The standard encoding\<close>

text \<open>
  Base-85 as the PDF specification defines it: a group of four bytes is one big-endian number written
  in five base-85 digits, four zero bytes are \<open>z\<close>, and a last group of \<open>n < 4\<close> bytes is the first
  \<open>n + 1\<close> digits of the group padded with zero bytes.
\<close>

fun be_number :: "bytes \<Rightarrow> nat" where
  "be_number bs = foldl (\<lambda>n b. 256 * n + unat b) 0 bs"

definition a85_digit :: "nat \<Rightarrow> byte" where
  "a85_digit n = 0x21 + of_nat (n mod 85)"

definition a85_group :: "nat \<Rightarrow> bytes" where
  "a85_group v = map a85_digit [v div 85 ^ 4, v div 85 ^ 3, v div 85 ^ 2, v div 85, v]"

fun a85_encode :: "bytes \<Rightarrow> bytes" where
  "a85_encode (a # b # c # d # rest) =
     (let v = be_number [a, b, c, d] in if v = 0 then [0x7A] else a85_group v) @ a85_encode rest"
| "a85_encode [] = []"
| "a85_encode bs = take (length bs + 1) (a85_group (be_number (take 4 (bs @ [0, 0, 0]))))"

definition ascii85_decode :: "bytes \<Rightarrow> (pipe_error, bytes) outcome" where
  "ascii85_decode data =
     into a85_next (seq (ascii85_write vec_sink (ascii85_new []) data) (ascii85_finish vec_sink))"

section \<open>Decoding one group\<close>

lemma ucast_eq_of_nat: "ucast (x :: byte) = (of_nat (unat x) :: 32 word)"
  by simp

definition a85_horner :: "bytes \<Rightarrow> nat" where
  "a85_horner ds = foldl (\<lambda>n b. n * 85 + unat (b - 0x21)) 0 ds"

lemma ascii85_value_horner: "ascii85_value ds = of_nat (a85_horner ds)"
proof -
  have "foldl (\<lambda>value byte. value * 85 + ucast (byte - 0x21)) (of_nat n) ds =
        (of_nat (foldl (\<lambda>n b. n * 85 + unat (b - 0x21)) n ds) :: 32 word)" for n
  proof (induction ds arbitrary: n)
    case Nil
    then show ?case by simp
  next
    case (Cons b ds)
    have "of_nat n * 85 + ucast (b - 0x21) = (of_nat (n * 85 + unat (b - 0x21)) :: 32 word)"
      by (simp only: of_nat_add of_nat_mult of_nat_numeral ucast_eq_of_nat)
    then show ?case unfolding foldl.simps by (simp only: Cons.IH)
  qed
  from this [of 0] show ?thesis by (simp add: ascii85_value_def a85_horner_def)
qed

lemma unat_a85_digit [simp]: "unat (a85_digit n - 0x21) = n mod 85"
  by (simp add: a85_digit_def unat_of_nat)

lemma is_a85_digit_a85_digit [simp]: "is_a85_digit (a85_digit n)"
proof -
  have "unat (a85_digit n) = 0x21 + n mod 85"
    by (simp add: a85_digit_def unat_word_ariths unat_of_nat)
  moreover have "n mod 85 < 85" by simp
  ultimately show ?thesis by (simp add: is_a85_digit_def word_le_iff_unat)
qed

lemma div_mod_shift: "(v div (b * c)) * b + (v div c) mod b = v div (c :: nat)"
  by (metis div_mult2_eq div_mult_mod_eq mult.commute)

lemma a85_prefixes:
  "v div 85 ^ 4 * 85 + v div 85 ^ 3 mod 85 = v div (85 ^ 3 :: nat)"
  "v div 85 ^ 3 * 85 + v div 85 ^ 2 mod 85 = v div (85 ^ 2 :: nat)"
  "v div 85 ^ 2 * 85 + v div 85 mod 85 = v div (85 :: nat)"
  "v div 85 * 85 + v mod 85 = (v :: nat)"
  using div_mod_shift [of v 85 "85 ^ 3"] div_mod_shift [of v 85 "85 ^ 2"] div_mod_shift [of v 85 85]
  by simp_all

lemma be_bytes_of_nat:
  assumes "n < 2 ^ 32"
  shows "be_bytes (of_nat n) =
    [of_nat (n div 2 ^ 24), of_nat (n div 2 ^ 16), of_nat (n div 2 ^ 8), of_nat n]"
proof -
  have "ucast (drop_bit k (of_nat n :: 32 word)) = (of_nat (n div 2 ^ k) :: byte)" if "k < 32" for k
  proof -
    have "unat (of_nat n :: 32 word) = n"
      using assms by (simp add: unat_of_nat)
    then have "unat (drop_bit k (of_nat n :: 32 word)) = n div 2 ^ k"
      by (subst unat_drop_bit_eq) (simp only: drop_bit_eq_div)
    then show ?thesis by (metis of_nat_unat)
  qed
  from this [of 24] this [of 16] this [of 8] this [of 0] show ?thesis
    by (simp add: be_bytes_def)
qed

lemma be_number_bound: "length bs = 4 \<Longrightarrow> be_number bs < 2 ^ 32"
proof -
  have "foldl (\<lambda>n b. 256 * n + unat b) n bs < (n + 1) * 256 ^ length bs" for n and bs :: bytes
  proof (induction bs arbitrary: n)
    case Nil
    then show ?case by simp
  next
    case (Cons b bs)
    have "foldl (\<lambda>n b. 256 * n + unat b) (256 * n + unat b) bs < (256 * n + unat b + 1) * 256 ^ length bs"
      by (rule Cons.IH)
    also have "\<dots> \<le> (256 * (n + 1)) * 256 ^ length bs"
      using unat_byte_le [of b] by (intro mult_right_mono) (simp_all add: algebra_simps)
    finally show ?case
      by (simp only: foldl.simps length_Cons power_Suc mult.assoc mult.commute mult.left_commute)
  qed
  from this [of 0 bs] show "length bs = 4 \<Longrightarrow> be_number bs < 2 ^ 32" by simp
qed

text \<open>The bytes of any number whose top bytes are those of \<open>bs\<close>.\<close>

lemma be_bytes_prefix:
  assumes "be_number [a, b, c, d] \<le> n" and "n < 2 ^ 32"
  shows "n < be_number [a, 0, 0, 0] + 2 ^ 24 \<Longrightarrow> take 1 (be_bytes (of_nat n)) = [a]"
    and "n < be_number [a, b, 0, 0] + 2 ^ 16 \<Longrightarrow> take 2 (be_bytes (of_nat n)) = [a, b]"
    and "n < be_number [a, b, c, 0] + 2 ^ 8 \<Longrightarrow> take 3 (be_bytes (of_nat n)) = [a, b, c]"
    and "n = be_number [a, b, c, d] \<Longrightarrow> be_bytes (of_nat n) = [a, b, c, d]"
proof -
  have top: "be_number [a, b, c, d] = ((unat a * 256 + unat b) * 256 + unat c) * 256 + unat d"
    "be_number [a, b, c, 0] = ((unat a * 256 + unat b) * 256 + unat c) * 256"
    "be_number [a, b, 0, 0] = (unat a * 256 + unat b) * 65536"
    "be_number [a, 0, 0, 0] = unat a * 16777216"
    by simp_all
  have byte: "of_nat (256 * k + unat x) = x" for k and x :: byte
    by (simp only: of_nat_256) simp
  have bounds: "unat a < 256" "unat b < 256" "unat c < 256" "unat d < 256" by simp_all
  note exp = be_bytes_of_nat [OF assms(2)]
  {
    assume "n < be_number [a, 0, 0, 0] + 2 ^ 24"
    then have "n div 2 ^ 24 = unat a"
      using assms(1) bounds unfolding top by (intro div_nat_eqI) simp_all
    then show "take 1 (be_bytes (of_nat n)) = [a]" by (simp add: exp)
  }
  {
    assume "n < be_number [a, b, 0, 0] + 2 ^ 16"
    then have *: "n div 2 ^ 16 = 256 * unat a + unat b"
      using assms(1) bounds unfolding top by (intro div_nat_eqI) simp_all
    then have "n div 2 ^ 24 = unat a"
      using div_mult2_eq [of n "2 ^ 16" 256] by simp
    with * show "take 2 (be_bytes (of_nat n)) = [a, b]" by (simp add: exp)
  }
  have three: "take 3 (be_bytes (of_nat n)) = [a, b, c]"
    if *: "n div 2 ^ 8 = 256 * (256 * unat a + unat b) + unat c"
  proof -
    have "(256 * (256 * unat a + unat b) + unat c) div 256 = 256 * unat a + unat b"
      using bounds by (intro div_nat_eqI) simp_all
    then have "n div 2 ^ 16 = 256 * unat a + unat b"
      using * div_mult2_eq [of n "2 ^ 8" 256] by simp
    moreover then have "n div 2 ^ 24 = unat a"
      using div_mult2_eq [of n "2 ^ 16" 256] by simp
    ultimately show ?thesis using * by (simp add: exp)
  qed
  {
    assume "n < be_number [a, b, c, 0] + 2 ^ 8"
    then have "n div 2 ^ 8 = 256 * (256 * unat a + unat b) + unat c"
      using assms(1) bounds unfolding top by (intro div_nat_eqI) simp_all
    then show "take 3 (be_bytes (of_nat n)) = [a, b, c]" by (rule three)
  }
  {
    assume n: "n = be_number [a, b, c, d]"
    then have "n div 2 ^ 8 = 256 * (256 * unat a + unat b) + unat c"
      using bounds unfolding top by (intro div_nat_eqI) simp_all
    then have "take 3 (be_bytes (of_nat n)) = [a, b, c]" by (rule three)
    moreover have "n = 256 * (256 * (256 * unat a + unat b) + unat c) + unat d"
      unfolding n top by simp
    then have "of_nat n = d" by (simp only: of_nat_256) simp
    ultimately show "be_bytes (of_nat n) = [a, b, c, d]" by (simp add: exp)
  }
qed

text \<open>A full group, and a short group completed with the padding digit.\<close>

lemma a85_horner_Cons_digits:
  assumes "v < 85 ^ 5"
  shows "foldl (\<lambda>n b. n * 85 + unat (b - 0x21)) 0 [a85_digit (v div 85 ^ 4), a85_digit (v div 85 ^ 3)] = v div 85 ^ 3"
proof -
  have "v div 85 ^ 4 < 85" using assms by (simp add: less_mult_imp_div_less)
  then show ?thesis
    by (simp only: foldl.simps unat_a85_digit mult_zero_left add_0 mod_less a85_prefixes)
qed

lemma a85_horner_group: "v < 85 ^ 5 \<Longrightarrow> a85_horner (a85_group v) = v"
  using a85_horner_Cons_digits [of v]
  by (simp only: a85_horner_def a85_group_def list.map foldl.simps unat_a85_digit a85_prefixes)

lemma a85_horner_short:
  assumes "v < 85 ^ 5"
  shows "a85_horner (take 2 (a85_group v) @ replicate 3 0x75) = v - v mod 85 ^ 3 + (85 ^ 3 - 1)"
    and "a85_horner (take 3 (a85_group v) @ replicate 2 0x75) = v - v mod 85 ^ 2 + (85 ^ 2 - 1)"
    and "a85_horner (take 4 (a85_group v) @ replicate 1 0x75) = v - v mod 85 + (85 - 1)"
proof -
  have takes: "take 2 (a85_group v) = [a85_digit (v div 85 ^ 4), a85_digit (v div 85 ^ 3)]"
    "take 3 (a85_group v) = [a85_digit (v div 85 ^ 4), a85_digit (v div 85 ^ 3), a85_digit (v div 85 ^ 2)]"
    "take 4 (a85_group v) =
       [a85_digit (v div 85 ^ 4), a85_digit (v div 85 ^ 3), a85_digit (v div 85 ^ 2), a85_digit (v div 85)]"
    by (simp_all add: a85_group_def)
  have pads: "replicate 3 (0x75 :: byte) = [0x75, 0x75, 0x75]" "replicate 2 (0x75 :: byte) = [0x75, 0x75]"
    "replicate 1 (0x75 :: byte) = [0x75]"
    by (simp_all add: numeral_3_eq_3 numeral_2_eq_2)
  have pad: "unat (0x75 - 0x21 :: byte) = 84" by simp
  note eqs = a85_horner_def takes pads append.simps foldl.simps unat_a85_digit pad a85_prefixes
    a85_horner_Cons_digits [OF assms, unfolded foldl.simps unat_a85_digit]
  show "a85_horner (take 2 (a85_group v) @ replicate 3 0x75) = v - v mod 85 ^ 3 + (85 ^ 3 - 1)"
    using minus_mod_eq_div_mult [of v "85 ^ 3"] by (simp only: eqs) simp
  show "a85_horner (take 3 (a85_group v) @ replicate 2 0x75) = v - v mod 85 ^ 2 + (85 ^ 2 - 1)"
    using minus_mod_eq_div_mult [of v "85 ^ 2"] by (simp only: eqs) simp
  show "a85_horner (take 4 (a85_group v) @ replicate 1 0x75) = v - v mod 85 + (85 - 1)"
    using minus_mod_eq_div_mult [of v 85] by (simp only: eqs)
qed

section \<open>Decoding inverts the encoding\<close>

text \<open>Digits arriving one after the other collect in the buffer.\<close>

lemma a85_digit_arm: "is_a85_digit b \<Longrightarrow> \<not> is_filter_space b \<and> b \<noteq> 0x7E \<and> b \<noteq> 0x7A \<and> 0x21 \<le> b \<and> b \<le> 0x75"
  by (auto simp: is_a85_digit_def is_filter_space_def)

lemma ascii85_collect:
  assumes "ascii85_pending ds s" "a85_eod s = 0" "list_all is_a85_digit es" "length ds + length es < 5"
  shows "\<exists>s'. foldm (ascii85_byte p) s es = Done s' \<and> ascii85_pending (ds @ es) s' \<and>
    a85_next s' = a85_next s \<and> a85_eod s' = 0"
  using assms
proof (induction es arbitrary: ds s)
  case Nil
  then show ?case by simp
next
  case (Cons b es)
  let ?s = "s\<lparr>a85_inbuf := (a85_inbuf s)[a85_pos s := b], a85_pos := a85_pos s + 1\<rparr>"
  have step: "ascii85_byte p s b = Done ?s"
    using Cons.prems a85_digit_arm [of b] by (simp add: ascii85_byte_def ascii85_pending_def)
  have "ascii85_pending (ds @ [b]) ?s"
    using Cons.prems by (auto simp: ascii85_pending_def ascii85_store)
  from Cons.IH [OF this] Cons.prems step show ?case by auto
qed

lemma ascii85_full_group:
  assumes "ascii85_pending [] s" "a85_eod s = 0" "list_all is_a85_digit es" "length es = 5"
  shows "\<exists>s'. foldm (ascii85_byte vec_sink) s es = Done s' \<and> ascii85_pending [] s' \<and>
    a85_next s' = a85_next s @ be_bytes (of_nat (a85_horner es)) \<and> a85_eod s' = 0"
proof -
  obtain ds b where es: "es = ds @ [b]" and ds: "length ds = 4" "list_all is_a85_digit ds" "is_a85_digit b"
    using assms(3,4) by (cases es rule: rev_cases) auto
  obtain s' where s': "foldm (ascii85_byte vec_sink) s ds = Done s'" "ascii85_pending ds s'"
    "a85_next s' = a85_next s" "a85_eod s' = 0"
    using ascii85_collect [OF assms(1,2) ds(2), of vec_sink] ds(1) by auto
  have buf: "(a85_inbuf s')[a85_pos s' := b] = es"
    using s'(2) ds(1) es ascii85_store [of ds b] by (simp add: ascii85_pending_def)
  have len: "length (be_bytes v) = 4" for v by (simp add: be_bytes_def)
  show ?thesis
    using s' ds es buf a85_digit_arm [of b]
    by (simp add: foldm_append ascii85_byte_def ascii85_flush_def Let_def ascii85_value_horner
        ascii85_pending_def len)
qed

lemma be_number_less_85: "length bs = 4 \<Longrightarrow> be_number bs < 85 ^ 5"
  using be_number_bound [of bs] by simp

text \<open>The end-of-data marker after \<open>es\<close> pending digits writes their \<open>length es - 1\<close> bytes.\<close>

lemma ascii85_end_marker:
  assumes "ascii85_pending es s" "a85_eod s = 0"
  shows "\<exists>s'. foldm (ascii85_byte vec_sink) s [0x7E, 0x3E] = Done s' \<and> a85_pos s' = 0 \<and> a85_eod s' = 2 \<and>
    a85_next s' = a85_next s @
      take (length es - 1) (be_bytes (of_nat (a85_horner (es @ replicate (5 - length es) 0x75))))"
  using assms
  by (auto simp: ascii85_byte_def is_filter_space_def ascii85_flush_def Let_def ascii85_pending_def
      ascii85_value_horner)

lemma a85_group_digits [simp]: "list_all is_a85_digit (a85_group v)" "length (a85_group v) = 5"
  by (simp_all add: a85_group_def)

lemma list_all_take: "list_all P xs \<Longrightarrow> list_all P (take n xs)"
  by (auto simp: list_all_iff dest: in_set_takeD)

lemma a85_group_decode:
  "be_bytes (of_nat (a85_horner (a85_group (be_number [a, b, c, d])))) = [a, b, c, d]"
  using be_number_bound [of "[a, b, c, d]"] be_number_less_85 [of "[a, b, c, d]"]
  by (simp only: a85_horner_group be_bytes_prefix(4) order_refl length_Cons list.size One_nat_def
      Suc_numeral numeral_One list.size(3) plus_1_eq_Suc)

text \<open>The digits of a short group, padded, still denote a number with the same leading bytes.\<close>

lemma padded_bounds:
  assumes "m \<le> 2 ^ k" "v = q * 2 ^ k" "0 < m"
  shows "v \<le> v - v mod m + (m - 1)" "v - v mod m + (m - 1) < v + (2 :: nat) ^ k"
proof -
  have "v mod m < m" using assms(3) by simp
  moreover have "v mod m \<le> v" by simp
  ultimately show "v \<le> v - v mod m + (m - 1)" "v - v mod m + (m - 1) < v + 2 ^ k"
    using assms(1) by linarith+
qed

lemma a85_short_decode:
  "take 1 (be_bytes (of_nat (a85_horner (take 2 (a85_group (be_number [a, 0, 0, 0])) @ replicate 3 0x75)))) = [a]"
  "take 2 (be_bytes (of_nat (a85_horner (take 3 (a85_group (be_number [a, b, 0, 0])) @ replicate 2 0x75)))) = [a, b]"
  "take 3 (be_bytes (of_nat (a85_horner (take 4 (a85_group (be_number [a, b, c, 0])) @ replicate 1 0x75)))) = [a, b, c]"
proof -
  have le: "unat a \<le> 255" "unat b \<le> 255" "unat c \<le> 255" by simp_all
  {
    let ?v = "be_number [a, 0, 0, 0]"
    have v: "?v = unat a * 2 ^ 24" by simp
    have n: "?v \<le> ?v - ?v mod 85 ^ 3 + (85 ^ 3 - 1)" "?v - ?v mod 85 ^ 3 + (85 ^ 3 - 1) < ?v + 2 ^ 24"
      by (rule padded_bounds [OF _ v]; simp)+
    have "unat a \<le> 255" using le by linarith
    from mult_right_mono [OF this, of "2 ^ 24"] have "?v + 2 ^ 24 \<le> 2 ^ 32"
      unfolding v by simp
    then have upper: "?v - ?v mod 85 ^ 3 + (85 ^ 3 - 1) < 2 ^ 32"
      using n(2) by linarith
    note h = a85_horner_short(1) [OF be_number_less_85 [of "[a, 0, 0, 0]"]]
    have len: "length [a, 0 :: byte, 0, 0] = 4" by simp
    show "take 1 (be_bytes (of_nat (a85_horner (take 2 (a85_group ?v) @ replicate 3 0x75)))) = [a]"
      unfolding h [OF len] by (rule be_bytes_prefix(1) [OF n(1) upper]) (use n(2) in \<open>simp del: be_number.simps\<close>)
  }
  {
    let ?v = "be_number [a, b, 0, 0]"
    have v: "?v = (unat a * 256 + unat b) * 2 ^ 16" by simp
    have n: "?v \<le> ?v - ?v mod 85 ^ 2 + (85 ^ 2 - 1)" "?v - ?v mod 85 ^ 2 + (85 ^ 2 - 1) < ?v + 2 ^ 16"
      by (rule padded_bounds [OF _ v]; simp)+
    have "unat a * 256 + unat b \<le> 65535" using le by linarith
    from mult_right_mono [OF this, of "2 ^ 16"] have "?v + 2 ^ 16 \<le> 2 ^ 32"
      unfolding v by simp
    then have upper: "?v - ?v mod 85 ^ 2 + (85 ^ 2 - 1) < 2 ^ 32"
      using n(2) by linarith
    note h = a85_horner_short(2) [OF be_number_less_85 [of "[a, b, 0, 0]"]]
    have len: "length [a, b, 0 :: byte, 0] = 4" by simp
    show "take 2 (be_bytes (of_nat (a85_horner (take 3 (a85_group ?v) @ replicate 2 0x75)))) = [a, b]"
      unfolding h [OF len] by (rule be_bytes_prefix(2) [OF n(1) upper]) (use n(2) in \<open>simp del: be_number.simps\<close>)
  }
  {
    let ?v = "be_number [a, b, c, 0]"
    have v: "?v = ((unat a * 256 + unat b) * 256 + unat c) * 2 ^ 8" by simp
    have n: "?v \<le> ?v - ?v mod 85 + (85 - 1)" "?v - ?v mod 85 + (85 - 1) < ?v + 2 ^ 8"
      by (rule padded_bounds [OF _ v]; simp)+
    have "unat a * 256 + unat b \<le> 65535" using le by linarith
    then have "(unat a * 256 + unat b) * 256 \<le> 65535 * 256" by (rule mult_right_mono) simp
    then have "(unat a * 256 + unat b) * 256 + unat c \<le> 16777215" using le(3) by linarith
    from mult_right_mono [OF this, of "2 ^ 8"] have "?v + 2 ^ 8 \<le> 2 ^ 32"
      unfolding v by simp
    then have upper: "?v - ?v mod 85 + (85 - 1) < 2 ^ 32"
      using n(2) by linarith
    note h = a85_horner_short(3) [OF be_number_less_85 [of "[a, b, c, 0]"]]
    have len: "length [a, b, c, 0 :: byte] = 4" by simp
    show "take 3 (be_bytes (of_nat (a85_horner (take 4 (a85_group ?v) @ replicate 1 0x75)))) = [a, b, c]"
      unfolding h [OF len] by (rule be_bytes_prefix(3) [OF n(1) upper]) (use n(2) in \<open>simp del: be_number.simps\<close>)
  }
qed

text \<open>A short last group and the end-of-data marker.\<close>

lemma ascii85_collect_end:
  assumes "ascii85_pending [] s" "a85_eod s = 0" "list_all is_a85_digit es" "length es < 5"
  shows "\<exists>s'. foldm (ascii85_byte vec_sink) s (es @ [0x7E, 0x3E]) = Done s' \<and> a85_pos s' = 0 \<and>
    a85_eod s' = 2 \<and> a85_next s' = a85_next s @
      take (length es - 1) (be_bytes (of_nat (a85_horner (es @ replicate (5 - length es) 0x75))))"
proof -
  obtain t where t: "foldm (ascii85_byte vec_sink) s es = Done t" "ascii85_pending es t"
    "a85_next t = a85_next s" "a85_eod t = 0"
    using ascii85_collect [OF assms(1-3), of vec_sink] assms(4) by auto
  show ?thesis using ascii85_end_marker [OF t(2,4)] t(1,3) by (simp only: foldm_append seq.simps)
qed

lemma ascii85_encode_steps:
  assumes "ascii85_pending [] s" "a85_eod s = 0"
  shows "\<exists>s'. foldm (ascii85_byte vec_sink) s (a85_encode data @ [0x7E, 0x3E]) = Done s' \<and>
    a85_pos s' = 0 \<and> a85_eod s' = 2 \<and> a85_next s' = a85_next s @ data"
  using assms
proof (induction data arbitrary: s rule: a85_encode.induct [case_names Group Empty One Two Three])
  case (Group a b c d rest)
  let ?v = "be_number [a, b, c, d]"
  let ?group = "if ?v = 0 then [0x7A] else a85_group ?v"
  obtain t where t: "foldm (ascii85_byte vec_sink) s ?group = Done t" "ascii85_pending [] t" "a85_eod t = 0"
    "a85_next t = a85_next s @ [a, b, c, d]"
  proof (cases "?v = 0")
    case True
    then have "[a, b, c, d] = [0, 0, 0, 0]" by (simp add: unat_eq_zero)
    then show ?thesis
      using that [of "s\<lparr>a85_next := a85_next s @ [0, 0, 0, 0]\<rparr>"] Group.prems
      by (simp add: ascii85_byte_def is_filter_space_def ascii85_pending_def)
  next
    case False
    then show ?thesis
      using that ascii85_full_group [OF Group.prems a85_group_digits, of ?v] a85_group_decode [of a b c d]
      by (auto simp del: be_number.simps)
  qed
  have "a85_encode (a # b # c # d # rest) = ?group @ a85_encode rest"
    by (simp add: Let_def del: be_number.simps)
  then show ?case
    using Group.IH [OF t(2,3)] t
    by (simp only: append.assoc foldm_append) (auto simp del: be_number.simps simp add: foldm_append)
next
  case Empty
  then show ?case using ascii85_end_marker [OF Empty] by simp
next
  case (One a)
  let ?es = "take 2 (a85_group (be_number [a, 0, 0, 0]))"
  have es: "list_all is_a85_digit ?es" "length ?es = 2" by (simp_all add: list_all_take)
  have enc: "a85_encode [a] = ?es" by (simp add: eval_nat_numeral del: be_number.simps)
  show ?case unfolding enc
    using ascii85_collect_end [OF One.prems es(1)] es a85_short_decode(1) [of a] by (simp del: be_number.simps)
next
  case (Two a b)
  let ?es = "take 3 (a85_group (be_number [a, b, 0, 0]))"
  have es: "list_all is_a85_digit ?es" "length ?es = 3" by (simp_all add: list_all_take)
  have enc: "a85_encode [a, b] = ?es" by (simp add: eval_nat_numeral del: be_number.simps)
  show ?case unfolding enc
    using ascii85_collect_end [OF Two.prems es(1)] es a85_short_decode(2) [of a b] by (simp del: be_number.simps)
next
  case (Three a b c)
  let ?es = "take 4 (a85_group (be_number [a, b, c, 0]))"
  have es: "list_all is_a85_digit ?es" "length ?es = 4" by (simp_all add: list_all_take)
  have enc: "a85_encode [a, b, c] = ?es" by (simp add: eval_nat_numeral del: be_number.simps)
  show ?case unfolding enc
    using ascii85_collect_end [OF Three.prems es(1)] es a85_short_decode(3) [of a b c] by (simp del: be_number.simps)
qed

text \<open>Whitespace anywhere in the input is skipped; after the marker everything is.\<close>

lemma ascii85_skip_space:
  "foldm (ascii85_byte p) s data = foldm (ascii85_byte p) s (filter (\<lambda>b. \<not> is_filter_space b) data)"
proof (induction data arbitrary: s)
  case Nil
  then show ?case by simp
next
  case (Cons b data)
  have "is_filter_space b \<Longrightarrow> ascii85_byte p s b = Done s" by (simp add: ascii85_byte_def)
  then show ?case by (cases "ascii85_byte p s b") (auto simp: Cons.IH)
qed

text \<open>
  C19: decoding inverts the standard base-85 encoding of any data, with its \<open>z\<close> groups and its short
  last group, whatever white space is interleaved and whatever follows the end marker.
\<close>

theorem ascii85_decode_encode:
  assumes "filter (\<lambda>b. \<not> is_filter_space b) enc = a85_encode data @ [0x7E, 0x3E] @ junk"
  shows "ascii85_decode enc = Done data"
proof -
  obtain s where s: "foldm (ascii85_byte vec_sink) (ascii85_new []) (a85_encode data @ [0x7E, 0x3E]) = Done s"
    "a85_pos s = 0" "a85_eod s = 2" "a85_next s = data"
    using ascii85_encode_steps [OF ascii85_pending_new [of "[]"], of data] by (auto simp: ascii85_new_def)
  have "filter (\<lambda>b. \<not> is_filter_space b) enc = (a85_encode data @ [0x7E, 0x3E]) @ junk"
    using assms by simp
  then have "foldm (ascii85_byte vec_sink) (ascii85_new []) enc =
      seq (foldm (ascii85_byte vec_sink) (ascii85_new []) (a85_encode data @ [0x7E, 0x3E]))
        (\<lambda>s. foldm (ascii85_byte vec_sink) s junk)"
    by (subst ascii85_skip_space) (simp only: foldm_append)
  then have "foldm (ascii85_byte vec_sink) (ascii85_new []) enc = Done s"
    using s by (simp add: ascii85_foldm_eod)
  then show ?thesis using s
    by (simp add: ascii85_decode_def ascii85_write_eq_foldm ascii85_finish_def ascii85_flush_def)
qed

theorem ascii85_decode_encode_witness: "ascii85_decode (str ''!!*-'' @ [0x0A] @ str '' ~>#'') = Done [0, 1, 2]"
  by (rule ascii85_decode_encode [where data = "[0, 1, 2]" and junk = "[0x23]"])
    (simp add: str_def is_filter_space_def a85_group_def a85_digit_def)

end
