(* ===== verification/Run_Length.thy ===== *)
theory Run_Length
  imports Pipeline
begin

text \<open>
  The RunLength stage (\<open>crates/flpdf/src/pipeline/run_length.rs\<close>): the incremental decoder and the
  encoder, the state/length invariant that makes the encoder's logic errors unreachable, the decoder
  as packet expansion, and the round trip.
\<close>

section \<open>The stage\<close>

datatype rl_action = Encode | Decode

datatype rl_state = RL_Top | RL_Copying | RL_Run

record 'd run_length =
  rl_next :: 'd
  rl_action :: rl_action
  rl_state :: rl_state
  rl_length :: nat
  rl_buf :: bytes

definition run_length_new :: "'d \<Rightarrow> rl_action \<Rightarrow> 'd run_length" where
  "run_length_new next action =
     \<lparr>rl_next = next, rl_action = action, rl_state = RL_Top, rl_length = 0, rl_buf = replicate 128 0\<rparr>"

definition rl_write_next ::
  "'d pipeline \<Rightarrow> 'd run_length \<Rightarrow> bytes \<Rightarrow> (pipe_error, 'd run_length) outcome" where
  "rl_write_next p s data = into (\<lambda>d. s\<lparr>rl_next := d\<rparr>) (pl_write p (rl_next s) data)"

definition flush_encode :: "'d pipeline \<Rightarrow> 'd run_length \<Rightarrow> (pipe_error, 'd run_length) outcome" where
  "flush_encode p s =
     seq (if rl_state s = RL_Run then
            if \<not> (2 \<le> rl_length s \<and> rl_length s \<le> 128)
            then Fail (logic ''Pl_RunLength: invalid length in flush_encode for run'') s
            else seq (rl_write_next p s [of_nat (257 - rl_length s)])
                   (\<lambda>s. rl_write_next p s (take 1 (rl_buf s)))
          else if rl_length s > 0 then
            seq (rl_write_next p s [of_nat (rl_length s - 1)])
              (\<lambda>s. rl_write_next p s (take (rl_length s) (rl_buf s)))
          else Done s)
       (\<lambda>s. Done (s\<lparr>rl_state := RL_Top, rl_length := 0\<rparr>))"

definition rl_push :: "'d run_length \<Rightarrow> byte \<Rightarrow> 'd run_length" where
  "rl_push s byte = s\<lparr>rl_buf := (rl_buf s)[rl_length s := byte], rl_length := rl_length s + 1\<rparr>"

definition rl_encode_byte ::
  "'d pipeline \<Rightarrow> 'd run_length \<Rightarrow> byte \<Rightarrow> (pipe_error, 'd run_length) outcome" where
  "rl_encode_byte p s byte =
     (if (rl_state s = RL_Top) \<noteq> (rl_length s \<le> 1)
      then Fail (logic ''Pl_RunLength::encode: state/length inconsistency'') s
      else if rl_length s > 0 \<and> (rl_state s = RL_Copying \<or> rl_length s < 128) \<and>
              byte = rl_buf s ! (rl_length s - 1)
      then
        seq (if rl_state s = RL_Copying
             then seq (flush_encode p (s\<lparr>rl_length := rl_length s - 1\<rparr>))
                    (\<lambda>s. Done (s\<lparr>rl_buf := (rl_buf s)[0 := byte], rl_length := 1\<rparr>))
             else Done s)
          (\<lambda>s. Done (rl_push (s\<lparr>rl_state := RL_Run\<rparr>) byte))
      else
        seq (if rl_length s = 128 \<or> rl_state s = RL_Run then flush_encode p s
             else if rl_length s > 0 then Done (s\<lparr>rl_state := RL_Copying\<rparr>)
             else Done s)
          (\<lambda>s. Done (rl_push s byte)))"

text \<open>A run is written byte by byte (\<open>for _ in 0..self.length\<close>).\<close>

definition rl_decode_byte ::
  "'d pipeline \<Rightarrow> 'd run_length \<Rightarrow> byte \<Rightarrow> (pipe_error, 'd run_length) outcome" where
  "rl_decode_byte p s byte =
     (case rl_state s of
        RL_Top \<Rightarrow>
          Done (if byte < 128 then s\<lparr>rl_length := unat byte + 1, rl_state := RL_Copying\<rparr>
                else if byte > 128 then s\<lparr>rl_length := 257 - unat byte, rl_state := RL_Run\<rparr>
                else s)
      | RL_Copying \<Rightarrow>
          seq (rl_write_next p s [byte])
            (\<lambda>s. let s = s\<lparr>rl_length := rl_length s - 1\<rparr>
                 in Done (if rl_length s = 0 then s\<lparr>rl_state := RL_Top\<rparr> else s))
      | RL_Run \<Rightarrow>
          seq (foldm (\<lambda>s b. rl_write_next p s [b]) s (replicate (rl_length s) byte))
            (\<lambda>s. Done (s\<lparr>rl_state := RL_Top\<rparr>)))"

definition run_length_write ::
  "'d pipeline \<Rightarrow> 'd run_length \<Rightarrow> bytes \<Rightarrow> (pipe_error, 'd run_length) outcome" where
  "run_length_write p s data =
     (case rl_action s of
        Encode \<Rightarrow> foldm (rl_encode_byte p) s data
      | Decode \<Rightarrow> foldm (rl_decode_byte p) s data)"

definition rl_finish_next :: "'d pipeline \<Rightarrow> 'd run_length \<Rightarrow> (pipe_error, 'd run_length) outcome" where
  "rl_finish_next p s = into (\<lambda>d. s\<lparr>rl_next := d\<rparr>) (pl_finish p (rl_next s))"

definition run_length_finish :: "'d pipeline \<Rightarrow> 'd run_length \<Rightarrow> (pipe_error, 'd run_length) outcome" where
  "run_length_finish p s =
     (case rl_action s of
        Encode \<Rightarrow>
          seq (flush_encode p s) (\<lambda>s. seq (rl_write_next p s [128]) (rl_finish_next p))
      | Decode \<Rightarrow> rl_finish_next p s)"

definition run_length_pipeline :: "'d pipeline \<Rightarrow> 'd run_length pipeline" where
  "run_length_pipeline p = \<lparr>pl_write = run_length_write p, pl_finish = run_length_finish p\<rparr>"

section \<open>Chunk independence\<close>

text \<open>The action is fixed at construction: no operation changes it.\<close>

lemma rl_write_next_simps [simp]:
  "rl_action (outcome_state (rl_write_next p s data)) = rl_action s"
  "rl_state (outcome_state (rl_write_next p s data)) = rl_state s"
  "rl_length (outcome_state (rl_write_next p s data)) = rl_length s"
  "rl_buf (outcome_state (rl_write_next p s data)) = rl_buf s"
  by (simp_all add: rl_write_next_def)

lemma rl_write_next_Done:
  "rl_write_next p s data = Done t \<Longrightarrow>
   rl_action t = rl_action s \<and> rl_state t = rl_state s \<and> rl_length t = rl_length s \<and> rl_buf t = rl_buf s"
  using rl_write_next_simps [of p s data] by simp

lemma seq_state_invariant:
  assumes "P (outcome_state r)" "\<And>s. r = Done s \<Longrightarrow> P (outcome_state (f s))"
  shows "P (outcome_state (seq r f))"
  using assms by (cases r) auto

lemma flush_encode_action: "rl_action (outcome_state (flush_encode p s)) = rl_action s"
  unfolding flush_encode_def
  by (rule seq_state_invariant [where P = "\<lambda>t. rl_action t = rl_action s"])
    (auto dest!: rl_write_next_Done simp: seq_eq_Done_iff split: if_splits
      intro!: seq_state_invariant [where P = "\<lambda>t. rl_action t = rl_action s"])

lemma rl_encode_byte_action: "rl_action (outcome_state (rl_encode_byte p s b)) = rl_action s"
  unfolding rl_encode_byte_def
  using flush_encode_action [of p s] flush_encode_action [of p "s\<lparr>rl_length := rl_length s - 1\<rparr>"]
  by (cases "flush_encode p s"; cases "flush_encode p (s\<lparr>rl_length := rl_length s - 1\<rparr>)")
    (auto simp: rl_push_def)

lemma rl_decode_byte_action: "rl_action (outcome_state (rl_decode_byte p s b)) = rl_action s"
proof -
  let ?run = "foldm (\<lambda>s b. rl_write_next p s [b]) s (replicate (rl_length s) b)"
  have "rl_action (outcome_state ?run) = rl_action s"
    by (rule foldm_invariant) simp_all
  then show ?thesis
    using rl_write_next_simps(1) [of p s "[b]"]
    by (cases "rl_state s"; cases ?run; cases "rl_write_next p s [b]")
      (simp_all add: rl_decode_byte_def Let_def)
qed

lemma run_length_write_action: "rl_action (outcome_state (run_length_write p s data)) = rl_action s"
proof -
  have "rl_action (outcome_state (foldm (rl_encode_byte p) s data)) = rl_action s"
    by (rule foldm_invariant [where P = "\<lambda>t. rl_action t = rl_action s"])
      (simp_all add: rl_encode_byte_action)
  moreover have "rl_action (outcome_state (foldm (rl_decode_byte p) s data)) = rl_action s"
    by (rule foldm_invariant [where P = "\<lambda>t. rl_action t = rl_action s"])
      (simp_all add: rl_decode_byte_action)
  ultimately show ?thesis by (simp add: run_length_write_def split: rl_action.split)
qed

lemma run_length_write_append:
  "run_length_write p s (xs @ ys) = seq (run_length_write p s xs) (\<lambda>t. run_length_write p t ys)"
  using run_length_write_action [of p s xs]
  by (cases "rl_action s"; cases "run_length_write p s xs")
    (auto simp: run_length_write_def foldm_append)

interpretation run_length: chunked_stage "run_length_write p" for p
  by unfold_locales (simp_all add: run_length_write_append, simp add: run_length_write_def split: rl_action.split)

section \<open>Decoding expands packets\<close>

text \<open>
  A length byte \<open>n < 128\<close> is followed by \<open>n + 1\<close> literal bytes, \<open>n > 128\<close> by one byte repeated
  \<open>257 - n\<close> times; 128 alone is a no-op, and a packet cut off by the end of the data yields what is there.
\<close>

function rl_expand :: "bytes \<Rightarrow> bytes" where
  "rl_expand [] = []"
| "rl_expand (n # bs) =
     (if n < 128 then take (unat n + 1) bs @ rl_expand (drop (unat n + 1) bs)
      else if n > 128 then
        (case bs of [] \<Rightarrow> [] | b # rest \<Rightarrow> replicate (257 - unat n) b @ rl_expand rest)
      else rl_expand bs)"
  by pat_completeness auto
termination
  by (relation "measure length") auto

lemma rl_write_next_vec [simp]:
  "rl_write_next vec_sink s data = Done (s\<lparr>rl_next := rl_next s @ data\<rparr>)"
  by (simp add: rl_write_next_def)

lemma rl_write_run_vec:
  "foldm (\<lambda>s b. rl_write_next vec_sink s [b]) s bs = Done (s\<lparr>rl_next := rl_next s @ bs\<rparr>)"
  by (induction bs arbitrary: s) simp_all

lemma rl_decode_step_literal:
  "rl_state s = RL_Top \<Longrightarrow> n < 128 \<Longrightarrow>
   rl_decode_byte p s n = Done (s\<lparr>rl_length := unat n + 1, rl_state := RL_Copying\<rparr>)"
  by (simp add: rl_decode_byte_def)

lemma rl_decode_step_run:
  "rl_state s = RL_Top \<Longrightarrow> n > 128 \<Longrightarrow>
   rl_decode_byte p s n = Done (s\<lparr>rl_length := 257 - unat n, rl_state := RL_Run\<rparr>)"
  by (auto simp: rl_decode_byte_def)

lemma rl_decode_step_skip: "rl_state s = RL_Top \<Longrightarrow> rl_decode_byte p s 128 = Done s"
  by (simp add: rl_decode_byte_def)

lemma rl_decode_step_copy:
  "rl_state s = RL_Copying \<Longrightarrow>
   rl_decode_byte vec_sink s b =
     Done (s\<lparr>rl_next := rl_next s @ [b], rl_length := rl_length s - 1,
             rl_state := (if rl_length s - 1 = 0 then RL_Top else RL_Copying)\<rparr>)"
  by (cases s) (simp add: rl_decode_byte_def Let_def)

lemma rl_decode_step_repeat:
  "rl_state s = RL_Run \<Longrightarrow>
   rl_decode_byte vec_sink s b =
     Done (s\<lparr>rl_next := rl_next s @ replicate (rl_length s) b, rl_state := RL_Top\<rparr>)"
  by (simp add: rl_decode_byte_def rl_write_run_vec del: rl_write_next_vec)

lemma rl_decode_copying:
  "rl_state s = RL_Copying \<Longrightarrow> 0 < rl_length s \<Longrightarrow> length bs \<le> rl_length s \<Longrightarrow>
   foldm (rl_decode_byte vec_sink) s bs =
     Done (s\<lparr>rl_next := rl_next s @ bs, rl_length := rl_length s - length bs,
             rl_state := (if length bs = rl_length s then RL_Top else RL_Copying)\<rparr>)"
proof (induction bs arbitrary: s)
  case Nil
  then show ?case by (cases s) simp
next
  case (Cons b bs)
  show ?case
  proof (cases "rl_length s = 1")
    case True
    with Cons.prems have "bs = []" by simp
    with True Cons.prems show ?thesis by (cases s) (simp add: rl_decode_step_copy)
  next
    case False
    let ?t = "s\<lparr>rl_next := rl_next s @ [b], rl_length := rl_length s - 1, rl_state := RL_Copying\<rparr>"
    have "rl_decode_byte vec_sink s b = Done ?t"
      using False Cons.prems by (simp add: rl_decode_step_copy)
    moreover have "foldm (rl_decode_byte vec_sink) ?t bs =
       Done (?t\<lparr>rl_next := rl_next ?t @ bs, rl_length := rl_length ?t - length bs,
             rl_state := (if length bs = rl_length ?t then RL_Top else RL_Copying)\<rparr>)"
      using False Cons.prems by (intro Cons.IH) auto
    ultimately show ?thesis using Cons.prems by (cases s) auto
  qed
qed

lemma rl_decode_expand:
  "rl_state s = RL_Top \<Longrightarrow>
   \<exists>t. foldm (rl_decode_byte vec_sink) s data = Done t \<and> rl_next t = rl_next s @ rl_expand data"
proof (induction data arbitrary: s rule: rl_expand.induct)
  case 1
  then show ?case by simp
next
  case (2 n bs)
  consider (literal) "n < 128" | (run) "n > 128" | (skip) "n = 128" by force
  then show ?case
  proof cases
    case literal
    let ?k = "unat n + 1"
    let ?s = "s\<lparr>rl_length := ?k, rl_state := RL_Copying\<rparr>"
    have first: "rl_decode_byte vec_sink s n = Done ?s"
      using literal "2.prems" by (simp add: rl_decode_step_literal)
    have lits: "foldm (rl_decode_byte vec_sink) ?s (take ?k bs) =
        Done (?s\<lparr>rl_next := rl_next s @ take ?k bs, rl_length := ?k - length (take ?k bs),
          rl_state := (if length (take ?k bs) = ?k then RL_Top else RL_Copying)\<rparr>)"
      by (subst rl_decode_copying) simp_all
    show ?thesis
    proof (cases "?k \<le> length bs")
      case True
      let ?t = "?s\<lparr>rl_next := rl_next s @ take ?k bs, rl_length := 0, rl_state := RL_Top\<rparr>"
      have "foldm (rl_decode_byte vec_sink) ?s (take ?k bs @ drop ?k bs) =
          foldm (rl_decode_byte vec_sink) ?t (drop ?k bs)"
        unfolding foldm_append lits using True by simp
      then have "foldm (rl_decode_byte vec_sink) s (n # bs) =
          foldm (rl_decode_byte vec_sink) ?t (drop ?k bs)"
        using first by simp
      with "2.IH"(1) [OF literal, of ?t] literal show ?thesis by simp
    next
      case False
      then show ?thesis using first lits literal by simp
    qed
  next
    case run
    then have notlit: "\<not> n < 128" by simp
    let ?s = "s\<lparr>rl_length := 257 - unat n, rl_state := RL_Run\<rparr>"
    have first: "rl_decode_byte vec_sink s n = Done ?s"
      using run "2.prems" by (simp add: rl_decode_step_run)
    show ?thesis
    proof (cases bs)
      case Nil
      then show ?thesis using first run notlit by simp
    next
      case (Cons b rest)
      let ?t = "?s\<lparr>rl_next := rl_next s @ replicate (257 - unat n) b, rl_state := RL_Top\<rparr>"
      have "rl_decode_byte vec_sink ?s b = Done ?t"
        by (simp add: rl_decode_step_repeat)
      then show ?thesis
        using "2.IH"(2) [OF notlit run Cons, of ?t] first run notlit Cons by simp
    qed
  next
    case skip
    then show ?thesis using "2.prems" "2.IH"(3) by (simp add: rl_decode_step_skip)
  qed
qed

definition run_length_decode :: "bytes \<Rightarrow> (pipe_error, bytes) outcome" where
  "run_length_decode data =
     into rl_next (seq (run_length_write vec_sink (run_length_new [] Decode) data)
       (run_length_finish vec_sink))"

lemma run_length_decode_eq_expand: "run_length_decode data = Done (rl_expand data)"
proof -
  let ?s = "run_length_new [] Decode :: bytes run_length"
  obtain t where t: "foldm (rl_decode_byte vec_sink) ?s data = Done t" "rl_next t = rl_expand data"
    using rl_decode_expand [of ?s data] by (auto simp: run_length_new_def)
  have w: "run_length_write vec_sink ?s data = Done t"
    using t by (simp add: run_length_write_def run_length_new_def)
  then have "rl_action t = Decode"
    using run_length_write_action [of vec_sink ?s data] by (simp add: run_length_new_def)
  then show ?thesis using t w
    by (simp add: run_length_decode_def run_length_finish_def rl_finish_next_def)
qed

section \<open>Encoding\<close>

text \<open>
  The encoder's invariant: the state is \<open>Top\<close> exactly for at most one pending byte, at most 128
  bytes are pending in a buffer of 128, and a pending run repeats its first byte.
\<close>

definition rl_encode_inv :: "'d run_length \<Rightarrow> bool" where
  "rl_encode_inv s \<longleftrightarrow> rl_length s \<le> 128 \<and> length (rl_buf s) = 128 \<and>
     (rl_state s = RL_Top \<longleftrightarrow> rl_length s \<le> 1) \<and>
     (rl_state s = RL_Run \<longrightarrow>
        take (rl_length s) (rl_buf s) = replicate (rl_length s) (hd (rl_buf s)))"

definition rl_pending :: "'d run_length \<Rightarrow> bytes" where
  "rl_pending s = take (rl_length s) (rl_buf s)"

text \<open>\<open>out\<close> is a whole number of packets that expand to \<open>data\<close>.\<close>

definition rl_encodes :: "bytes \<Rightarrow> bytes \<Rightarrow> bool" where
  "rl_encodes out data \<longleftrightarrow> (\<forall>rest. rl_expand (out @ rest) = data @ rl_expand rest)"

lemma rl_encodes_Nil: "rl_encodes [] []"
  by (simp add: rl_encodes_def)

lemma rl_encodes_append: "rl_encodes a x \<Longrightarrow> rl_encodes b y \<Longrightarrow> rl_encodes (a @ b) (x @ y)"
  by (simp add: rl_encodes_def)

lemma rl_encodes_literal:
  assumes "0 < length bs" "length bs \<le> 128"
  shows "rl_encodes (of_nat (length bs - 1) # bs) bs"
proof -
  have "unat (of_nat (length bs - 1) :: byte) = length bs - 1"
    using assms by (simp add: unat_of_nat del: of_nat_diff)
  moreover have "length bs - 1 < 128" using assms by linarith
  ultimately show ?thesis using assms
    by (simp add: rl_encodes_def word_less_iff_unat Suc_leI del: of_nat_diff)
qed

lemma rl_encodes_run:
  assumes "2 \<le> n" "n \<le> 128"
  shows "rl_encodes [of_nat (257 - n), b] (replicate n b)"
proof -
  have "unat (of_nat (257 - n) :: byte) = 257 - n"
    using assms by (simp add: unat_of_nat del: of_nat_diff)
  moreover have "\<not> 257 - n < 128" "128 < 257 - n" "257 - (257 - n) = n" using assms by linarith+
  ultimately show ?thesis using assms
    by (simp add: rl_encodes_def word_less_iff_unat del: of_nat_diff)
qed

lemma flush_encode_vec:
  assumes "rl_encode_inv s \<or> rl_state s = RL_Copying \<and> 0 < rl_length s \<and> rl_length s \<le> 128 \<and> length (rl_buf s) = 128"
  shows "\<exists>out. flush_encode vec_sink s =
      Done (s\<lparr>rl_next := rl_next s @ out, rl_state := RL_Top, rl_length := 0\<rparr>) \<and>
    rl_encodes out (rl_pending s)"
proof (cases "rl_state s = RL_Run")
  case True
  then have inv: "rl_encode_inv s" using assms by simp
  then have len: "2 \<le> rl_length s" "rl_length s \<le> 128" "rl_buf s \<noteq> []"
    using True by (auto simp: rl_encode_inv_def)
  have pend: "rl_pending s = replicate (rl_length s) (hd (rl_buf s))"
    using True inv by (simp add: rl_encode_inv_def rl_pending_def)
  have one: "take 1 (rl_buf s) = [hd (rl_buf s)]"
    using len(3) by (cases "rl_buf s") simp_all
  have "flush_encode vec_sink s =
      Done (s\<lparr>rl_next := rl_next s @ [of_nat (257 - rl_length s), hd (rl_buf s)],
        rl_state := RL_Top, rl_length := 0\<rparr>)"
    using True len one by (simp add: flush_encode_def del: of_nat_diff)
  then show ?thesis unfolding pend using rl_encodes_run [OF len(1,2)] by blast
next
  case False
  show ?thesis
  proof (cases "rl_length s = 0")
    case True
    then have "flush_encode vec_sink s =
        Done (s\<lparr>rl_next := rl_next s @ [], rl_state := RL_Top, rl_length := 0\<rparr>)"
      using False by (simp add: flush_encode_def)
    moreover have "rl_encodes [] (rl_pending s)"
      using True rl_encodes_Nil by (simp add: rl_pending_def)
    ultimately show ?thesis by blast
  next
    case nonzero: False
    have len: "length (rl_pending s) = rl_length s" "rl_length s \<le> 128"
      using assms by (auto simp: rl_pending_def rl_encode_inv_def)
    have "flush_encode vec_sink s =
        Done (s\<lparr>rl_next := rl_next s @ of_nat (length (rl_pending s) - 1) # rl_pending s,
          rl_state := RL_Top, rl_length := 0\<rparr>)"
      using False nonzero len by (simp add: flush_encode_def rl_pending_def del: of_nat_diff)
    then show ?thesis using rl_encodes_literal [of "rl_pending s"] nonzero len by auto
  qed
qed

text \<open>The bytes consumed so far are those the output expands to, followed by the pending ones.\<close>

definition rl_progress :: "bytes \<Rightarrow> bytes run_length \<Rightarrow> bool" where
  "rl_progress data s \<longleftrightarrow> rl_encode_inv s \<and> rl_action s = Encode \<and>
     (\<exists>past. rl_encodes (rl_next s) past \<and> data = past @ rl_pending s)"

lemma rl_pending_push:
  "rl_length s < length (rl_buf s) \<Longrightarrow> rl_pending (rl_push s b) = rl_pending s @ [b]"
  by (simp add: rl_pending_def rl_push_def take_Suc_conv_app_nth)

lemma rl_progress_push:
  assumes "rl_progress data s" "rl_length s < 128"
    "st = RL_Top \<longleftrightarrow> rl_length s = 0"
    "st = RL_Run \<Longrightarrow> rl_pending s = replicate (rl_length s) b"
  shows "rl_progress (data @ [b]) (rl_push (s\<lparr>rl_state := st\<rparr>) b)"
proof -
  let ?s = "s\<lparr>rl_state := st\<rparr>"
  let ?t = "rl_push ?s b"
  have len: "length (rl_buf s) = 128" using assms(1) by (simp add: rl_progress_def rl_encode_inv_def)
  have pend: "rl_pending ?t = rl_pending s @ [b]"
    using len assms(2) rl_pending_push [of ?s b] by (simp add: rl_pending_def)
  have "st = RL_Run \<Longrightarrow> rl_pending ?t = replicate (rl_length ?t) (hd (rl_buf ?t))"
  proof -
    assume run: "st = RL_Run"
    have rep: "rl_pending ?t = replicate (rl_length ?t) b"
      using assms(4) [OF run] pend by (simp add: rl_push_def replicate_append_same)
    have "hd (rl_pending ?t) = hd (rl_buf ?t)"
      using len by (cases "rl_buf ?t") (auto simp: rl_pending_def rl_push_def)
    moreover have "hd (rl_pending ?t) = b" using rep by (simp add: rl_push_def)
    ultimately show ?thesis using rep by simp
  qed
  then have "rl_encode_inv ?t"
    using assms(2,3) len by (auto simp: rl_encode_inv_def rl_push_def rl_pending_def)
  moreover have "rl_action ?t = Encode" "rl_next ?t = rl_next s"
    using assms(1) by (simp_all add: rl_progress_def rl_push_def)
  ultimately show ?thesis using assms(1) pend by (auto simp: rl_progress_def)
qed

text \<open>Flushing turns the pending bytes into packets.\<close>

lemma rl_progress_flush:
  assumes "rl_progress data s"
  shows "\<exists>t. flush_encode vec_sink s = Done t \<and> rl_progress data t \<and> rl_length t = 0 \<and>
     rl_encodes (rl_next t) data"
proof -
  have inv: "rl_encode_inv s" using assms by (simp add: rl_progress_def)
  obtain past where past: "rl_encodes (rl_next s) past" "data = past @ rl_pending s"
    using assms by (auto simp: rl_progress_def)
  obtain out where out: "flush_encode vec_sink s =
      Done (s\<lparr>rl_next := rl_next s @ out, rl_state := RL_Top, rl_length := 0\<rparr>)"
    "rl_encodes out (rl_pending s)"
    using flush_encode_vec [of s] inv by blast
  let ?t = "s\<lparr>rl_next := rl_next s @ out, rl_state := RL_Top, rl_length := 0\<rparr>"
  have enc: "rl_encodes (rl_next ?t) data"
    using rl_encodes_append [OF past(1) out(2)] past(2) by simp
  have "rl_progress data ?t"
    using assms enc by (auto simp: rl_progress_def rl_encode_inv_def rl_pending_def)
  with out(1) enc show ?thesis by auto
qed

text \<open>
  A literal packet whose last byte starts a run is flushed without that byte, which then heads the
  pending run.
\<close>

lemma rl_progress_split:
  assumes "rl_progress data s" "rl_state s = RL_Copying" "b = rl_buf s ! (rl_length s - 1)"
  shows "\<exists>t. flush_encode vec_sink (s\<lparr>rl_length := rl_length s - 1\<rparr>) = Done t \<and>
    rl_progress data (t\<lparr>rl_buf := (rl_buf t)[0 := b], rl_length := 1\<rparr>) \<and>
    rl_state t = RL_Top"
proof -
  have inv: "rl_encode_inv s" using assms by (simp add: rl_progress_def)
  then have len: "2 \<le> rl_length s" "rl_length s \<le> 128" "length (rl_buf s) = 128"
    using assms(2) by (auto simp: rl_encode_inv_def)
  obtain past where past: "rl_encodes (rl_next s) past" "data = past @ rl_pending s"
    using assms by (auto simp: rl_progress_def)
  let ?s = "s\<lparr>rl_length := rl_length s - 1\<rparr>"
  have cut: "rl_pending s = rl_pending ?s @ [b]"
    using len assms(3) take_Suc_conv_app_nth [of "rl_length s - 1" "rl_buf s"]
    by (simp add: rl_pending_def)
  obtain out where out: "flush_encode vec_sink ?s =
      Done (?s\<lparr>rl_next := rl_next ?s @ out, rl_state := RL_Top, rl_length := 0\<rparr>)"
    "rl_encodes out (rl_pending ?s)"
  proof -
    have "rl_state ?s = RL_Copying \<and> 0 < rl_length ?s \<and> rl_length ?s \<le> 128 \<and> length (rl_buf ?s) = 128"
      using len assms(2) by simp
    then show ?thesis using flush_encode_vec [of ?s] that by blast
  qed
  let ?t = "?s\<lparr>rl_next := rl_next ?s @ out, rl_state := RL_Top, rl_length := 0\<rparr>"
  let ?u = "?t\<lparr>rl_buf := (rl_buf ?t)[0 := b], rl_length := 1\<rparr>"
  have "rl_pending ?u = [b]"
    using len by (cases "rl_buf s") (auto simp: rl_pending_def)
  moreover have "rl_encodes (rl_next ?u) (past @ rl_pending ?s)"
    using rl_encodes_append [OF past(1) out(2)] by simp
  moreover have "rl_encode_inv ?u" using len by (simp add: rl_encode_inv_def)
  ultimately have "rl_progress data ?u"
    using assms(1) past(2) cut by (auto simp: rl_progress_def)
  with out(1) show ?thesis by auto
qed

lemma rl_encode_byte_progress:
  assumes "rl_progress data s"
  shows "\<exists>t. rl_encode_byte vec_sink s b = Done t \<and> rl_progress (data @ [b]) t"
proof -
  have inv: "rl_encode_inv s" using assms by (simp add: rl_progress_def)
  then have st: "(rl_state s = RL_Top) = (rl_length s \<le> 1)" "rl_length s \<le> 128"
    "length (rl_buf s) = 128" by (simp_all add: rl_encode_inv_def)
  let ?same = "rl_length s > 0 \<and> (rl_state s = RL_Copying \<or> rl_length s < 128) \<and>
      b = rl_buf s ! (rl_length s - 1)"
  have fresh: "rl_encode_byte vec_sink s b =
      seq (if rl_length s = 128 \<or> rl_state s = RL_Run then flush_encode vec_sink s
           else if rl_length s > 0 then Done (s\<lparr>rl_state := RL_Copying\<rparr>) else Done s)
        (\<lambda>s. Done (rl_push s b))" if "\<not> ?same"
    using st(1) that by (simp only: rl_encode_byte_def if_False simp_thms)
  consider (copying) "?same" "rl_state s = RL_Copying" | (run) "?same" "rl_state s \<noteq> RL_Copying"
    | (flush) "\<not> ?same" "rl_length s = 128 \<or> rl_state s = RL_Run"
    | (literal) "\<not> ?same" "rl_length s < 128" "rl_state s \<noteq> RL_Run" "0 < rl_length s"
    | (first) "\<not> ?same" "rl_length s = 0"
    using st by force
  then show ?thesis
  proof cases
    case copying
    then obtain t where t: "flush_encode vec_sink (s\<lparr>rl_length := rl_length s - 1\<rparr>) = Done t"
      "rl_progress data (t\<lparr>rl_buf := (rl_buf t)[0 := b], rl_length := 1\<rparr>)"
      using rl_progress_split [OF assms] by blast
    have "length (rl_buf t) = 128"
      using t(2) by (simp add: rl_progress_def rl_encode_inv_def)
    then have "take 1 ((rl_buf t)[0 := b]) = [b]" by (cases "rl_buf t") auto
    then have "rl_progress (data @ [b])
        (rl_push ((t\<lparr>rl_buf := (rl_buf t)[0 := b], rl_length := 1\<rparr>)\<lparr>rl_state := RL_Run\<rparr>) b)"
      by (intro rl_progress_push [OF t(2)]) (simp_all add: rl_pending_def)
    then show ?thesis using copying st t(1) by (simp add: rl_encode_byte_def)
  next
    case run
    have "rl_pending s = replicate (rl_length s) b"
    proof (cases "rl_state s = RL_Run")
      case True
      then have rep: "rl_pending s = replicate (rl_length s) (hd (rl_buf s))"
        using inv by (simp add: rl_encode_inv_def rl_pending_def)
      have "rl_pending s ! (rl_length s - 1) = b"
        using run by (simp add: rl_pending_def)
      then show ?thesis using rep run(1) by simp
    next
      case False
      then have "rl_length s = 1" using run st by (cases "rl_state s") auto
      then show ?thesis using run st by (cases "rl_buf s") (auto simp: rl_pending_def)
    qed
    then have "rl_progress (data @ [b]) (rl_push (s\<lparr>rl_state := RL_Run\<rparr>) b)"
      using run by (intro rl_progress_push [OF assms]) auto
    then show ?thesis using run st by (simp add: rl_encode_byte_def)
  next
    case flush
    obtain t where t: "flush_encode vec_sink s = Done t" "rl_progress data t" "rl_length t = 0"
      using rl_progress_flush [OF assms] by blast
    then have top: "t\<lparr>rl_state := RL_Top\<rparr> = t"
      by (cases t) (simp add: rl_progress_def rl_encode_inv_def)
    have "rl_progress (data @ [b]) (rl_push (t\<lparr>rl_state := RL_Top\<rparr>) b)"
      using t by (intro rl_progress_push) auto
    then show ?thesis using fresh [OF flush(1)] flush(2) t(1) top by simp
  next
    case literal
    have "rl_progress (data @ [b]) (rl_push (s\<lparr>rl_state := RL_Copying\<rparr>) b)"
      using literal by (intro rl_progress_push [OF assms]) auto
    then show ?thesis using fresh [OF literal(1)] literal(2-) by simp
  next
    case first
    then have top: "s\<lparr>rl_state := RL_Top\<rparr> = s" using st by (cases s) simp
    have "rl_progress (data @ [b]) (rl_push (s\<lparr>rl_state := RL_Top\<rparr>) b)"
      using first by (intro rl_progress_push [OF assms]) auto
    then show ?thesis using fresh [OF first(1)] first(2) st(1) top by simp
  qed
qed

lemma rl_encode_progress:
  "rl_progress past s \<Longrightarrow>
   \<exists>t. foldm (rl_encode_byte vec_sink) s data = Done t \<and> rl_progress (past @ data) t"
proof (induction data arbitrary: past s)
  case Nil
  then show ?case by simp
next
  case (Cons b data)
  obtain t where t: "rl_encode_byte vec_sink s b = Done t" "rl_progress (past @ [b]) t"
    using rl_encode_byte_progress [OF Cons.prems] by blast
  then show ?case using Cons.IH [OF t(2)] by simp
qed

definition run_length_encode :: "bytes \<Rightarrow> (pipe_error, bytes) outcome" where
  "run_length_encode data =
     into rl_next (seq (run_length_write vec_sink (run_length_new [] Encode) data)
       (run_length_finish vec_sink))"

text \<open>The encoder succeeds on all data, and what it writes before its end marker expands to the data.\<close>

lemma run_length_encode_Done:
  "\<exists>out. run_length_encode data = Done (out @ [128]) \<and> rl_encodes out data"
proof -
  let ?s = "run_length_new [] Encode :: bytes run_length"
  have "rl_progress [] ?s"
    by (simp add: rl_progress_def rl_encode_inv_def run_length_new_def rl_pending_def rl_encodes_Nil)
  then obtain t where t: "foldm (rl_encode_byte vec_sink) ?s data = Done t" "rl_progress data t"
    using rl_encode_progress [of "[]" ?s data] by auto
  obtain u where u: "flush_encode vec_sink t = Done u" "rl_encodes (rl_next u) data"
    using rl_progress_flush [OF t(2)] by blast
  have "run_length_write vec_sink ?s data = Done t"
    using t(1) by (simp add: run_length_write_def run_length_new_def)
  moreover have "rl_action t = Encode" using t(2) by (simp add: rl_progress_def)
  ultimately have "run_length_encode data = Done (rl_next u @ [128])"
    using u(1) by (simp add: run_length_encode_def run_length_finish_def rl_finish_next_def)
  with u(2) show ?thesis by blast
qed

section \<open>Properties\<close>

text \<open>
  C16: run-length decoding never fails and expands the packets of the input: literal packets, runs,
  the no-op length 128, and what is there of a packet the input cuts off.
\<close>

theorem run_length_decode_packets: "run_length_decode data = Done (rl_expand data)"
  by (rule run_length_decode_eq_expand)

text \<open>
  C15: the run-length encoder never reaches one of its logic errors, ends its output with the
  end-of-data byte, and decoding the output gives the data back.
\<close>

theorem run_length_roundtrip:
  "\<exists>out. run_length_encode data = Done (out @ [128]) \<and> run_length_decode (out @ [128]) = Done data"
proof -
  obtain out where "run_length_encode data = Done (out @ [128])" "rl_encodes out data"
    using run_length_encode_Done by blast
  then show ?thesis by (auto simp: run_length_decode_eq_expand rl_encodes_def)
qed

end
