(* ===== verification/Base64.thy ===== *)
theory Base64
  imports Pipeline
begin

text \<open>
  The Base64 stage (\<open>crates/flpdf/src/pipeline/base64.rs\<close>): encoder and decoder over the four-byte
  quantum buffer, the encoder as the grouping of the standard alphabet, and the theorem that decoding
  recovers the data whatever whitespace is interleaved, whether the URL-safe digits replace the
  standard ones and whether or not the padding is there.
\<close>

section \<open>The stage\<close>

datatype base64_action = B64_Encode | B64_Decode

record 'd base64 =
  b64_identifier :: bytes
  b64_next :: 'd
  b64_action :: base64_action
  b64_buffer :: bytes
  b64_position :: nat
  b64_end_of_data :: bool
  b64_finished :: bool

definition base64_new :: "bytes \<Rightarrow> 'd \<Rightarrow> base64_action \<Rightarrow> 'd base64" where
  "base64_new ident next action =
     \<lparr>b64_identifier = ident, b64_next = next, b64_action = action, b64_buffer = replicate 4 0,
      b64_position = 0, b64_end_of_data = False, b64_finished = False\<rparr>"

definition is_qpdf_space :: "byte \<Rightarrow> bool" where
  "is_qpdf_space b \<longleftrightarrow> b \<in> {0x20, 0x09, 0x0A, 0x0D, 0x0B, 0x0C}"

definition decode_value :: "byte \<Rightarrow> byte option" where
  "decode_value b =
     (if is_ascii_upper b then Some (b - 0x41)
      else if is_ascii_lower b then Some (b - 0x61 + 26)
      else if is_ascii_digit b then Some (b - 0x30 + 52)
      else if b = 0x2B \<or> b = 0x2D then Some 62
      else if b = 0x2F \<or> b = 0x5F then Some 63
      else None)"

text \<open>The last arm is the source's \<open>unreachable!\<close>: every caller passes six bits.\<close>

definition encode_value :: "byte \<Rightarrow> byte" where
  "encode_value v =
     (if v \<le> 25 then 0x41 + v
      else if v \<le> 51 then 0x61 + v - 26
      else if v \<le> 61 then 0x30 + v - 52
      else if v = 62 then 0x2B
      else 0x2F)"

definition b64_write_next ::
  "'d pipeline \<Rightarrow> 'd base64 \<Rightarrow> bytes \<Rightarrow> (pipe_error, 'd base64) outcome" where
  "b64_write_next p s data = into (\<lambda>d. s\<lparr>b64_next := d\<rparr>) (pl_write p (b64_next s) data)"

text \<open>One index of the loop of \<open>flush_decode\<close>, over \<open>self\<close>, \<open>padding\<close> and \<open>output\<close>.\<close>

definition b64_decode_index ::
  "'d base64 \<times> nat \<times> 32 word \<Rightarrow> nat \<Rightarrow> (pipe_error, 'd base64 \<times> nat \<times> 32 word) outcome" where
  "b64_decode_index = (\<lambda>(s, padding, output) index.
     let byte = b64_buffer s ! index in
     case decode_value byte of
       Some value \<Rightarrow> Done (s, padding, output OR push_bit (18 - 6 * index) (ucast value))
     | None \<Rightarrow>
         if byte = 0x3D \<and> (index = 3 \<or> index = 2 \<and> b64_buffer s ! 3 = 0x3D)
         then Done (s\<lparr>b64_end_of_data := True\<rparr>, padding + 1, output)
         else Fail (Runtime (b64_identifier s @ str '': base64 decode: invalid input'')) (s, padding, output))"

definition b64_flush_decode :: "'d pipeline \<Rightarrow> 'd base64 \<Rightarrow> (pipe_error, 'd base64) outcome" where
  "b64_flush_decode p s =
     (if b64_end_of_data s
      then Fail (Runtime (b64_identifier s @ str '': base64 decode: data follows pad characters'')) s
      else
        case foldm b64_decode_index (s, 0, 0) [0, 1, 2, 3] of
          Fail e (s, padding, output) \<Rightarrow> Fail e s
        | Done (s, padding, output) \<Rightarrow>
            b64_write_next p s
              (take (3 - padding) [ucast (drop_bit 16 output), ucast (drop_bit 8 output), ucast output]))"

definition b64_encode_quantum :: "bytes \<Rightarrow> nat \<Rightarrow> bytes" where
  "b64_encode_quantum buffer position =
     (let inp = push_bit 16 (ucast (buffer ! 0)) OR push_bit 8 (ucast (buffer ! 1)) OR ucast (buffer ! 2) :: 32 word;
          encoded = [encode_value (ucast (drop_bit 18 inp)),
                     encode_value (ucast (drop_bit 12 inp AND 0x3F)),
                     encode_value (ucast (drop_bit 6 inp AND 0x3F)),
                     encode_value (ucast (inp AND 0x3F))]
      in foldl (\<lambda>encoded index. encoded[3 - index := 0x3D]) encoded [0..<3 - position])"

definition b64_flush_encode :: "'d pipeline \<Rightarrow> 'd base64 \<Rightarrow> (pipe_error, 'd base64) outcome" where
  "b64_flush_encode p s = b64_write_next p s (b64_encode_quantum (b64_buffer s) (b64_position s))"

definition b64_flush_quantum :: "'d pipeline \<Rightarrow> 'd base64 \<Rightarrow> (pipe_error, 'd base64) outcome" where
  "b64_flush_quantum p s =
     seq (case b64_action s of
            B64_Encode \<Rightarrow> b64_flush_encode p s
          | B64_Decode \<Rightarrow> b64_flush_decode p s)
       (\<lambda>s. Done (s\<lparr>b64_position := 0, b64_buffer := replicate 4 0\<rparr>))"

definition b64_push :: "'d base64 \<Rightarrow> byte \<Rightarrow> 'd base64" where
  "b64_push s byte =
     s\<lparr>b64_buffer := (b64_buffer s)[b64_position s := byte], b64_position := b64_position s + 1\<rparr>"

text \<open>The loop body of \<open>write\<close>, one arm per action.\<close>

definition b64_encode_byte :: "'d pipeline \<Rightarrow> 'd base64 \<Rightarrow> byte \<Rightarrow> (pipe_error, 'd base64) outcome" where
  "b64_encode_byte p s byte =
     (let s = b64_push s byte in if b64_position s = 3 then b64_flush_quantum p s else Done s)"

definition b64_decode_byte :: "'d pipeline \<Rightarrow> 'd base64 \<Rightarrow> byte \<Rightarrow> (pipe_error, 'd base64) outcome" where
  "b64_decode_byte p s byte =
     (if is_qpdf_space byte then Done s
      else let s = b64_push s byte in if b64_position s = 4 then b64_flush_quantum p s else Done s)"

definition base64_write :: "'d pipeline \<Rightarrow> 'd base64 \<Rightarrow> bytes \<Rightarrow> (pipe_error, 'd base64) outcome" where
  "base64_write p s data =
     (if b64_finished s then Fail (logic ''Pl_Base64 used after finished'') s
      else case b64_action s of
             B64_Encode \<Rightarrow> foldm (b64_encode_byte p) s data
           | B64_Decode \<Rightarrow> foldm (b64_decode_byte p) s data)"

definition base64_finish :: "'d pipeline \<Rightarrow> 'd base64 \<Rightarrow> (pipe_error, 'd base64) outcome" where
  "base64_finish p s =
     seq (if b64_position s > 0 then
            if b64_finished s then Fail (logic ''Pl_Base64 used after finished'') s
            else b64_flush_quantum p
                   (if b64_action s = B64_Decode
                    then s\<lparr>b64_buffer := take (b64_position s) (b64_buffer s) @
                             replicate (length (b64_buffer s) - b64_position s) 0x3D\<rparr>
                    else s)
          else Done s)
       (\<lambda>s. let s = s\<lparr>b64_finished := True\<rparr>
            in into (\<lambda>d. s\<lparr>b64_next := d\<rparr>) (pl_finish p (b64_next s)))"

section \<open>The split law\<close>

text \<open>Neither the action nor the \<open>finished\<close> flag changes while data is written.\<close>

definition b64_mode :: "'d base64 \<Rightarrow> base64_action \<times> bool" where
  "b64_mode s = (b64_action s, b64_finished s)"

lemma b64_write_next_mode [simp]: "b64_mode (outcome_state (b64_write_next p s data)) = b64_mode s"
  by (simp add: b64_write_next_def b64_mode_def)

lemma b64_decode_index_mode:
  "b64_mode (fst (outcome_state (b64_decode_index x i))) = b64_mode (fst x)"
  by (cases x) (auto simp: b64_decode_index_def b64_mode_def Let_def split: option.split)

lemma b64_flush_decode_mode [simp]: "b64_mode (outcome_state (b64_flush_decode p s)) = b64_mode s"
proof -
  let ?r = "foldm b64_decode_index (s, 0, 0) [0, 1, 2, 3]"
  have "b64_mode (fst (outcome_state ?r)) = b64_mode s"
    by (rule foldm_invariant [where P = "\<lambda>x. b64_mode (fst x) = b64_mode s"])
      (simp_all add: b64_decode_index_mode)
  then show ?thesis
    by (cases ?r) (auto simp: b64_flush_decode_def simp del: foldm.simps)
qed

lemma b64_flush_quantum_mode [simp]: "b64_mode (outcome_state (b64_flush_quantum p s)) = b64_mode s"
proof -
  let ?r = "case b64_action s of B64_Encode \<Rightarrow> b64_flush_encode p s | B64_Decode \<Rightarrow> b64_flush_decode p s"
  have "b64_mode (outcome_state ?r) = b64_mode s"
    by (simp add: b64_flush_encode_def split: base64_action.split)
  then show ?thesis
    by (cases ?r) (auto simp: b64_flush_quantum_def b64_mode_def)
qed

lemma b64_push_mode [simp]: "b64_mode (b64_push s b) = b64_mode s"
  by (simp add: b64_push_def b64_mode_def)

lemma b64_byte_mode [simp]:
  "b64_mode (outcome_state (b64_encode_byte p s b)) = b64_mode s"
  "b64_mode (outcome_state (b64_decode_byte p s b)) = b64_mode s"
  by (simp_all add: b64_encode_byte_def b64_decode_byte_def Let_def)

lemma b64_foldm_mode:
  "b64_mode (outcome_state (foldm (b64_encode_byte p) s data)) = b64_mode s"
  "b64_mode (outcome_state (foldm (b64_decode_byte p) s data)) = b64_mode s"
  by (rule foldm_invariant [where P = "\<lambda>t. b64_mode t = b64_mode s"]; simp)+

interpretation base64: split_stage "base64_write p" for p
proof unfold_locales
  fix s :: "'a base64" and xs ys
  have "b64_mode (outcome_state (base64_write p s xs)) = b64_mode s"
    by (simp add: base64_write_def b64_foldm_mode split: base64_action.split)
  then show "base64_write p s (xs @ ys) = seq (base64_write p s xs) (\<lambda>t. base64_write p t ys)"
    by (cases "b64_action s"; cases "base64_write p s xs")
      (auto simp: base64_write_def foldm_append b64_mode_def split: if_splits)
qed

section \<open>The reference encoding\<close>

text \<open>Three bytes as four six-bit digits (RFC 4648), the last group cut and padded.\<close>

definition b64_sextets :: "byte \<Rightarrow> byte \<Rightarrow> byte \<Rightarrow> bytes" where
  "b64_sextets a b c =
     [drop_bit 2 a, push_bit 4 (a AND 3) OR drop_bit 4 b, push_bit 2 (b AND 15) OR drop_bit 6 c, c AND 0x3F]"

fun base64_reference :: "bytes \<Rightarrow> bytes" where
  "base64_reference (a # b # c # rest) = map encode_value (b64_sextets a b c) @ base64_reference rest"
| "base64_reference [a, b] = take 3 (map encode_value (b64_sextets a b 0)) @ [0x3D]"
| "base64_reference [a] = take 2 (map encode_value (b64_sextets a 0 0)) @ [0x3D, 0x3D]"
| "base64_reference [] = []"

lemma b64_split_bits:
  fixes a b c :: byte
  defines "inp \<equiv> push_bit 16 (ucast a) OR push_bit 8 (ucast b) OR ucast c :: 32 word"
  shows "ucast (drop_bit 18 inp) = drop_bit 2 a"
    "ucast (drop_bit 12 inp AND 0x3F) = push_bit 4 (a AND 3) OR drop_bit 4 b"
    "ucast (drop_bit 6 inp AND 0x3F) = push_bit 2 (b AND 15) OR drop_bit 6 c"
    "ucast (inp AND 0x3F) = c AND 0x3F"
  unfolding inp_def by (rule byte_bitsI; simp add: bit_simps byte_bit_high)+

lemma b64_join_bits:
  fixes a b c :: byte
  defines "out \<equiv> push_bit 18 (ucast (drop_bit 2 a)) OR
     push_bit 12 (ucast (push_bit 4 (a AND 3) OR drop_bit 4 b)) OR
     push_bit 6 (ucast (push_bit 2 (b AND 15) OR drop_bit 6 c)) OR ucast (c AND 0x3F) :: 32 word"
  shows "ucast (drop_bit 16 out) = a" "ucast (drop_bit 8 out) = b" "ucast out = c"
  unfolding out_def by (rule byte_bitsI; simp add: bit_simps byte_bit_high)+

lemma b64_encode_quantum_eq:
  assumes "buffer ! 0 = a" "buffer ! 1 = b" "buffer ! 2 = c"
  shows "b64_encode_quantum buffer 3 = map encode_value (b64_sextets a b c)"
    "b64_encode_quantum buffer 2 = take 3 (map encode_value (b64_sextets a b c)) @ [0x3D]"
    "b64_encode_quantum buffer 1 = take 2 (map encode_value (b64_sextets a b c)) @ [0x3D, 0x3D]"
  unfolding b64_encode_quantum_def Let_def assms b64_split_bits b64_sextets_def
  by (simp_all add: eval_nat_numeral)

section \<open>Encoding\<close>

definition base64_encode :: "bytes \<Rightarrow> (pipe_error, bytes) outcome" where
  "base64_encode data =
     into b64_next (seq (base64_write vec_sink (base64_new [] [] B64_Encode) data) (base64_finish vec_sink))"

lemma b64_write_next_vec [simp]:
  "b64_write_next vec_sink s data = Done (s\<lparr>b64_next := b64_next s @ data\<rparr>)"
  by (simp add: b64_write_next_def)

text \<open>The states between two writes: a quantum buffer with the pending bytes, zeros behind them.\<close>

definition b64_pending :: "base64_action \<Rightarrow> bytes \<Rightarrow> bytes \<Rightarrow> bytes base64 \<Rightarrow> bool" where
  "b64_pending action out ds s \<longleftrightarrow>
     b64_action s = action \<and> \<not> b64_finished s \<and> \<not> b64_end_of_data s \<and> b64_next s = out \<and>
     b64_position s = length ds \<and> length ds \<le> 4 \<and> b64_buffer s = ds @ replicate (4 - length ds) 0"

lemma b64_pending_new: "b64_pending action [] [] (base64_new ident [] action)"
  by (simp add: b64_pending_def base64_new_def)

lemma b64_pending_push:
  "b64_pending action out ds s \<Longrightarrow> length ds < 4 \<Longrightarrow> b64_pending action out (ds @ [b]) (b64_push s b)"
  by (cases "4 - length ds") (auto simp: b64_pending_def b64_push_def list_update_append)

lemma b64_encode_flush:
  assumes "b64_pending B64_Encode out ds s"
  shows "\<exists>t. b64_flush_quantum vec_sink s = Done t \<and>
     b64_pending B64_Encode (out @ b64_encode_quantum (b64_buffer s) (length ds)) [] t"
  using assms by (auto simp: b64_flush_quantum_def b64_flush_encode_def b64_pending_def)

lemma b64_encode_store:
  "b64_pending B64_Encode out ds s \<Longrightarrow> length ds < 2 \<Longrightarrow>
   b64_encode_byte p s b = Done (b64_push s b)"
  by (auto simp: b64_encode_byte_def b64_pending_def b64_push_def Let_def)

lemma b64_encode_group:
  assumes "b64_pending B64_Encode out [] s"
  shows "\<exists>t. foldm (b64_encode_byte vec_sink) s [a, b, c] = Done t \<and>
     b64_pending B64_Encode (out @ map encode_value (b64_sextets a b c)) [] t"
proof -
  let ?s1 = "b64_push s a" and ?s2 = "b64_push (b64_push s a) b"
  let ?s3 = "b64_push ?s2 c"
  have p1: "b64_pending B64_Encode out [a] ?s1" using b64_pending_push [OF assms, of a] by simp
  have p2: "b64_pending B64_Encode out [a, b] ?s2" using b64_pending_push [OF p1, of b] by simp
  have p3: "b64_pending B64_Encode out [a, b, c] ?s3" using b64_pending_push [OF p2, of c] by simp
  have buf: "b64_buffer ?s3 ! 0 = a" "b64_buffer ?s3 ! 1 = b" "b64_buffer ?s3 ! 2 = c"
    using p3 by (simp_all add: b64_pending_def)
  obtain t where t: "b64_flush_quantum vec_sink ?s3 = Done t"
    "b64_pending B64_Encode (out @ b64_encode_quantum (b64_buffer ?s3) (length [a, b, c])) [] t"
    using b64_encode_flush [OF p3] by blast
  have "length [a, b, c] = 3" by simp
  then have t2: "b64_pending B64_Encode (out @ map encode_value (b64_sextets a b c)) [] t"
    using t(2) b64_encode_quantum_eq(1) [OF buf] by (simp only:)
  have "b64_encode_byte vec_sink ?s2 c = Done t"
    using t(1) p3 by (simp add: b64_encode_byte_def Let_def b64_pending_def)
  then have "foldm (b64_encode_byte vec_sink) s [a, b, c] = Done t"
    using b64_encode_store [OF assms, of vec_sink a] b64_encode_store [OF p1, of vec_sink b] by simp
  with t2 show ?thesis by blast
qed

lemma b64_finish_empty:
  "b64_pending action out [] s \<Longrightarrow> into b64_next (base64_finish vec_sink s) = Done out"
  by (simp add: base64_finish_def b64_pending_def)

lemma b64_encode_finish:
  assumes "b64_pending B64_Encode out ds s" "ds \<noteq> []"
  shows "into b64_next (base64_finish vec_sink s) =
    Done (out @ b64_encode_quantum (b64_buffer s) (length ds))"
  using b64_encode_flush [OF assms(1)] assms by (auto simp: base64_finish_def b64_pending_def)

lemma b64_encode_steps:
  "b64_pending B64_Encode out [] s \<Longrightarrow>
   into b64_next (seq (foldm (b64_encode_byte vec_sink) s data) (base64_finish vec_sink)) =
     Done (out @ base64_reference data)"
proof (induction data arbitrary: s out rule: base64_reference.induct)
  case (1 a b c rest)
  obtain t where t: "foldm (b64_encode_byte vec_sink) s [a, b, c] = Done t"
    "b64_pending B64_Encode (out @ map encode_value (b64_sextets a b c)) [] t"
    using b64_encode_group [OF "1.prems"] by blast
  have "foldm (b64_encode_byte vec_sink) s ([a, b, c] @ rest) = foldm (b64_encode_byte vec_sink) t rest"
    using t(1) by (simp only: foldm_append seq.simps)
  then show ?case using "1.IH" [OF t(2)] by simp
next
  case (2 a b)
  have p1: "b64_pending B64_Encode out [a] (b64_push s a)" using b64_pending_push [OF "2.prems", of a] by simp
  have p2: "b64_pending B64_Encode out [a, b] (b64_push (b64_push s a) b)"
    using b64_pending_push [OF p1, of b] by simp
  let ?t = "b64_push (b64_push s a) b"
  have fold: "foldm (b64_encode_byte vec_sink) s [a, b] = Done ?t"
    using b64_encode_store [OF "2.prems"] b64_encode_store [OF p1] by simp
  have "b64_buffer ?t ! 0 = a" "b64_buffer ?t ! 1 = b" "b64_buffer ?t ! 2 = 0"
    using p2 by (simp_all add: b64_pending_def)
  note quantum = b64_encode_quantum_eq(2) [OF this]
  have "length [a, b] = 2" by simp
  then show ?case using b64_encode_finish [OF p2]
    unfolding fold seq.simps base64_reference.simps by (simp only: quantum list.distinct simp_thms)
next
  case (3 a)
  have p1: "b64_pending B64_Encode out [a] (b64_push s a)" using b64_pending_push [OF "3.prems", of a] by simp
  let ?t = "b64_push s a"
  have fold: "foldm (b64_encode_byte vec_sink) s [a] = Done ?t"
    using b64_encode_store [OF "3.prems"] by simp
  have "b64_buffer ?t ! 0 = a" "b64_buffer ?t ! 1 = 0" "b64_buffer ?t ! 2 = 0"
    using p1 by (simp_all add: b64_pending_def)
  note quantum = b64_encode_quantum_eq(3) [OF this]
  have "length [a] = 1" by simp
  then show ?case using b64_encode_finish [OF p1]
    unfolding fold seq.simps base64_reference.simps by (simp only: quantum list.distinct simp_thms)
next
  case 4
  then show ?case using b64_finish_empty [OF 4] by (simp add: id_def)
qed


section \<open>Decoding\<close>

definition base64_decode :: "bytes \<Rightarrow> (pipe_error, bytes) outcome" where
  "base64_decode data =
     into b64_next (seq (base64_write vec_sink (base64_new [] [] B64_Decode) data) (base64_finish vec_sink))"

text \<open>The digit of the standard alphabet that a URL-safe digit stands for.\<close>

definition b64_canonical :: "byte \<Rightarrow> byte" where
  "b64_canonical b = (if b = 0x2D then 0x2B else if b = 0x5F then 0x2F else b)"

lemma decode_value_canonical: "decode_value (b64_canonical b) = decode_value b"
  by (simp add: b64_canonical_def decode_value_def is_ascii_upper_def is_ascii_lower_def is_ascii_digit_def)

lemma b64_canonical_pad: "b64_canonical b = 0x3D \<longleftrightarrow> b = 0x3D"
  by (simp add: b64_canonical_def)

lemma decode_encode_value: "v < 64 \<Longrightarrow> decode_value (encode_value v) = Some v"
proof -
  have "v < 64 \<longrightarrow> decode_value (encode_value v) = Some v"
    by (rule all_bytesI [where b = v]) code_simp
  then show "v < 64 \<Longrightarrow> decode_value (encode_value v) = Some v" by simp
qed

lemma decode_value_arm: "decode_value b = Some v \<Longrightarrow> \<not> is_qpdf_space b \<and> b \<noteq> 0x3D"
  by (auto simp: decode_value_def is_qpdf_space_def is_ascii_upper_def is_ascii_lower_def
    is_ascii_digit_def split: if_splits)

lemma decode_value_pad [simp]: "decode_value 0x3D = None"
  by (simp add: decode_value_def is_ascii_upper_def is_ascii_lower_def is_ascii_digit_def)

lemma b64_sextets_less: "v \<in> set (b64_sextets a b c) \<Longrightarrow> v < 64"
proof -
  have "(x AND mask 6 :: byte) < 64" for x using and_mask_less' [of 6 x] by simp
  moreover have "drop_bit 2 a = drop_bit 2 a AND mask 6"
    "push_bit 4 (a AND 3) OR drop_bit 4 b = (push_bit 4 (a AND 3) OR drop_bit 4 b) AND mask 6"
    "push_bit 2 (b AND 15) OR drop_bit 6 c = (push_bit 2 (b AND 15) OR drop_bit 6 c) AND mask 6"
    "c AND 0x3F = (c AND 0x3F) AND mask 6"
    by (rule byte_bitsI; simp add: bit_simps byte_bit_high)+
  ultimately show "v \<in> set (b64_sextets a b c) \<Longrightarrow> v < 64"
    by (auto simp: b64_sextets_def) metis+
qed

text \<open>What the quantum buffer decodes to: three bytes, or two or one before the padding.\<close>

lemma b64_decode_full:
  assumes "b64_buffer s = ds" "\<not> b64_end_of_data s" "map decode_value ds = map Some (b64_sextets a b c)"
  shows "b64_flush_decode vec_sink s = Done (s\<lparr>b64_next := b64_next s @ [a, b, c]\<rparr>)"
proof -
  obtain d0 d1 d2 d3 where ds: "ds = [d0, d1, d2, d3]"
    "decode_value d0 = Some (drop_bit 2 a)"
    "decode_value d1 = Some (push_bit 4 (a AND 3) OR drop_bit 4 b)"
    "decode_value d2 = Some (push_bit 2 (b AND 15) OR drop_bit 6 c)"
    "decode_value d3 = Some (c AND 0x3F)"
    using assms(3) by (auto simp: b64_sextets_def map_eq_Cons_conv)
  have "foldm b64_decode_index (s, 0, 0) [0, 1, 2, 3] = Done (s, 0,
      push_bit 18 (ucast (drop_bit 2 a)) OR push_bit 12 (ucast (push_bit 4 (a AND 3) OR drop_bit 4 b)) OR
      push_bit 6 (ucast (push_bit 2 (b AND 15) OR drop_bit 6 c)) OR ucast (c AND 0x3F))"
    using ds assms(1) by (simp add: b64_decode_index_def Let_def or.assoc)
  then show ?thesis using assms(2)
    by (simp only: b64_flush_decode_def if_False outcome.case prod.case b64_join_bits b64_write_next_vec)
      simp
qed

lemma b64_decode_two:
  assumes "b64_buffer s = ds @ [0x3D]" "\<not> b64_end_of_data s"
    "map decode_value ds = map Some (take 3 (b64_sextets a b 0))"
  shows "b64_flush_decode vec_sink s = Done (s\<lparr>b64_next := b64_next s @ [a, b], b64_end_of_data := True\<rparr>)"
proof -
  obtain d0 d1 d2 where ds: "ds = [d0, d1, d2]"
    "decode_value d0 = Some (drop_bit 2 a)"
    "decode_value d1 = Some (push_bit 4 (a AND 3) OR drop_bit 4 b)"
    "decode_value d2 = Some (push_bit 2 (b AND 15))"
    using assms(3) by (auto simp: b64_sextets_def map_eq_Cons_conv)
  have "foldm b64_decode_index (s, 0, 0) [0, 1, 2, 3] = Done (s\<lparr>b64_end_of_data := True\<rparr>, 1,
      push_bit 18 (ucast (drop_bit 2 a)) OR push_bit 12 (ucast (push_bit 4 (a AND 3) OR drop_bit 4 b)) OR
      push_bit 6 (ucast (push_bit 2 (b AND 15) OR drop_bit 6 0)) OR ucast (0 AND 0x3F :: byte))"
    using ds assms(1) by (simp add: b64_decode_index_def Let_def or.assoc)
  then show ?thesis using assms(2)
    by (simp only: b64_flush_decode_def if_False outcome.case prod.case b64_join_bits b64_write_next_vec)
      (cases s; simp)
qed

lemma b64_decode_one:
  assumes "b64_buffer s = ds @ [0x3D, 0x3D]" "\<not> b64_end_of_data s"
    "map decode_value ds = map Some (take 2 (b64_sextets a 0 0))"
  shows "b64_flush_decode vec_sink s = Done (s\<lparr>b64_next := b64_next s @ [a], b64_end_of_data := True\<rparr>)"
proof -
  obtain d0 d1 where ds: "ds = [d0, d1]"
    "decode_value d0 = Some (drop_bit 2 a)"
    "decode_value d1 = Some (push_bit 4 (a AND 3))"
    using assms(3) by (auto simp: b64_sextets_def map_eq_Cons_conv eval_nat_numeral)
  have "foldm b64_decode_index (s, 0, 0) [0, 1, 2, 3] = Done (s\<lparr>b64_end_of_data := True\<rparr>, 2,
      push_bit 18 (ucast (drop_bit 2 a)) OR push_bit 12 (ucast (push_bit 4 (a AND 3) OR drop_bit 4 0)) OR
      push_bit 6 (ucast (push_bit 2 (0 AND 15) OR drop_bit 6 0 :: byte)) OR ucast (0 AND 0x3F :: byte))"
    using ds assms(1) by (simp add: b64_decode_index_def Let_def or.assoc)
  then show ?thesis using assms(2)
    by (simp only: b64_flush_decode_def if_False outcome.case prod.case b64_join_bits b64_write_next_vec)
      (cases s; simp)
qed

text \<open>Digits are stored until the quantum is full; whitespace never reaches the buffer.\<close>

lemma b64_decode_skip_space:
  "foldm (b64_decode_byte p) s data = foldm (b64_decode_byte p) s (filter (\<lambda>b. \<not> is_qpdf_space b) data)"
proof (induction data arbitrary: s)
  case Nil
  then show ?case by simp
next
  case (Cons b data)
  have "is_qpdf_space b \<Longrightarrow> b64_decode_byte p s b = Done s" by (simp add: b64_decode_byte_def)
  then show ?case by (cases "b64_decode_byte p s b") (auto simp: Cons.IH)
qed

lemma b64_decode_store:
  "b64_pending B64_Decode out ds s \<Longrightarrow> list_all (\<lambda>b. \<not> is_qpdf_space b) es \<Longrightarrow>
   length ds + length es < 4 \<Longrightarrow>
   \<exists>t. foldm (b64_decode_byte p) s es = Done t \<and> b64_pending B64_Decode out (ds @ es) t"
proof (induction es arbitrary: ds s)
  case Nil
  then show ?case by simp
next
  case (Cons e es)
  have push: "b64_pending B64_Decode out (ds @ [e]) (b64_push s e)"
    using Cons.prems by (intro b64_pending_push) auto
  then have "b64_decode_byte p s e = Done (b64_push s e)"
    using Cons.prems by (simp add: b64_decode_byte_def Let_def b64_pending_def)
  then show ?case using Cons.IH [OF push] Cons.prems by simp
qed

lemma b64_decode_quantum:
  assumes "b64_pending B64_Decode out [] s" "list_all (\<lambda>b. \<not> is_qpdf_space b) es" "length es = 4"
  shows "\<exists>t. foldm (b64_decode_byte p) s es = b64_flush_quantum p t \<and> b64_pending B64_Decode out es t"
proof -
  obtain fs e where es: "es = fs @ [e]" "length fs = 3"
    using assms(3) by (cases es rule: rev_cases) auto
  obtain t where t: "foldm (b64_decode_byte p) s fs = Done t" "b64_pending B64_Decode out fs t"
    using b64_decode_store [OF assms(1), of fs p] assms(2) es by auto
  have push: "b64_pending B64_Decode out es (b64_push t e)"
    using b64_pending_push [OF t(2), of e] es by simp
  then have "b64_decode_byte p t e = b64_flush_quantum p (b64_push t e)"
    using assms(2,3) es by (simp add: b64_decode_byte_def Let_def b64_pending_def)
  then show ?thesis using t(1) push es by (auto simp: foldm_append)
qed

lemma b64_decode_finish:
  assumes "b64_pending B64_Decode out ds s" "ds \<noteq> []"
  shows "base64_finish vec_sink s =
    seq (b64_flush_quantum vec_sink (s\<lparr>b64_buffer := ds @ replicate (4 - length ds) 0x3D\<rparr>))
      (\<lambda>s. Done (s\<lparr>b64_finished := True\<rparr>))"
  using assms by (simp add: base64_finish_def b64_pending_def Let_def)

lemma b64_digits_prefix:
  "map encode_value vs @ xs = cs @ pad \<Longrightarrow> set pad \<subseteq> {0x3D} \<Longrightarrow> \<forall>v \<in> set vs. v < 64 \<Longrightarrow>
   \<exists>cs'. cs = map encode_value vs @ cs' \<and> xs = cs' @ pad"
proof (induction vs arbitrary: cs)
  case Nil
  then show ?case by simp
next
  case (Cons v vs)
  have "encode_value v \<noteq> 0x3D" using decode_encode_value [of v] Cons.prems(3) by force
  then have "cs \<noteq> []" using Cons.prems(1,2) by (cases pad) auto
  then show ?case using Cons by (cases cs) auto
qed

lemma b64_canonical_digits:
  "map b64_canonical fs = map encode_value vs @ cs \<Longrightarrow> \<forall>v \<in> set vs. v < 64 \<Longrightarrow>
   \<exists>es gs. fs = es @ gs \<and> map decode_value es = map Some vs \<and> map b64_canonical gs = cs"
proof -
  assume eq: "map b64_canonical fs = map encode_value vs @ cs" and small: "\<forall>v \<in> set vs. v < 64"
  then obtain es gs where es: "fs = es @ gs" "map b64_canonical es = map encode_value vs"
    "map b64_canonical gs = cs" by (auto simp: map_eq_append_conv)
  have "map decode_value es = map decode_value (map b64_canonical es)"
    by (simp add: decode_value_canonical)
  also have "\<dots> = map Some vs" using es(2) small by (simp add: decode_encode_value)
  finally show ?thesis using es by blast
qed

lemma b64_digits_no_space:
  "map decode_value es = map Some vs \<Longrightarrow> list_all (\<lambda>b. \<not> is_qpdf_space b) es"
  by (induction es arbitrary: vs) (auto simp: decode_value_arm)

text \<open>The last quantum ends the same way with all its padding, some of it or none.\<close>

lemma b64_decode_tail:
  assumes pend: "b64_pending B64_Decode out [] s" and es: "list_all (\<lambda>b. \<not> is_qpdf_space b) es"
    and len: "es \<noteq> []" "length es + k = 4" "j \<le> k"
    and flush: "\<And>t. b64_buffer t = es @ replicate k 0x3D \<Longrightarrow> \<not> b64_end_of_data t \<Longrightarrow>
      b64_flush_decode vec_sink t = Done (t\<lparr>b64_next := b64_next t @ data, b64_end_of_data := True\<rparr>)"
  shows "into b64_next (seq (foldm (b64_decode_byte vec_sink) s (es @ replicate j 0x3D))
     (base64_finish vec_sink)) = Done (out @ data)"
proof -
  let ?ds = "es @ replicate j 0x3D"
  have plain: "list_all (\<lambda>b. \<not> is_qpdf_space b) ?ds"
  proof -
    have "\<not> is_qpdf_space 0x3D" by (simp add: is_qpdf_space_def)
    then show ?thesis using es by (auto simp: list_all_iff in_set_replicate)
  qed
  show ?thesis
  proof (cases "j = k")
    case True
    then obtain t where t: "foldm (b64_decode_byte vec_sink) s ?ds = b64_flush_quantum vec_sink t"
      "b64_pending B64_Decode out ?ds t"
      using b64_decode_quantum [OF pend plain] len by auto
    then have "b64_flush_decode vec_sink t = Done (t\<lparr>b64_next := b64_next t @ data, b64_end_of_data := True\<rparr>)"
      using True len by (intro flush) (auto simp: b64_pending_def)
    then show ?thesis using t True
      by (simp add: b64_flush_quantum_def b64_pending_def base64_finish_def Let_def)
  next
    case False
    then obtain t where t: "foldm (b64_decode_byte vec_sink) s ?ds = Done t"
      "b64_pending B64_Decode out ?ds t"
      using b64_decode_store [OF pend plain] len by auto
    let ?t = "t\<lparr>b64_buffer := es @ replicate k 0x3D\<rparr>"
    have fill: "?ds @ replicate (4 - length ?ds) 0x3D = es @ replicate k 0x3D"
      using len by (simp add: replicate_add [symmetric])
    have "b64_flush_decode vec_sink ?t = Done (?t\<lparr>b64_next := b64_next ?t @ data, b64_end_of_data := True\<rparr>)"
      using t(2) by (intro flush) (auto simp: b64_pending_def)
    then have "base64_finish vec_sink t = Done (?t\<lparr>b64_next := b64_next t @ data, b64_end_of_data := True,
        b64_position := 0, b64_buffer := replicate 4 0, b64_finished := True\<rparr>)"
      using b64_decode_finish [OF t(2)] len(1) t(2)
      unfolding fill by (simp add: b64_flush_quantum_def b64_pending_def)
    then show ?thesis using t by (simp add: b64_pending_def)
  qed
qed

lemma replicate_split: "replicate k x = cs @ pad \<Longrightarrow> cs = replicate (length cs) x \<and> length cs \<le> k"
  by (metis append_eq_conv_conj le_add1 length_append length_replicate min_def take_replicate)

lemma b64_canonical_padding:
  "map b64_canonical gs = replicate n 0x3D \<Longrightarrow> gs = replicate n 0x3D"
  by (induction gs arbitrary: n) (auto simp: Cons_replicate_eq b64_canonical_pad)

lemma b64_padding_cut:
  assumes "replicate k 0x3D = map b64_canonical gs @ pad"
  shows "gs = replicate (length gs) 0x3D" "length gs \<le> k"
proof -
  have "map b64_canonical gs = replicate (length gs) 0x3D" "length gs \<le> k"
    using replicate_split [OF assms] by simp_all
  then show "gs = replicate (length gs) 0x3D" "length gs \<le> k"
    using b64_canonical_padding by blast+
qed

lemma b64_decode_steps:
  "b64_pending B64_Decode out [] s \<Longrightarrow> base64_reference data = map b64_canonical fs @ pad \<Longrightarrow>
   set pad \<subseteq> {0x3D} \<Longrightarrow>
   into b64_next (seq (foldm (b64_decode_byte vec_sink) s fs) (base64_finish vec_sink)) = Done (out @ data)"
proof (induction data arbitrary: s out fs rule: base64_reference.induct)
  case (1 a b c rest)
  have small: "\<forall>v \<in> set (b64_sextets a b c). v < 64" using b64_sextets_less by blast
  obtain cs where cs: "map b64_canonical fs = map encode_value (b64_sextets a b c) @ cs"
    "base64_reference rest = cs @ pad"
    using b64_digits_prefix [OF "1.prems"(2) [unfolded base64_reference.simps] "1.prems"(3) small] by blast
  then obtain es gs where fs: "fs = es @ gs" "map decode_value es = map Some (b64_sextets a b c)"
    "map b64_canonical gs = cs" using b64_canonical_digits small by blast
  have "length es = 4" using fs(2) by (auto simp: b64_sextets_def dest: map_eq_imp_length_eq)
  then obtain t where t: "foldm (b64_decode_byte vec_sink) s es = b64_flush_quantum vec_sink t"
    "b64_pending B64_Decode out es t"
    using b64_decode_quantum [OF "1.prems"(1) b64_digits_no_space [OF fs(2)]] by blast
  have "b64_buffer t = es" "\<not> b64_end_of_data t"
    using t(2) \<open>length es = 4\<close> by (simp_all add: b64_pending_def)
  note flush = b64_decode_full [OF this fs(2)]
  obtain u where u: "b64_flush_quantum vec_sink t = Done u" "b64_pending B64_Decode (out @ [a, b, c]) [] u"
    using flush t(2) by (auto simp: b64_flush_quantum_def b64_pending_def)
  have "base64_reference rest = map b64_canonical gs @ pad" using cs fs by simp
  from "1.IH" [OF u(2) this "1.prems"(3)] show ?case
    using fs(1) t(1) u(1) by (simp add: foldm_append)
next
  case (2 a b)
  have small: "\<forall>v \<in> set (take 3 (b64_sextets a b 0)). v < 64" by (meson b64_sextets_less in_set_takeD)
  obtain cs where cs: "map b64_canonical fs = map encode_value (take 3 (b64_sextets a b 0)) @ cs"
    "replicate 1 0x3D = cs @ pad"
    using b64_digits_prefix [OF "2.prems"(2) [unfolded base64_reference.simps take_map] "2.prems"(3) small]
    by auto
  then obtain es gs where fs: "fs = es @ gs" "map decode_value es = map Some (take 3 (b64_sextets a b 0))"
    "map b64_canonical gs = cs" using b64_canonical_digits small by blast
  have len: "length es = 3" using map_eq_imp_length_eq [OF fs(2)] by (simp add: b64_sextets_def)
  have gs: "gs = replicate (length gs) 0x3D" "length gs \<le> 1"
    using b64_padding_cut [OF cs(2) [folded fs(3)]] .
  show ?case unfolding fs(1)
    by (subst gs(1), rule b64_decode_tail [OF "2.prems"(1) b64_digits_no_space [OF fs(2)], where k = 1])
      (use len gs b64_decode_two [OF _ _ fs(2)] in auto)
next
  case (3 a)
  have small: "\<forall>v \<in> set (take 2 (b64_sextets a 0 0)). v < 64" by (meson b64_sextets_less in_set_takeD)
  obtain cs where cs: "map b64_canonical fs = map encode_value (take 2 (b64_sextets a 0 0)) @ cs"
    "replicate 2 0x3D = cs @ pad"
    using b64_digits_prefix [OF "3.prems"(2) [unfolded base64_reference.simps take_map] "3.prems"(3) small]
    by (auto simp: numeral_2_eq_2)
  then obtain es gs where fs: "fs = es @ gs" "map decode_value es = map Some (take 2 (b64_sextets a 0 0))"
    "map b64_canonical gs = cs" using b64_canonical_digits small by blast
  have len: "length es = 2" using map_eq_imp_length_eq [OF fs(2)] by (simp add: b64_sextets_def)
  have gs: "gs = replicate (length gs) 0x3D" "length gs \<le> 2"
    using b64_padding_cut [OF cs(2) [folded fs(3)]] .
  have two: "replicate 2 (0x3D :: byte) = [0x3D, 0x3D]" by (simp add: eval_nat_numeral)
  show ?case unfolding fs(1)
    by (subst gs(1), rule b64_decode_tail [OF "3.prems"(1) b64_digits_no_space [OF fs(2)], where k = 2])
      (use len gs two b64_decode_one [OF _ _ fs(2)] in auto)
next
  case 4
  then show ?case using b64_finish_empty [OF 4(1)] by (simp add: id_def)
qed

text \<open>
  C17: Base64 decoding recovers the data from any spelling of its encoding: whitespace may be
  interleaved anywhere, \<open>-\<close> and \<open>_\<close> may stand for \<open>+\<close> and \<open>/\<close>, and any part of the trailing padding
  may be missing.
\<close>

theorem base64_decode_encode:
  assumes "base64_reference data = map b64_canonical (filter (\<lambda>b. \<not> is_qpdf_space b) enc) @ pad"
    and "set pad \<subseteq> {0x3D}"
  shows "base64_decode enc = Done data"
  using b64_decode_steps [OF b64_pending_new assms]
  by (simp add: base64_decode_def base64_write_def base64_new_def b64_decode_skip_space [of _ _ enc])

text \<open>The encoding of \<open>"fl"\<close> with a line break and no padding.\<close>

theorem base64_decode_encode_witness: "base64_decode (str ''Zm'' @ [0x0A] @ str ''w'') = Done (str ''fl'')"
  by (rule base64_decode_encode [where pad = "[0x3D]"]) code_simp+

end
