(* ===== verification/Rc4.thy ===== *)
theory Rc4
  imports Pipeline "HOL-Library.Multiset"
begin

text \<open>
  The RC4 cipher (\<open>crates/flpdf/src/encryption/rc4.rs\<close>) and its pipeline stage
  (\<open>crates/flpdf/src/pipeline/rc4.rs\<close>): key schedule and key stream with their byte arithmetic, the
  permutation invariant of the state table, symmetry, and the stage's independence of its buffer size.
\<close>

section \<open>The cipher\<close>

record rc4 =
  rc_state :: bytes
  rc_x :: byte
  rc_y :: byte

datatype primitive_error = InvalidLength

definition swap :: "'a list \<Rightarrow> nat \<Rightarrow> nat \<Rightarrow> 'a list" where
  "swap xs i j = xs[i := xs ! j, j := xs ! i]"

text \<open>One round of the key schedule over the table, \<open>key_index\<close> and \<open>state_index\<close>.\<close>

definition rc4_key_round :: "bytes \<Rightarrow> bytes \<times> nat \<times> byte \<Rightarrow> nat \<Rightarrow> bytes \<times> nat \<times> byte" where
  "rc4_key_round key = (\<lambda>(state, key_index, state_index) i.
     let state_index = state_index + key ! key_index + state ! i
     in (swap state i (unat state_index), (key_index + 1) mod length key, state_index))"

definition rc4_new :: "bytes \<Rightarrow> primitive_error + rc4" where
  "rc4_new key =
     (if key = [] then Inl InvalidLength
      else
        let (state, _, _) = foldl (rc4_key_round key) (map of_nat [0..<256], 0, 0) [0..<256]
        in Inr \<lparr>rc_state = state, rc_x = 0, rc_y = 0\<rparr>)"

text \<open>One byte of the key stream: the new state and the byte that is xored into the data.\<close>

definition rc4_step :: "rc4 \<Rightarrow> rc4 \<times> byte" where
  "rc4_step c =
     (let x = rc_x c + 1;
          y = rc_y c + rc_state c ! unat x;
          state = swap (rc_state c) (unat x) (unat y);
          key_index = state ! unat x + state ! unat y
      in (\<lparr>rc_state = state, rc_x = x, rc_y = y\<rparr>, state ! unat key_index))"

fun process_in_place :: "rc4 \<Rightarrow> bytes \<Rightarrow> rc4 \<times> bytes" where
  "process_in_place c [] = (c, [])"
| "process_in_place c (b # data) =
     (let (c, k) = rc4_step c; (c, data) = process_in_place c data in (c, (b XOR k) # data))"

section \<open>The table stays a permutation\<close>

definition rc4_wf :: "rc4 \<Rightarrow> bool" where
  "rc4_wf c \<longleftrightarrow> mset (rc_state c) = mset (map of_nat [0..<256])"

lemma mset_swap: "i < length xs \<Longrightarrow> j < length xs \<Longrightarrow> mset (swap xs i j) = mset xs"
  by (simp add: swap_def mset_swap)

lemma rc4_wf_length: "rc4_wf c \<Longrightarrow> length (rc_state c) = 256"
  using mset_eq_length [of "rc_state c" "map of_nat [0..<256]"]
  by (simp add: rc4_wf_def del: mset_map mset_upt)

lemma rc4_key_round_perm:
  assumes "mset state = mset (map (of_nat :: nat \<Rightarrow> byte) [0..<256])" "i < 256"
  shows "mset (fst (rc4_key_round key (state, ki, si) i)) = mset (map (of_nat :: nat \<Rightarrow> byte) [0..<256])"
proof -
  have len: "length state = 256" using mset_eq_length [OF assms(1)] by simp
  show ?thesis using assms len unat_byte_less
    by (auto simp: rc4_key_round_def Let_def mset_swap)
qed

lemma rc4_key_rounds_perm:
  "mset (fst st) = mset (map (of_nat :: nat \<Rightarrow> byte) [0..<256]) \<Longrightarrow> \<forall>i \<in> set rounds. i < 256 \<Longrightarrow>
   mset (fst (foldl (rc4_key_round key) st rounds)) = mset (map (of_nat :: nat \<Rightarrow> byte) [0..<256])"
proof (induction rounds arbitrary: st)
  case Nil
  then show ?case by simp
next
  case (Cons i rounds)
  obtain state ki si where "st = (state, ki, si)" by (cases st)
  then show ?case using Cons rc4_key_round_perm [of state i key ki si] by auto
qed

lemma rc4_new_wf: "rc4_new key = Inr c \<Longrightarrow> rc4_wf c"
  using rc4_key_rounds_perm [of "(map of_nat [0..<256], 0, 0)" "[0..<256]" key]
  by (cases "key = []"; cases "foldl (rc4_key_round key) (map of_nat [0..<256], 0, 0) [0..<256]")
    (auto simp: rc4_new_def rc4_wf_def simp del: upt_conv_Cons)

lemma rc4_step_wf: "rc4_wf c \<Longrightarrow> rc4_wf (fst (rc4_step c))"
  using rc4_wf_length [of c] by (simp add: rc4_step_def Let_def rc4_wf_def mset_swap)

lemma process_wf: "rc4_wf c \<Longrightarrow> rc4_wf (fst (process_in_place c data))"
proof (induction data arbitrary: c)
  case Nil
  then show ?case by simp
next
  case (Cons b data)
  then show ?case using rc4_step_wf [OF Cons.prems] by (auto simp: split_beta Let_def)
qed

section \<open>Key stream\<close>

fun keystream :: "rc4 \<Rightarrow> nat \<Rightarrow> bytes" where
  "keystream c 0 = []"
| "keystream c (Suc n) = (let (c, k) = rc4_step c in k # keystream c n)"

fun rc4_after :: "rc4 \<Rightarrow> nat \<Rightarrow> rc4" where
  "rc4_after c 0 = c"
| "rc4_after c (Suc n) = rc4_after (fst (rc4_step c)) n"

lemma length_keystream [simp]: "length (keystream c n) = n"
  by (induction n arbitrary: c) (simp_all add: split_beta Let_def)

text \<open>The data does not influence the key stream.\<close>

lemma process_keystream:
  "process_in_place c data = (rc4_after c (length data), map2 (XOR) data (keystream c (length data)))"
  by (induction data arbitrary: c) (simp_all add: split_beta Let_def)

lemma process_append:
  "process_in_place c (xs @ ys) =
     (let (c, xs') = process_in_place c xs; (c, ys') = process_in_place c ys in (c, xs' @ ys'))"
  by (induction xs arbitrary: c) (simp_all add: split_beta Let_def)

lemma xor_keystream_twice:
  "length ks = length data \<Longrightarrow> map2 (XOR) (map2 (XOR) data ks) ks = (data :: bytes)"
  by (induction data ks rule: list_induct2') (simp_all add: xor.assoc)

section \<open>The pipeline stage\<close>

record 'd pl_rc4 =
  pr_identifier :: bytes
  pr_next :: 'd
  pr_rc4 :: rc4
  pr_outbuf :: "nat option"

definition rc4_from_cipher :: "bytes \<Rightarrow> 'd \<Rightarrow> rc4 \<Rightarrow> nat \<Rightarrow> pipe_error + 'd pl_rc4" where
  "rc4_from_cipher ident next c out_buffer_size =
     (if out_buffer_size = 0
      then Inl (logic ''Pl_RC4: output buffer size must be greater than zero'')
      else Inr \<lparr>pr_identifier = ident, pr_next = next, pr_rc4 = c, pr_outbuf = Some out_buffer_size\<rparr>)"

text \<open>\<open>data.chunks(n)\<close> for \<open>n > 0\<close>.\<close>

function chunks :: "nat \<Rightarrow> 'a list \<Rightarrow> 'a list list" where
  "chunks n xs = (if xs = [] \<or> n = 0 then [] else take n xs # chunks n (drop n xs))"
  by pat_completeness auto
termination
  by (relation "measure (\<lambda>(n, xs). length xs)") auto

declare chunks.simps [simp del]

definition rc4_chunk ::
  "'d pipeline \<Rightarrow> 'd pl_rc4 \<Rightarrow> bytes \<Rightarrow> (pipe_error, 'd pl_rc4) outcome" where
  "rc4_chunk p s chunk =
     (let (c, output) = process_in_place (pr_rc4 s) chunk;
          s = s\<lparr>pr_rc4 := c\<rparr>
      in into (\<lambda>d. s\<lparr>pr_next := d\<rparr>) (pl_write p (pr_next s) output))"

definition rc4_write :: "'d pipeline \<Rightarrow> 'd pl_rc4 \<Rightarrow> bytes \<Rightarrow> (pipe_error, 'd pl_rc4) outcome" where
  "rc4_write p s data =
     (case pr_outbuf s of
        None \<Rightarrow> Fail (Logic (pr_identifier s @ str '': Pl_RC4: write() called after finish() called'')) s
      | Some n \<Rightarrow> foldm (rc4_chunk p) s (chunks n data))"

definition rc4_finish :: "'d pipeline \<Rightarrow> 'd pl_rc4 \<Rightarrow> (pipe_error, 'd pl_rc4) outcome" where
  "rc4_finish p s =
     (let s = s\<lparr>pr_outbuf := None\<rparr>
      in into (\<lambda>d. s\<lparr>pr_next := d\<rparr>) (pl_finish p (pr_next s)))"

lemma concat_chunks: "0 < n \<Longrightarrow> concat (chunks n xs) = xs"
proof (induction n xs rule: chunks.induct)
  case (1 n xs)
  then show ?case by (subst chunks.simps) auto
qed

lemma rc4_chunks_vec:
  "foldm (rc4_chunk vec_sink) s cs =
     (let (c, output) = process_in_place (pr_rc4 s) (concat cs)
      in Done (s\<lparr>pr_rc4 := c, pr_next := pr_next s @ output\<rparr>))"
proof (induction cs arbitrary: s)
  case Nil
  then show ?case by (cases s) simp
next
  case (Cons x cs)
  then show ?case
    by (cases s) (simp add: rc4_chunk_def process_append split_beta Let_def)
qed

lemma rc4_write_vec:
  assumes "pr_outbuf s = Some n" "0 < n"
  shows "rc4_write vec_sink s data =
    (let (c, output) = process_in_place (pr_rc4 s) data
     in Done (s\<lparr>pr_rc4 := c, pr_next := pr_next s @ output\<rparr>))"
  using assms by (simp add: rc4_write_def rc4_chunks_vec concat_chunks)

lemma rc4_feed_vec:
  "pr_outbuf s = Some n \<Longrightarrow> 0 < n \<Longrightarrow>
   feed (rc4_write vec_sink) s pieces =
     (let (c, output) = process_in_place (pr_rc4 s) (concat pieces)
      in Done (s\<lparr>pr_rc4 := c, pr_next := pr_next s @ output\<rparr>))"
  unfolding feed_def
proof (induction pieces arbitrary: s)
  case Nil
  then show ?case by (cases s) simp
next
  case (Cons x pieces)
  then show ?case
    by (cases s) (simp add: rc4_write_vec process_append split_beta Let_def)
qed

text \<open>A stage over a vector: built, fed piece by piece, finished.\<close>

definition rc4_run :: "rc4 \<Rightarrow> nat \<Rightarrow> bytes list \<Rightarrow> (pipe_error, bytes) outcome" where
  "rc4_run c out_buffer_size pieces =
     (case rc4_from_cipher [] [] c out_buffer_size of
        Inl e \<Rightarrow> Fail e []
      | Inr s \<Rightarrow> into pr_next (seq (feed (rc4_write vec_sink) s pieces) (rc4_finish vec_sink)))"

lemma rc4_run_keystream:
  "0 < n \<Longrightarrow> rc4_run c n pieces =
     Done (map2 (XOR) (concat pieces) (keystream c (length (concat pieces))))"
  by (simp add: rc4_run_def rc4_from_cipher_def rc4_feed_vec process_keystream rc4_finish_def Let_def)

section \<open>Properties\<close>

text \<open>
  C21: the RC4 table is a permutation of 0..255 after the key schedule and stays one however much data
  is processed, so every index of the cipher is in bounds.
\<close>

theorem rc4_state_permutation:
  assumes "rc4_new key = Inr c"
  shows "mset (rc_state (fst (process_in_place c data))) = mset (map of_nat [0..<256])"
  using process_wf [OF rc4_new_wf [OF assms], of data] by (simp add: rc4_wf_def)

theorem rc4_state_permutation_witness:
  "\<exists>c. rc4_new [1, 2] = Inr c \<and>
     mset (rc_state (fst (process_in_place c [7]))) = mset (map of_nat [0..<256])"
proof -
  obtain c where c: "rc4_new [1, 2] = Inr c"
    by (cases "rc4_new [1, 2]") (auto simp: rc4_new_def split_beta Let_def)
  with rc4_state_permutation [OF c] show ?thesis by blast
qed

text \<open>
  C22: the stage is its own inverse: what it writes for the data, handed in any pieces to a second
  stage with the same key and any other buffer size, comes out as the data.
\<close>

theorem rc4_stage_symmetric:
  assumes "0 < n" "0 < m"
  shows "\<exists>out. rc4_run c n pieces = Done out \<and>
    (\<forall>pieces'. concat pieces' = out \<longrightarrow> rc4_run c m pieces' = Done (concat pieces))"
  using assms by (simp add: rc4_run_keystream xor_keystream_twice)

theorem rc4_stage_symmetric_witness:
  "\<exists>out. rc4_run \<lparr>rc_state = map of_nat [0..<256], rc_x = 0, rc_y = 0\<rparr> 1 [[1], [2, 3]] = Done out \<and>
     (\<forall>pieces'. concat pieces' = out \<longrightarrow>
        rc4_run \<lparr>rc_state = map of_nat [0..<256], rc_x = 0, rc_y = 0\<rparr> 2 pieces' = Done (concat [[1], [2, 3]]))"
  by (rule rc4_stage_symmetric) simp_all

end
