(* ===== verification/Bit_Stream.thy ===== *)
theory Bit_Stream
  imports Pipeline
begin

text \<open>
  The bit reader (\<open>crates/flpdf/src/bit_stream.rs\<close>) and the bit writer
  (\<open>crates/flpdf/src/bit_writer.rs\<close>) of hint tables and predictors. Both are refined to an abstract
  queue of bits, most significant first: the writer appends to it, the reader takes from its front.
\<close>

section \<open>The reader\<close>

datatype bit_stream_error = Exhausted nat nat | TooWide | AlignmentOverflow

record bit_stream =
  bs_data :: bytes
  bs_byte_position :: nat
  bs_bit_offset :: nat
  bs_bits_available :: nat

definition bit_stream_new :: "bytes \<Rightarrow> bit_stream" where
  "bit_stream_new data =
     \<lparr>bs_data = data, bs_byte_position = 0, bs_bit_offset = 7, bs_bits_available = length data * 8\<rparr>"

text \<open>\<open>reset\<close> keeps the data.\<close>

definition bit_stream_reset :: "bit_stream \<Rightarrow> bit_stream" where
  "bit_stream_reset s =
     s\<lparr>bs_byte_position := 0, bs_bit_offset := 7, bs_bits_available := length (bs_data s) * 8\<rparr>"

text \<open>The loop of \<open>get_bits\<close>: at most one byte's worth of bits is copied per round.\<close>

function get_bits_loop :: "bit_stream \<Rightarrow> nat \<Rightarrow> 64 word \<Rightarrow> 64 word \<times> bit_stream" where
  "get_bits_loop s bits result =
     (if bits = 0 then (result, s)
      else
        let byte = bs_data s ! bs_byte_position s AND mask (bs_bit_offset s + 1);
            to_copy = min bits (bs_bit_offset s + 1);
            leftover = bs_bit_offset s + 1 - to_copy;
            byte = drop_bit leftover byte;
            result = push_bit to_copy result OR ucast byte;
            s = (if leftover = 0
                 then s\<lparr>bs_bit_offset := 7, bs_byte_position := bs_byte_position s + 1\<rparr>
                 else s\<lparr>bs_bit_offset := leftover - 1\<rparr>)
        in get_bits_loop (s\<lparr>bs_bits_available := bs_bits_available s - to_copy\<rparr>) (bits - to_copy) result)"
  by pat_completeness auto
termination
  by (relation "measure (\<lambda>(s, bits, result). bits)") auto

declare get_bits_loop.simps [simp del]

definition get_bits :: "bit_stream \<Rightarrow> nat \<Rightarrow> bit_stream_error + (64 word \<times> bit_stream)" where
  "get_bits s bits =
     (if bits > bs_bits_available s then Inl (Exhausted bits (bs_bits_available s))
      else if bits > 32 then Inl TooWide
      else Inr (get_bits_loop s bits 0))"

text \<open>The sign bit itself is not above \<open>sign_bit\<close>: the comparison in the source is strict.\<close>

definition get_bits_signed :: "bit_stream \<Rightarrow> nat \<Rightarrow> bit_stream_error + (int \<times> bit_stream)" where
  "get_bits_signed s bits =
     (case get_bits s bits of
        Inl e \<Rightarrow> Inl e
      | Inr (value, s) \<Rightarrow>
          let sign_bit = push_bit (bits - 1) 1
          in Inr (if value > sign_bit then sint (value - push_bit bits 1) else sint value, s))"

definition get_bits_i32 :: "bit_stream \<Rightarrow> nat \<Rightarrow> bit_stream_error + (int \<times> bit_stream)" where
  "get_bits_i32 s bits =
     (case get_bits s bits of
        Inl e \<Rightarrow> Inl e
      | Inr (value, s) \<Rightarrow> Inr (sint (ucast value :: 32 word), s))"

definition skip_to_next_byte :: "bit_stream \<Rightarrow> bit_stream_error + bit_stream" where
  "skip_to_next_byte s =
     (if bs_bit_offset s \<noteq> 7 then
        let bits_to_skip = bs_bit_offset s + 1
        in if bs_bits_available s < bits_to_skip then Inl AlignmentOverflow
           else Inr (s\<lparr>bs_bit_offset := 7, bs_byte_position := bs_byte_position s + 1,
                       bs_bits_available := bs_bits_available s - bits_to_skip\<rparr>)
      else Inr s)"

section \<open>The writer\<close>

record 'd bit_writer =
  bw_pipeline :: 'd
  bw_byte :: byte
  bw_bit_offset :: nat

definition bit_writer_new :: "'d \<Rightarrow> 'd bit_writer" where
  "bit_writer_new pipeline = \<lparr>bw_pipeline = pipeline, bw_byte = 0, bw_bit_offset = 7\<rparr>"

function write_bits_loop ::
  "'d pipeline \<Rightarrow> 'd bit_writer \<Rightarrow> 64 word \<Rightarrow> nat \<Rightarrow> (pipe_error, 'd bit_writer) outcome" where
  "write_bits_loop p s value bits =
     (if bits = 0 then Done s
      else
        let bits_to_write = min bits (bw_bit_offset s + 1);
            new_bits = drop_bit (bits - bits_to_write) value AND (push_bit bits_to_write 1 - 1);
            bits_left_in_byte = bw_bit_offset s + 1 - bits_to_write;
            s = s\<lparr>bw_byte := bw_byte s OR push_bit bits_left_in_byte (ucast new_bits)\<rparr>
        in seq (if bits_left_in_byte = 0
                then seq (into (\<lambda>d. s\<lparr>bw_pipeline := d\<rparr>) (pl_write p (bw_pipeline s) [bw_byte s]))
                       (\<lambda>s. Done (s\<lparr>bw_bit_offset := 7, bw_byte := 0\<rparr>))
                else Done (s\<lparr>bw_bit_offset := bw_bit_offset s - bits_to_write\<rparr>))
             (\<lambda>s. write_bits_loop p s value (bits - bits_to_write)))"
  by pat_completeness auto
termination
  by (relation "measure (\<lambda>(p, s, value, bits). bits)") auto

declare write_bits_loop.simps [simp del]

definition write_bits ::
  "'d pipeline \<Rightarrow> 'd bit_writer \<Rightarrow> 64 word \<Rightarrow> nat \<Rightarrow> (pipe_error, 'd bit_writer) outcome" where
  "write_bits p s value bits =
     (if bits > 32 then Fail (logic ''write_bits: too many bits requested'') s
      else write_bits_loop p s value bits)"

text \<open>\<open>value\<close> is an \<open>i64\<close>.\<close>

definition write_bits_signed ::
  "'d pipeline \<Rightarrow> 'd bit_writer \<Rightarrow> int \<Rightarrow> nat \<Rightarrow> (pipe_error, 'd bit_writer) outcome" where
  "write_bits_signed p s value bits =
     (if bits = 0 then Done s
      else if bits > 32 then Fail (logic ''write_bits: too many bits requested'') s
      else write_bits p s (if value < 0 then push_bit bits 1 + word_of_int value else word_of_int value) bits)"

definition bit_writer_flush :: "'d pipeline \<Rightarrow> 'd bit_writer \<Rightarrow> (pipe_error, 'd bit_writer) outcome" where
  "bit_writer_flush p s =
     (if bw_bit_offset s < 7 then write_bits p s 0 (bw_bit_offset s + 1) else Done s)"

section \<open>Bits, most significant first\<close>

definition msb_bits :: "nat \<Rightarrow> 'a::len word \<Rightarrow> bool list" where
  "msb_bits n w = map (bit w) (rev [0..<n])"

definition bits_value :: "bool list \<Rightarrow> nat" where
  "bits_value bs = horner_sum of_bool 2 (rev bs)"

definition data_bits :: "bytes \<Rightarrow> bool list" where
  "data_bits data = concat (map (msb_bits 8) data)"

lemma length_msb_bits [simp]: "length (msb_bits n w) = n"
  by (simp add: msb_bits_def)

lemma nth_msb_bits [simp]: "i < n \<Longrightarrow> msb_bits n w ! i = bit w (n - 1 - i)"
  by (simp add: msb_bits_def rev_nth)

lemma msb_bits_zero: "msb_bits n 0 = replicate n False"
  by (rule nth_equalityI) simp_all

lemma length_data_bits [simp]: "length (data_bits data) = 8 * length data"
  by (induction data) (simp_all add: data_bits_def)

lemma data_bits_append [simp]: "data_bits (xs @ ys) = data_bits xs @ data_bits ys"
  by (simp add: data_bits_def)

lemma data_bits_single [simp]: "data_bits [b] = msb_bits 8 b" "data_bits [] = []"
  by (simp_all add: data_bits_def)

lemma bits_value_Nil [simp]: "bits_value [] = 0"
  by (simp add: bits_value_def)

lemma bits_value_append: "bits_value (xs @ ys) = bits_value xs * 2 ^ length ys + bits_value ys"
  by (simp add: bits_value_def horner_sum_append)

lemma bits_value_msb: "bits_value (msb_bits n w) = take_bit n (unat w)"
proof -
  have "rev (msb_bits n w) = map (bit (unat w)) [0..<n]"
    by (simp add: msb_bits_def rev_map [symmetric] bit_unsigned_iff)
  then show ?thesis by (simp only: bits_value_def horner_sum_bit_eq_take_bit)
qed

lemma bits_value_less: "bits_value bs < 2 ^ length bs"
proof (induction bs rule: rev_induct)
  case (snoc b bs)
  then show ?case by (auto simp: bits_value_append bits_value_def)
qed simp

text \<open>A run of bits of a byte is its shifted and masked value.\<close>

lemma take_msb_bits:
  assumes "k \<le> m" "m \<le> n"
  shows "take k (drop (n - m) (msb_bits n w)) = msb_bits k (drop_bit (m - k) w)"
proof (rule nth_equalityI)
  show "length (take k (drop (n - m) (msb_bits n w))) = length (msb_bits k (drop_bit (m - k) w))"
    using assms by simp
next
  fix i assume "i < length (take k (drop (n - m) (msb_bits n w)))"
  then have i: "i < k" using assms by simp
  then have "n - 1 - (n - m + i) = m - k + (k - 1 - i)" using assms by simp
  then show "take k (drop (n - m) (msb_bits n w)) ! i = msb_bits k (drop_bit (m - k) w) ! i"
    using i assms by (simp add: bit_drop_bit_eq)
qed

section \<open>The reader takes from the front of the queue\<close>

definition bs_inv :: "bit_stream \<Rightarrow> bool" where
  "bs_inv s \<longleftrightarrow> bs_bit_offset s \<le> 7 \<and>
     8 * bs_byte_position s + (7 - bs_bit_offset s) + bs_bits_available s = 8 * length (bs_data s)"

definition bs_bits :: "bit_stream \<Rightarrow> bool list" where
  "bs_bits s = drop (8 * bs_byte_position s + (7 - bs_bit_offset s)) (data_bits (bs_data s))"

lemma length_bs_bits: "bs_inv s \<Longrightarrow> length (bs_bits s) = bs_bits_available s"
  unfolding bs_inv_def bs_bits_def length_drop length_data_bits by linarith

lemma bs_new [simp]: "bs_inv (bit_stream_new data)" "bs_bits (bit_stream_new data) = data_bits data"
  by (simp_all add: bs_inv_def bs_bits_def bit_stream_new_def)

lemma bs_position: "bs_inv s \<Longrightarrow> 0 < bs_bits_available s \<Longrightarrow> bs_byte_position s < length (bs_data s)"
  by (simp add: bs_inv_def)

text \<open>The queue starts with the rest of the current byte.\<close>

lemma bs_bits_split:
  assumes "bs_inv s" "0 < bs_bits_available s"
  shows "bs_bits s = drop (7 - bs_bit_offset s) (msb_bits 8 (bs_data s ! bs_byte_position s)) @
    data_bits (drop (bs_byte_position s + 1) (bs_data s))"
proof -
  let ?i = "bs_byte_position s" and ?d = "bs_data s"
  have "?d = take ?i ?d @ [?d ! ?i] @ drop (?i + 1) ?d"
    using bs_position [OF assms] by (simp add: id_take_nth_drop)
  then have "data_bits ?d = data_bits (take ?i ?d) @ msb_bits 8 (?d ! ?i) @ data_bits (drop (?i + 1) ?d)"
    by (metis data_bits_append data_bits_single(1))
  moreover have "length (data_bits (take ?i ?d)) = 8 * ?i"
    using bs_position [OF assms] by simp
  moreover have "7 - bs_bit_offset s \<le> 8" by simp
  ultimately show ?thesis by (simp add: bs_bits_def)
qed

text \<open>The bits one round copies: the next \<open>k\<close> bits of the queue.\<close>

lemma bs_round_byte:
  assumes "bs_inv s" "0 < bs_bits_available s" "0 < k" "k \<le> bs_bit_offset s + 1"
  shows "unat (drop_bit (bs_bit_offset s + 1 - k) (bs_data s ! bs_byte_position s AND mask (bs_bit_offset s + 1))) =
    bits_value (take k (bs_bits s))"
proof -
  let ?b = "bs_data s ! bs_byte_position s" and ?m = "bs_bit_offset s + 1"
  have m: "?m \<le> 8" "8 - ?m = 7 - bs_bit_offset s" using assms(1) by (simp_all add: bs_inv_def)
  have "take k (bs_bits s) = take k (drop (8 - ?m) (msb_bits 8 ?b))"
    using assms m by (simp add: bs_bits_split)
  also have "\<dots> = msb_bits k (drop_bit (?m - k) ?b)"
    using assms(4) m by (intro take_msb_bits) simp_all
  finally have "bits_value (take k (bs_bits s)) = take_bit k (unat (drop_bit (?m - k) ?b))"
    by (simp add: bits_value_msb)
  also have "\<dots> = unat (take_bit k (drop_bit (?m - k) ?b))"
    by (simp add: unsigned_take_bit_eq)
  also have "take_bit k (drop_bit (?m - k) ?b) = drop_bit (?m - k) (?b AND mask ?m)"
    using assms(4) by (simp add: take_bit_drop_bit take_bit_eq_mask [symmetric])
  finally show ?thesis by simp
qed

lemma push_or_add:
  assumes "unat (b :: byte) < 2 ^ k"
  shows "push_bit k (r :: 64 word) OR ucast b = r * 2 ^ k + of_nat (unat b)"
proof -
  have "take_bit k (unat b) = unat b" using assms by (simp add: take_bit_nat_eq_self)
  then have "take_bit k b = b" by (metis unsigned_take_bit_eq word_unat_eq_iff)
  then have low: "bit b n \<Longrightarrow> n < k" for n by (metis bit_take_bit_iff)
  have "push_bit k r AND ucast b = 0"
    by (rule bit_word_eqI) (auto simp: bit_simps dest: low)
  then have "push_bit k r OR ucast b = push_bit k r + ucast b"
    by (simp add: disjunctive_add_eq_or)
  then show ?thesis by (simp add: push_bit_eq_mult unsigned_ucast_eq)
qed

lemma get_bits_loop_spec:
  "bs_inv s \<Longrightarrow> bits \<le> bs_bits_available s \<Longrightarrow>
   \<exists>t. get_bits_loop s bits r = (r * 2 ^ bits + of_nat (bits_value (take bits (bs_bits s))), t) \<and>
     bs_inv t \<and> bs_data t = bs_data s \<and> bs_bits t = drop bits (bs_bits s)"
proof (induction s bits r rule: get_bits_loop.induct)
  case (1 s bits r)
  show ?case
  proof (cases "bits = 0")
    case True
    then show ?thesis using "1.prems" by (simp add: get_bits_loop.simps)
  next
    case False
    let ?k = "min bits (bs_bit_offset s + 1)"
    let ?left = "bs_bit_offset s + 1 - ?k"
    let ?byte = "drop_bit ?left (bs_data s ! bs_byte_position s AND mask (bs_bit_offset s + 1))"
    let ?r = "push_bit ?k r OR ucast ?byte"
    let ?m = "if ?left = 0
              then s\<lparr>bs_bit_offset := 7, bs_byte_position := bs_byte_position s + 1\<rparr>
              else s\<lparr>bs_bit_offset := ?left - 1\<rparr>"
    let ?s = "?m\<lparr>bs_bits_available := bs_bits_available ?m - ?k\<rparr>"
    have pos: "0 < bs_bits_available s" "0 < ?k" "?k \<le> bs_bit_offset s + 1"
      using False "1.prems" by auto
    have inv: "bs_inv ?s" "bs_data ?s = bs_data s" "bs_bits_available ?s = bs_bits_available s - ?k"
      using "1.prems" pos by (auto simp: bs_inv_def)
    have bits: "bs_bits ?s = drop ?k (bs_bits s)"
      using "1.prems" pos by (auto simp: bs_bits_def bs_inv_def intro!: arg_cong [where f = "\<lambda>n. drop n _"])
    have val: "unat ?byte = bits_value (take ?k (bs_bits s))"
      using bs_round_byte [OF "1.prems"(1) pos] .
    have len: "length (take ?k (bs_bits s)) = ?k"
      using length_bs_bits [OF "1.prems"(1)] "1.prems"(2) by simp
    have rk: "?r = r * 2 ^ ?k + of_nat (bits_value (take ?k (bs_bits s)))"
    proof -
      have "unat ?byte < 2 ^ ?k" using bits_value_less [of "take ?k (bs_bits s)"] unfolding val len .
      from push_or_add [OF this, of r] show ?thesis unfolding val .
    qed
    have step: "get_bits_loop s bits r = get_bits_loop ?s (bits - ?k) ?r"
      using False by (subst get_bits_loop.simps) (simp only: Let_def if_False)
    have le: "bits - ?k \<le> bs_bits_available ?s" using inv(3) "1.prems"(2) by linarith
    obtain t where t: "get_bits_loop ?s (bits - ?k) ?r =
        (?r * 2 ^ (bits - ?k) + of_nat (bits_value (take (bits - ?k) (bs_bits ?s))), t)"
      "bs_inv t" "bs_data t = bs_data ?s" "bs_bits t = drop (bits - ?k) (bs_bits ?s)"
      using "1.IH" [OF False refl refl refl refl refl refl inv(1) le] by blast
    have cut: "take bits (bs_bits s) = take ?k (bs_bits s) @ take (bits - ?k) (bs_bits ?s)"
      unfolding bits by (metis le_add_diff_inverse min.cobounded1 take_add)
    have cutlen: "length (take (bits - ?k) (bs_bits ?s)) = bits - ?k"
      using length_bs_bits [OF inv(1)] le by simp
    have pow: "2 ^ bits = (2 ^ ?k * 2 ^ (bits - ?k) :: 64 word)"
      by (simp add: power_add [symmetric])
    have "?r * 2 ^ (bits - ?k) + of_nat (bits_value (take (bits - ?k) (bs_bits ?s))) =
        r * 2 ^ bits + of_nat (bits_value (take bits (bs_bits s)))"
      unfolding rk cut bits_value_append cutlen pow by (simp only: of_nat_add of_nat_mult of_nat_power of_nat_numeral distrib_right mult.assoc add.assoc)
    moreover have "bs_bits t = drop bits (bs_bits s)"
      using t(4) unfolding bits by (simp only: drop_drop) (simp add: add.commute)
    ultimately show ?thesis using t(1-3) inv(2) unfolding step by metis
  qed
qed

text \<open>Reading \<open>n\<close> bits reads the number the first \<open>n\<close> bits of the queue spell, or fails without a read.\<close>

lemma get_bits_spec:
  assumes "bs_inv s" "bits \<le> 32" "bits \<le> length (bs_bits s)"
  shows "\<exists>t. get_bits s bits = Inr (of_nat (bits_value (take bits (bs_bits s))), t) \<and>
    bs_inv t \<and> bs_bits t = drop bits (bs_bits s)"
  using get_bits_loop_spec [OF assms(1), of bits 0] assms length_bs_bits [OF assms(1)]
  by (auto simp: get_bits_def)

section \<open>The writer appends to the queue\<close>

text \<open>The unwritten low bits of the current byte are zero.\<close>

definition bw_inv :: "'d bit_writer \<Rightarrow> bool" where
  "bw_inv s \<longleftrightarrow> bw_bit_offset s \<le> 7 \<and>
     (\<forall>i \<le> bw_bit_offset s. \<not> bit (bw_byte s) i)"

definition bw_bits :: "bytes bit_writer \<Rightarrow> bool list" where
  "bw_bits s = data_bits (bw_pipeline s) @ take (7 - bw_bit_offset s) (msb_bits 8 (bw_byte s))"

lemma bw_new [simp]: "bw_inv (bit_writer_new d)" "bw_bits (bit_writer_new []) = []"
  by (simp_all add: bw_inv_def bw_bits_def bit_writer_new_def)

lemma push_one_mask: "(push_bit k 1 - 1 :: 64 word) = mask k"
  by (simp add: mask_eq_exp_minus_1 push_bit_eq_mult)

lemma bw_round_byte:
  assumes inv: "bw_inv s" and k: "k \<le> bw_bit_offset s + 1"
  defines "left \<equiv> bw_bit_offset s + 1 - k"
  shows "msb_bits 8 (bw_byte s OR push_bit left (ucast ((new :: 64 word) AND mask k))) =
    take (7 - bw_bit_offset s) (msb_bits 8 (bw_byte s)) @ msb_bits k new @ replicate left False"
    (is "msb_bits 8 ?byte = ?bits")
proof (rule nth_equalityI)
  have off: "bw_bit_offset s \<le> 7" using inv by (simp add: bw_inv_def)
  then show "length (msb_bits 8 ?byte) = length ?bits" using k by (simp add: left_def)
  fix i assume "i < length (msb_bits 8 ?byte)"
  then have i: "i < 8" by simp
  have bit: "msb_bits 8 ?byte ! i =
      (bit (bw_byte s) (7 - i) \<or> left \<le> 7 - i \<and> 7 - i - left < k \<and> bit new (7 - i - left))"
    using i by (auto simp: bit_simps mask_eq_exp_minus_1 [symmetric])
  consider (high) "i < 7 - bw_bit_offset s" | (mid) j where "i = 7 - bw_bit_offset s + j" "j < k"
    | (low) j where "i = 7 - bw_bit_offset s + k + j" "j < left"
  proof -
    have "i < 7 - bw_bit_offset s \<or>
      i = 7 - bw_bit_offset s + (i - (7 - bw_bit_offset s)) \<and> i - (7 - bw_bit_offset s) < k \<or>
      i = 7 - bw_bit_offset s + k + (i - (7 - bw_bit_offset s) - k) \<and> i - (7 - bw_bit_offset s) - k < left"
      using i off k unfolding left_def by linarith
    then show ?thesis using that by blast
  qed
  then show "msb_bits 8 ?byte ! i = ?bits ! i"
  proof cases
    case high
    then have "\<not> 7 - i - left < k" using k off unfolding left_def by linarith
    then show ?thesis unfolding bit using high i by (simp add: nth_append)
  next
    case mid
    then have "7 - i \<le> bw_bit_offset s" "left \<le> 7 - i" "7 - i - left = k - 1 - j"
      using off k unfolding left_def by linarith+
    moreover have "\<not> i < 7 - bw_bit_offset s" "i - (7 - bw_bit_offset s) = j" using mid by linarith+
    ultimately show ?thesis unfolding bit using mid inv off
      by (simp add: nth_append bw_inv_def del: add_diff_cancel_left')
  next
    case low
    then have "7 - i \<le> bw_bit_offset s" "\<not> left \<le> 7 - i"
      using off k unfolding left_def by linarith+
    moreover have "\<not> i < 7 - bw_bit_offset s" "\<not> i - (7 - bw_bit_offset s) < k"
      "i - (7 - bw_bit_offset s) - k = j" using low by linarith+
    ultimately show ?thesis unfolding bit using low inv off
      by (simp add: nth_append bw_inv_def)
  qed
qed

lemma msb_bits_split: "k \<le> n \<Longrightarrow> msb_bits n w = msb_bits k (drop_bit (n - k) w) @ msb_bits (n - k) w"
proof -
  assume k: "k \<le> n"
  have "msb_bits n w = take k (msb_bits n w) @ drop k (msb_bits n w)" by simp
  moreover have "take k (msb_bits n w) = msb_bits k (drop_bit (n - k) w)"
    using take_msb_bits [of k n n w] k by simp
  moreover have "drop k (msb_bits n w) = msb_bits (n - k) w"
    using take_msb_bits [of "n - k" "n - k" n w] k by simp
  ultimately show ?thesis by simp
qed

lemma write_bits_loop_spec:
  "bw_inv s \<Longrightarrow>
   \<exists>t. write_bits_loop vec_sink s value bits = Done t \<and> bw_inv t \<and>
     bw_bits t = bw_bits s @ msb_bits bits value"
proof (induction bits arbitrary: s rule: less_induct)
  case (less bits)
  show ?case
  proof (cases "bits = 0")
    case True
    then show ?thesis using less.prems by (simp add: write_bits_loop.simps msb_bits_def)
  next
    case False
    let ?k = "min bits (bw_bit_offset s + 1)"
    let ?left = "bw_bit_offset s + 1 - ?k"
    let ?new = "drop_bit (bits - ?k) value"
    let ?byte = "bw_byte s OR push_bit ?left (ucast (?new AND mask ?k))"
    let ?s = "s\<lparr>bw_byte := ?byte\<rparr>"
    let ?step = "if ?left = 0
                then seq (into (\<lambda>d. ?s\<lparr>bw_pipeline := d\<rparr>) (pl_write vec_sink (bw_pipeline ?s) [bw_byte ?s]))
                       (\<lambda>s. Done (s\<lparr>bw_bit_offset := 7, bw_byte := 0\<rparr>))
                else Done (?s\<lparr>bw_bit_offset := bw_bit_offset ?s - ?k\<rparr>)"
    have off: "bw_bit_offset s \<le> 7" using less.prems by (simp add: bw_inv_def)
    have byte: "msb_bits 8 ?byte = take (7 - bw_bit_offset s) (msb_bits 8 (bw_byte s)) @ msb_bits ?k ?new @
        replicate ?left False"
      using bw_round_byte [OF less.prems, of ?k ?new] by simp
    obtain m where m: "?step = Done m" "bw_inv m" "bw_bits m = bw_bits s @ msb_bits ?k ?new"
    proof (cases "?left = 0")
      case True
      let ?m = "?s\<lparr>bw_pipeline := bw_pipeline s @ [?byte], bw_bit_offset := 7, bw_byte := 0\<rparr>"
      have "?step = Done ?m" using True by simp
      moreover have "bw_bits ?m = bw_bits s @ msb_bits ?k ?new"
        using byte True by (simp add: bw_bits_def)
      ultimately show ?thesis using that [of ?m] by (simp add: bw_inv_def)
    next
      case False
      let ?m = "?s\<lparr>bw_bit_offset := bw_bit_offset s - ?k\<rparr>"
      have "?step = Done ?m" using False by simp
      moreover have cut: "7 - bw_bit_offset ?m = 7 - bw_bit_offset s + ?k" using False off by simp
      have "bw_bits ?m = bw_bits s @ msb_bits ?k ?new"
        using byte off unfolding bw_bits_def cut by simp
      moreover have "bw_inv ?m"
      proof -
        have "\<not> bit ?byte i" if "i \<le> bw_bit_offset s - ?k" for i
        proof -
          let ?old = "take (7 - bw_bit_offset s) (msb_bits 8 (bw_byte s)) @ msb_bits ?k ?new"
          have len: "length ?old = 7 - bw_bit_offset s + ?k" using off by simp
          have le: "length ?old \<le> 7 - i" "7 - i - length ?old < ?left"
            unfolding len using that off False by linarith+
          have "msb_bits 8 ?byte ! (7 - i) = (?old @ replicate ?left False) ! (7 - i)"
            unfolding byte by simp
          also have "\<dots> = False" using le by (simp only: nth_append not_less [symmetric] if_False nth_replicate)
          finally have "msb_bits 8 ?byte ! (7 - i) = False" .
          then show ?thesis using that off by simp
        qed
        then show ?thesis using off by (simp add: bw_inv_def)
      qed
      ultimately show ?thesis using that by blast
    qed
    have "write_bits_loop vec_sink s value bits = seq ?step (\<lambda>s. write_bits_loop vec_sink s value (bits - ?k))"
      using False by (subst write_bits_loop.simps) (simp only: Let_def push_one_mask if_False)
    moreover obtain t where "write_bits_loop vec_sink m value (bits - ?k) = Done t" "bw_inv t"
      "bw_bits t = bw_bits m @ msb_bits (bits - ?k) value"
      using less.IH [OF _ m(2), of "bits - ?k"] False by auto
    ultimately show ?thesis using m msb_bits_split [of ?k bits "value"] by auto
  qed
qed

lemma write_bits_spec:
  "bw_inv s \<Longrightarrow> bits \<le> 32 \<Longrightarrow>
   \<exists>t. write_bits vec_sink s v bits = Done t \<and> bw_inv t \<and> bw_bits t = bw_bits s @ msb_bits bits v"
  by (simp add: write_bits_def write_bits_loop_spec)

text \<open>\<open>flush\<close> pads the last byte with zeros; the bytes written are then the whole queue.\<close>

lemma bit_writer_flush_spec:
  assumes "bw_inv s"
  shows "\<exists>t pad. bit_writer_flush vec_sink s = Done t \<and>
    data_bits (bw_pipeline t) = bw_bits s @ replicate pad False \<and> pad < 8"
proof (cases "bw_bit_offset s < 7")
  case True
  let ?n = "bw_bit_offset s + 1"
  have k: "min ?n (bw_bit_offset s + 1) = ?n" by simp
  have zero: "msb_bits 8 (bw_byte s) = take (7 - bw_bit_offset s) (msb_bits 8 (bw_byte s)) @ replicate ?n False"
    using bw_round_byte [OF assms, of ?n 0] by (simp add: msb_bits_zero del: replicate_Suc)
  have "write_bits vec_sink s 0 ?n =
      Done (s\<lparr>bw_pipeline := bw_pipeline s @ [bw_byte s], bw_bit_offset := 7, bw_byte := 0\<rparr>)"
    using True by (simp add: write_bits_def write_bits_loop.simps [of _ _ _ "Suc _"]
      write_bits_loop.simps [of _ _ _ 0] Let_def)
  then have "bit_writer_flush vec_sink s =
      Done (s\<lparr>bw_pipeline := bw_pipeline s @ [bw_byte s], bw_bit_offset := 7, bw_byte := 0\<rparr>)"
    using True by (simp add: bit_writer_flush_def)
  moreover have "data_bits (bw_pipeline s @ [bw_byte s]) = bw_bits s @ replicate ?n False"
    using zero by (simp add: bw_bits_def)
  ultimately show ?thesis using True by (intro exI [of _ "s\<lparr>bw_pipeline := bw_pipeline s @ [bw_byte s],
      bw_bit_offset := 7, bw_byte := 0\<rparr>"] exI [of _ ?n]) simp
next
  case False
  then have "bw_bit_offset s = 7" using assms by (simp add: bw_inv_def)
  then show ?thesis
    by (intro exI [of _ s] exI [of _ 0]) (simp add: bit_writer_flush_def bw_bits_def)
qed

section \<open>Packing and unpacking fields\<close>

definition bit_pack :: "(64 word \<times> nat) list \<Rightarrow> (pipe_error, bytes) outcome" where
  "bit_pack items =
     into bw_pipeline
       (seq (foldm (\<lambda>s (v, w). write_bits vec_sink s v w) (bit_writer_new []) items)
         (bit_writer_flush vec_sink))"

fun bit_unpack :: "bit_stream \<Rightarrow> nat list \<Rightarrow> bit_stream_error + 64 word list" where
  "bit_unpack s [] = Inr []"
| "bit_unpack s (w # ws) =
     (case get_bits s w of
        Inl e \<Rightarrow> Inl e
      | Inr (v, s) \<Rightarrow> (case bit_unpack s ws of Inl e \<Rightarrow> Inl e | Inr vs \<Rightarrow> Inr (v # vs)))"

definition field_bits :: "(64 word \<times> nat) list \<Rightarrow> bool list" where
  "field_bits items = concat (map (\<lambda>(v, w). msb_bits w v) items)"

lemma write_fields:
  "bw_inv s \<Longrightarrow> \<forall>(v, w) \<in> set items. w \<le> 32 \<Longrightarrow>
   \<exists>t. foldm (\<lambda>s (v, w). write_bits vec_sink s v w) s items = Done t \<and> bw_inv t \<and>
     bw_bits t = bw_bits s @ field_bits items"
proof (induction items arbitrary: s)
  case Nil
  then show ?case by (simp add: field_bits_def)
next
  case (Cons f items)
  obtain v w where f: "f = (v, w)" by (cases f)
  then obtain m where "write_bits vec_sink s v w = Done m" "bw_inv m" "bw_bits m = bw_bits s @ msb_bits w v"
    using write_bits_spec [OF Cons.prems(1), of w v] Cons.prems(2) by auto
  then show ?case using Cons.IH [of m] Cons.prems(2) f by (auto simp: field_bits_def)
qed

lemma read_fields:
  "bs_inv s \<Longrightarrow> \<forall>(v, w) \<in> set items. w \<le> 32 \<Longrightarrow> bs_bits s = field_bits items @ rest \<Longrightarrow>
   bit_unpack s (map snd items) = Inr (map (\<lambda>(v, w). take_bit w v) items)"
proof (induction items arbitrary: s)
  case Nil
  then show ?case by simp
next
  case (Cons f items)
  obtain v w where f: "f = (v, w)" by (cases f)
  have bits: "take w (bs_bits s) = msb_bits w v" "drop w (bs_bits s) = field_bits items @ rest"
    using Cons.prems(3) f by (simp_all add: field_bits_def)
  have "of_nat (bits_value (msb_bits w v)) = take_bit w v"
  proof -
    have "take_bit w (unat v) = unat (take_bit w v)" by (simp add: unsigned_take_bit_eq)
    then show ?thesis by (simp only: bits_value_msb) simp
  qed
  moreover have "w \<le> 32" "w \<le> length (bs_bits s)"
    using Cons.prems f by (auto simp: field_bits_def)
  ultimately obtain t where "get_bits s w = Inr (take_bit w v, t)" "bs_inv t"
    "bs_bits t = field_bits items @ rest"
    using get_bits_spec [OF Cons.prems(1), of w] bits by auto
  then show ?case using Cons.IH [of t] Cons.prems(2) f by simp
qed

section \<open>Properties\<close>

text \<open>
  C23: fields of up to 32 bits written one after the other and flushed are read back in order with the
  same widths: each reader value is the written value cut to its width.
\<close>

theorem bit_fields_roundtrip:
  assumes "\<forall>(v, w) \<in> set items. w \<le> 32"
  shows "\<exists>out. bit_pack items = Done out \<and>
    bit_unpack (bit_stream_new out) (map snd items) = Inr (map (\<lambda>(v, w). take_bit w v) items)"
proof -
  let ?s = "bit_writer_new [] :: bytes bit_writer"
  obtain t where t: "foldm (\<lambda>s (v, w). write_bits vec_sink s v w) ?s items = Done t" "bw_inv t"
    "bw_bits t = field_bits items"
    using write_fields [OF bw_new(1) assms, of "[]"] by auto
  obtain u pad where u: "bit_writer_flush vec_sink t = Done u"
    "data_bits (bw_pipeline u) = bw_bits t @ replicate pad False"
    using bit_writer_flush_spec [OF t(2)] by blast
  have "bit_unpack (bit_stream_new (bw_pipeline u)) (map snd items) = Inr (map (\<lambda>(v, w). take_bit w v) items)"
    using u(2) t(3) by (intro read_fields [OF bs_new(1) assms]) simp
  then show ?thesis using t(1) u(1) by (simp add: bit_pack_def)
qed

theorem bit_fields_roundtrip_witness:
  "\<exists>out. bit_pack [(5, 3), (0x1FF, 9), (7, 2)] = Done out \<and>
     bit_unpack (bit_stream_new out) (map snd [(5, 3), (0x1FF :: 64 word, 9), (7, 2)]) =
       Inr (map (\<lambda>(v, w). take_bit w v) [(5, 3), (0x1FF, 9), (7, 2)])"
  by (rule bit_fields_roundtrip) simp

text \<open>The word a signed value is written as, and what the sign test of the reader makes of it.\<close>

definition signed_word :: "int \<Rightarrow> nat \<Rightarrow> 64 word" where
  "signed_word v n = (if v < 0 then push_bit n 1 + word_of_int v else word_of_int v)"

lemma signed_word_value:
  assumes "0 < n" "n \<le> 32" "- (2 ^ (n - 1)) \<le> v" "v < 2 ^ (n - 1)"
  shows "signed_word v n = word_of_int (if v < 0 then 2 ^ n + v else v)"
    "unat (signed_word v n) = nat (if v < 0 then 2 ^ n + v else v)"
    "0 \<le> (if v < 0 then 2 ^ n + v else v)" "(if v < 0 then 2 ^ n + v else v) < 2 ^ n" "unat (signed_word v n) < 2 ^ n"
proof -
  let ?w = "signed_word v n"
  let ?z = "if v < 0 then 2 ^ n + v else v"
  have pow: "(2 :: int) ^ n = 2 * 2 ^ (n - 1)" using assms(1) by (cases n) simp_all
  have small: "(2 :: int) ^ n \<le> 2 ^ 32" using assms(2) by (intro power_increasing) simp_all
  have z: "0 \<le> ?z" "?z < 2 ^ n" using assms(3,4) pow by (auto split: if_splits)
  have w: "?w = word_of_int ?z" by (simp add: signed_word_def push_bit_eq_mult)
  have unat: "unat ?w = nat ?z"
    unfolding w using z small by (simp add: unsigned_of_int take_bit_int_eq_self)
  have nz: "nat ?z < 2 ^ n" using z by (simp add: nat_less_iff)
  show "?w = word_of_int ?z" "unat ?w = nat ?z" "0 \<le> ?z" "?z < 2 ^ n" "unat ?w < 2 ^ n" using w unat z nz by (simp_all only:)
qed

lemma signed_word_read:
  assumes "0 < n" "n \<le> 32" "- (2 ^ (n - 1)) \<le> v" "v < 2 ^ (n - 1)"
  shows "(if push_bit (n - 1) 1 < signed_word v n then sint (signed_word v n - push_bit n 1) else sint (signed_word v n)) =
      (if v = - (2 ^ (n - 1)) then 2 ^ (n - 1) else v)"
proof -
  let ?w = "signed_word v n"
  let ?z = "if v < 0 then 2 ^ n + v else v"
  have pow: "(2 :: int) ^ n = 2 * 2 ^ (n - 1)" using assms(1) by (cases n) simp_all
  have small: "(2 :: int) ^ n \<le> 2 ^ 32" using assms(2) by (intro power_increasing) simp_all
  note w = signed_word_value(1) [OF assms] and unat = signed_word_value(2) [OF assms] and z = signed_word_value(3,4) [OF assms]
  have sint: "sint (word_of_int i :: 64 word) = i" if "- (2 ^ 32) \<le> i" "i \<le> 2 ^ 32" for i
    using that by (simp add: signed_of_int signed_take_bit_int_eq_self)
  have sign: "unat (push_bit (n - 1) 1 :: 64 word) = 2 ^ (n - 1)"
  proof -
    have "(2 :: nat) ^ (n - 1) < 2 ^ 64" using assms(2) by (intro power_strict_increasing) simp_all
    moreover have "unat (push_bit (n - 1) 1 :: 64 word) = take_bit 64 (2 ^ (n - 1))"
      by (subst unsigned_push_bit_eq) (simp add: push_bit_eq_mult)
    ultimately show ?thesis by (simp only: take_bit_nat_eq_self)
  qed
  have above: "push_bit (n - 1) 1 < ?w \<longleftrightarrow> 2 ^ (n - 1) < ?z"
    unfolding word_less_iff_unat unat sign using z by (simp add: nat_less_iff zless_nat_eq_int_zless)
  show ?thesis
  proof (cases "v < 0")
    case True
    have neg: "?w - push_bit n 1 = word_of_int v" using True by (simp add: signed_word_def)
    have si: "sint (word_of_int v :: 64 word) = v" using assms(3,4) True small pow by (intro sint) linarith+
    have sw: "sint ?w = ?z" unfolding w using z small by (intro sint) linarith+
    show ?thesis
    proof (cases "v = - (2 ^ (n - 1))")
      case least: True
      have "(2 ^ (n - 1) < ?z) = False" using True least pow by simp
      then have "(if push_bit (n - 1) 1 < ?w then sint (?w - push_bit n 1) else sint ?w) = ?z"
        unfolding above by (simp only: if_False sw)
      also have "?z = (if v = - (2 ^ (n - 1)) then 2 ^ (n - 1) else v)" using True least pow by simp
      finally show ?thesis .
    next
      case other: False
      have "(2 ^ (n - 1) < ?z) = True" using True other assms(3) pow by simp
      then have "(if push_bit (n - 1) 1 < ?w then sint (?w - push_bit n 1) else sint ?w) = v"
        unfolding above neg by (simp only: if_True si)
      then show ?thesis by (simp only: other if_False)
    qed
  next
    case False
    moreover have "sint ?w = ?z" unfolding w using z small by (intro sint) linarith+
    ultimately show ?thesis unfolding above using assms(4)
      by (simp add: not_less)
  qed
qed

text \<open>
  C24: a signed field of 1 to 32 bits reads back as the value written, except the least value
  \<open>-(2 ^ (n - 1))\<close>, whose sign is lost.
\<close>

theorem signed_field_roundtrip:
  assumes "0 < n" "n \<le> 32" "- (2 ^ (n - 1)) \<le> v" "v < 2 ^ (n - 1)"
  shows "\<exists>out s. into bw_pipeline
      (seq (write_bits_signed vec_sink (bit_writer_new []) v n) (bit_writer_flush vec_sink)) = Done out \<and>
    get_bits_signed (bit_stream_new out) n = Inr (if v = - (2 ^ (n - 1)) then 2 ^ (n - 1) else v, s)"
proof -
  let ?w = "signed_word v n"
  obtain m where m: "write_bits vec_sink (bit_writer_new []) ?w n = Done m" "bw_inv m"
    "bw_bits m = msb_bits n ?w"
    using write_bits_spec [OF bw_new(1) assms(2), of "[]" ?w] by auto
  obtain u pad where u: "bit_writer_flush vec_sink m = Done u"
    "data_bits (bw_pipeline u) = bw_bits m @ replicate pad False"
    using bit_writer_flush_spec [OF m(2)] by blast
  have "bits_value (msb_bits n ?w) = unat ?w"
    unfolding bits_value_msb by (rule take_bit_nat_eq_self [OF signed_word_value(5) [OF assms]])
  then have "of_nat (bits_value (msb_bits n ?w)) = ?w" by (simp only:) simp
  then obtain s where get: "get_bits (bit_stream_new (bw_pipeline u)) n = Inr (?w, s)"
    using get_bits_spec [OF bs_new(1) assms(2), of "bw_pipeline u"] u(2) m(3) by auto
  have "get_bits_signed (bit_stream_new (bw_pipeline u)) n =
      Inr (if v = - (2 ^ (n - 1)) then 2 ^ (n - 1) else v, s)"
    by (simp only: get_bits_signed_def get sum.case prod.case Let_def signed_word_read [OF assms])
  moreover have "into bw_pipeline
      (seq (write_bits_signed vec_sink (bit_writer_new []) v n) (bit_writer_flush vec_sink)) = Done (bw_pipeline u)"
    using m(1) u(1) assms(1,2) by (simp add: write_bits_signed_def signed_word_def)
  ultimately show ?thesis by blast
qed

theorem signed_field_roundtrip_witness:
  "\<exists>out s. into bw_pipeline
      (seq (write_bits_signed vec_sink (bit_writer_new []) (- 3) 4) (bit_writer_flush vec_sink)) = Done out \<and>
    get_bits_signed (bit_stream_new out) 4 = Inr (if (- 3 :: int) = - (2 ^ (4 - 1)) then 2 ^ (4 - 1) else - 3, s)"
  by (rule signed_field_roundtrip) simp_all

end
