(* ===== verification/Pdf_Syntax.thy ===== *)
theory Pdf_Syntax
  imports Prelude
begin

text \<open>
  The PDF token writers of \<open>crates/flpdf/src/pdf_syntax.rs\<close>: names, literal and hexadecimal strings.
  An output sink accumulates what is written to it; writing to a vector does not fail, so a writer is
  the bytes it appends.
\<close>

section \<open>Character classes\<close>

definition is_ws :: "byte \<Rightarrow> bool" where
  "is_ws b \<longleftrightarrow> b \<in> {0x00, 0x09, 0x0A, 0x0B, 0x0C, 0x0D, 0x20}"

definition is_delimiter :: "byte \<Rightarrow> bool" where
  "is_delimiter b \<longleftrightarrow> b \<in> {0x28, 0x29, 0x3C, 0x3E, 0x5B, 0x5D, 0x7B, 0x7D, 0x2F, 0x25}"

definition is_token_delimiter :: "byte \<Rightarrow> bool" where
  "is_token_delimiter b \<longleftrightarrow> is_ws b \<or> is_delimiter b"

section \<open>Writers\<close>

text \<open>\<open>HEX[n]\<close> of the table \<open>b"0123456789abcdef"\<close>.\<close>

definition hex_table :: bytes where
  "hex_table = [0x30, 0x31, 0x32, 0x33, 0x34, 0x35, 0x36, 0x37, 0x38, 0x39, 0x61, 0x62, 0x63, 0x64, 0x65, 0x66]"

definition hex_pair :: "byte \<Rightarrow> bytes" where
  "hex_pair b = [hex_table ! unat (drop_bit 4 b), hex_table ! unat (b AND 0x0F)]"

definition needs_name_escape :: "byte \<Rightarrow> bool" where
  "needs_name_escape b \<longleftrightarrow> \<not> (0x21 \<le> b \<and> b \<le> 0x7E) \<or>
     b \<in> {0x28, 0x29, 0x3C, 0x3E, 0x5B, 0x5D, 0x7B, 0x7D, 0x2F, 0x25, 0x23}"

text \<open>One iteration over the output written so far and \<open>safe_start\<close>, the first byte not yet written.\<close>

definition name_escape_step :: "bytes \<Rightarrow> bytes \<times> nat \<Rightarrow> nat \<times> byte \<Rightarrow> bytes \<times> nat" where
  "name_escape_step raw = (\<lambda>(out, safe_start) (index, byte).
     let flushed = (if safe_start < index then out @ take (index - safe_start) (drop safe_start raw) else out)
     in if byte = 0 then (flushed @ [0x23], index + 1)
        else if needs_name_escape byte then (flushed @ 0x23 # hex_pair byte, index + 1)
        else (out, safe_start))"

definition write_name_escaped :: "bytes \<Rightarrow> bytes" where
  "write_name_escaped raw =
     (let (out, safe_start) = foldl (name_escape_step raw) ([], 0) (enumerate 0 raw)
      in if safe_start < length raw then out @ drop safe_start raw else out)"

fun use_hex_loop :: "bytes \<Rightarrow> nat \<Rightarrow> nat option" where
  "use_hex_loop [] non_ascii = Some non_ascii"
| "use_hex_loop (b # bs) non_ascii =
     (if b > 126 then use_hex_loop bs (non_ascii + 1)
      else if b \<ge> 32 then use_hex_loop bs non_ascii
      else if b \<ge> 24 then use_hex_loop bs (non_ascii + 1)
      else if b \<notin> {0x0A, 0x0D, 0x09, 0x08, 0x0C} then None
      else use_hex_loop bs non_ascii)"

text \<open>\<open>None\<close> is the early \<open>return true\<close>.\<close>

definition use_hex_string :: "bytes \<Rightarrow> bool" where
  "use_hex_string v =
     (case use_hex_loop v 0 of None \<Rightarrow> True | Some non_ascii \<Rightarrow> 5 * non_ascii > length v)"

definition is_iso_latin1_printable :: "byte \<Rightarrow> bool" where
  "is_iso_latin1_printable b \<longleftrightarrow> 32 \<le> b \<and> b \<le> 126 \<or> b \<ge> 160"

text \<open>\<open>format!("{byte:03o}")\<close>: three octal digits.\<close>

definition octal3 :: "byte \<Rightarrow> bytes" where
  "octal3 b = [0x30 + of_nat (unat b div 64), 0x30 + of_nat (unat b div 8 mod 8), 0x30 + of_nat (unat b mod 8)]"

definition literal_char :: "byte \<Rightarrow> bytes" where
  "literal_char b =
     (if b = 0x5C \<or> b = 0x28 \<or> b = 0x29 then [0x5C, b]
      else if b = 0x0A then [0x5C, 0x6E]
      else if b = 0x0D then [0x5C, 0x72]
      else if b = 0x09 then [0x5C, 0x74]
      else if b = 0x08 then [0x5C, 0x62]
      else if b = 0x0C then [0x5C, 0x66]
      else if is_iso_latin1_printable b then [b]
      else 0x5C # octal3 b)"

definition write_literal_string :: "bytes \<Rightarrow> bytes" where
  "write_literal_string v = [0x28] @ concat (map literal_char v) @ [0x29]"

definition write_hex_string :: "bytes \<Rightarrow> bytes" where
  "write_hex_string v = [0x3C] @ concat (map hex_pair v) @ [0x3E]"

definition write_string_value :: "bytes \<Rightarrow> bytes" where
  "write_string_value v = (if use_hex_string v then write_hex_string v else write_literal_string v)"

section \<open>The name writer escapes byte by byte\<close>

definition name_escape :: "byte \<Rightarrow> bytes" where
  "name_escape b =
     (if b = 0 then [0x23] else if needs_name_escape b then 0x23 # hex_pair b else [b])"

text \<open>What is written plus the safe run behind it is the escaped prefix.\<close>

lemma name_escape_prefix:
  assumes "n \<le> length raw"
  shows "\<exists>out k. foldl (name_escape_step raw) ([], 0) (enumerate 0 (take n raw)) = (out, k) \<and> k \<le> n \<and>
    out @ take (n - k) (drop k raw) = concat (map name_escape (take n raw))"
  using assms
proof (induction n)
  case 0
  then show ?case by simp
next
  case (Suc n)
  then obtain out k where IH: "foldl (name_escape_step raw) ([], 0) (enumerate 0 (take n raw)) = (out, k)" "k \<le> n"
    "out @ take (n - k) (drop k raw) = concat (map name_escape (take n raw))" by auto
  have n: "n < length raw" using Suc.prems by simp
  have enum: "enumerate 0 (take (Suc n) raw) = enumerate 0 (take n raw) @ [(n, raw ! n)]"
    using n by (simp add: take_Suc_conv_app_nth enumerate_append_eq)
  have flushed: "(if k < n then out @ take (n - k) (drop k raw) else out) = concat (map name_escape (take n raw))"
    using IH(2,3) by auto
  have more: "take (Suc n - k) (drop k raw) = take (n - k) (drop k raw) @ [raw ! n]"
    using IH(2) n by (simp add: Suc_diff_le take_Suc_conv_app_nth)
  have step: "name_escape_step raw (out, k) (n, raw ! n) =
      (if raw ! n = 0 \<or> needs_name_escape (raw ! n)
       then (concat (map name_escape (take (Suc n) raw)), Suc n) else (out, k))"
    using flushed n by (auto simp: name_escape_step_def Let_def name_escape_def take_Suc_conv_app_nth)
  show ?case
  proof (cases "raw ! n = 0 \<or> needs_name_escape (raw ! n)")
    case True
    then show ?thesis using IH(1) enum step by simp
  next
    case False
    have "out @ take (Suc n - k) (drop k raw) = concat (map name_escape (take (Suc n) raw))"
      unfolding more using IH(3) False n by (simp add: name_escape_def take_Suc_conv_app_nth)
    then show ?thesis using IH(1,2) enum step False by auto
  qed
qed

lemma write_name_escaped_eq: "write_name_escaped raw = concat (map name_escape raw)"
  using name_escape_prefix [of "length raw" raw] by (auto simp: write_name_escaped_def)

section \<open>Hexadecimal digits\<close>

definition hex_value :: "byte \<Rightarrow> byte option" where
  "hex_value b =
     (if is_ascii_digit b then Some (b - 0x30)
      else if 0x61 \<le> b \<and> b \<le> 0x66 then Some (b - 0x61 + 10)
      else if 0x41 \<le> b \<and> b \<le> 0x46 then Some (b - 0x41 + 10)
      else None)"

lemma nibbles_less: "unat (drop_bit 4 (b :: byte)) < 16" "unat (b AND 0x0F :: byte) < 16"
proof -
  have "unat (drop_bit 4 b) < 16 \<and> unat (b AND 0x0F) < 16"
    by (rule all_bytesI [where b = b]) code_simp
  then show "unat (drop_bit 4 b) < 16" "unat (b AND 0x0F) < 16" by simp_all
qed

text \<open>The two digits of a byte are hexadecimal and give its value back.\<close>

lemma hex_pair_value:
  "\<exists>h l. hex_value (hex_pair b ! 0) = Some h \<and> hex_value (hex_pair b ! 1) = Some l \<and>
     push_bit 4 (ucast h) OR ucast l = (ucast b :: 16 word)"
proof -
  have "case (hex_value (hex_pair b ! 0), hex_value (hex_pair b ! 1)) of
      (Some h, Some l) \<Rightarrow> push_bit 4 (ucast h) OR ucast l = (ucast b :: 16 word) | _ \<Rightarrow> False"
    by (rule all_bytesI [where b = b]) code_simp
  then show ?thesis by (auto split: option.splits)
qed

end
