(* ===== verification/Rust_Std.thy ===== *)
theory Rust_Std
  imports Prelude
begin

text \<open>
  The parts of Rust's standard library the modelled code uses: \<open>str::parse\<close> for integers with its
  error kinds, and UTF-8 as \<open>str::from_utf8\<close> and \<open>String::from_utf8_lossy\<close> see it.
\<close>

section \<open>Parsing integers\<close>

datatype int_error_kind = Empty | InvalidDigit | PosOverflow | NegOverflow

text \<open>The digit loop with checked arithmetic in the range \<open>lo..=hi\<close>, subtracting when negative.\<close>

fun parse_digits :: "int \<Rightarrow> int \<Rightarrow> bool \<Rightarrow> int \<Rightarrow> bytes \<Rightarrow> int_error_kind + int" where
  "parse_digits lo hi negative acc [] = Inr acc"
| "parse_digits lo hi negative acc (b # bs) =
     (if \<not> is_ascii_digit b then Inl InvalidDigit
      else
        let d = int (unat (b - 0x30));
            mul = 10 * acc;
            r = (if negative then mul - d else mul + d)
        in if mul < lo \<or> hi < mul \<or> r < lo \<or> hi < r
           then Inl (if negative then NegOverflow else PosOverflow)
           else parse_digits lo hi negative r bs)"

text \<open>\<open>text.parse::<T>()\<close>: a sign, then digits; an unsigned type has no \<open>-\<close>.\<close>

definition parse_int :: "int \<Rightarrow> int \<Rightarrow> bytes \<Rightarrow> int_error_kind + int" where
  "parse_int lo hi text =
     (case text of
        [] \<Rightarrow> Inl Empty
      | b # bs \<Rightarrow>
          if bs = [] \<and> (b = 0x2B \<or> b = 0x2D) then Inl InvalidDigit
          else if b = 0x2B then parse_digits lo hi False 0 bs
          else if b = 0x2D \<and> lo < 0 then parse_digits lo hi True 0 bs
          else parse_digits lo hi False 0 text)"

definition parse_i64 :: "bytes \<Rightarrow> int_error_kind + int" where
  "parse_i64 = parse_int (- (2 ^ 63)) (2 ^ 63 - 1)"

definition parse_i32 :: "bytes \<Rightarrow> int_error_kind + int" where
  "parse_i32 = parse_int (- (2 ^ 31)) (2 ^ 31 - 1)"

definition parse_u32 :: "bytes \<Rightarrow> int_error_kind + int" where
  "parse_u32 = parse_int 0 (2 ^ 32 - 1)"

text \<open>The number a digit string denotes.\<close>

definition digits_value :: "bytes \<Rightarrow> int" where
  "digits_value bs = foldl (\<lambda>acc b. 10 * acc + int (unat (b - 0x30))) 0 bs"

lemma foldl_digits_split:
  "foldl (\<lambda>acc b. 10 * acc + int (unat (b - 0x30))) acc bs = acc * 10 ^ length bs + digits_value bs"
proof (induction bs arbitrary: acc)
  case Nil
  then show ?case by (simp add: digits_value_def)
next
  case (Cons b bs)
  show ?case using Cons [of "10 * acc + int (unat (b - 0x30))"] Cons [of "int (unat (b - 0x30))"]
    by (simp add: digits_value_def algebra_simps)
qed

lemma digits_value_simps [simp]:
  "digits_value [] = 0"
  "digits_value (b # bs) = int (unat (b - 0x30)) * 10 ^ length bs + digits_value bs"
  using foldl_digits_split [of "int (unat (b - 0x30))" bs] by (simp_all add: digits_value_def)

lemma digits_value_nonneg: "0 \<le> digits_value bs"
  by (induction bs) simp_all

text \<open>The loop computes the denoted value, or stops because it leaves the range.\<close>

lemma parse_digits_pos:
  "list_all is_ascii_digit bs \<Longrightarrow> 0 \<le> acc \<Longrightarrow> acc \<le> hi \<Longrightarrow> lo \<le> 0 \<Longrightarrow>
   parse_digits lo hi False acc bs =
     (let v = acc * 10 ^ length bs + digits_value bs in if v \<le> hi then Inr v else Inl PosOverflow)"
proof (induction bs arbitrary: acc)
  case Nil
  then show ?case by simp
next
  case (Cons b bs)
  let ?r = "10 * acc + int (unat (b - 0x30))"
  let ?v = "acc * 10 ^ length (b # bs) + digits_value (b # bs)"
  have v: "?v = ?r * 10 ^ length bs + digits_value bs" by (simp add: algebra_simps)
  have big: "?r * 1 \<le> ?r * 10 ^ length bs" using Cons.prems by (intro mult_left_mono) simp_all
  then have "?r \<le> ?v" unfolding v mult_1_right
    by (rule add_increasing2 [OF digits_value_nonneg])
  then have over: "hi < ?r \<Longrightarrow> hi < ?v" by linarith
  have "0 \<le> int (unat (b - 0x30))" by (rule of_nat_0_le_iff)
  then have cond: "(10 * acc < lo \<or> hi < 10 * acc \<or> ?r < lo \<or> hi < ?r) = (hi < ?r)" "0 \<le> ?r"
    using Cons.prems(2,4) by linarith+
  have "parse_digits lo hi False acc (b # bs) =
      (if hi < ?r then Inl PosOverflow else parse_digits lo hi False ?r bs)"
    unfolding parse_digits.simps Let_def if_False cond(1) using Cons.prems(1) by simp
  also have "\<dots> = (if ?v \<le> hi then Inr ?v else Inl PosOverflow)"
    using Cons.IH [of ?r] Cons.prems(1,4) cond(2) over unfolding v Let_def by auto
  finally show ?case unfolding Let_def .
qed

lemma parse_digits_neg:
  "list_all is_ascii_digit bs \<Longrightarrow> acc \<le> 0 \<Longrightarrow> lo \<le> acc \<Longrightarrow> 0 \<le> hi \<Longrightarrow>
   parse_digits lo hi True acc bs =
     (let v = acc * 10 ^ length bs - digits_value bs in if lo \<le> v then Inr v else Inl NegOverflow)"
proof (induction bs arbitrary: acc)
  case Nil
  then show ?case by simp
next
  case (Cons b bs)
  let ?r = "10 * acc - int (unat (b - 0x30))"
  let ?v = "acc * 10 ^ length (b # bs) - digits_value (b # bs)"
  have v: "?v = ?r * 10 ^ length bs - digits_value bs" by (simp add: algebra_simps)
  have "0 \<le> int (unat (b - 0x30))" by (rule of_nat_0_le_iff)
  then have r0: "?r \<le> 0" using Cons.prems(2) by linarith
  then have "?r * 10 ^ length bs \<le> ?r * 1" by (intro mult_left_mono_neg) simp_all
  then have "?r * 10 ^ length bs - digits_value bs \<le> ?r - 0"
    unfolding mult_1_right by (rule diff_mono) (rule digits_value_nonneg)
  then have "?v \<le> ?r" unfolding v by simp
  then have under: "?r < lo \<Longrightarrow> ?v < lo" by linarith
  have "0 \<le> int (unat (b - 0x30))" by (rule of_nat_0_le_iff)
  then have cond: "(10 * acc < lo \<or> hi < 10 * acc \<or> ?r < lo \<or> hi < ?r) = (?r < lo)"
    using Cons.prems(2,4) by linarith
  have "parse_digits lo hi True acc (b # bs) =
      (if ?r < lo then Inl NegOverflow else parse_digits lo hi True ?r bs)"
    unfolding parse_digits.simps Let_def if_True cond using Cons.prems(1) by simp
  also have "\<dots> = (if lo \<le> ?v then Inr ?v else Inl NegOverflow)"
    using Cons.IH [of ?r] Cons.prems(1,4) r0 under unfolding v Let_def by auto
  finally show ?case unfolding Let_def .
qed

section \<open>Printing integers\<close>

text \<open>\<open>Display\<close> of an unsigned and of a signed integer.\<close>

fun decimal :: "nat \<Rightarrow> bytes" where
  "decimal n = (if n < 10 then [0x30 + of_nat n] else decimal (n div 10) @ [0x30 + of_nat (n mod 10)])"

declare decimal.simps [simp del]

definition decimal_int :: "int \<Rightarrow> bytes" where
  "decimal_int i = (if i < 0 then 0x2D # decimal (nat (- i)) else decimal (nat i))"

lemma digit_byte: "n < 10 \<Longrightarrow> is_ascii_digit (0x30 + of_nat n) \<and> (0x30 + of_nat n) - 0x30 = (of_nat n :: byte) \<and>
   unat (of_nat n :: byte) = n"
proof -
  assume "n < 10"
  then have "n \<in> set [0..<10]" by simp
  moreover have "\<forall>n \<in> set [0..<10]. is_ascii_digit (0x30 + of_nat n) \<and>
      (0x30 + of_nat n) - 0x30 = (of_nat n :: byte) \<and> unat (of_nat n :: byte) = n"
    by code_simp
  ultimately show ?thesis by blast
qed

lemma decimal_digits: "list_all is_ascii_digit (decimal n) \<and> decimal n \<noteq> [] \<and> digits_value (decimal n) = int n"
proof (induction n rule: decimal.induct)
  case (1 n)
  show ?case
  proof (cases "n < 10")
    case True
    then show ?thesis using digit_byte [of n] by (simp add: decimal.simps [of n])
  next
    case False
    let ?ds = "decimal (n div 10)" and ?d = "0x30 + of_nat (n mod 10) :: byte"
    have d: "is_ascii_digit ?d" "int (unat (?d - 0x30)) = int (n mod 10)"
      using digit_byte [of "n mod 10"] by simp_all
    have "digits_value (?ds @ [?d]) = 10 * digits_value ?ds + int (unat (?d - 0x30))"
      by (simp only: digits_value_def foldl_append foldl_Cons foldl_Nil)
    also have "\<dots> = int n"
      unfolding d(2) using 1 [OF False] mult_div_mod_eq [of 10 n] by linarith
    finally show ?thesis using 1 [OF False] d(1) False by (simp only: decimal.simps [of n]) simp
  qed
qed

lemma digit_not_sign: "is_ascii_digit b \<Longrightarrow> b \<noteq> 0x2B \<and> b \<noteq> 0x2D"
  by (auto simp: is_ascii_digit_def)

lemma parse_int_decimal:
  assumes "lo \<le> 0" "int n \<le> hi"
  shows "parse_int lo hi (decimal n) = Inr (int n)"
proof -
  have ds: "list_all is_ascii_digit (decimal n)" "decimal n \<noteq> []" "digits_value (decimal n) = int n"
    using decimal_digits by blast+
  then obtain b bs where b: "decimal n = b # bs" "is_ascii_digit b" by (cases "decimal n") auto
  have "parse_int lo hi (decimal n) = parse_digits lo hi False 0 (decimal n)"
    using b digit_not_sign [OF b(2)] by (simp add: parse_int_def)
  then show ?thesis using parse_digits_pos [OF ds(1), of 0 hi lo] ds(3) assms by simp
qed

lemma parse_int_decimal_int:
  assumes "lo \<le> i" "i \<le> hi" "lo \<le> 0" "0 \<le> hi"
  shows "parse_int lo hi (decimal_int i) = Inr i"
proof (cases "i < 0")
  case True
  let ?n = "nat (- i)"
  have ds: "list_all is_ascii_digit (decimal ?n)" "decimal ?n \<noteq> []" "digits_value (decimal ?n) = - i"
    using decimal_digits [of ?n] True by auto
  then have "parse_int lo hi (decimal_int i) = parse_digits lo hi True 0 (decimal ?n)"
    using True assms(1) by (simp add: parse_int_def decimal_int_def)
  then show ?thesis using parse_digits_neg [OF ds(1), of 0 lo hi] ds(3) assms by simp
next
  case False
  then show ?thesis using parse_int_decimal [of lo "nat i" hi] assms by (simp add: decimal_int_def)
qed

section \<open>UTF-8\<close>

definition is_cont :: "byte \<Rightarrow> bool" where
  "is_cont b \<longleftrightarrow> 0x80 \<le> b \<and> b \<le> 0xBF"

text \<open>
  One step of the decoder on a non-empty text: whether a valid sequence starts here, and how many
  bytes it or the maximal invalid prefix has.
\<close>

definition second_range :: "byte \<Rightarrow> (nat \<times> byte \<times> byte) option" where
  "second_range b =
     (if 0xC2 \<le> b \<and> b \<le> 0xDF then Some (2, 0x80, 0xBF)
      else if b = 0xE0 then Some (3, 0xA0, 0xBF)
      else if b = 0xED then Some (3, 0x80, 0x9F)
      else if 0xE1 \<le> b \<and> b \<le> 0xEF then Some (3, 0x80, 0xBF)
      else if b = 0xF0 then Some (4, 0x90, 0xBF)
      else if b = 0xF4 then Some (4, 0x80, 0x8F)
      else if 0xF1 \<le> b \<and> b \<le> 0xF3 then Some (4, 0x80, 0xBF)
      else None)"

definition utf8_step :: "byte \<Rightarrow> bytes \<Rightarrow> bool \<times> nat" where
  "utf8_step b bs =
     (if b < 0x80 then (True, 1)
      else case second_range b of
        None \<Rightarrow> (False, 1)
      | Some (width, lo, hi) \<Rightarrow>
          if bs = [] \<or> \<not> (lo \<le> hd bs \<and> hd bs \<le> hi) then (False, 1)
          else let conts = length (takeWhile is_cont (take (width - 2) (tl bs)))
               in if conts = width - 2 then (True, width) else (False, conts + 2))"

lemma utf8_step_pos: "0 < snd (utf8_step b bs)"
  by (auto simp: utf8_step_def second_range_def Let_def split: option.splits)

function valid_utf8 :: "bytes \<Rightarrow> bool" where
  "valid_utf8 [] = True"
| "valid_utf8 (b # bs) =
     (fst (utf8_step b bs) \<and> valid_utf8 (drop (snd (utf8_step b bs) - 1) bs))"
  by pat_completeness auto
termination
  by (relation "measure length") auto

text \<open>\<open>from_utf8_lossy\<close> puts U+FFFD for every maximal invalid prefix.\<close>

function utf8_lossy :: "bytes \<Rightarrow> bytes" where
  "utf8_lossy [] = []"
| "utf8_lossy (b # bs) =
     (let (ok, n) = utf8_step b bs
      in (if ok then take n (b # bs) else [0xEF, 0xBF, 0xBD]) @ utf8_lossy (drop (n - 1) bs))"
  by pat_completeness auto
termination
  by (relation "measure length") auto

lemma utf8_lossy_valid: "valid_utf8 bs \<Longrightarrow> utf8_lossy bs = bs"
proof (induction bs rule: valid_utf8.induct)
  case 1
  then show ?case by simp
next
  case (2 b bs)
  obtain n where n: "utf8_step b bs = (True, n)" "0 < n"
    using 2(2) utf8_step_pos [of b bs] by (cases "utf8_step b bs") auto
  then have "utf8_lossy (drop (n - 1) bs) = drop (n - 1) bs" using 2 by simp
  moreover have "take n (b # bs) @ drop (n - 1) bs = b # bs" using n(2) by (cases n) simp_all
  ultimately show ?case using n(1) by simp
qed

lemma valid_utf8_ascii: "list_all (\<lambda>b. b < 0x80) bs \<Longrightarrow> valid_utf8 bs"
  by (induction bs) (simp_all add: utf8_step_def)

end
