(* ===== verification/Errors.thy ===== *)
theory Errors
  imports Pipeline Rust_Std
begin

text \<open>
  The error values of \<open>crates/flpdf/src/error.rs\<close>: \<open>QpdfExc\<close>, \<open>UsageError\<close>, \<open>EncryptedError\<close> and
  \<open>Error\<close> with their text, and the warning collection of \<open>crates/flpdf/src/diagnostics.rs\<close>. Strings are
  their UTF-8 bytes. An \<open>io::Error\<close> is what the code reads of it: its text, \<open>errno\<close> and kind.
\<close>

section \<open>QpdfExc\<close>

datatype qpdf_error_code = E_Success | E_Internal | E_System | E_Unsupported | E_Password | E_DamagedPdf
  | E_Pages | E_Object | E_Json | E_Linearization

record qpdf_exc =
  qe_error_code :: qpdf_error_code
  qe_filename :: bytes
  qe_object :: bytes
  qe_offset :: int
  qe_message :: bytes
  qe_what :: bytes

text \<open>\<open>&m[..m.iter().position(|&b| b == 0).unwrap_or(m.len())]\<close>\<close>

definition until_nul :: "bytes \<Rightarrow> bytes" where
  "until_nul m = takeWhile (\<lambda>b. b \<noteq> 0) m"

definition create_what :: "bytes \<Rightarrow> bytes \<Rightarrow> int \<Rightarrow> bytes \<Rightarrow> bytes" where
  "create_what filename object offset message =
     (let result = filename;
          result =
            (if object = [] \<and> offset = 0 then result
             else
               let result = (if filename \<noteq> [] then result @ str '' ('' else result);
                   result = (if object \<noteq> [] then result @ object @ (if offset > 0 then str '', '' else []) else result);
                   result = (if offset > 0 then result @ str ''offset '' @ decimal_int offset else result)
               in if filename \<noteq> [] then result @ str '')'' else result)
      in (if result \<noteq> [] then result @ str '': '' else result) @ message)"

definition qpdf_exc_new :: "qpdf_error_code \<Rightarrow> bytes \<Rightarrow> bytes \<Rightarrow> int \<Rightarrow> bytes \<Rightarrow> qpdf_exc" where
  "qpdf_exc_new code filename object offset message =
     \<lparr>qe_error_code = code, qe_filename = filename, qe_object = object, qe_offset = offset,
      qe_message = message, qe_what = create_what filename object offset message\<rparr>"

definition qe_what_bytes :: "qpdf_exc \<Rightarrow> bytes" where
  "qe_what_bytes e = until_nul (qe_what e)"

definition qpdf_exc_text :: "qpdf_exc \<Rightarrow> bytes" where
  "qpdf_exc_text e = utf8_lossy (qe_what_bytes e)"

section \<open>Diagnostics\<close>

record diagnostics =
  dg_entries :: "qpdf_exc list"

definition diagnostics_push :: "diagnostics \<Rightarrow> qpdf_exc \<Rightarrow> diagnostics" where
  "diagnostics_push d warning = d\<lparr>dg_entries := dg_entries d @ [warning]\<rparr>"

definition diagnostics_len :: "diagnostics \<Rightarrow> nat" where
  "diagnostics_len d = length (dg_entries d)"

definition diagnostics_is_empty :: "diagnostics \<Rightarrow> bool" where
  "diagnostics_is_empty d \<longleftrightarrow> dg_entries d = []"

text \<open>\<open>drain\<close>: the batch moved out, and the collection it leaves.\<close>

definition diagnostics_drain :: "diagnostics \<Rightarrow> diagnostics \<times> diagnostics" where
  "diagnostics_drain d = (d, \<lparr>dg_entries = []\<rparr>)"

section \<open>Input and output errors\<close>

datatype io_error_kind = NotFound | PermissionDenied | AlreadyExists | InvalidInput | IsADirectory
  | NotADirectory | OtherKind

record io_error =
  io_display :: bytes
  io_raw_os_error :: "int option"
  io_kind :: io_error_kind

text \<open>\<open>rendered.strip_suffix(suffix)\<close>\<close>

definition strip_suffix :: "bytes \<Rightarrow> bytes \<Rightarrow> bytes option" where
  "strip_suffix text suffix =
     (let n = length text - length suffix
      in if length suffix \<le> length text \<and> drop n text = suffix then Some (take n text) else None)"

definition strerror_from_display :: "io_error \<Rightarrow> bytes" where
  "strerror_from_display e =
     (case io_raw_os_error e of
        None \<Rightarrow> io_display e
      | Some code \<Rightarrow>
          (case strip_suffix (io_display e) (str '' (os error '' @ decimal_int code @ str '')'') of
             Some t \<Rightarrow> t
           | None \<Rightarrow> io_display e))"

text \<open>On Unix: an error with an \<open>errno\<close> is rendered by the system.\<close>

definition strerror_text :: "io_error \<Rightarrow> bytes" where
  "strerror_text e =
     (if io_raw_os_error e \<noteq> None then strerror_from_display e
      else case io_kind e of
        NotFound \<Rightarrow> str ''No such file or directory''
      | PermissionDenied \<Rightarrow> str ''Permission denied''
      | AlreadyExists \<Rightarrow> str ''File exists''
      | InvalidInput \<Rightarrow> str ''Invalid argument''
      | IsADirectory \<Rightarrow> str ''Is a directory''
      | NotADirectory \<Rightarrow> str ''Not a directory''
      | OtherKind \<Rightarrow> strerror_from_display e)"

section \<open>Encryption errors\<close>

datatype encrypted_error =
    BadPassword
  | UnsupportedHandler bytes int int "bytes option"
  | Malformed bytes

definition encrypted_error_code :: "encrypted_error \<Rightarrow> bytes" where
  "encrypted_error_code e =
     (case e of
        BadPassword \<Rightarrow> str ''encrypted.bad-password''
      | UnsupportedHandler handler v r cfm \<Rightarrow> str ''encrypted.unsupported-handler''
      | Malformed reason \<Rightarrow> str ''encrypted.malformed'')"

text \<open>
  \<open>{cfm:?}\<close>: \<open>Debug\<close> of an optional string. ASCII is escaped as in the standard library; characters
  above are taken as printable and stay as they are.
\<close>

fun lower_hex :: "nat \<Rightarrow> bytes" where
  "lower_hex n =
     (let d = (if n mod 16 < 10 then 0x30 + of_nat (n mod 16) else 0x57 + of_nat (n mod 16))
      in if n < 16 then [d] else lower_hex (n div 16) @ [d])"

declare lower_hex.simps [simp del]

definition debug_char :: "byte \<Rightarrow> bytes" where
  "debug_char b =
     (if b = 0x22 \<or> b = 0x5C then [0x5C, b]
      else if b = 0x09 then [0x5C, 0x74]
      else if b = 0x0D then [0x5C, 0x72]
      else if b = 0x0A then [0x5C, 0x6E]
      else if b = 0 then [0x5C, 0x30]
      else if b < 0x20 \<or> b = 0x7F then [0x5C, 0x75, 0x7B] @ lower_hex (unat b) @ [0x7D]
      else [b])"

definition debug_string :: "bytes \<Rightarrow> bytes" where
  "debug_string s = 0x22 # concat (map debug_char s) @ [0x22]"

definition debug_option :: "bytes option \<Rightarrow> bytes" where
  "debug_option s = (case s of None \<Rightarrow> str ''None'' | Some t \<Rightarrow> str ''Some('' @ debug_string t @ str '')'')"

definition encrypted_error_text :: "encrypted_error \<Rightarrow> bytes" where
  "encrypted_error_text e =
     (case e of
        BadPassword \<Rightarrow> str ''incorrect password''
      | UnsupportedHandler handler v r cfm \<Rightarrow>
          str ''unsupported encryption handler: filter='' @ handler @ str '', V='' @ decimal_int v @ str '', R='' @
          decimal_int r @ str '', CFM='' @ debug_option cfm
      | Malformed reason \<Rightarrow> str ''malformed /Encrypt dictionary: '' @ reason)"

section \<open>Error\<close>

datatype error =
    Io io_error
  | FileIo bytes bytes io_error
  | Parse nat bytes
  | QpdfExc qpdf_exc
  | Unsupported bytes
  | Usage bytes
  | Missing bytes
  | Pages bytes
  | Encrypted encrypted_error
  | Internal bytes
  | System bytes
  | SystemBytes bytes
  | OpenFailure error diagnostics

definition usage_what :: "bytes \<Rightarrow> bytes" where
  "usage_what m = utf8_lossy (until_nul m)"

fun error_text :: "error \<Rightarrow> bytes" where
  "error_text (Io e) = str ''I/O error: '' @ io_display e"
| "error_text (FileIo operation path source) =
     operation @ str '' '' @ utf8_lossy path @ str '': '' @ strerror_text source"
| "error_text (Parse offset message) =
     str ''parse error at byte '' @ decimal offset @ str '': '' @ message"
| "error_text (QpdfExc e) = qpdf_exc_text e"
| "error_text (Unsupported m) = str ''unsupported PDF feature: '' @ m"
| "error_text (Usage m) = usage_what m"
| "error_text (Missing m) = str ''missing required PDF entry: '' @ m"
| "error_text (Pages m) = m"
| "error_text (Encrypted e) = str ''encrypted PDF: '' @ encrypted_error_text e"
| "error_text (Internal m) = m"
| "error_text (System m) = m"
| "error_text (SystemBytes m) = utf8_lossy m"
| "error_text (OpenFailure source diags) = error_text source"

text \<open>\<open>usize::saturating_add\<close> on a 64-bit target.\<close>

definition saturating_add :: "nat \<Rightarrow> nat \<Rightarrow> nat" where
  "saturating_add a b = min (a + b) (2 ^ 64 - 1)"

definition rebase_offset :: "nat \<Rightarrow> error \<Rightarrow> error" where
  "rebase_offset base e =
     (case e of Parse offset message \<Rightarrow> Parse (saturating_add base offset) message | _ \<Rightarrow> e)"

definition open_failure :: "error \<Rightarrow> (error \<times> diagnostics) option" where
  "open_failure e = (case e of OpenFailure source diags \<Rightarrow> Some (source, diags) | _ \<Rightarrow> None)"

fun raw_message :: "error \<Rightarrow> bytes option" where
  "raw_message (QpdfExc e) = Some (qe_what_bytes e)"
| "raw_message (SystemBytes m) = Some m"
| "raw_message (Usage m) = Some (until_nul m)"
| "raw_message (OpenFailure source diags) = raw_message source"
| "raw_message e = None"

definition with_open_diagnostics :: "error \<Rightarrow> diagnostics \<Rightarrow> error" where
  "with_open_diagnostics source diags = (if dg_entries diags = [] then source else OpenFailure source diags)"

text \<open>\<open>into_string_lossy\<close> of the detail.\<close>

definition from_pipeline_error :: "pipe_error \<Rightarrow> error" where
  "from_pipeline_error e =
     (case e of Logic m \<Rightarrow> Internal (utf8_lossy m) | Runtime m \<Rightarrow> System (utf8_lossy m))"

section \<open>Facts\<close>

lemma saturating_add_assoc: "saturating_add a (saturating_add b c) = saturating_add (saturating_add a b) c"
  by (simp add: saturating_add_def min_def)

text \<open>
  An error that crosses nested sub-slices is rebased step by step to the same position as once by
  the whole distance, even where the sum saturates, and only parse errors carry a position.
\<close>

lemma rebase_offset_compose:
  "rebase_offset a (rebase_offset b e) = rebase_offset (saturating_add a b) e \<and>
   (case e of Parse offset m \<Rightarrow> rebase_offset a e = Parse (min (a + offset) (2 ^ 64 - 1)) m | _ \<Rightarrow> rebase_offset a e = e)"
  by (cases e) (simp_all add: rebase_offset_def saturating_add_assoc, simp add: saturating_add_def)

text \<open>The text of an exception names the file, the object and a positive offset, then the detail.\<close>

lemma create_what_shape:
  "create_what filename object offset message =
     (let pos = (if object \<noteq> [] then object @ (if offset > 0 then str '', '' else []) else []) @
                (if offset > 0 then str ''offset '' @ decimal_int offset else []);
          place = (if object = [] \<and> offset = 0 then filename
                   else if filename = [] then pos else filename @ str '' ('' @ pos @ str '')'')
      in (if place = [] then [] else place @ str '': '') @ message)"
  by (simp add: create_what_def Let_def)

lemma until_nul_no_nul: "0 \<notin> set (until_nul m)"
  unfolding until_nul_def by (auto dest: set_takeWhileD)

end
