(* ===== verification/Lzw.thy ===== *)
theory Lzw
  imports Bit_Stream Rust_Std
begin

text \<open>
  The LZW decoder of \<open>crates/flpdf/src/pipeline/lzw.rs\<close>: codes of 9 to 12 bits cut out of a rotating
  buffer of three bytes, and the code table. The rotating buffer is refined to a queue of bits; the
  decoder is shown to invert every valid LZW encoding.
\<close>

section \<open>State\<close>

text \<open>
  The fields for decompression come first, so that \<open>handle_code\<close> runs on the decoder and on the
  abstract reader below; the fields for bits are the extension. Codes and widths are \<open>u32\<close>; they stay
  below 4096, and no subtraction underflows (\<open>lzw_inv\<close>).
\<close>

record 'd lzw_table =
  lz_next :: 'd
  lz_code_size :: nat
  lz_code_change_delta :: bool
  lz_eod :: bool
  lz_table :: "bytes list"
  lz_last_code :: nat

record 'd lzw = "'d lzw_table" +
  lz_buf :: bytes
  lz_buf_next :: nat
  lz_byte_pos :: nat
  lz_bit_pos :: nat
  lz_bits_available :: nat

definition CLEAR_CODE :: nat where "CLEAR_CODE = 256"
definition EOD_CODE :: nat where "EOD_CODE = 257"
definition FIRST_TABLE_CODE :: nat where "FIRST_TABLE_CODE = 258"
definition TABLE_LIMIT :: nat where "TABLE_LIMIT = 4096"

lemmas lzw_codes_defs = CLEAR_CODE_def EOD_CODE_def FIRST_TABLE_CODE_def TABLE_LIMIT_def

definition lzw_new :: "'d \<Rightarrow> bool \<Rightarrow> 'd lzw" where
  "lzw_new next early_code_change =
     \<lparr>lz_next = next, lz_code_size = 9, lz_code_change_delta = early_code_change, lz_eod = False,
      lz_table = [], lz_last_code = CLEAR_CODE, lz_buf = [0, 0, 0], lz_buf_next = 0, lz_byte_pos = 0,
      lz_bit_pos = 0, lz_bits_available = 0\<rparr>"

section \<open>The table\<close>

text \<open>The detail of the two defensive errors names the code in decimal; it never arises.\<close>

definition get_first_char :: "('d, 'a) lzw_table_scheme \<Rightarrow> nat \<Rightarrow> pipe_error + byte" where
  "get_first_char s code =
     (if code < CLEAR_CODE then Inr (of_nat code)
      else if code > EOD_CODE then
        let index = code - FIRST_TABLE_CODE
        in if index < length (lz_table s) then Inr (lz_table s ! index ! 0)
           else Inl (runtime ''Pl_LZWDecoder::getFirstChar: table overflow'')
      else Inl (Runtime (str ''Pl_LZWDecoder::getFirstChar called with invalid code ('' @ decimal code @ str '')'')))"

definition add_to_table ::
  "('d, 'a) lzw_table_scheme \<Rightarrow> byte \<Rightarrow> (pipe_error, ('d, 'a) lzw_table_scheme) outcome" where
  "add_to_table s next_char =
     (if lz_last_code s < CLEAR_CODE
      then Done (s\<lparr>lz_table := lz_table s @ [[of_nat (lz_last_code s), next_char]]\<rparr>)
      else if lz_last_code s > EOD_CODE then
        let index = lz_last_code s - FIRST_TABLE_CODE
        in if index < length (lz_table s)
           then Done (s\<lparr>lz_table := lz_table s @ [lz_table s ! index @ [next_char]]\<rparr>)
           else Fail (runtime ''Pl_LZWDecoder::addToTable: table overflow'') s
      else Fail (Runtime (str ''Pl_LZWDecoder::addToTable called with invalid code ('' @
                  decimal (lz_last_code s) @ str '')'')) s)"

text \<open>The character that extends the previous string: \<open>next_char\<close> of \<open>handle_code\<close>.\<close>

definition lzw_next_char :: "('d, 'a) lzw_table_scheme \<Rightarrow> nat \<Rightarrow> pipe_error + byte" where
  "lzw_next_char s code =
     (let table_size = length (lz_table s) in
      if code < CLEAR_CODE then Inr (of_nat code)
      else
        let index = code - FIRST_TABLE_CODE
        in if index > table_size then Inl (runtime ''LZWDecoder: bad code received'')
           else if index = table_size then get_first_char s (lz_last_code s)
           else get_first_char s code)"

text \<open>The new entry, and the wider codes at 511, 1023 and 2047.\<close>

definition lzw_extend ::
  "('d, 'a) lzw_table_scheme \<Rightarrow> nat \<Rightarrow> (pipe_error, ('d, 'a) lzw_table_scheme) outcome" where
  "lzw_extend s code =
     (case lzw_next_char s code of
        Inl e \<Rightarrow> Fail e s
      | Inr next_char \<Rightarrow>
          let new_index = FIRST_TABLE_CODE + length (lz_table s)
          in if new_index = TABLE_LIMIT then Fail (runtime ''LZWDecoder: table full'') s
             else seq (add_to_table s next_char)
                    (\<lambda>s. let change_index = new_index + of_bool (lz_code_change_delta s)
                         in Done (if change_index = 511 \<or> change_index = 1023 \<or> change_index = 2047
                                  then s\<lparr>lz_code_size := lz_code_size s + 1\<rparr> else s)))"

definition lzw_emit ::
  "'d pipeline \<Rightarrow> ('d, 'a) lzw_table_scheme \<Rightarrow> nat \<Rightarrow> (pipe_error, ('d, 'a) lzw_table_scheme) outcome" where
  "lzw_emit p s code =
     (if code < CLEAR_CODE then into (\<lambda>d. s\<lparr>lz_next := d\<rparr>) (pl_write p (lz_next s) [of_nat code])
      else
        let index = code - FIRST_TABLE_CODE
        in if index \<ge> length (lz_table s) then Fail (runtime ''Pl_LZWDecoder::handleCode: table overflow'') s
           else into (\<lambda>d. s\<lparr>lz_next := d\<rparr>) (pl_write p (lz_next s) (lz_table s ! index)))"

definition handle_code ::
  "'d pipeline \<Rightarrow> ('d, 'a) lzw_table_scheme \<Rightarrow> nat \<Rightarrow> (pipe_error, ('d, 'a) lzw_table_scheme) outcome" where
  "handle_code p s code =
     (if lz_eod s then Done s
      else
        seq (if code = CLEAR_CODE then Done (s\<lparr>lz_table := [], lz_code_size := 9\<rparr>)
             else if code = EOD_CODE then Done (s\<lparr>lz_eod := True\<rparr>)
             else seq (if lz_last_code s \<noteq> CLEAR_CODE then lzw_extend s code else Done s)
                    (\<lambda>s. lzw_emit p s code))
          (\<lambda>s. Done (s\<lparr>lz_last_code := code\<rparr>)))"

section \<open>The rotating buffer\<close>

text \<open>The code at the bit position, and the byte and bit position behind it.\<close>

definition lzw_extract :: "bytes \<Rightarrow> nat \<Rightarrow> nat \<Rightarrow> nat \<Rightarrow> 32 word \<times> nat \<times> nat" where
  "lzw_extract buf byte_pos bit_pos code_size =
     (let high = byte_pos;
          med = (byte_pos + 1) mod 3;
          low = (byte_pos + 2) mod 3;
          bits_from_high = 8 - bit_pos;
          bits_from_med = code_size - bits_from_high;
          bits_from_low = (if bits_from_med > 8 then bits_from_med - 8 else 0);
          bits_from_med = (if bits_from_med > 8 then 8 else bits_from_med);
          high_mask = push_bit bits_from_high 1 - 1;
          med_mask = 0xFF - (push_bit (8 - bits_from_med) 1 - 1);
          low_mask = 0xFF - (push_bit (8 - bits_from_low) 1 - 1);
          code = push_bit bits_from_med (ucast (buf ! high) AND high_mask);
          code = code + drop_bit (8 - bits_from_med) (ucast (buf ! med) AND med_mask);
          (code, byte_pos, bit_pos) =
            (if bits_from_low \<noteq> 0
             then (push_bit bits_from_low code + drop_bit (8 - bits_from_low) (ucast (buf ! low) AND low_mask),
                   low, bits_from_low)
             else (code, med, bits_from_med))
      in if bit_pos = 8 then (code, (byte_pos + 1) mod 3, 0) else (code, byte_pos, bit_pos))"

definition send_next_code :: "'d pipeline \<Rightarrow> 'd lzw \<Rightarrow> (pipe_error, 'd lzw) outcome" where
  "send_next_code p s =
     (case lzw_extract (lz_buf s) (lz_byte_pos s) (lz_bit_pos s) (lz_code_size s) of
        (code, byte_pos, bit_pos) \<Rightarrow>
          handle_code p
            (s\<lparr>lz_byte_pos := byte_pos, lz_bit_pos := bit_pos,
               lz_bits_available := lz_bits_available s - lz_code_size s\<rparr>) (unat code))"

definition lzw_push :: "'d lzw \<Rightarrow> byte \<Rightarrow> 'd lzw" where
  "lzw_push s byte =
     s\<lparr>lz_buf := (lz_buf s)[lz_buf_next s := byte],
       lz_buf_next := (if lz_buf_next s + 1 = 3 then 0 else lz_buf_next s + 1),
       lz_bits_available := lz_bits_available s + 8\<rparr>"

definition lzw_byte :: "'d pipeline \<Rightarrow> 'd lzw \<Rightarrow> byte \<Rightarrow> (pipe_error, 'd lzw) outcome" where
  "lzw_byte p s byte =
     (let s = lzw_push s byte
      in if lz_bits_available s \<ge> lz_code_size s then send_next_code p s else Done s)"

definition lzw_write :: "'d pipeline \<Rightarrow> 'd lzw \<Rightarrow> bytes \<Rightarrow> (pipe_error, 'd lzw) outcome" where
  "lzw_write p s data = foldm (lzw_byte p) s data"

definition lzw_finish :: "'d pipeline \<Rightarrow> 'd lzw \<Rightarrow> (pipe_error, 'd lzw) outcome" where
  "lzw_finish p s = into (\<lambda>d. s\<lparr>lz_next := d\<rparr>) (pl_finish p (lz_next s))"

interpretation lzw: chunked_stage "lzw_write p" for p
  unfolding lzw_write_def [abs_def] by (rule chunked_foldm)

section \<open>The code at the head of a bit queue\<close>

lemma unat_high_bits: "k \<le> 8 \<Longrightarrow> unat ((ucast (h :: byte) AND (push_bit k 1 - 1)) :: 32 word) = take_bit k (unat h)"
proof -
  assume k: "k \<le> 8"
  have "(push_bit k 1 - 1 :: 32 word) = mask k" by (simp add: mask_eq_decr_exp push_bit_of_1)
  then have "(ucast h AND (push_bit k 1 - 1) :: 32 word) = take_bit k (ucast h)"
    by (simp add: take_bit_eq_mask)
  then show ?thesis using k by (simp add: unsigned_take_bit_eq unsigned_ucast_eq min_def)
qed

lemma low_bits_mask: "k \<le> 8 \<Longrightarrow> (0xFF - (push_bit k 1 - 1) :: 32 word) = push_bit k (mask (8 - k))"
proof -
  assume "k \<le> 8"
  then consider "k = 0" | "k = 1" | "k = 2" | "k = 3" | "k = 4" | "k = 5" | "k = 6" | "k = 7" | "k = 8"
    by linarith
  then show ?thesis by cases (simp_all add: mask_eq_decr_exp)
qed

lemma drop_low_bits:
  assumes "k \<le> 8"
  shows "drop_bit k (ucast (m :: byte) AND (0xFF - (push_bit k 1 - 1))) = (of_nat (unat (drop_bit k m)) :: 32 word)"
proof -
  have "drop_bit k (ucast m AND push_bit k (mask (8 - k))) = (ucast (drop_bit k m) :: 32 word)"
    by (rule bit_word_eqI) (auto simp: bit_simps dest: bit_imp_le_length)
  then show ?thesis unfolding low_bits_mask [OF assms] by (simp only: of_nat_unat)
qed

text \<open>The bits of a byte from position \<open>p\<close> on, and its first \<open>n\<close> bits.\<close>

lemma bits_value_suffix: "p \<le> 8 \<Longrightarrow> bits_value (drop p (msb_bits 8 b)) = take_bit (8 - p) (unat (b :: byte))"
  using take_msb_bits [of "8 - p" "8 - p" 8 b] by (simp add: bits_value_msb)

lemma bits_value_prefix: "n \<le> 8 \<Longrightarrow> bits_value (take n (msb_bits 8 b)) = unat (drop_bit (8 - n) (b :: byte))"
proof -
  assume n: "n \<le> 8"
  have "unat (drop_bit (8 - n) b) = unat b div 2 ^ (8 - n)"
    by (subst unat_drop_bit_eq) (rule drop_bit_eq_div)
  then have "unat (drop_bit (8 - n) b) < 2 ^ n"
    using n unat_byte_less [of b] by (simp add: less_mult_imp_div_less power_add [symmetric] del: unat_byte_less)
  then have "take_bit n (unat (drop_bit (8 - n) b)) = unat (drop_bit (8 - n) b)"
    by (rule take_bit_nat_eq_self)
  then show ?thesis using take_msb_bits [of n 8 8 b] n by (simp add: bits_value_msb)
qed

text \<open>\<open>lzw_extract\<close> reads the number the next \<open>code_size\<close> bits spell and moves past them.\<close>

lemma lzw_extract_spec:
  assumes "length buf = 3" "byte_pos < 3" "bit_pos < 8" "9 \<le> code_size" "code_size \<le> 12"
  shows "lzw_extract buf byte_pos bit_pos code_size =
    (of_nat (bits_value (take code_size (drop bit_pos
       (data_bits [buf ! byte_pos, buf ! ((byte_pos + 1) mod 3), buf ! ((byte_pos + 2) mod 3)])))),
     (byte_pos + (bit_pos + code_size) div 8) mod 3, (bit_pos + code_size) mod 8)"
proof -
  define h m l where "h = buf ! byte_pos" and "m = buf ! ((byte_pos + 1) mod 3)" and "l = buf ! ((byte_pos + 2) mod 3)"
  let ?bh = "8 - bit_pos" and ?bm = "code_size - (8 - bit_pos)"
  let ?high = "push_bit (min 8 ?bm) (ucast h AND (push_bit ?bh 1 - 1)) :: 32 word"
  have bits: "take code_size (drop bit_pos (data_bits [h, m, l])) =
      drop bit_pos (msb_bits 8 h) @ take ?bm (msb_bits 8 m) @ take (?bm - 8) (msb_bits 8 l)"
    using assms by (simp add: data_bits_def drop_append)
  have high: "?high = of_nat (take_bit ?bh (unat h) * 2 ^ min 8 ?bm)"
  proof -
    have "ucast h AND (push_bit ?bh 1 - 1) = (of_nat (take_bit ?bh (unat h)) :: 32 word)"
      unfolding unat_high_bits [of ?bh h, OF diff_le_self, symmetric] by (simp only: of_nat_unat ucast_id)
    then show ?thesis by (simp only: push_bit_eq_mult of_nat_mult of_nat_power of_nat_numeral)
  qed
  show ?thesis
  proof (cases "?bm > 8")
    case True
    have full: "take_bit 8 (unat m) = unat m" by (simp add: take_bit_nat_eq_self)
    have pow: "2 ^ (bit_pos + code_size - 8) = (256 * 2 ^ (bit_pos + code_size - 16) :: nat)"
    proof -
      have "bit_pos + code_size - 8 = 8 + (bit_pos + code_size - 16)" using True assms by linarith
      then show ?thesis by (simp only: power_add) simp
    qed
    have "bits_value (take code_size (drop bit_pos (data_bits [h, m, l]))) =
        (take_bit ?bh (unat h) * 2 ^ 8 + unat m) * 2 ^ (?bm - 8) + unat (drop_bit (8 - (?bm - 8)) l)"
      unfolding bits using assms True
      by (simp add: bits_value_append bits_value_suffix bits_value_prefix bits_value_msb full pow algebra_simps)
    moreover have d: "(bit_pos + code_size) div 8 = 2"
      by (rule div_nat_eqI) (use assms True in simp_all)
    moreover have "(bit_pos + code_size) mod 8 = ?bm - 8"
      using minus_mult_div_eq_mod [of "bit_pos + code_size" 8] d assms(3) by linarith
    moreover have "lzw_extract buf byte_pos bit_pos code_size =
        (push_bit (?bm - 8) (push_bit 8 (ucast h AND (push_bit ?bh 1 - 1)) +
           drop_bit (8 - 8) (ucast m AND (0xFF - (push_bit (8 - 8) 1 - 1)))) +
         drop_bit (8 - (?bm - 8)) (ucast l AND (0xFF - (push_bit (8 - (?bm - 8)) 1 - 1))),
         (byte_pos + 2) mod 3, ?bm - 8)"
    proof -
      have "(?bm > 8) = True" "(?bm - 8 \<noteq> 0) = True" "(?bm - 8 = 8) = False"
        using True assms(3-5) by auto
      then show ?thesis by (simp only: lzw_extract_def Let_def if_True if_False prod.case h_def m_def l_def)
    qed
    moreover have "push_bit 8 (ucast h AND (push_bit ?bh 1 - 1)) = (of_nat (take_bit ?bh (unat h) * 2 ^ 8) :: 32 word)"
      using high True by (simp only: min.absorb1 less_imp_le)
    moreover have "drop_bit (8 - 8) (ucast m AND (0xFF - (push_bit (8 - 8) 1 - 1))) = (of_nat (unat m) :: 32 word)"
      using drop_low_bits [of 0 m] by (simp only: diff_self_eq_0 drop_bit_0 id_apply le0 simp_thms)
    ultimately show ?thesis
      using drop_low_bits [of "8 - (?bm - 8)" l, OF diff_le_self]
      unfolding h_def [symmetric] m_def [symmetric] l_def [symmetric]
      by (simp only: push_bit_eq_mult of_nat_add of_nat_mult of_nat_power of_nat_numeral)
  next
    case False
    have "bits_value (take code_size (drop bit_pos (data_bits [h, m, l]))) =
        take_bit ?bh (unat h) * 2 ^ ?bm + unat (drop_bit (8 - ?bm) m)"
      unfolding bits using assms False
      by (simp add: bits_value_append bits_value_suffix bits_value_prefix min_def)
    moreover have d: "(bit_pos + code_size) div 8 = (if ?bm = 8 then 2 else 1)"
      by (rule div_nat_eqI) (use assms(3-5) False in auto)
    moreover have "(bit_pos + code_size) mod 8 = (if ?bm = 8 then 0 else ?bm)"
      using minus_mult_div_eq_mod [of "bit_pos + code_size" 8] d assms(3,4) False
      by (simp split: if_splits)
    moreover have "lzw_extract buf byte_pos bit_pos code_size =
        (push_bit ?bm (ucast h AND (push_bit ?bh 1 - 1)) +
           drop_bit (8 - ?bm) (ucast m AND (0xFF - (push_bit (8 - ?bm) 1 - 1))),
         if ?bm = 8 then ((byte_pos + 1) mod 3 + 1) mod 3 else (byte_pos + 1) mod 3, if ?bm = 8 then 0 else ?bm)"
    proof -
      have "(?bm > 8) = False" using False by simp
      then show ?thesis
        by (cases "?bm = 8")
          (simp_all only: lzw_extract_def Let_def if_True if_False simp_thms prod.case h_def m_def)
    qed
    moreover have "push_bit ?bm (ucast h AND (push_bit ?bh 1 - 1)) = (of_nat (take_bit ?bh (unat h) * 2 ^ ?bm) :: 32 word)"
      using high False by (simp only: min.absorb2 not_less)
    moreover have "((byte_pos + 1) mod 3 + 1) mod 3 = (byte_pos + 2) mod 3" by presburger
    ultimately show ?thesis
      using drop_low_bits [of "8 - ?bm" m, OF diff_le_self]
      unfolding h_def [symmetric] m_def [symmetric] l_def [symmetric]
      by (simp only: of_nat_add of_nat_mult of_nat_power of_nat_numeral split: if_split) simp
  qed
qed

section \<open>Invariants of the table\<close>

text \<open>The width a table of \<open>n\<close> entries calls for, with the early change or without.\<close>

definition lzw_width :: "bool \<Rightarrow> nat \<Rightarrow> nat" where
  "lzw_width early n =
     (let top = 257 + n + of_bool early
      in if top \<ge> 2047 then 12 else if top \<ge> 1023 then 11 else if top \<ge> 511 then 10 else 9)"

definition lzw_table_inv :: "('d, 'a) lzw_table_scheme \<Rightarrow> bool" where
  "lzw_table_inv s \<longleftrightarrow>
     lz_code_size s = lzw_width (lz_code_change_delta s) (length (lz_table s)) \<and>
     length (lz_table s) \<le> 3838 \<and> [] \<notin> set (lz_table s) \<and>
     (lz_last_code s \<le> 256 \<or> lz_last_code s = 257 \<and> lz_eod s \<or>
      258 \<le> lz_last_code s \<and> lz_last_code s - 258 < length (lz_table s))"

lemma lzw_width_bounds: "9 \<le> lzw_width e n" "lzw_width e n \<le> 12"
  by (simp_all add: lzw_width_def Let_def)

lemma lzw_width_Suc:
  "lzw_width e (Suc n) =
     (let c = 258 + n + of_bool e in if c = 511 \<or> c = 1023 \<or> c = 2047 then lzw_width e n + 1 else lzw_width e n)"
  by (auto simp: lzw_width_def Let_def)

lemma lzw_width_0 [simp]: "lzw_width e 0 = 9"
  by (simp add: lzw_width_def)

text \<open>A code that is in the table, or is the next one, fits the width.\<close>

lemma lzw_width_fits: "index \<le> n \<Longrightarrow> index < 3838 \<Longrightarrow> 258 + index < 2 ^ lzw_width e n"
  by (auto simp: lzw_width_def Let_def)

lemma lzw_table_inv_new: "lzw_table_inv (lzw_new d early)"
  by (simp add: lzw_table_inv_def lzw_new_def lzw_codes_defs)

text \<open>The defensive errors do not arise: the look-ups of \<open>handle_code\<close> are in bounds.\<close>

lemma get_first_char_Inr:
  assumes "lzw_table_inv s" "code < 256 \<or> 258 \<le> code \<and> code - 258 < length (lz_table s)"
  shows "get_first_char s code = Inr (if code < 256 then of_nat code else hd (lz_table s ! (code - 258)))"
proof -
  have "lz_table s ! (code - 258) \<noteq> []" if "code - 258 < length (lz_table s)"
    using that assms(1) by (metis lzw_table_inv_def nth_mem)
  then show ?thesis using assms(2) by (auto simp: get_first_char_def lzw_codes_defs hd_conv_nth)
qed

text \<open>The string a code stands for.\<close>

definition lzw_string :: "bytes list \<Rightarrow> nat \<Rightarrow> bytes" where
  "lzw_string table code = (if code < 256 then [of_nat code] else table ! (code - 258))"

definition lzw_valid :: "bytes list \<Rightarrow> nat \<Rightarrow> bool" where
  "lzw_valid table code \<longleftrightarrow> code < 256 \<or> 258 \<le> code \<and> code - 258 < length table"

lemma lzw_last_valid:
  "lzw_table_inv s \<Longrightarrow> \<not> lz_eod s \<Longrightarrow> lz_last_code s \<noteq> 256 \<Longrightarrow> lzw_valid (lz_table s) (lz_last_code s)"
  by (auto simp: lzw_table_inv_def lzw_valid_def)

lemma lzw_string_nonempty: "lzw_table_inv s \<Longrightarrow> lzw_valid (lz_table s) code \<Longrightarrow> lzw_string (lz_table s) code \<noteq> []"
  unfolding lzw_table_inv_def lzw_valid_def lzw_string_def by (metis nth_mem not_Cons_self2)

lemma add_to_table_valid:
  "lzw_valid (lz_table s) (lz_last_code s) \<Longrightarrow>
   add_to_table s c = Done (s\<lparr>lz_table := lz_table s @ [lzw_string (lz_table s) (lz_last_code s) @ [c]]\<rparr>)"
  by (auto simp: add_to_table_def lzw_valid_def lzw_string_def lzw_codes_defs Let_def)

text \<open>What \<open>handle_code\<close> does to the table after another code: one entry, or one of two errors.\<close>

lemma lzw_next_char_spec:
  assumes "lzw_table_inv s" "lzw_valid (lz_table s) (lz_last_code s)" "code \<noteq> 256" "code \<noteq> 257"
  shows "lzw_next_char s code =
    (if code < 256 \<or> code - 258 < length (lz_table s) then Inr (hd (lzw_string (lz_table s) code))
     else if code - 258 = length (lz_table s) then Inr (hd (lzw_string (lz_table s) (lz_last_code s)))
     else Inl (runtime ''LZWDecoder: bad code received''))"
proof -
  have last: "get_first_char s (lz_last_code s) = Inr (hd (lzw_string (lz_table s) (lz_last_code s)))"
    using get_first_char_Inr [OF assms(1), of "lz_last_code s"] assms(2)
    by (auto simp: lzw_valid_def lzw_string_def)
  have "get_first_char s code = Inr (hd (lzw_string (lz_table s) code))"
    if "258 \<le> code" "code - 258 < length (lz_table s)"
    using get_first_char_Inr [OF assms(1), of code] that by (auto simp: lzw_string_def)
  then show ?thesis
    using assms(3,4) last by (auto simp: lzw_next_char_def Let_def lzw_codes_defs lzw_string_def)
qed

lemma lzw_extend_spec:
  assumes "lzw_table_inv s" "lzw_valid (lz_table s) (lz_last_code s)" "code \<noteq> 256" "code \<noteq> 257"
    "code < 256 \<or> code - 258 \<le> length (lz_table s)" "length (lz_table s) < 3838"
  shows "\<exists>c. lzw_extend s code = Done (s\<lparr>lz_table := lz_table s @ [lzw_string (lz_table s) (lz_last_code s) @ [c]],
      lz_code_size := lzw_width (lz_code_change_delta s) (Suc (length (lz_table s)))\<rparr>) \<and>
    c = hd (lzw_string (lz_table s @ [lzw_string (lz_table s) (lz_last_code s) @ [c]]) code)"
proof -
  let ?l = "lzw_string (lz_table s) (lz_last_code s)"
  define c where "c = (if code < 256 \<or> code - 258 < length (lz_table s) then hd (lzw_string (lz_table s) code) else hd ?l)"
  have next_char: "lzw_next_char s code = Inr c"
    using lzw_next_char_spec [OF assms(1-4)] assms(5) by (auto simp: c_def)
  have hd_c: "c = hd (lzw_string (lz_table s @ [?l @ [c]]) code)"
    using assms(3,5) lzw_string_nonempty [OF assms(1,2)]
    by (auto simp: c_def lzw_string_def nth_append)
  have "lz_code_size s = lzw_width (lz_code_change_delta s) (length (lz_table s))"
    using assms(1) by (simp add: lzw_table_inv_def)
  then have "lzw_extend s code = Done (s\<lparr>lz_table := lz_table s @ [?l @ [c]],
      lz_code_size := lzw_width (lz_code_change_delta s) (Suc (length (lz_table s)))\<rparr>)"
    using assms(6) by (simp add: lzw_extend_def next_char add_to_table_valid [OF assms(2)] Let_def lzw_codes_defs lzw_width_Suc)
  then show ?thesis using hd_c by blast
qed

text \<open>The outcome of \<open>lzw_extend\<close> in general.\<close>

lemma lzw_extend_cases:
  assumes "lzw_table_inv s" "lzw_valid (lz_table s) (lz_last_code s)" "code \<noteq> 256" "code \<noteq> 257"
  shows "(\<exists>c. lzw_extend s code = Done (s\<lparr>lz_table := lz_table s @ [lzw_string (lz_table s) (lz_last_code s) @ [c]],
        lz_code_size := lzw_width (lz_code_change_delta s) (Suc (length (lz_table s)))\<rparr>) \<and>
      length (lz_table s) < 3838 \<and> (code < 256 \<or> code - 258 \<le> length (lz_table s))) \<or>
    lzw_extend s code = Fail (runtime ''LZWDecoder: bad code received'') s \<and> code - 258 > length (lz_table s) \<or>
    lzw_extend s code = Fail (runtime ''LZWDecoder: table full'') s \<and> length (lz_table s) = 3838"
proof -
  have le: "length (lz_table s) \<le> 3838" using assms(1) by (simp add: lzw_table_inv_def)
  consider "code < 256 \<or> code - 258 \<le> length (lz_table s)" "length (lz_table s) < 3838"
    | "\<not> (code < 256 \<or> code - 258 \<le> length (lz_table s))"
    | "code < 256 \<or> code - 258 \<le> length (lz_table s)" "length (lz_table s) = 3838"
    using le by linarith
  then show ?thesis
  proof cases
    case 1
    then show ?thesis using lzw_extend_spec [OF assms 1] by blast
  next
    case 2
    then have "lzw_next_char s code = Inl (runtime ''LZWDecoder: bad code received'')"
      using lzw_next_char_spec [OF assms] by auto
    then show ?thesis using 2 by (simp add: lzw_extend_def)
  next
    case 3
    then obtain c where "lzw_next_char s code = Inr c"
      using lzw_next_char_spec [OF assms] by (cases "code < 256 \<or> code - 258 < length (lz_table s)") auto
    then show ?thesis using 3 by (simp add: lzw_extend_def lzw_codes_defs)
  qed
qed

lemma lzw_emit_frame:
  "lz_table (outcome_state (lzw_emit p s code)) = lz_table s"
  "lz_code_size (outcome_state (lzw_emit p s code)) = lz_code_size s"
  "lz_code_change_delta (outcome_state (lzw_emit p s code)) = lz_code_change_delta s"
  "lz_eod (outcome_state (lzw_emit p s code)) = lz_eod s"
  "lz_last_code (outcome_state (lzw_emit p s code)) = lz_last_code s"
  by (simp_all add: lzw_emit_def Let_def)

lemma lzw_emit_Done:
  "lzw_emit p s code = Done t \<Longrightarrow>
   (code < 256 \<or> code - 258 < length (lz_table s)) \<and> lz_table t = lz_table s \<and> lz_code_size t = lz_code_size s \<and>
   lz_code_change_delta t = lz_code_change_delta s \<and> lz_eod t = lz_eod s \<and> lz_last_code t = lz_last_code s"
  using lzw_emit_frame [of p s code] by (auto simp: lzw_emit_def lzw_codes_defs Let_def split: if_splits)

lemma lzw_table_inv_extend:
  assumes "lzw_table_inv s" "\<not> lz_eod s" "lz_last_code s \<noteq> 256" "code \<noteq> 256" "code \<noteq> 257"
  shows "lzw_table_inv (outcome_state (lzw_extend s code))"
    and "lzw_extend s code = Done t \<Longrightarrow> code < 256 \<or> code - 258 < length (lz_table t)"
  using lzw_extend_cases [OF assms(1) lzw_last_valid [OF assms(1-3)] assms(4,5)] assms(1)
  by (auto simp: lzw_table_inv_def)

lemma lzw_table_inv_handle:
  assumes "lzw_table_inv s"
  shows "lzw_table_inv (outcome_state (handle_code p s code))"
proof -
  have emit: "lzw_table_inv (outcome_state (seq (lzw_emit p u code) (\<lambda>s. Done (s\<lparr>lz_last_code := code\<rparr>))))"
    if "lzw_table_inv u" "code \<noteq> 256" "code \<noteq> 257" for u :: "('a, 'b) lzw_table_scheme"
  proof (cases "lzw_emit p u code")
    case (Done t)
    then show ?thesis
      using lzw_emit_Done [OF Done] that by (auto simp: lzw_table_inv_def)
  next
    case (Fail e t)
    then show ?thesis
      using lzw_emit_frame [of p u code] that by (simp add: lzw_table_inv_def)
  qed
  show ?thesis
  proof (cases "lz_eod s \<or> code = 256 \<or> code = 257")
    case True
    then show ?thesis using assms by (auto simp: handle_code_def lzw_codes_defs lzw_table_inv_def)
  next
    case False
    show ?thesis
    proof (cases "lz_last_code s = 256")
      case True
      then show ?thesis using False emit [OF assms] by (simp add: handle_code_def lzw_codes_defs seq_assoc)
    next
      case last: False
      have inv: "lzw_table_inv (outcome_state (lzw_extend s code))"
        using lzw_table_inv_extend(1) [OF assms] False last by blast
      show ?thesis
      proof (cases "lzw_extend s code")
        case (Done u)
        then show ?thesis
          using False last emit [of u] inv by (simp add: handle_code_def lzw_codes_defs)
      next
        case (Fail e u)
        then show ?thesis using False last inv by (simp add: handle_code_def lzw_codes_defs)
      qed
    qed
  qed
qed

text \<open>
  The only errors of the decoder: two of the table, the table code after a clear code, and those of
  the successor. The other three error texts of the source are never produced.
\<close>

definition lzw_errors :: "pipe_error set" where
  "lzw_errors = {runtime ''LZWDecoder: bad code received'', runtime ''LZWDecoder: table full'',
     runtime ''Pl_LZWDecoder::handleCode: table overflow''}"

lemma lzw_emit_error:
  "lzw_emit p s code = Fail e t \<Longrightarrow> e \<in> lzw_errors \<or> (\<exists>d data d'. pl_write p d data = Fail e d')"
  by (auto simp: lzw_emit_def lzw_errors_def Let_def into_Fail_iff split: if_splits)

lemma handle_code_error:
  assumes "lzw_table_inv s" "handle_code p s code = Fail e t"
  shows "e \<in> lzw_errors \<or> (\<exists>d data d'. pl_write p d data = Fail e d')"
proof (cases "lz_eod s \<or> code = 256 \<or> code = 257")
  case True
  then show ?thesis using assms(2) by (auto simp: handle_code_def lzw_codes_defs split: if_splits)
next
  case False
  show ?thesis
  proof (cases "lz_last_code s = 256")
    case True
    then show ?thesis
      using False assms(2) lzw_emit_error [of p s code]
      by (cases "lzw_emit p s code") (auto simp: handle_code_def lzw_codes_defs)
  next
    case last: False
    show ?thesis
    proof (cases "lzw_extend s code")
      case (Done u)
      then show ?thesis
        using False last assms(2) lzw_emit_error [of p u code]
        by (cases "lzw_emit p u code") (auto simp: handle_code_def lzw_codes_defs)
    next
      case (Fail e' u)
      then show ?thesis
        using lzw_extend_cases [OF assms(1) lzw_last_valid [OF assms(1)], of code] False last assms(2)
        by (auto simp: handle_code_def lzw_codes_defs lzw_errors_def)
    qed
  qed
qed

section \<open>The rotating buffer is a queue of bits\<close>

text \<open>The abstract reader: the same table, and the bits not yet read.\<close>

record 'd lzw_reader = "'d lzw_table" +
  lr_bits :: "bool list"

definition lz_pending :: "'d lzw \<Rightarrow> nat" where
  "lz_pending s = (lz_bit_pos s + lz_bits_available s) div 8"

definition lz_queue :: "'d lzw \<Rightarrow> bytes" where
  "lz_queue s = map (\<lambda>i. lz_buf s ! ((lz_byte_pos s + i) mod 3)) [0..<lz_pending s]"

definition lz_bits :: "'d lzw \<Rightarrow> bool list" where
  "lz_bits s = drop (lz_bit_pos s) (data_bits (lz_queue s))"

definition lz_abs :: "'d lzw \<Rightarrow> 'd lzw_reader" where
  "lz_abs s = \<lparr>lz_next = lz_next s, lz_code_size = lz_code_size s, lz_code_change_delta = lz_code_change_delta s,
     lz_eod = lz_eod s, lz_table = lz_table s, lz_last_code = lz_last_code s, lr_bits = lz_bits s\<rparr>"

lemma lz_abs_simps [simp]:
  "lz_next (lz_abs s) = lz_next s" "lz_code_size (lz_abs s) = lz_code_size s"
  "lz_code_change_delta (lz_abs s) = lz_code_change_delta s" "lz_eod (lz_abs s) = lz_eod s"
  "lz_table (lz_abs s) = lz_table s" "lz_last_code (lz_abs s) = lz_last_code s" "lr_bits (lz_abs s) = lz_bits s"
  "lz_abs (s\<lparr>lz_next := d\<rparr>) = (lz_abs s)\<lparr>lz_next := d\<rparr>"
  "lz_abs (s\<lparr>lz_code_size := n\<rparr>) = (lz_abs s)\<lparr>lz_code_size := n\<rparr>"
  "lz_abs (s\<lparr>lz_eod := b\<rparr>) = (lz_abs s)\<lparr>lz_eod := b\<rparr>"
  "lz_abs (s\<lparr>lz_table := t\<rparr>) = (lz_abs s)\<lparr>lz_table := t\<rparr>"
  "lz_abs (s\<lparr>lz_last_code := n\<rparr>) = (lz_abs s)\<lparr>lz_last_code := n\<rparr>"
  by (simp_all add: lz_abs_def lz_bits_def lz_queue_def lz_pending_def)

lemma add_to_table_abs: "into lz_abs (add_to_table s c) = add_to_table (lz_abs s) c"
  by (simp add: add_to_table_def Let_def)

lemma lzw_next_char_abs: "lzw_next_char (lz_abs s) code = lzw_next_char s code"
  by (simp add: lzw_next_char_def get_first_char_def Let_def)

lemma lzw_extend_abs: "into lz_abs (lzw_extend s code) = lzw_extend (lz_abs s) code"
proof (cases "lzw_next_char s code")
  case (Inl e)
  then show ?thesis by (simp add: lzw_extend_def lzw_next_char_abs)
next
  case (Inr c)
  then show ?thesis
    by (cases "add_to_table s c")
      (auto simp: lzw_extend_def lzw_next_char_abs Let_def add_to_table_abs [symmetric])
qed

lemma lzw_emit_abs: "into lz_abs (lzw_emit p s code) = lzw_emit p (lz_abs s) code"
  by (simp add: lzw_emit_def Let_def into_into)

lemma handle_code_abs: "into lz_abs (handle_code p s code) = handle_code p (lz_abs s) code"
proof -
  have emit: "into lz_abs (seq (lzw_emit p u code) (\<lambda>s. Done (s\<lparr>lz_last_code := code\<rparr>))) =
      seq (lzw_emit p (lz_abs u) code) (\<lambda>s. Done (s\<lparr>lz_last_code := code\<rparr>))" for u
    unfolding lzw_emit_abs [symmetric] by (cases "lzw_emit p u code") simp_all
  show ?thesis
    by (cases "lzw_extend s code") (simp_all add: handle_code_def lzw_extend_abs [symmetric] emit)
qed

definition lzw_inv :: "'d lzw \<Rightarrow> bool" where
  "lzw_inv s \<longleftrightarrow> lzw_table_inv s \<and> length (lz_buf s) = 3 \<and> lz_byte_pos s < 3 \<and> lz_bit_pos s < 8 \<and>
     lz_bit_pos s + lz_bits_available s = 8 * lz_pending s \<and>
     lz_buf_next s = (lz_byte_pos s + lz_pending s) mod 3 \<and> lz_bits_available s < lz_code_size s"

lemma lzw_inv_new [simp]: "lzw_inv (lzw_new d early)"
  by (simp add: lzw_inv_def lzw_table_inv_new) (simp add: lzw_new_def lz_pending_def)

lemma lzw_code_size_bounds: "lzw_table_inv s \<Longrightarrow> 9 \<le> lz_code_size s \<and> lz_code_size s \<le> 12"
  by (simp add: lzw_table_inv_def lzw_width_bounds)

text \<open>\<open>handle_code\<close> leaves the buffer alone.\<close>

definition lz_io :: "'d lzw \<Rightarrow> bytes \<times> nat \<times> nat \<times> nat \<times> nat" where
  "lz_io s = (lz_buf s, lz_buf_next s, lz_byte_pos s, lz_bit_pos s, lz_bits_available s)"

lemma lz_io_update [simp]:
  "lz_io (s\<lparr>lz_next := d\<rparr>) = lz_io s" "lz_io (s\<lparr>lz_code_size := n\<rparr>) = lz_io s"
  "lz_io (s\<lparr>lz_eod := b\<rparr>) = lz_io s" "lz_io (s\<lparr>lz_table := t\<rparr>) = lz_io s"
  "lz_io (s\<lparr>lz_last_code := n\<rparr>) = lz_io s"
  by (simp_all add: lz_io_def)

lemma lz_io_seq: "(\<And>t. r = Done t \<Longrightarrow> lz_io (outcome_state (f t)) = lz_io t) \<Longrightarrow>
    lz_io (outcome_state (seq r f)) = lz_io (outcome_state r)"
  by (cases r) auto

lemma lz_io_extend: "lz_io (outcome_state (lzw_extend s code)) = lz_io s"
  by (cases "lzw_next_char s code")
    (auto simp: lzw_extend_def add_to_table_def Let_def split: if_splits)

lemma lz_io_emit: "lz_io (outcome_state (lzw_emit p s code)) = lz_io s"
  by (simp add: lzw_emit_def Let_def)

lemma lz_io_handle_code: "lz_io (outcome_state (handle_code p s code)) = lz_io s"
proof -
  have emit: "lz_io (outcome_state (seq (lzw_emit p u code) (\<lambda>s. Done (s\<lparr>lz_last_code := code\<rparr>)))) = lz_io u" for u
    by (subst lz_io_seq) (simp_all add: lz_io_emit)
  show ?thesis
    using lz_io_extend [of s code]
    by (cases "lzw_extend s code") (simp_all add: handle_code_def emit)
qed

lemma lzw_inv_handle:
  assumes "lzw_table_inv s" "length (lz_buf s) = 3" "lz_byte_pos s < 3" "lz_bit_pos s < 8"
    "lz_bit_pos s + lz_bits_available s = 8 * lz_pending s"
    "lz_buf_next s = (lz_byte_pos s + lz_pending s) mod 3" "lz_bits_available s < 9"
  shows "lzw_inv (outcome_state (handle_code p s code))"
proof -
  let ?t = "outcome_state (handle_code p s code)"
  have inv: "lzw_table_inv ?t" by (rule lzw_table_inv_handle) fact
  then have size: "9 \<le> lz_code_size ?t" by (simp add: lzw_code_size_bounds)
  have io: "lz_buf ?t = lz_buf s" "lz_buf_next ?t = lz_buf_next s" "lz_byte_pos ?t = lz_byte_pos s"
    "lz_bit_pos ?t = lz_bit_pos s" "lz_bits_available ?t = lz_bits_available s"
    using lz_io_handle_code [of p s code] by (simp_all add: lz_io_def)
  have pending: "lz_pending ?t = lz_pending s" by (simp only: lz_pending_def io)
  show ?thesis unfolding lzw_inv_def io pending using inv size assms by (intro conjI) (assumption | linarith)+
qed

text \<open>Pushing a byte appends it to the queue.\<close>

lemma data_bits_drop: "data_bits (drop q xs) = drop (8 * q) (data_bits xs)"
proof (cases "q \<le> length xs")
  case True
  then have "data_bits xs = data_bits (take q xs) @ data_bits (drop q xs)"
    by (metis append_take_drop_id data_bits_append)
  then show ?thesis using True by simp
qed simp

lemma data_bits_take: "data_bits (take q xs) = take (8 * q) (data_bits xs)"
proof -
  have "data_bits xs = data_bits (take q xs) @ data_bits (drop q xs)"
    by (metis append_take_drop_id data_bits_append)
  then show ?thesis by (cases "q \<le> length xs") simp_all
qed

lemma lz_bits_length: "lzw_inv s \<Longrightarrow> length (lz_bits s) = lz_bits_available s"
  unfolding lz_bits_def lz_queue_def length_drop length_data_bits length_map length_upt lzw_inv_def
  by linarith

lemma lz_pending_bound: "lzw_inv s \<Longrightarrow> lz_pending s \<le> 2"
  using lzw_code_size_bounds [of s] by (simp add: lzw_inv_def)

lemma lz_queue_push:
  assumes "lzw_inv s"
  shows "lz_pending (lzw_push s b) = lz_pending s + 1" "lz_queue (lzw_push s b) = lz_queue s @ [b]"
    "lz_buf_next (lzw_push s b) = (lz_byte_pos s + lz_pending (lzw_push s b)) mod 3"
proof -
  show p: "lz_pending (lzw_push s b) = lz_pending s + 1"
    by (simp add: lz_pending_def lzw_push_def)
  have len: "length (lz_buf s) = 3" and next_pos: "lz_buf_next s = (lz_byte_pos s + lz_pending s) mod 3"
    using assms by (simp_all add: lzw_inv_def)
  show "lz_buf_next (lzw_push s b) = (lz_byte_pos s + lz_pending (lzw_push s b)) mod 3"
    unfolding p using next_pos by (simp add: lzw_push_def) presburger
  show "lz_queue (lzw_push s b) = lz_queue s @ [b]"
  proof (rule nth_equalityI)
    show "length (lz_queue (lzw_push s b)) = length (lz_queue s @ [b])" using p by (simp add: lz_queue_def)
  next
    fix i assume "i < length (lz_queue (lzw_push s b))"
    then have i: "i \<le> lz_pending s" by (simp add: lz_queue_def p)
    have "(lz_byte_pos s + i) mod 3 \<noteq> (lz_byte_pos s + lz_pending s) mod 3" if "i < lz_pending s"
      using that lz_pending_bound [OF assms] by presburger
    moreover have "lz_queue (lzw_push s b) ! i =
        (lz_buf s)[lz_buf_next s := b] ! ((lz_byte_pos s + i) mod 3)"
      using i by (simp add: lz_queue_def p del: upt_Suc) (simp add: lzw_push_def)
    ultimately show "lz_queue (lzw_push s b) ! i = (lz_queue s @ [b]) ! i"
      using i by (auto simp: lz_queue_def nth_append next_pos len nth_list_update)
  qed
qed

lemma lz_bits_push: "lzw_inv s \<Longrightarrow> lz_bits (lzw_push s b) = lz_bits s @ msb_bits 8 b"
proof -
  assume inv: "lzw_inv s"
  then have "lz_bit_pos s \<le> length (data_bits (lz_queue s)) \<or> lz_pending s = 0 \<and> lz_bit_pos s = 0"
    by (auto simp: lzw_inv_def lz_queue_def)
  then show ?thesis
    using lz_queue_push(2) [OF inv, of b] by (auto simp: lz_bits_def lzw_push_def)
qed

text \<open>Sending a code takes the next \<open>code_size\<close> bits off the queue.\<close>

lemma lz_queue_take:
  assumes "lz_pending s \<le> 3"
  shows "lz_queue s = take (lz_pending s)
    [lz_buf s ! (lz_byte_pos s mod 3), lz_buf s ! ((lz_byte_pos s + 1) mod 3), lz_buf s ! ((lz_byte_pos s + 2) mod 3)]"
proof -
  have "[0..<3] = [0, 1, 2 :: nat]" by (simp add: upt_rec)
  moreover have "[0..<lz_pending s] = take (lz_pending s) [0..<3]" using assms by simp
  ultimately show ?thesis
    unfolding lz_queue_def by (simp only: take_map [symmetric]) (simp add: numeral_2_eq_2)
qed

lemma lz_queue_skip:
  assumes "lz_pending t = lz_pending s - q" "q \<le> lz_pending s" "lz_buf t = lz_buf s"
    "lz_byte_pos t = (lz_byte_pos s + q) mod 3"
  shows "lz_queue t = drop q (lz_queue s)"
proof (rule nth_equalityI)
  show "length (lz_queue t) = length (drop q (lz_queue s))" using assms by (simp add: lz_queue_def)
next
  fix i assume "i < length (lz_queue t)"
  then have i: "i < lz_pending s - q" using assms by (simp add: lz_queue_def)
  have "((lz_byte_pos s + q) mod 3 + i) mod 3 = (lz_byte_pos s + (q + i)) mod 3"
    by (simp add: mod_add_left_eq add.assoc)
  then show "lz_queue t ! i = drop q (lz_queue s) ! i"
    using i assms by (simp add: lz_queue_def less_diff_conv add.commute)
qed

definition reader_byte :: "'d pipeline \<Rightarrow> 'd lzw_reader \<Rightarrow> byte \<Rightarrow> (pipe_error, 'd lzw_reader) outcome" where
  "reader_byte p r b =
     (let r = r\<lparr>lr_bits := lr_bits r @ msb_bits 8 b\<rparr>;
          n = lz_code_size r
      in if length (lr_bits r) \<ge> n
         then handle_code p (r\<lparr>lr_bits := drop n (lr_bits r)\<rparr>) (bits_value (take n (lr_bits r)))
         else Done r)"

lemma lzw_byte_simulates:
  assumes inv: "lzw_inv s"
  shows "into lz_abs (lzw_byte p s b) = reader_byte p (lz_abs s) b \<and> lzw_inv (outcome_state (lzw_byte p s b))"
proof -
  define t where "t = lzw_push s b"
  let ?n = "lz_code_size s" and ?k = "lz_pending t"
  have t: "lzw_table_inv t" "lz_code_size t = ?n" "length (lz_buf t) = 3" "lz_byte_pos t < 3" "lz_bit_pos t < 8"
    "lz_bit_pos t + lz_bits_available t = 8 * ?k" "?k \<le> 3" "lz_buf_next t = (lz_byte_pos t + ?k) mod 3"
    "lz_bits_available t = lz_bits_available s + 8"
    using inv lz_queue_push [OF inv, of b] lz_pending_bound [OF inv]
    unfolding t_def by (auto simp: lzw_inv_def lzw_push_def lzw_table_inv_def)
  have n: "9 \<le> ?n" "?n \<le> 12" using inv by (auto simp: lzw_inv_def dest: lzw_code_size_bounds)
  have bits: "lz_bits t = lz_bits s @ msb_bits 8 b" unfolding t_def by (rule lz_bits_push [OF inv])
  have len: "length (lz_bits t) = lz_bits_available t" using lz_bits_length [OF inv] by (simp add: bits t(9))
  have abs: "lz_abs t = (lz_abs s)\<lparr>lr_bits := lz_bits t\<rparr>"
    by (simp add: lz_abs_def t_def lzw_push_def)
  show ?thesis
  proof (cases "?n \<le> lz_bits_available t")
    case False
    then have "lzw_byte p s b = Done t" by (simp add: lzw_byte_def t_def [symmetric] t(2))
    moreover have "lzw_inv t" using t False by (simp add: lzw_inv_def)
    ultimately show ?thesis
      using False by (simp add: reader_byte_def abs bits [symmetric] len)
  next
    case True
    let ?q = "(lz_bit_pos t + ?n) div 8" and ?code = "bits_value (take ?n (lz_bits t))"
    define u where "u = t\<lparr>lz_byte_pos := (lz_byte_pos t + ?q) mod 3, lz_bit_pos := (lz_bit_pos t + ?n) mod 8,
        lz_bits_available := lz_bits_available t - ?n\<rparr>"
    have q: "8 * ?q + (lz_bit_pos t + ?n) mod 8 = lz_bit_pos t + ?n" by simp
    have qk: "?q \<le> ?k" using q True t(6) by linarith
    have sum: "lz_bit_pos u + lz_bits_available u = 8 * (?k - ?q)"
    proof -
      have "lz_bit_pos u + lz_bits_available u = (lz_bit_pos t + ?n) mod 8 + (lz_bits_available t - ?n)"
        by (simp add: u_def)
      also have "(lz_bit_pos t + ?n) mod 8 = lz_bit_pos t + ?n - 8 * ?q" using q by linarith
      finally show ?thesis using q True t(6) unfolding diff_mult_distrib2 by linarith
    qed
    have pend: "lz_pending u = ?k - ?q" unfolding lz_pending_def sum by simp
    have queue: "lz_queue u = drop ?q (lz_queue t)"
      by (rule lz_queue_skip [OF pend qk]) (simp_all add: u_def)
    have ubits: "lz_bits u = drop ?n (lz_bits t)"
    proof -
      have "lz_bits u = drop (8 * ?q + (lz_bit_pos t + ?n) mod 8) (data_bits (lz_queue t))"
        unfolding lz_bits_def queue data_bits_drop drop_drop by (simp add: u_def add.commute)
      then show ?thesis unfolding q lz_bits_def by (simp add: add.commute)
    qed
    have "take ?n (lz_bits t) = take ?n (drop (lz_bit_pos t) (data_bits
        [lz_buf t ! (lz_byte_pos t mod 3), lz_buf t ! ((lz_byte_pos t + 1) mod 3), lz_buf t ! ((lz_byte_pos t + 2) mod 3)]))"
      unfolding lz_bits_def lz_queue_take [OF t(7)] data_bits_take take_drop take_take
      using True t(6) by (simp add: min_def)
    then have ext: "lzw_extract (lz_buf t) (lz_byte_pos t) (lz_bit_pos t) ?n =
        (of_nat ?code, (lz_byte_pos t + ?q) mod 3, (lz_bit_pos t + ?n) mod 8)"
      using lzw_extract_spec [OF t(3-5) n] t(4) by simp
    have "?code < 2 ^ length (take ?n (lz_bits t))" by (rule bits_value_less)
    also have "\<dots> \<le> 2 ^ 12" by (rule power_increasing) (use n in simp_all)
    finally have "?code < 2 ^ 12" .
    then have code: "unat (of_nat ?code :: 32 word) = ?code"
      by (simp add: unat_of_nat take_bit_nat_eq_self)
    have run: "lzw_byte p s b = handle_code p u ?code"
      using True by (simp add: lzw_byte_def t_def [symmetric] t(2) send_next_code_def ext code u_def)
    have "lz_abs u = (lz_abs s)\<lparr>lr_bits := drop ?n (lz_bits t)\<rparr>"
      by (simp add: lz_abs_def ubits) (simp add: u_def t_def lzw_push_def)
    then have "into lz_abs (lzw_byte p s b) = reader_byte p (lz_abs s) b"
      using True by (simp add: run handle_code_abs reader_byte_def Let_def bits [symmetric] len)
    moreover have "lzw_inv (outcome_state (lzw_byte p s b))"
      unfolding run
    proof (rule lzw_inv_handle)
      show "lzw_table_inv u" using t(1) by (simp add: u_def lzw_table_inv_def)
      have "lz_bits_available s < ?n" using inv by (simp only: lzw_inv_def)
      then show "lz_bits_available u < 9" using n t(9) True by (simp add: u_def)
      show "lz_bit_pos u + lz_bits_available u = 8 * lz_pending u" using sum pend by simp
      show "lz_buf_next u = (lz_byte_pos u + lz_pending u) mod 3"
      proof -
        have "(lz_byte_pos u + lz_pending u) mod 3 = (lz_byte_pos t + ?q + (?k - ?q)) mod 3"
        proof -
          have "lz_byte_pos u = (lz_byte_pos t + ?q) mod 3" by (simp add: u_def)
          then show ?thesis unfolding pend by (simp only: mod_add_left_eq)
        qed
        also have "lz_byte_pos t + ?q + (?k - ?q) = lz_byte_pos t + ?k" using qk by linarith
        finally show ?thesis using t(8) by (simp add: u_def)
      qed
    qed (use t in \<open>simp_all add: u_def\<close>)
    ultimately show ?thesis by blast
  qed
qed

lemma lzw_write_simulates:
  assumes "lzw_inv s"
  shows "into lz_abs (lzw_write p s data) = foldm (reader_byte p) (lz_abs s) data \<and>
    lzw_inv (outcome_state (lzw_write p s data))"
  unfolding lzw_write_def using lzw_byte_simulates assms by (rule foldm_simulation [where I = lzw_inv])

text \<open>
  C29: the rotating buffer of three bytes is a queue of bits: on every input and with every successor
  the decoder writes the same data, leaves the same table and reports the same error as a reader that
  appends each byte to a queue and takes a code of the current width off its front. The buffer
  positions, the width and the table stay in their bounds.
\<close>

theorem lzw_refines_bit_queue:
  assumes "lzw_inv s"
  shows "into lz_abs (lzw_write p s data) = foldm (reader_byte p) (lz_abs s) data \<and>
    lzw_inv (outcome_state (lzw_write p s data))"
  by (rule lzw_write_simulates [OF assms])

theorem lzw_refines_bit_queue_witness:
  "into lz_abs (lzw_write vec_sink (lzw_new [] True) [0x80, 0x10]) =
     foldm (reader_byte vec_sink) (lz_abs (lzw_new [] True)) [0x80, 0x10] \<and>
   lzw_inv (outcome_state (lzw_write vec_sink (lzw_new [] True) [0x80, 0x10]))"
  by (rule lzw_refines_bit_queue) (rule lzw_inv_new)

lemma lzw_byte_error:
  assumes "lzw_inv s" "lzw_byte p s b = Fail e t"
  shows "e \<in> lzw_errors \<or> (\<exists>d data d'. pl_write p d data = Fail e d')"
proof -
  have "lzw_table_inv s" using assms(1) by (simp only: lzw_inv_def)
  then have inv: "lzw_table_inv (lz_abs s)" by (simp add: lzw_table_inv_def)
  have "reader_byte p (lz_abs s) b = Fail e (lz_abs t)"
    using lzw_byte_simulates [OF assms(1), of p b] assms(2) by simp
  then show ?thesis
    using handle_code_error [of "(lz_abs s)\<lparr>lr_bits := _\<rparr>" p] inv
    by (auto simp: reader_byte_def Let_def lzw_table_inv_def split: if_splits)
qed

section \<open>Packing codes\<close>

text \<open>
  \<open>pack_codes\<close>, the packer the crate keeps for its tests: every code at the width the decoder will
  have when it reads it. The state is (bits, code_size, table_size, last_code).
\<close>

definition pack_code ::
  "bool \<Rightarrow> bool list \<times> nat \<times> nat \<times> nat \<Rightarrow> nat \<Rightarrow> bool list \<times> nat \<times> nat \<times> nat" where
  "pack_code early = (\<lambda>(bits, code_size, table_size, last_code) code.
     let bits = bits @ msb_bits code_size (of_nat code :: 32 word)
     in if code = CLEAR_CODE then (bits, 9, 0, code)
        else if code \<noteq> EOD_CODE \<and> last_code \<noteq> CLEAR_CODE then
          let new_index = FIRST_TABLE_CODE + table_size;
              change_index = new_index + of_bool early
          in (bits, if change_index = 511 \<or> change_index = 1023 \<or> change_index = 2047 then code_size + 1 else code_size,
              table_size + 1, code)
        else (bits, code_size, table_size, code))"

function bits_bytes :: "bool list \<Rightarrow> bytes" where
  "bits_bytes bits =
     (if bits = [] then []
      else foldl (\<lambda>byte bit. push_bit 1 byte OR of_bool bit) 0 (take 8 bits) # bits_bytes (drop 8 bits))"
  by pat_completeness auto
termination
  by (relation "measure length") auto

declare bits_bytes.simps [simp del]

definition pack_codes :: "nat list \<Rightarrow> bool \<Rightarrow> bytes" where
  "pack_codes codes early =
     (case foldl (pack_code early) ([], 9, 0, CLEAR_CODE) codes of
        (bits, _, _, _) \<Rightarrow> bits_bytes (bits @ replicate ((8 - length bits mod 8) mod 8) False))"

fun code_bits :: "bool \<Rightarrow> nat \<Rightarrow> nat \<Rightarrow> nat \<Rightarrow> nat list \<Rightarrow> bool list" where
  "code_bits early width n lst [] = []"
| "code_bits early width n lst (code # codes) =
     (case pack_code early ([], width, n, lst) code of
        (bits, width, n, lst) \<Rightarrow> bits @ code_bits early width n lst codes)"

lemma pack_code_bits:
  "fst (foldl (pack_code early) (bits, width, n, lst) codes) = bits @ code_bits early width n lst codes"
proof (induction codes arbitrary: bits width n lst)
  case Nil
  then show ?case by simp
next
  case (Cons code codes)
  obtain b' width' n' lst' where *: "pack_code early ([], width, n, lst) code = (b', width', n', lst')"
    by (cases "pack_code early ([], width, n, lst) code") auto
  then have "pack_code early (bits, width, n, lst) code = (bits @ b', width', n', lst')"
    by (auto simp: pack_code_def Let_def split: if_splits)
  then show ?case by (simp add: Cons.IH *)
qed

lemma msb_bits_snoc:
  assumes "n < 8"
  shows "msb_bits (Suc n) (push_bit 1 (w :: byte) OR of_bool b) = msb_bits n w @ [b]"
proof (rule nth_equalityI)
  fix i assume "i < length (msb_bits (Suc n) (push_bit 1 w OR of_bool b))"
  then have i: "i \<le> n" by simp
  then have "msb_bits (Suc n) (push_bit 1 w OR of_bool b) ! i = bit (push_bit 1 w OR of_bool b) (n - i)" by simp
  also have "\<dots> = (if i = n then b else bit w (n - i - 1))"
    unfolding bit_or_iff bit_push_bit_iff bit_of_bool_iff using i assms by auto
  also have "\<dots> = (msb_bits n w @ [b]) ! i" using i by (simp add: nth_append)
  finally show "msb_bits (Suc n) (push_bit 1 w OR of_bool b) ! i = (msb_bits n w @ [b]) ! i" .
qed simp

lemma msb_bits_byte_value:
  "length bits \<le> 8 \<Longrightarrow>
   msb_bits (length bits) (foldl (\<lambda>byte bit. push_bit 1 byte OR of_bool bit) (0 :: byte) bits) = bits"
proof (induction bits rule: rev_induct)
  case Nil
  then show ?case by (simp add: msb_bits_def)
next
  case (snoc b bits)
  from snoc.prems have "length bits < 8" by simp
  from msb_bits_snoc [OF this] snoc.IH [OF less_imp_le [OF this]] show ?case
    by (simp only: foldl_append foldl_Cons foldl_Nil length_append_singleton)
qed

lemma data_bits_bytes: "8 dvd length bits \<Longrightarrow> data_bits (bits_bytes bits) = bits"
proof (induction bits rule: bits_bytes.induct)
  case (1 bits)
  show ?case
  proof (cases "bits = []")
    case True
    then show ?thesis by (simp add: bits_bytes.simps)
  next
    case False
    then have len: "8 \<le> length bits" using "1.prems" by (auto dest: dvd_imp_le)
    have "data_bits (bits_bytes (drop 8 bits)) = drop 8 bits"
      using "1.IH" [OF False] "1.prems" len by (simp add: dvd_diff_nat)
    then show ?thesis
      using False len msb_bits_byte_value [of "take 8 bits"] append_take_drop_id [of 8 bits]
      by (subst bits_bytes.simps) (simp add: data_bits_def)
  qed
qed

lemma padding_dvd: "8 dvd n + (8 - n mod 8) mod (8 :: nat)"
proof -
  have "n + (8 - n mod 8) mod 8 = 8 * (n div 8) + (n mod 8 + (8 - n mod 8) mod 8)"
    using mult_div_mod_eq [of 8 n] by linarith
  moreover have "n mod 8 < 8" by simp
  then have "n mod 8 \<in> {0, 1, 2, 3, 4, 5, 6, 7}" by auto
  then have "8 dvd n mod 8 + (8 - n mod 8) mod 8" by auto
  ultimately show ?thesis by (metis dvd_add dvd_triv_left)
qed

lemma data_bits_pack_codes: "\<exists>pad. data_bits (pack_codes codes early) = code_bits early 9 0 256 codes @ pad"
proof -
  obtain bits x where *: "foldl (pack_code early) ([], 9, 0, CLEAR_CODE) codes = (bits, x)"
    by (cases "foldl (pack_code early) ([], 9, 0, CLEAR_CODE) codes") auto
  have bits: "bits = code_bits early 9 0 256 codes"
    using pack_code_bits [of early "[]" 9 0 CLEAR_CODE codes] * by (simp add: CLEAR_CODE_def)
  have "8 dvd length (bits @ replicate ((8 - length bits mod 8) mod 8) False)"
    unfolding length_append length_replicate by (rule padding_dvd)
  from data_bits_bytes [OF this] show ?thesis
    unfolding pack_codes_def * by (auto simp: bits split: prod.split)
qed

section \<open>Decoding inverts every encoding\<close>

text \<open>
  The code sequences that stand for a byte string after a table and a last code: whatever phrases the
  encoder chose and whenever it cleared, a phrase may use the entry its own first byte completes.
\<close>

inductive lzw_stream :: "bytes list \<Rightarrow> nat \<Rightarrow> bytes \<Rightarrow> nat list \<Rightarrow> bool" where
  stop: "lzw_stream T lst [] [257]"
| clear: "lzw_stream [] 256 data cs \<Longrightarrow> lzw_stream T lst data (256 # cs)"
| first: "code < 256 \<Longrightarrow> lzw_stream T code data cs \<Longrightarrow> lzw_stream T 256 (of_nat code # data) (code # cs)"
| more: "lst \<noteq> 256 \<Longrightarrow> T' = T @ [lzw_string T lst @ [hd w]] \<Longrightarrow> length T < 3838 \<Longrightarrow> lzw_valid T' code \<Longrightarrow>
    lzw_string T' code = w \<Longrightarrow> lzw_stream T' code data cs \<Longrightarrow> lzw_stream T lst (w @ data) (code # cs)"

text \<open>One code over a vector.\<close>

lemma handle_clear:
  "\<not> lz_eod r \<Longrightarrow> handle_code p r 256 = Done (r\<lparr>lz_table := [], lz_code_size := 9, lz_last_code := 256\<rparr>)"
  by (simp add: handle_code_def lzw_codes_defs)

lemma handle_stop: "\<not> lz_eod r \<Longrightarrow> handle_code p r 257 = Done (r\<lparr>lz_eod := True, lz_last_code := 257\<rparr>)"
  by (simp add: handle_code_def lzw_codes_defs)

lemma handle_first:
  "\<not> lz_eod r \<Longrightarrow> lz_last_code r = 256 \<Longrightarrow> code < 256 \<Longrightarrow>
   handle_code vec_sink r code = Done (r\<lparr>lz_next := lz_next r @ [of_nat code], lz_last_code := code\<rparr>)"
  by (simp add: handle_code_def lzw_codes_defs lzw_emit_def)

lemma handle_more:
  assumes inv: "lzw_table_inv r" and eod: "\<not> lz_eod r" and lst: "lz_last_code r \<noteq> 256"
    and T': "T' = lz_table r @ [lzw_string (lz_table r) (lz_last_code r) @ [hd w]]"
    and room: "length (lz_table r) < 3838" and valid: "lzw_valid T' code" and w: "lzw_string T' code = w"
  shows "handle_code vec_sink r code = Done (r\<lparr>lz_next := lz_next r @ w, lz_table := T',
    lz_code_size := lzw_width (lz_code_change_delta r) (length T'), lz_last_code := code\<rparr>)"
proof -
  let ?T = "lz_table r" and ?l = "lzw_string (lz_table r) (lz_last_code r)"
  have code: "code \<noteq> 256" "code \<noteq> 257" "code < 256 \<or> code - 258 \<le> length ?T"
    using valid by (auto simp: lzw_valid_def T')
  obtain c where c: "lzw_extend r code = Done (r\<lparr>lz_table := ?T @ [?l @ [c]],
      lz_code_size := lzw_width (lz_code_change_delta r) (Suc (length ?T))\<rparr>)"
    "c = hd (lzw_string (?T @ [?l @ [c]]) code)"
    using lzw_extend_spec [OF inv lzw_last_valid [OF inv eod lst] code room] by blast
  have "?l \<noteq> []" by (rule lzw_string_nonempty [OF inv lzw_last_valid [OF inv eod lst]])
  then have "hd (lzw_string (?T @ [?l @ [x]]) code) = hd (lzw_string (?T @ [?l @ [y]]) code)" for x y
    using code(3) by (auto simp: lzw_string_def nth_append)
  then have "c = hd w" using c(2) w unfolding T' by metis
  then have ext: "lzw_extend r code = Done (r\<lparr>lz_table := T',
      lz_code_size := lzw_width (lz_code_change_delta r) (length T')\<rparr>)"
    using c(1) by (simp add: T')
  have "lzw_emit vec_sink s code = Done (s\<lparr>lz_next := lz_next s @ w\<rparr>)" if "lz_table s = T'" for s :: "(bytes, 'a) lzw_table_scheme"
    using that valid w by (auto simp: lzw_emit_def lzw_valid_def lzw_string_def lzw_codes_defs)
  then show ?thesis using eod lst code by (simp add: handle_code_def ext lzw_codes_defs)
qed

text \<open>The bytes up to the end of the next code deliver that code.\<close>

lemma reader_next_code:
  assumes "length (lr_bits r) < lz_code_size r" "9 \<le> lz_code_size r"
    "lr_bits r @ data_bits data = B @ rest" "length B = lz_code_size r"
    "\<And>X. handle_code p (r\<lparr>lr_bits := X\<rparr>) (bits_value B) = Done (f X)"
  shows "\<exists>d1 d2 X. data = d1 @ d2 \<and> foldm (reader_byte p) r d1 = Done (f X) \<and>
    X @ data_bits d2 = rest \<and> length X < 8"
  using assms
proof (induction data arbitrary: r)
  case Nil
  then show ?case by simp
next
  case (Cons b data)
  let ?bits = "lr_bits r @ msb_bits 8 b" and ?n = "lz_code_size r"
  have db: "data_bits (b # data) = msb_bits 8 b @ data_bits data" by (simp add: data_bits_def)
  show ?case
  proof (cases "length ?bits < ?n")
    case True
    have step: "reader_byte p r b = Done (r\<lparr>lr_bits := ?bits\<rparr>)" using True by (simp add: reader_byte_def Let_def)
    have "\<exists>d1 d2 X. data = d1 @ d2 \<and> foldm (reader_byte p) (r\<lparr>lr_bits := ?bits\<rparr>) d1 = Done (f X) \<and>
        X @ data_bits d2 = rest \<and> length X < 8"
      using Cons.prems True by (intro Cons.IH) (simp_all add: db)
    then obtain d1 d2 X where "data = d1 @ d2" "foldm (reader_byte p) (r\<lparr>lr_bits := ?bits\<rparr>) d1 = Done (f X)"
      "X @ data_bits d2 = rest" "length X < 8" by blast
    then show ?thesis using step by (intro exI [of _ "b # d1"] exI [of _ d2] exI [of _ X]) simp
  next
    case False
    have eq: "?bits @ data_bits data = B @ rest" using Cons.prems(3) by (simp add: db)
    have "take ?n ?bits = B" "drop ?n ?bits @ data_bits data = rest"
      using arg_cong [OF eq, of "take ?n"] arg_cong [OF eq, of "drop ?n"] Cons.prems(4) False by simp_all
    moreover have "length (drop ?n ?bits) < 8" using Cons.prems(1) by simp
    moreover have "reader_byte p r b = Done (f (drop ?n ?bits))"
      using False calculation(1) Cons.prems(5) by (simp add: reader_byte_def Let_def)
    ultimately show ?thesis by (intro exI [of _ "[b]"] exI [of _ data] exI [of _ "drop ?n ?bits"]) simp
  qed
qed

lemma reader_eod: "lz_eod r \<Longrightarrow> \<exists>r'. foldm (reader_byte p) r data = Done r' \<and> lz_next r' = lz_next r"
proof (induction data arbitrary: r)
  case Nil
  then show ?case by simp
next
  case (Cons b data)
  let ?bits = "lr_bits r @ msb_bits 8 b"
  define X where "X = (if lz_code_size r \<le> length ?bits then drop (lz_code_size r) ?bits else ?bits)"
  have "reader_byte p r b = Done (r\<lparr>lr_bits := X\<rparr>)"
    using Cons.prems by (simp add: reader_byte_def handle_code_def Let_def X_def)
  then show ?case using Cons.IH [of "r\<lparr>lr_bits := X\<rparr>"] Cons.prems by simp
qed

lemma bits_value_code: "c < 2 ^ n \<Longrightarrow> n \<le> 12 \<Longrightarrow> bits_value (msb_bits n (of_nat c :: 32 word)) = c"
proof -
  assume c: "c < 2 ^ n" "n \<le> 12"
  then have "c < 2 ^ 12" by (meson less_le_trans one_le_numeral power_increasing)
  then show ?thesis using c by (simp add: bits_value_msb unat_of_nat take_bit_nat_eq_self)
qed

lemma reader_code:
  assumes inv: "lzw_table_inv r" and room: "length (lr_bits r) < lz_code_size r"
    and bits: "lr_bits r @ data_bits data = msb_bits (lz_code_size r) (of_nat c :: 32 word) @ rest"
    and fits: "c < 2 ^ lz_code_size r"
    and step: "\<And>X. handle_code p (r\<lparr>lr_bits := X\<rparr>) c = Done (f X)"
  obtains d1 d2 X where "data = d1 @ d2" "foldm (reader_byte p) r d1 = Done (f X)"
    "X @ data_bits d2 = rest" "length X < 8"
proof -
  have n: "9 \<le> lz_code_size r" "lz_code_size r \<le> 12" using inv by (auto dest: lzw_code_size_bounds)
  have "\<exists>d1 d2 X. data = d1 @ d2 \<and> foldm (reader_byte p) r d1 = Done (f X) \<and> X @ data_bits d2 = rest \<and> length X < 8"
    by (rule reader_next_code [OF room n(1) bits]) (simp_all add: bits_value_code [OF fits n(2)] step)
  then show ?thesis using that by blast
qed

lemma small_code_fits: "lzw_table_inv r \<Longrightarrow> c < 512 \<Longrightarrow> (c :: nat) < 2 ^ lz_code_size r"
proof -
  assume "lzw_table_inv r" "c < 512"
  then have "9 \<le> lz_code_size r" "c < 2 ^ 9" by (simp_all add: lzw_code_size_bounds)
  moreover have "2 ^ 9 \<le> (2 :: nat) ^ lz_code_size r" using \<open>9 \<le> _\<close> by (rule power_increasing) simp
  ultimately show ?thesis by linarith
qed

theorem reader_decodes_stream:
  assumes "lzw_stream T lst out cs" "lzw_table_inv r" "\<not> lz_eod r" "lz_table r = T" "lz_last_code r = lst"
    "length (lr_bits r) < lz_code_size r"
    "lr_bits r @ data_bits input = code_bits (lz_code_change_delta r) (lz_code_size r) (length T) lst cs @ pad"
  shows "\<exists>r'. foldm (reader_byte vec_sink) r input = Done r' \<and> lz_next r' = lz_next r @ out"
  using assms
proof (induction arbitrary: r input rule: lzw_stream.induct)
  case (stop T lst)
  let ?f = "\<lambda>X. r\<lparr>lr_bits := X, lz_eod := True, lz_last_code := 257\<rparr>"
  have "lr_bits r @ data_bits input = msb_bits (lz_code_size r) (of_nat 257 :: 32 word) @ pad"
    using stop.prems(6) by (simp add: pack_code_def Let_def lzw_codes_defs)
  then obtain d1 d2 X where d: "input = d1 @ d2" "foldm (reader_byte vec_sink) r d1 = Done (?f X)"
    by (rule reader_code [OF stop.prems(1,5) _ small_code_fits [OF stop.prems(1)], where f = ?f and p = vec_sink])
      (simp_all add: handle_stop stop.prems(2))
  then show ?case using reader_eod [of "?f X" vec_sink d2] by (simp add: foldm_append)
next
  case (clear data cs T lst)
  let ?f = "\<lambda>X. r\<lparr>lr_bits := X, lz_table := [], lz_code_size := 9, lz_last_code := 256\<rparr>"
  let ?rest = "code_bits (lz_code_change_delta r) 9 0 256 cs @ pad"
  have "lr_bits r @ data_bits input = msb_bits (lz_code_size r) (of_nat 256 :: 32 word) @ ?rest"
    using clear.prems(6) by (simp add: pack_code_def Let_def lzw_codes_defs)
  then obtain d1 d2 X where d: "input = d1 @ d2" "foldm (reader_byte vec_sink) r d1 = Done (?f X)"
    "X @ data_bits d2 = ?rest" "length X < 8"
    by (rule reader_code [OF clear.prems(1,5) _ small_code_fits [OF clear.prems(1)], where f = ?f and p = vec_sink])
      (simp_all add: handle_clear clear.prems(2))
  have "\<exists>r'. foldm (reader_byte vec_sink) (?f X) d2 = Done r' \<and> lz_next r' = lz_next (?f X) @ data"
    by (rule clear.IH) (use clear.prems d in \<open>simp_all add: lzw_table_inv_def\<close>)
  then show ?case using d by (simp add: foldm_append)
next
  case (first code T data cs)
  let ?f = "\<lambda>X. r\<lparr>lr_bits := X, lz_next := lz_next r @ [of_nat code], lz_last_code := code\<rparr>"
  let ?rest = "code_bits (lz_code_change_delta r) (lz_code_size r) (length T) code cs @ pad"
  have "lr_bits r @ data_bits input = msb_bits (lz_code_size r) (of_nat code :: 32 word) @ ?rest"
    using first.prems(6) first.hyps(1) by (simp add: pack_code_def Let_def lzw_codes_defs)
  then obtain d1 d2 X where d: "input = d1 @ d2" "foldm (reader_byte vec_sink) r d1 = Done (?f X)"
    "X @ data_bits d2 = ?rest" "length X < 8"
    by (rule reader_code [OF first.prems(1,5) _ small_code_fits [OF first.prems(1)], where f = ?f and p = vec_sink])
      (use first.hyps(1) in \<open>simp_all add: handle_first first.prems(2,4)\<close>)
  have "9 \<le> lz_code_size r" using first.prems(1) by (simp add: lzw_code_size_bounds)
  then have "\<exists>r'. foldm (reader_byte vec_sink) (?f X) d2 = Done r' \<and> lz_next r' = lz_next (?f X) @ data"
    by (intro first.IH) (use first.prems first.hyps(1) d in \<open>simp_all add: lzw_table_inv_def\<close>)
  then show ?case using d by (simp add: foldm_append)
next
  case (more lst T' T w code data cs)
  let ?size = "lzw_width (lz_code_change_delta r) (length T')"
  let ?f = "\<lambda>X. r\<lparr>lr_bits := X, lz_next := lz_next r @ w, lz_table := T', lz_code_size := ?size, lz_last_code := code\<rparr>"
  let ?rest = "code_bits (lz_code_change_delta r) ?size (length T') code cs @ pad"
  have size: "lz_code_size r = lzw_width (lz_code_change_delta r) (length T)"
    using more.prems(1,3) by (simp add: lzw_table_inv_def)
  have code: "code \<noteq> 256" "code \<noteq> 257" "code < 256 \<or> 258 \<le> code \<and> code - 258 \<le> length T" "length T' = Suc (length T)"
    using more.hyps(2,4) by (auto simp: lzw_valid_def)
  have fits: "code < 2 ^ lz_code_size r"
    using small_code_fits [OF more.prems(1), of code] lzw_width_fits [of "code - 258" "length T"] code(3) more.hyps(3)
    unfolding size by auto
  have last: "lz_last_code r \<noteq> 256" using more.prems(4) more.hyps(1) by simp
  have step: "handle_code vec_sink (r\<lparr>lr_bits := X\<rparr>) code = Done (?f X)" for X
    by (subst handle_more [where T' = T' and w = w])
      (use more.prems more.hyps in \<open>simp_all add: lzw_table_inv_def\<close>)
  have "lr_bits r @ data_bits input = msb_bits (lz_code_size r) (of_nat code :: 32 word) @ ?rest"
    using more.prems(6) more.hyps(1) code
    by (simp add: pack_code_def Let_def lzw_codes_defs size lzw_width_Suc)
  then obtain d1 d2 X where d: "input = d1 @ d2" "foldm (reader_byte vec_sink) r d1 = Done (?f X)"
    "X @ data_bits d2 = ?rest" "length X < 8"
    by (rule reader_code [OF more.prems(1,5) _ fits step])
  have inv: "lzw_table_inv (?f X)"
    using lzw_table_inv_handle [of "r\<lparr>lr_bits := X\<rparr>" vec_sink code] more.prems(1)
    unfolding step by (simp add: lzw_table_inv_def)
  have "\<exists>r'. foldm (reader_byte vec_sink) (?f X) d2 = Done r' \<and> lz_next r' = lz_next (?f X) @ data"
    by (rule more.IH [OF inv])
      (use more.prems d lzw_width_bounds(1) [of "lz_code_change_delta r" "length T'"] in simp_all)
  then show ?case using d by (simp add: foldm_append)
qed

section \<open>An encoder\<close>

text \<open>The greedy encoder: the longest phrase of the table, and a clear code when the table is full.\<close>

definition lzw_best :: "bytes list \<Rightarrow> bytes \<Rightarrow> nat" where
  "lzw_best T data = foldl (\<lambda>best i.
       if take (length (T ! i)) data = T ! i \<and> length (T ! i) > length (lzw_string T best) then 258 + i else best)
     (unat (hd data)) [0..<length T]"

function lzw_encode :: "bytes list \<Rightarrow> nat \<Rightarrow> bytes \<Rightarrow> nat list" where
  "lzw_encode T lst data =
     (if data = [] then [257]
      else if lst = 256 then unat (hd data) # lzw_encode T (unat (hd data)) (tl data)
      else if length T \<ge> 3838 then 256 # lzw_encode [] 256 data
      else
        let T' = T @ [lzw_string T lst @ [hd data]];
            code = lzw_best T' data;
            n = length (lzw_string T' code)
        in code # lzw_encode T' code (drop (max 1 n) data))"
  by pat_completeness auto
termination
  by (relation "measures [\<lambda>(T, lst, data). length data, \<lambda>(T, lst, data). if lst = 256 then 0 else 1]")
    auto

declare lzw_encode.simps [simp del]

lemma foldl_keeps: "P a \<Longrightarrow> (\<And>a x. P a \<Longrightarrow> x \<in> set xs \<Longrightarrow> P (f a x)) \<Longrightarrow> P (foldl f a xs)"
  by (induction xs arbitrary: a) simp_all

text \<open>The chosen code is in the table, stands for a prefix of the data and for at least one byte.\<close>

lemma lzw_best_prefix:
  assumes "data \<noteq> []"
  shows "lzw_valid T (lzw_best T data) \<and> 1 \<le> length (lzw_string T (lzw_best T data)) \<and>
    take (length (lzw_string T (lzw_best T data))) data = lzw_string T (lzw_best T data)"
  unfolding lzw_best_def
proof (rule foldl_keeps)
  show "lzw_valid T (unat (hd data)) \<and> 1 \<le> length (lzw_string T (unat (hd data))) \<and>
    take (length (lzw_string T (unat (hd data)))) data = lzw_string T (unat (hd data))"
    using assms by (cases data) (simp_all add: lzw_valid_def lzw_string_def)
qed (auto simp: lzw_valid_def lzw_string_def)

lemma lzw_encode_stream: "(lst = 256 \<longrightarrow> T = []) \<Longrightarrow> lzw_stream T lst data (lzw_encode T lst data)"
proof (induction T lst data rule: lzw_encode.induct)
  case (1 T lst data)
  consider "data = []" | "data \<noteq> []" "lst = 256" | "data \<noteq> []" "lst \<noteq> 256" "3838 \<le> length T"
    | "data \<noteq> []" "lst \<noteq> 256" "length T < 3838" by linarith
  then show ?case
  proof cases
    case 1
    then show ?thesis by (simp add: lzw_encode.simps lzw_stream.stop)
  next
    case 2
    have "unat (hd data) \<noteq> 256" using unat_byte_less [of "hd data"] by linarith
    then have "lzw_stream T (unat (hd data)) (tl data) (lzw_encode T (unat (hd data)) (tl data))"
      using "1.IH"(1) [OF 2] by simp
    then have "lzw_stream T 256 (of_nat (unat (hd data)) # tl data)
        (unat (hd data) # lzw_encode T (unat (hd data)) (tl data))"
      by (rule lzw_stream.first [rotated]) simp
    then show ?thesis using 2 by (subst lzw_encode.simps) simp
  next
    case 3
    then have "lzw_stream [] 256 data (lzw_encode [] 256 data)"
      using "1.IH"(2) by simp
    then show ?thesis using 3 by (subst lzw_encode.simps) (simp add: lzw_stream.clear)
  next
    case 4
    define T' where "T' = T @ [lzw_string T lst @ [hd data]]"
    define code where "code = lzw_best T' data"
    define w where "w = lzw_string T' code"
    have best: "lzw_valid T' code" "1 \<le> length w" "take (length w) data = w"
      using lzw_best_prefix [OF 4(1), of T'] by (simp_all add: code_def w_def)
    have split: "w @ drop (length w) data = data" using best(3) by (metis append_take_drop_id)
    have hd: "hd w = hd data" using split best(2) by (metis hd_append2 list.size(3) not_one_le_zero)
    have code: "code \<noteq> 256" using best(1) by (auto simp: lzw_valid_def)
    have "lzw_stream T' code (drop (max 1 (length w)) data) (lzw_encode T' code (drop (max 1 (length w)) data))"
      using "1.IH"(3) [OF 4(1,2) _ T'_def code_def] 4(3) code by (simp add: w_def)
    then have "lzw_stream T' code (drop (length w) data) (lzw_encode T' code (drop (length w) data))"
      using best(2) by (simp add: max_def)
    from lzw_stream.more [OF 4(2) _ 4(3) best(1) w_def [symmetric] this]
    have "lzw_stream T lst (w @ drop (length w) data) (code # lzw_encode T' code (drop (length w) data))"
      by (simp add: T'_def hd)
    moreover have "lzw_encode T lst data = code # lzw_encode T' code (drop (length w) data)"
      using 4 best(2) by (subst lzw_encode.simps) (simp add: Let_def T'_def [symmetric] code_def [symmetric] w_def [symmetric] max_def)
    ultimately show ?thesis using split by simp
  qed
qed

definition lzw_decode :: "bool \<Rightarrow> bytes \<Rightarrow> (pipe_error, bytes) outcome" where
  "lzw_decode early data =
     into lz_next (seq (lzw_write vec_sink (lzw_new [] early) data) (lzw_finish vec_sink))"

lemma lzw_decode_stream:
  assumes "lzw_stream [] 256 data codes"
  shows "lzw_decode early (pack_codes codes early) = Done data"
proof -
  let ?s = "lzw_new [] early :: bytes lzw"
  have abs: "lz_next (lz_abs ?s) = []" "lz_table (lz_abs ?s) = []" "lz_last_code (lz_abs ?s) = 256"
    "lz_code_size (lz_abs ?s) = 9" "lz_code_change_delta (lz_abs ?s) = early" "\<not> lz_eod (lz_abs ?s)"
    "lr_bits (lz_abs ?s) = []" "lzw_table_inv (lz_abs ?s)"
    by (simp_all add: lzw_new_def lz_bits_def lz_queue_def lz_pending_def lzw_codes_defs lzw_table_inv_def)
  obtain pad where "data_bits (pack_codes codes early) = code_bits early 9 0 256 codes @ pad"
    using data_bits_pack_codes by blast
  then obtain r' where r': "foldm (reader_byte vec_sink) (lz_abs ?s) (pack_codes codes early) = Done r'" "lz_next r' = data"
    using reader_decodes_stream [OF assms abs(8,6,2,3), of "pack_codes codes early" pad] abs by auto
  have "into lz_abs (lzw_write vec_sink ?s (pack_codes codes early)) = Done r'"
    using lzw_write_simulates [OF lzw_inv_new, where p = vec_sink and data = "pack_codes codes early"] r'(1) by simp
  then obtain s' where "lzw_write vec_sink ?s (pack_codes codes early) = Done s'" "lz_abs s' = r'"
    by (cases "lzw_write vec_sink ?s (pack_codes codes early)") auto
  then show ?thesis using r'(2) by (auto simp: lzw_decode_def lzw_finish_def)
qed

text \<open>
  C28: the LZW decoder inverts every LZW encoding, with the early code change or without: if the codes
  stand for the data, whatever phrases the encoder chose and whenever it cleared its table, decoding
  their packing gives the data.
\<close>

theorem lzw_decodes_stream:
  assumes "lzw_stream [] 256 data codes"
  shows "lzw_decode early (pack_codes codes early) = Done data"
  by (rule lzw_decode_stream [OF assms])

text \<open>The phrase of code 258 is completed by the phrase itself.\<close>

theorem lzw_decodes_stream_witness:
  "lzw_decode True (pack_codes [256, 97, 258, 257] True) = Done [97, 97, 97]"
proof (rule lzw_decodes_stream)
  have "lzw_stream [[97, 97]] 258 [] [257]" by (rule lzw_stream.stop)
  then have "lzw_stream [] 97 ([97, 97] @ []) [258, 257]"
    by (rule lzw_stream.more [rotated 5]) (simp_all add: lzw_string_def lzw_valid_def)
  then have "lzw_stream [] 256 (of_nat 97 # [97, 97] @ []) [97, 258, 257]"
    by (rule lzw_stream.first [rotated]) simp
  then show "lzw_stream [] 256 [97, 97, 97] [256, 97, 258, 257]"
    using lzw_stream.clear by simp
qed

text \<open>
  C30: every byte string has an encoding the decoder takes back: the greedy encoder with clear codes
  followed by the packer, and the decoder, are inverse.
\<close>

theorem lzw_roundtrip: "lzw_decode early (pack_codes (256 # lzw_encode [] 256 data) early) = Done data"
  by (intro lzw_decode_stream lzw_stream.clear lzw_encode_stream) simp


end
