(* ===== verification/Qutil.thy ===== *)
theory Qutil
  imports Errors
begin

text \<open>
  Number parsing of \<open>crates/flpdf/src/qutil.rs\<close>: the \<open>strtoll\<close>-like conversions, the checked
  narrowings, \<open>int_to_string_base\<close> and the numeric page-range language \<open>parse_numrange\<close>, which is shown
  to compute the meaning of every rendered range.
\<close>

section \<open>Decimal prefixes\<close>

datatype qpdf_parse = NoDigits | Overflow bytes | Value int

definition is_strtoll_space :: "byte \<Rightarrow> bool" where
  "is_strtoll_space b \<longleftrightarrow> b \<in> {0x20, 0x0A, 0x0D, 0x09, 0x0C, 0x0B}"

definition ll_overflow :: "bytes \<Rightarrow> qpdf_parse" where
  "ll_overflow text = Overflow (str ''overflow/underflow converting '' @ text @ str '' to 64-bit integer'')"

text \<open>The magnitude is a \<open>u128\<close>, clamped to \<open>i128::MAX\<close> when it is signed.\<close>

definition qpdf_string_to_ll_checked :: "bytes \<Rightarrow> qpdf_parse" where
  "qpdf_string_to_ll_checked text =
     (let text = until_nul text;
          stripped = dropWhile is_strtoll_space text;
          (negative, digits) =
            (case stripped of
               b # bs \<Rightarrow> if b = 0x2D then (True, bs) else if b = 0x2B then (False, bs) else (False, stripped)
             | [] \<Rightarrow> (False, stripped));
          run = takeWhile is_ascii_digit digits
      in if run = [] then NoDigits
         else case parse_int 0 (2 ^ 128 - 1) run of
           Inl e \<Rightarrow> ll_overflow text
         | Inr magnitude \<Rightarrow>
             let clamped = min magnitude (2 ^ 127 - 1);
                 signed = (if negative then - clamped else clamped)
             in if signed < - (2 ^ 63) \<or> signed > 2 ^ 63 - 1 then ll_overflow text else Value signed)"

definition qpdf_i64_to_int_checked :: "int \<Rightarrow> bytes + int" where
  "qpdf_i64_to_int_checked value =
     (if - (2 ^ 31) \<le> value \<and> value < 2 ^ 31 then Inr value
      else Inl (str ''integer out of range converting '' @ decimal_int value @
                str '' from a 8-byte signed type to a 4-byte signed type''))"

definition qpdf_u64_to_offset_checked :: "nat \<Rightarrow> bytes + int" where
  "qpdf_u64_to_offset_checked value =
     (if value < 2 ^ 63 then Inr (int value)
      else Inl (str ''integer out of range converting '' @ decimal value @
                str '' from a 8-byte unsigned type to a 8-byte signed type''))"

text \<open>\<open>usize\<close> has eight bytes.\<close>

definition qpdf_usize_to_offset_checked :: "nat \<Rightarrow> bytes + int" where
  "qpdf_usize_to_offset_checked value =
     (if value < 2 ^ 63 then Inr (int value)
      else Inl (str ''integer out of range converting '' @ decimal value @
                str '' from a '' @ decimal 8 @ str ''-byte unsigned type to a 8-byte signed type''))"

definition qpdf_string_to_int_checked :: "bytes \<Rightarrow> qpdf_parse" where
  "qpdf_string_to_int_checked text =
     (case qpdf_string_to_ll_checked text of
        NoDigits \<Rightarrow> NoDigits
      | Overflow m \<Rightarrow> Overflow m
      | Value v \<Rightarrow> (case qpdf_i64_to_int_checked v of Inr v \<Rightarrow> Value v | Inl m \<Rightarrow> Overflow m))"

definition qpdf_size_to_int :: "nat \<Rightarrow> error + int" where
  "qpdf_size_to_int value =
     (if value < 2 ^ 31 then Inr (int value)
      else Inl (System (str ''integer out of range converting '' @ decimal value @ str '' from a '' @ decimal 8 @
                str ''-byte unsigned type to a '' @ decimal 4 @ str ''-byte signed type'')))"

section \<open>int_to_string_base\<close>

fun lower_octal :: "nat \<Rightarrow> bytes" where
  "lower_octal n =
     (if n < 8 then [0x30 + of_nat n] else lower_octal (n div 8) @ [0x30 + of_nat (n mod 8)])"

declare lower_octal.simps [simp del]

text \<open>\<open>number as u64\<close>: octal and hexadecimal print the two's complement.\<close>

definition int_to_string_base :: "int \<Rightarrow> int \<Rightarrow> int \<Rightarrow> error + bytes" where
  "int_to_string_base number base len =
     (let converted =
        (if base = 8 then Inr (lower_octal (nat (number mod 2 ^ 64)))
         else if base = 16 then Inr (lower_hex (nat (number mod 2 ^ 64)))
         else if base = 10 then Inr (decimal_int number)
         else Inl (Internal (str ''int_to_string_base called with unsupported base'')));
          width = nat \<bar>len\<bar>
      in case converted of
           Inl e \<Rightarrow> Inl e
         | Inr s \<Rightarrow>
             Inr (if len > 0 \<and> length s < width then replicate (width - length s) 0x30 @ s
                  else if len < 0 \<and> length s < width then s @ replicate (width - length s) 0x20
                  else s))"

section \<open>Numeric ranges\<close>

text \<open>\<open>xs.get(i)\<close>\<close>

definition get_at :: "'a list \<Rightarrow> nat \<Rightarrow> 'a option" where
  "get_at xs i = (if i < length xs then Some (xs ! i) else None)"

definition slice_of :: "'a list \<Rightarrow> nat \<Rightarrow> nat \<Rightarrow> 'a list" where
  "slice_of xs i j = take (j - i) (drop i xs)"

text \<open>\<open>iter().position(|&b| b == x)\<close>\<close>

definition position_of :: "'a \<Rightarrow> 'a list \<Rightarrow> nat option" where
  "position_of x xs =
     (let n = length (takeWhile (\<lambda>y. y \<noteq> x) xs) in if n < length xs then Some n else None)"

definition numrange_error :: "bytes \<Rightarrow> nat \<Rightarrow> bytes \<Rightarrow> error" where
  "numrange_error input offset detail =
     (let offset = min offset (length input)
      in SystemBytes (str ''error at * in numeric range '' @ take offset input @ [0x2A] @ drop offset input @
           str '': '' @ detail))"

record numrange_group =
  ng_is_exclude :: bool
  ng_first :: bytes
  ng_last :: "bytes option"

definition capture_numrange_endpoint :: "bytes \<Rightarrow> nat \<Rightarrow> nat option" where
  "capture_numrange_endpoint grp position =
     (if get_at grp position = Some 0x7A then Some (position + 1)
      else
        let start = (if get_at grp position = Some 0x72 then position + 1 else position);
            position = start + length (takeWhile is_ascii_digit (drop start grp))
        in if position \<noteq> start then Some position else None)"

definition capture_numrange_group :: "bytes \<Rightarrow> numrange_group option" where
  "capture_numrange_group grp =
     (let is_exclude = (get_at grp 0 = Some 0x78);
          first_start = of_bool is_exclude
      in case capture_numrange_endpoint grp first_start of
           None \<Rightarrow> None
         | Some position \<Rightarrow>
             let first = slice_of grp first_start position
             in if get_at grp position = Some 0x2D then
                  case capture_numrange_endpoint grp (position + 1) of
                    None \<Rightarrow> None
                  | Some position' \<Rightarrow>
                      if position' = length grp
                      then Some \<lparr>ng_is_exclude = is_exclude, ng_first = first,
                                 ng_last = Some (slice_of grp (position + 1) position')\<rparr>
                      else None
                else if position = length grp
                then Some \<lparr>ng_is_exclude = is_exclude, ng_first = first, ng_last = None\<rparr>
                else None)"

definition check_numrange_value :: "bytes \<Rightarrow> nat \<Rightarrow> int \<Rightarrow> int \<Rightarrow> error + int" where
  "check_numrange_value input offset value mx =
     (if mx > 0 \<and> (value < 1 \<or> value > mx)
      then Inl (numrange_error input offset (str ''number '' @ decimal_int value @ str '' out of range''))
      else Inr value)"

text \<open>Wrapping \<open>i32\<close> arithmetic.\<close>

definition wrap_i32 :: "int \<Rightarrow> int" where
  "wrap_i32 i = (i + 2 ^ 31) mod 2 ^ 32 - 2 ^ 31"

definition parse_numrange_integer :: "bytes \<Rightarrow> nat \<Rightarrow> bytes \<Rightarrow> int \<Rightarrow> error + int" where
  "parse_numrange_integer input offset endpoint mx =
     (if endpoint = [0x7A] then check_numrange_value input offset mx mx
      else
        let from_end = (get_at endpoint 0 = Some 0x72);
            digits = (if from_end then drop 1 endpoint else endpoint)
        in if \<not> valid_utf8 digits then Inl (numrange_error input offset (str ''invalid range syntax''))
           else
             case (case qpdf_string_to_int_checked digits of
                     Value v \<Rightarrow> Inr v | Overflow m \<Rightarrow> Inl m | NoDigits \<Rightarrow> Inr 0) of
               Inl m \<Rightarrow> Inl (numrange_error input offset m)
             | Inr number \<Rightarrow>
                 check_numrange_value input offset
                   (if from_end then wrap_i32 (wrap_i32 (mx + 1) - number) else number) mx)"

text \<open>A failing allocation (\<open>std::bad_alloc\<close>) is not modelled.\<close>

definition populate_numrange_group :: "int \<Rightarrow> bool \<Rightarrow> int \<Rightarrow> int list" where
  "populate_numrange_group first is_span lst =
     first #
     (if is_span then
        if first > lst then rev [lst..first - 1]
        else if first < lst then [first + 1..lst] else []
      else [])"

lemma capture_empty [simp]: "capture_numrange_group [] = None"
  by (simp add: capture_numrange_group_def capture_numrange_endpoint_def get_at_def)

text \<open>One group: the body of the loop, on the pages before the last positive group and that group.\<close>

definition numrange_step ::
  "bytes \<Rightarrow> nat \<Rightarrow> int \<Rightarrow> bool \<Rightarrow> bytes \<Rightarrow> int list \<times> int list \<Rightarrow> error + int list \<times> int list" where
  "numrange_step rng cursor mx first grp = (\<lambda>(result, last_group).
     case capture_numrange_group grp of
       None \<Rightarrow> Inl (numrange_error rng cursor (str ''invalid range syntax''))
     | Some g \<Rightarrow>
         if first \<and> ng_is_exclude g
         then Inl (numrange_error rng cursor (str ''first range group may not be an exclusion''))
         else
           case parse_numrange_integer rng cursor (ng_first g) mx of
             Inl e \<Rightarrow> Inl e
           | Inr first_num \<Rightarrow>
               case (case ng_last g of None \<Rightarrow> Inr None
                     | Some l \<Rightarrow> map_sum id Some (parse_numrange_integer rng cursor l mx)) of
                 Inl e \<Rightarrow> Inl e
               | Inr last_num \<Rightarrow>
                   let work = populate_numrange_group first_num (last_num \<noteq> None)
                         (case last_num of Some l \<Rightarrow> l | None \<Rightarrow> 0)
                   in Inr (if ng_is_exclude g then (result, filter (\<lambda>n. n \<notin> set work) last_group)
                           else (result @ last_group, work)))"

lemma numrange_step_empty: "numrange_step rng cursor mx first [] st \<noteq> Inr st'"
  by (cases st) (simp add: numrange_step_def)

definition group_end :: "bytes \<Rightarrow> nat \<Rightarrow> nat \<Rightarrow> nat" where
  "group_end rng range_end cursor =
     (case position_of 0x2C (slice_of rng cursor range_end) of
        None \<Rightarrow> range_end | Some offset \<Rightarrow> cursor + offset)"

function numrange_loop ::
  "bytes \<Rightarrow> nat \<Rightarrow> int \<Rightarrow> nat \<Rightarrow> bool \<Rightarrow> int list \<times> int list \<Rightarrow> error + int list \<times> int list" where
  "numrange_loop rng range_end mx cursor first st =
     (if cursor \<ge> range_end then Inr st
      else
        let ge = group_end rng range_end cursor
        in case numrange_step rng cursor mx first (slice_of rng cursor ge) st of
             Inl e \<Rightarrow> Inl e
           | Inr st \<Rightarrow>
               if ge < range_end \<and> get_at rng ge = Some 0x2C then
                 if ge + 1 = range_end then Inl (numrange_error rng (ge + 1) (str ''trailing comma''))
                 else numrange_loop rng range_end mx (ge + 1) False st
               else numrange_loop rng range_end mx ge False st)"
  by pat_completeness auto
termination
proof (relation "measure (\<lambda>(rng, range_end, mx, cursor, first, st). range_end - cursor)", goal_cases)
  case 1
  then show ?case by simp
next
  case (2 rng range_end mx cursor first st ge st')
  then have "cursor < range_end" "cursor \<le> ge" by (auto simp: group_end_def split: option.splits)
  then show ?case by simp
next
  case (3 rng range_end mx cursor first st ge st')
  then have "cursor < range_end" "cursor \<le> ge" by (auto simp: group_end_def split: option.splits)
  moreover have "ge \<noteq> cursor"
  proof
    assume "ge = cursor"
    then have "slice_of rng cursor ge = []" by (simp add: slice_of_def)
    then show False using 3 numrange_step_empty [of rng cursor mx first st st'] by simp
  qed
  ultimately show ?case by simp
qed

declare numrange_loop.simps [simp del]

lemma numrange_loop_unfold:
  "\<not> cursor \<ge> range_end \<Longrightarrow>
   numrange_loop rng range_end mx cursor first st =
     (case numrange_step rng cursor mx first (slice_of rng cursor (group_end rng range_end cursor)) st of
        Inl e \<Rightarrow> Inl e
      | Inr st \<Rightarrow>
          if group_end rng range_end cursor < range_end \<and> get_at rng (group_end rng range_end cursor) = Some 0x2C then
            if group_end rng range_end cursor + 1 = range_end
            then Inl (numrange_error rng (group_end rng range_end cursor + 1) (str ''trailing comma''))
            else numrange_loop rng range_end mx (group_end rng range_end cursor + 1) False st
          else numrange_loop rng range_end mx (group_end rng range_end cursor) False st)"
  by (subst numrange_loop.simps) (simp add: Let_def)

lemma numrange_loop_end: "cursor \<ge> range_end \<Longrightarrow> numrange_loop rng range_end mx cursor first st = Inr st"
  by (simp add: numrange_loop.simps)

text \<open>\<open>into_iter().skip(start_idx).step_by(2)\<close>\<close>

fun step_by2 :: "'a list \<Rightarrow> 'a list" where
  "step_by2 (x # y # xs) = x # step_by2 xs"
| "step_by2 xs = xs"

definition parse_numrange :: "bytes \<Rightarrow> int \<Rightarrow> error + int list" where
  "parse_numrange rng mx =
     (let rng = until_nul rng;
          suffix =
            (case position_of 0x3A rng of
               None \<Rightarrow> Inr (length rng, 1, 0)
             | Some colon \<Rightarrow>
                 if drop colon rng = str '':odd'' then Inr (colon, 2, 0)
                 else if drop colon rng = str '':even'' then Inr (colon, 2, 1)
                 else Inl (numrange_error rng colon (str ''expected :even or :odd'')))
      in case suffix of
           Inl e \<Rightarrow> Inl e
         | Inr (range_end, skip, start_idx :: nat) \<Rightarrow>
             map_sum id (\<lambda>result. if skip = (1 :: nat) then result else step_by2 (drop start_idx result))
               (map_sum id (\<lambda>(result, last_group). result @ last_group)
                 (numrange_loop rng range_end mx 0 True ([], []))))"

section \<open>Pages stay in bounds\<close>

lemma check_numrange_bounds: "check_numrange_value input offset v mx = Inr p \<Longrightarrow> 0 < mx \<Longrightarrow> 1 \<le> p \<and> p \<le> mx"
  by (auto simp: check_numrange_value_def split: if_splits)

lemma parse_numrange_integer_bounds:
  "parse_numrange_integer rng offset e mx = Inr p \<Longrightarrow> 0 < mx \<Longrightarrow> 1 \<le> p \<and> p \<le> mx"
  by (auto simp: parse_numrange_integer_def Let_def split: if_splits sum.splits dest!: check_numrange_bounds)

lemma populate_between:
  "p \<in> set (populate_numrange_group a span b) \<Longrightarrow> p = a \<or> span \<and> min a b \<le> p \<and> p \<le> max a b"
  by (auto simp: populate_numrange_group_def split: if_splits)

definition pages_in :: "int \<Rightarrow> int list \<times> int list \<Rightarrow> bool" where
  "pages_in mx st \<longleftrightarrow> (\<forall>p \<in> set (fst st) \<union> set (snd st). 1 \<le> p \<and> p \<le> mx)"

lemma numrange_step_bounds:
  assumes "numrange_step rng cursor mx first grp st = Inr st'" "0 < mx" "pages_in mx st"
  shows "pages_in mx st'"
proof -
  obtain result last_group where st: "st = (result, last_group)" by (cases st)
  have work: "\<forall>p \<in> set (populate_numrange_group a (b \<noteq> None) (case b of Some l \<Rightarrow> l | None \<Rightarrow> 0)). 1 \<le> p \<and> p \<le> mx"
    if "1 \<le> a \<and> a \<le> mx" "\<forall>l. b = Some l \<longrightarrow> 1 \<le> l \<and> l \<le> mx" for a :: int and b
    using that by (auto dest!: populate_between split: option.splits)
  show ?thesis
    using assms unfolding st numrange_step_def
    by (auto simp: pages_in_def Let_def map_sum_def split: option.splits if_splits sum.splits
        dest!: parse_numrange_integer_bounds work [rule_format, rotated 2])
      (auto dest!: populate_between)
qed

lemma numrange_loop_bounds:
  "numrange_loop rng range_end mx cursor first st = Inr st' \<Longrightarrow> 0 < mx \<Longrightarrow> pages_in mx st \<Longrightarrow> pages_in mx st'"
proof (induction rng range_end mx cursor first st arbitrary: st' rule: numrange_loop.induct)
  case (1 rng range_end mx cursor first st)
  note IH = "1.IH" and prems = "1.prems"
  show ?case
  proof (cases "cursor \<ge> range_end")
    case True
    then show ?thesis using prems by (simp add: numrange_loop.simps)
  next
    case False
    let ?ge = "group_end rng range_end cursor"
    obtain u where u: "numrange_step rng cursor mx first (slice_of rng cursor ?ge) st = Inr u"
      using prems(1) False by (subst (asm) numrange_loop.simps) (auto simp: Let_def split: sum.splits)
    have inv: "pages_in mx u" by (rule numrange_step_bounds [OF u prems(2,3)])
    from prems(1) u consider
      (comma) "?ge < range_end \<and> get_at rng ?ge = Some 0x2C" "?ge + 1 \<noteq> range_end"
        "numrange_loop rng range_end mx (?ge + 1) False u = Inr st'"
      | (plain) "\<not> (?ge < range_end \<and> get_at rng ?ge = Some 0x2C)"
        "numrange_loop rng range_end mx ?ge False u = Inr st'"
      unfolding numrange_loop_unfold [OF False] by (auto split: if_splits)
    then show ?thesis
      using IH(1) [OF False refl u _ _ _ prems(2) inv] IH(2) [OF False refl u _ _ prems(2) inv] by cases blast+
  qed
qed

lemma set_step_by2: "set (step_by2 xs) \<subseteq> set xs"
  by (induction xs rule: step_by2.induct) auto

lemma parse_numrange_page_bounds:
  assumes "parse_numrange rng mx = Inr pages" "0 < mx" "p \<in> set pages"
  shows "1 \<le> p \<and> p \<le> mx"
proof -
  have loop: "\<forall>p \<in> set (result @ last_group). 1 \<le> p \<and> p \<le> mx"
    if "numrange_loop (until_nul rng) range_end mx 0 True ([], []) = Inr (result, last_group)" for range_end result last_group
    using numrange_loop_bounds [OF that assms(2)] by (auto simp: pages_in_def)
  show ?thesis
    using assms(1,3)
    by (auto simp: parse_numrange_def Let_def map_sum_def split: option.splits if_splits sum.splits
        dest!: loop subsetD [OF set_step_by2] in_set_dropD)
qed



section \<open>Syntax-only validation\<close>

lemma check_numrange_syntax [simp]: "check_numrange_value input offset v 0 = Inr v"
  by (simp add: check_numrange_value_def)

lemma parse_numrange_integer_syntax:
  "parse_numrange_integer rng offset e mx = Inr v \<Longrightarrow> \<exists>v'. parse_numrange_integer rng offset e 0 = Inr v'"
  by (auto simp: parse_numrange_integer_def Let_def split: if_splits sum.splits)

lemma numrange_step_syntax:
  assumes "numrange_step rng cursor mx first grp st = Inr u"
  shows "\<exists>u'. numrange_step rng cursor 0 first grp st0 = Inr u'"
proof -
  from assms obtain g v where g: "capture_numrange_group grp = Some g" "\<not> (first \<and> ng_is_exclude g)"
    "parse_numrange_integer rng cursor (ng_first g) mx = Inr v"
    "ng_last g = None \<or> (\<exists>l w. ng_last g = Some l \<and> parse_numrange_integer rng cursor l mx = Inr w)"
    by (cases st) (auto simp: numrange_step_def map_sum_def split: option.splits if_splits sum.splits)
  obtain v' where v': "parse_numrange_integer rng cursor (ng_first g) 0 = Inr v'"
    using parse_numrange_integer_syntax [OF g(3)] by blast
  have "\<exists>w'. (case ng_last g of None \<Rightarrow> Inr None
      | Some l \<Rightarrow> map_sum id Some (parse_numrange_integer rng cursor l 0)) = Inr w'"
    using g(4) parse_numrange_integer_syntax [of rng cursor _ mx] by fastforce
  then show ?thesis
    using g(1,2) v' by (cases st0) (auto simp: numrange_step_def Let_def)
qed

lemma numrange_loop_syntax:
  "numrange_loop rng range_end mx cursor first st = Inr u \<Longrightarrow>
   \<exists>u'. numrange_loop rng range_end 0 cursor first st0 = Inr u'"
proof (induction rng range_end mx cursor first st arbitrary: u st0 rule: numrange_loop.induct)
  case (1 rng range_end mx cursor first st)
  show ?case
  proof (cases "cursor \<ge> range_end")
    case True
    then show ?thesis by (simp add: numrange_loop_end)
  next
    case False
    let ?ge = "group_end rng range_end cursor"
    from "1.prems" obtain v where v: "numrange_step rng cursor mx first (slice_of rng cursor ?ge) st = Inr v"
      unfolding numrange_loop_unfold [OF False] by (auto split: sum.splits)
    obtain v' where v': "numrange_step rng cursor 0 first (slice_of rng cursor ?ge) st0 = Inr v'"
      using numrange_step_syntax [OF v] by blast
    from "1.prems" v consider
      (comma) "?ge < range_end \<and> get_at rng ?ge = Some 0x2C" "?ge + 1 \<noteq> range_end"
        "numrange_loop rng range_end mx (?ge + 1) False v = Inr u"
      | (plain) "\<not> (?ge < range_end \<and> get_at rng ?ge = Some 0x2C)"
        "numrange_loop rng range_end mx ?ge False v = Inr u"
      unfolding numrange_loop_unfold [OF False] by (auto split: if_splits)
    then show ?thesis
    proof cases
      case comma
      then show ?thesis
        using "1.IH"(1) [OF False refl v comma(1,2,3), of v'] v'
        unfolding numrange_loop_unfold [OF False] by simp
    next
      case plain
      then show ?thesis
        using "1.IH"(2) [OF False refl v plain(1,2), of v'] v'
        unfolding numrange_loop_unfold [OF False] by (auto simp del: split_paired_Ex)
    qed
  qed
qed

lemma parse_numrange_syntax:
  assumes "parse_numrange rng mx = Inr pages"
  shows "\<exists>pages'. parse_numrange rng 0 = Inr pages'"
proof -
  have loop: "\<exists>u'. numrange_loop r e 0 0 True ([], []) = Inr u'"
    if "numrange_loop r e mx 0 True ([], []) = Inr u" for r e u
    by (rule numrange_loop_syntax [OF that])
  show ?thesis
    using assms
    by (auto simp: parse_numrange_def Let_def map_sum_def split: option.splits if_splits sum.splits dest!: loop)
qed

section \<open>The meaning of a range\<close>

text \<open>Ranges as they are meant: the groups, and a choice of positions.\<close>

datatype endpoint = LastPage | PageNum nat | FromEnd nat

type_synonym page_group = "bool \<times> endpoint \<times> endpoint option"

datatype positions = AllPositions | OddPositions | EvenPositions

fun render_endpoint :: "endpoint \<Rightarrow> bytes" where
  "render_endpoint LastPage = [0x7A]"
| "render_endpoint (PageNum n) = decimal n"
| "render_endpoint (FromEnd n) = 0x72 # decimal n"

fun render_group :: "page_group \<Rightarrow> bytes" where
  "render_group (x, a, b) =
     (if x then [0x78] else []) @ render_endpoint a @
     (case b of None \<Rightarrow> [] | Some b \<Rightarrow> 0x2D # render_endpoint b)"

fun render_groups :: "page_group list \<Rightarrow> bytes" where
  "render_groups [] = []"
| "render_groups [g] = render_group g"
| "render_groups (g # gs) = render_group g @ 0x2C # render_groups gs"

fun render_positions :: "positions \<Rightarrow> bytes" where
  "render_positions AllPositions = []"
| "render_positions OddPositions = str '':odd''"
| "render_positions EvenPositions = str '':even''"

fun endpoint_page :: "int \<Rightarrow> endpoint \<Rightarrow> int" where
  "endpoint_page mx LastPage = mx"
| "endpoint_page mx (PageNum n) = int n"
| "endpoint_page mx (FromEnd n) = mx + 1 - int n"

text \<open>A single page, or a run upwards or downwards.\<close>

fun group_pages :: "int \<Rightarrow> page_group \<Rightarrow> int list" where
  "group_pages mx (x, a, None) = [endpoint_page mx a]"
| "group_pages mx (x, a, Some b) =
     (let i = endpoint_page mx a; j = endpoint_page mx b in if i \<le> j then [i..j] else rev [j..i])"

fun collect_groups :: "int \<Rightarrow> int list \<times> int list \<Rightarrow> page_group list \<Rightarrow> int list" where
  "collect_groups mx (result, last_group) [] = result @ last_group"
| "collect_groups mx (result, last_group) (g # gs) =
     (if fst g then collect_groups mx (result, filter (\<lambda>n. n \<notin> set (group_pages mx g)) last_group) gs
      else collect_groups mx (result @ last_group, group_pages mx g) gs)"

fun choose_positions :: "positions \<Rightarrow> 'a list \<Rightarrow> 'a list" where
  "choose_positions AllPositions xs = xs"
| "choose_positions OddPositions xs = map ((!) xs) (filter even [0..<length xs])"
| "choose_positions EvenPositions xs = map ((!) xs) (filter odd [0..<length xs])"

definition endpoint_ok :: "int \<Rightarrow> endpoint \<Rightarrow> bool" where
  "endpoint_ok mx e \<longleftrightarrow> 1 \<le> endpoint_page mx e \<and> endpoint_page mx e \<le> mx"

definition group_ok :: "int \<Rightarrow> page_group \<Rightarrow> bool" where
  "group_ok mx g \<longleftrightarrow> endpoint_ok mx (fst (snd g)) \<and>
     (case snd (snd g) of None \<Rightarrow> True | Some b \<Rightarrow> endpoint_ok mx b)"

lemma step_by2_even: "step_by2 xs = map ((!) xs) (filter even [0..<length xs])"
proof (induction xs rule: step_by2.induct)
  case (1 x y xs)
  have "filter even [0..<length (x # y # xs)] = 0 # map (\<lambda>i. i + 2) (filter even [0..<length xs])"
  proof -
    have "[0..<length (x # y # xs)] = 0 # 1 # map (\<lambda>i. i + 2) [0..<length xs]"
      unfolding map_add_upt by (simp add: upt_conv_Cons numeral_2_eq_2 del: upt_Suc)
    then show ?thesis by (simp add: filter_map o_def)
  qed
  then show ?case using 1 by simp
qed simp_all

lemma step_by2_odd: "step_by2 (drop 1 xs) = map ((!) xs) (filter odd [0..<length xs])"
proof (cases xs)
  case (Cons x ys)
  have "[0..<length (x # ys)] = 0 # map Suc [0..<length ys]" by (simp add: upt_conv_Cons map_Suc_upt del: upt_Suc)
  then show ?thesis using Cons by (simp add: step_by2_even filter_map o_def)
qed simp

text \<open>Rendered endpoints are captured and converted as they are meant.\<close>

lemma decimal_all: "b \<in> set (decimal n) \<Longrightarrow> is_ascii_digit b"
  using decimal_digits [of n] by (simp add: list_all_iff)

lemma decimal_nonempty [simp]: "decimal n \<noteq> []"
  using decimal_digits [of n] by simp

lemma digit_distinct:
  "is_ascii_digit b \<Longrightarrow> b \<noteq> 0 \<and> b \<noteq> 0x2C \<and> b \<noteq> 0x2D \<and> b \<noteq> 0x2B \<and> b \<noteq> 0x3A \<and> b \<noteq> 0x72 \<and> b \<noteq> 0x78 \<and> b \<noteq> 0x7A \<and>
   \<not> is_strtoll_space b \<and> b < 0x80"
  by (auto simp: is_ascii_digit_def is_strtoll_space_def word_le_iff_unat word_less_iff_unat)

lemma decimal_Cons: obtains d ds where "decimal n = d # ds" "is_ascii_digit d"
  using decimal_all [of "hd (decimal n)" n] by (cases "decimal n") auto

lemma parse_int_run:
  assumes "list_all is_ascii_digit ds" "ds \<noteq> []" "lo \<le> 0" "0 \<le> hi"
  shows "parse_int lo hi ds = (if digits_value ds \<le> hi then Inr (digits_value ds) else Inl PosOverflow)"
proof -
  obtain d ds' where d: "ds = d # ds'" "is_ascii_digit d" using assms(1,2) by (cases ds) auto
  then have "parse_int lo hi ds = parse_digits lo hi False 0 ds"
    using digit_not_sign [OF d(2)] by (simp add: parse_int_def)
  then show ?thesis using parse_digits_pos [OF assms(1), of 0 hi lo] assms(3,4) by (simp add: Let_def)
qed

lemma string_to_int_run:
  assumes "list_all is_strtoll_space ws" "sign \<in> {[], [0x2B], [0x2D]}" "list_all is_ascii_digit ds" "ds \<noteq> []"
    "rest = [] \<or> \<not> is_ascii_digit (hd rest)"
  defines "v \<equiv> if sign = [0x2D] then - digits_value ds else digits_value ds"
  shows "if - (2 ^ 31) \<le> v \<and> v < 2 ^ 31 then qpdf_string_to_int_checked (ws @ sign @ ds @ rest) = Value v
    else \<exists>m. qpdf_string_to_int_checked (ws @ sign @ ds @ rest) = Overflow m"
proof -
  let ?text = "ws @ sign @ ds @ until_nul rest"
  obtain d ds' where d: "ds = d # ds'" "is_ascii_digit d" using assms(3,4) by (cases ds) auto
  have nz: "b \<noteq> 0" if "b \<in> set (ws @ sign @ ds)" for b
    using that assms(1-3) digit_distinct by (auto simp: list_all_iff is_strtoll_space_def)
  have nul: "until_nul (ws @ sign @ ds @ rest) = ?text"
    unfolding until_nul_def using takeWhile_append2 [of "ws @ sign @ ds" "\<lambda>b. b \<noteq> 0" rest] nz by simp
  have rest: "takeWhile is_ascii_digit (ds @ until_nul rest) = ds"
  proof -
    have "takeWhile is_ascii_digit (until_nul rest) = []"
      using assms(5) by (cases rest) (auto simp: until_nul_def)
    then show ?thesis using assms(3) by (simp add: list_all_iff takeWhile_append2)
  qed
  have space: "dropWhile is_strtoll_space ?text = sign @ ds @ until_nul rest"
  proof -
    have "\<not> is_strtoll_space (hd (sign @ ds @ until_nul rest))"
      using assms(2) d digit_distinct [OF d(2)] by (auto simp: is_strtoll_space_def)
    then have "dropWhile is_strtoll_space (sign @ ds @ until_nul rest) = sign @ ds @ until_nul rest"
      using d by (cases "sign @ ds @ until_nul rest") auto
    then show ?thesis using assms(1) dropWhile_append2 [of ws is_strtoll_space] by (simp add: list_all_iff)
  qed
  have sign: "(case sign @ ds @ until_nul rest of
        b # bs \<Rightarrow> if b = 0x2D then (True, bs) else if b = 0x2B then (False, bs) else (False, sign @ ds @ until_nul rest)
      | [] \<Rightarrow> (False, sign @ ds @ until_nul rest)) = (sign = [0x2D], ds @ until_nul rest)"
    using assms(2) d digit_distinct [OF d(2)] by auto
  have parse: "parse_int 0 (2 ^ 128 - 1) ds =
      (if digits_value ds \<le> 2 ^ 128 - 1 then Inr (digits_value ds) else Inl PosOverflow)"
    by (rule parse_int_run) (use assms(3,4) in simp_all)
  note nonneg = digits_value_nonneg [of ds]
  have "if - (2 ^ 63) \<le> v \<and> v < 2 ^ 63 then qpdf_string_to_ll_checked (ws @ sign @ ds @ rest) = Value v
      else \<exists>m. qpdf_string_to_ll_checked (ws @ sign @ ds @ rest) = Overflow m"
    unfolding qpdf_string_to_ll_checked_def nul Let_def space sign prod.case rest parse v_def ll_overflow_def
    using assms(4) nonneg by (auto simp: min_def)
  then show ?thesis
    by (auto simp: qpdf_string_to_int_checked_def qpdf_i64_to_int_checked_def split: if_splits)
qed

text \<open>
  C36: the conversion skips white space, takes one sign and the digits up to the first other byte, and
  gives their value whenever it fits an \<open>i32\<close>; otherwise, however long the digits, it is an overflow, also
  where the wider integers on the way are clamped.
\<close>

theorem string_to_int_value:
  assumes "list_all is_strtoll_space ws" "sign \<in> {[], [0x2B], [0x2D]}" "list_all is_ascii_digit ds" "ds \<noteq> []"
    "rest = [] \<or> \<not> is_ascii_digit (hd rest)"
  shows "(let v = if sign = [0x2D] then - digits_value ds else digits_value ds
     in if - (2 ^ 31) \<le> v \<and> v < 2 ^ 31 then qpdf_string_to_int_checked (ws @ sign @ ds @ rest) = Value v
        else \<exists>m. qpdf_string_to_int_checked (ws @ sign @ ds @ rest) = Overflow m)"
  using string_to_int_run [OF assms] by (simp only: Let_def)

theorem string_to_int_value_witness:
  "qpdf_string_to_int_checked ([0x20] @ [0x2D] @ [0x32, 0x31, 0x34, 0x37, 0x34, 0x38, 0x33, 0x36, 0x34, 0x38] @ [0x78]) =
     Value (- 2147483648)"
  using string_to_int_value [of "[0x20]" "[0x2D]" "[0x32, 0x31, 0x34, 0x37, 0x34, 0x38, 0x33, 0x36, 0x34, 0x38]" "[0x78]"]
  by (simp add: is_strtoll_space_def is_ascii_digit_def Let_def)

lemma string_to_int_decimal: "n < 2 ^ 31 \<Longrightarrow> qpdf_string_to_int_checked (decimal n) = Value (int n)"
  using string_to_int_run [of "[]" "[]" "decimal n" "[]"] decimal_digits [of n] by simp

lemma get_at_append [simp]: "get_at (xs @ y # ys) (length xs) = Some y"
  by (simp add: get_at_def)

lemma get_at_end [simp]: "get_at xs (length xs) = None"
  by (simp add: get_at_def)

lemma slice_of_middle [simp]: "slice_of (xs @ ys @ zs) (length xs) (length xs + length ys) = ys"
  by (simp add: slice_of_def)

lemma capture_decimal:
  assumes "post = [] \<or> \<not> is_ascii_digit (hd post)"
  shows "takeWhile is_ascii_digit (decimal n @ post) = decimal n"
proof -
  have "takeWhile is_ascii_digit (decimal n @ post) = decimal n @ takeWhile is_ascii_digit post"
    by (rule takeWhile_append2) (rule decimal_all)
  moreover have "takeWhile is_ascii_digit post = []" using assms by (cases post) auto
  ultimately show ?thesis by simp
qed

lemma capture_endpoint:
  assumes "post = [] \<or> \<not> is_ascii_digit (hd post)"
  shows "capture_numrange_endpoint (pre @ render_endpoint e @ post) (length pre) =
    Some (length pre + length (render_endpoint e))"
proof (cases e)
  case LastPage
  then show ?thesis by (simp add: capture_numrange_endpoint_def)
next
  case (PageNum n)
  obtain d ds where d: "decimal n = d # ds" "is_ascii_digit d" by (rule decimal_Cons)
  then have "get_at (pre @ decimal n @ post) (length pre) = Some d" by simp
  then show ?thesis
    using PageNum digit_distinct [OF d(2)] capture_decimal [OF assms, of n]
    by (simp add: capture_numrange_endpoint_def Let_def)
next
  case (FromEnd n)
  then show ?thesis
    using capture_decimal [OF assms, of n] by (simp add: capture_numrange_endpoint_def Let_def)
qed

lemma hd_endpoint: "render_endpoint e \<noteq> [] \<and> hd (render_endpoint e) \<noteq> 0x78"
proof (cases e)
  case (PageNum n)
  then show ?thesis
    using digit_distinct [OF decimal_all [OF hd_in_set [OF decimal_nonempty [of n]]]] by simp
qed simp_all

lemma capture_group:
  "capture_numrange_group (render_group (x, a, b)) =
     Some \<lparr>ng_is_exclude = x, ng_first = render_endpoint a, ng_last = map_option render_endpoint b\<rparr>"
proof -
  let ?pre = "if x then [0x78] else [] :: bytes"
  let ?post = "case b of None \<Rightarrow> [] | Some b \<Rightarrow> 0x2D # render_endpoint b"
  have len: "length ?pre = of_bool x" by simp
  have x: "(get_at (render_group (x, a, b)) 0 = Some 0x78) = x"
    using hd_endpoint [of a] by (cases "render_endpoint a") (auto simp: get_at_def)
  have post: "?post = [] \<or> \<not> is_ascii_digit (hd ?post)"
    by (auto simp: is_ascii_digit_def word_le_iff_unat split: option.splits)
  have first: "capture_numrange_endpoint (render_group (x, a, b)) (of_bool x) =
      Some (of_bool x + length (render_endpoint a))"
    using capture_endpoint [OF post, of ?pre a] unfolding len by simp
  have slice: "slice_of (render_group (x, a, b)) (of_bool x) (of_bool x + length (render_endpoint a)) = render_endpoint a"
    using slice_of_middle [of ?pre "render_endpoint a" ?post] unfolding len by simp
  show ?thesis
  proof (cases b)
    case None
    have len: "length (render_group (x, a, b)) = of_bool x + length (render_endpoint a)" using None by simp
    have "get_at (render_group (x, a, b)) (of_bool x + length (render_endpoint a)) = None"
      unfolding len [symmetric] by (rule get_at_end)
    then show ?thesis
      unfolding capture_numrange_group_def Let_def x first option.case slice using len None by simp
  next
    case (Some e)
    let ?pos = "of_bool x + length (render_endpoint a)"
    have pre2: "length (?pre @ render_endpoint a @ [0x2D]) = ?pos + 1" by simp
    have eq: "render_group (x, a, b) = (?pre @ render_endpoint a @ [0x2D]) @ render_endpoint e @ []"
      using Some by simp
    have second: "capture_numrange_endpoint (render_group (x, a, b)) (?pos + 1) =
        Some (?pos + 1 + length (render_endpoint e))"
      unfolding eq using capture_endpoint [of "[]" "?pre @ render_endpoint a @ [0x2D]" e] unfolding pre2 by simp
    have slice2: "slice_of (render_group (x, a, b)) (?pos + 1) (?pos + 1 + length (render_endpoint e)) = render_endpoint e"
      unfolding eq using slice_of_middle [of "?pre @ render_endpoint a @ [0x2D]" "render_endpoint e" "[]"] unfolding pre2 by simp
    have len2: "length (render_group (x, a, b)) = ?pos + 1 + length (render_endpoint e)" unfolding eq by simp
    have "length (?pre @ render_endpoint a) = ?pos" by simp
    then have "get_at (render_group (x, a, b)) ?pos = Some 0x2D"
      using get_at_append [of "?pre @ render_endpoint a" "0x2D" "render_endpoint e"] Some by simp
    then show ?thesis
      unfolding capture_numrange_group_def Let_def x first option.case slice using second slice2 len2 Some by simp
  qed
qed

lemma wrap_i32_id: "- (2 ^ 31) \<le> i \<Longrightarrow> i < 2 ^ 31 \<Longrightarrow> wrap_i32 i = i"
  by (simp add: wrap_i32_def)

lemma parse_endpoint:
  assumes "endpoint_ok mx e" "0 < mx" "mx < 2 ^ 31"
  shows "parse_numrange_integer rng offset (render_endpoint e) mx = Inr (endpoint_page mx e)"
proof -
  have check: "check_numrange_value rng offset (endpoint_page mx e) mx = Inr (endpoint_page mx e)"
    using assms by (simp add: check_numrange_value_def endpoint_ok_def)
  have ascii: "valid_utf8 (decimal n)" for n
    by (rule valid_utf8_ascii) (auto simp: list_all_iff dest!: decimal_all digit_distinct)
  show ?thesis
  proof (cases e)
    case LastPage
    then show ?thesis using check by (simp add: parse_numrange_integer_def)
  next
    case (PageNum n)
    obtain d ds where d: "decimal n = d # ds" "is_ascii_digit d" by (rule decimal_Cons)
    have "get_at (decimal n) 0 \<noteq> Some 0x72" "decimal n \<noteq> [0x7A]"
      using d digit_distinct [OF d(2)] by (auto simp: get_at_def)
    moreover have "n < 2 ^ 31" using assms PageNum by (simp add: endpoint_ok_def)
    ultimately show ?thesis
      using PageNum check ascii [of n] string_to_int_decimal [of n] by (simp add: parse_numrange_integer_def)
  next
    case (FromEnd n)
    have n: "n < 2 ^ 31" "int n \<le> mx" "1 \<le> n"
      using assms FromEnd by (auto simp: endpoint_ok_def)
    have wrap: "wrap_i32 (wrap_i32 (mx + 1) - int n) = mx + 1 - int n"
    proof (cases "mx + 1 < 2 ^ 31")
      case True
      then show ?thesis using n assms(2) by (simp add: wrap_i32_id)
    next
      case False
      then have "mx = 2 ^ 31 - 1" using assms(3) by simp
      have "(- int n) mod 4294967296 = (- int n + 4294967296) mod 4294967296" by simp
      also have "\<dots> = - int n + 4294967296" using n \<open>mx = _\<close> by (intro mod_pos_pos_trivial) simp_all
      finally show ?thesis using n \<open>mx = _\<close> by (simp add: wrap_i32_def)
    qed
    have "get_at (0x72 # decimal n) 0 = Some 0x72" by (simp add: get_at_def)
    then show ?thesis
      using FromEnd check ascii [of n] string_to_int_decimal [OF n(1)] wrap by (simp add: parse_numrange_integer_def)
  qed
qed

lemma populate_group:
  "populate_numrange_group (endpoint_page mx a) (b \<noteq> None) (case b of Some e \<Rightarrow> endpoint_page mx e | None \<Rightarrow> 0) =
     group_pages mx (x, a, b)"
proof (cases b)
  case (Some e)
  let ?i = "endpoint_page mx a" and ?j = "endpoint_page mx e"
  have "?i \<le> ?j \<Longrightarrow> [?i..?j] = ?i # [?i + 1..?j]" by (rule upto_rec1)
  moreover have "?j < ?i \<Longrightarrow> [?j..?i] = [?j..?i - 1] @ [?i]" by (rule upto_rec2) simp
  ultimately show ?thesis using Some by (auto simp: populate_numrange_group_def Let_def)
qed (simp add: populate_numrange_group_def)

text \<open>One group of a range, then the groups one after the other.\<close>

lemma numrange_step_group:
  assumes "group_ok mx g" "0 < mx" "mx < 2 ^ 31" "\<not> (first \<and> fst g)"
  shows "numrange_step rng cursor mx first (render_group g) (result, last_group) =
    Inr (if fst g then (result, filter (\<lambda>n. n \<notin> set (group_pages mx g)) last_group)
         else (result @ last_group, group_pages mx g))"
proof -
  obtain x a b where g: "g = (x, a, b)" by (cases g)
  have a: "parse_numrange_integer rng cursor (render_endpoint a) mx = Inr (endpoint_page mx a)"
    using parse_endpoint [of mx a] assms unfolding g by (simp add: group_ok_def)
  have b: "(case map_option render_endpoint b of None \<Rightarrow> Inr None
      | Some l \<Rightarrow> map_sum id Some (parse_numrange_integer rng cursor l mx)) = Inr (map_option (endpoint_page mx) b)"
    using parse_endpoint [of mx] assms unfolding g by (cases b) (simp_all add: group_ok_def)
  have work: "populate_numrange_group (endpoint_page mx a) (map_option (endpoint_page mx) b \<noteq> None)
      (case map_option (endpoint_page mx) b of Some l \<Rightarrow> l | None \<Rightarrow> 0) = group_pages mx g"
    using populate_group [of mx a b x] unfolding g by (cases b) simp_all
  show ?thesis
    using assms(4) unfolding numrange_step_def g capture_group
    by (simp only: prod.case option.case numrange_group.simps a b sum.case Let_def work [unfolded g]) simp
qed

lemma render_group_bytes: "b \<in> set (render_group g) \<Longrightarrow> b \<noteq> 0 \<and> b \<noteq> 0x2C \<and> b \<noteq> 0x3A"
proof -
  have e: "b \<in> set (render_endpoint e) \<Longrightarrow> b \<noteq> 0 \<and> b \<noteq> 0x2C \<and> b \<noteq> 0x3A" for e
    by (cases e) (auto dest!: decimal_all digit_distinct)
  obtain x a c where "g = (x, a, c)" by (cases g)
  then show "b \<in> set (render_group g) \<Longrightarrow> ?thesis" using e by (auto split: if_splits option.splits)
qed

lemma render_group_nonempty [simp]: "render_group g \<noteq> []"
  using hd_endpoint by (cases g) auto

lemma render_groups_nonempty: "gs \<noteq> [] \<Longrightarrow> render_groups gs \<noteq> []"
  by (cases gs rule: render_groups.cases) auto

lemma position_of_none: "x \<notin> set xs \<Longrightarrow> position_of x xs = None"
proof -
  assume "x \<notin> set xs"
  then have "takeWhile (\<lambda>y. y \<noteq> x) xs = xs" by (auto simp: takeWhile_eq_all_conv)
  then show ?thesis unfolding position_of_def Let_def by (simp only: less_irrefl if_False)
qed

lemma position_of_first: "x \<notin> set xs \<Longrightarrow> position_of x (xs @ x # ys) = Some (length xs)"
proof -
  assume "x \<notin> set xs"
  then have "takeWhile (\<lambda>y. y \<noteq> x) (xs @ x # ys) = xs @ takeWhile (\<lambda>y. y \<noteq> x) (x # ys)"
    by (intro takeWhile_append2) auto
  then show ?thesis by (simp add: position_of_def Let_def)
qed

lemma slice_of_drop_take: "slice_of xs i j = drop i (take j xs)"
  by (simp add: slice_of_def drop_take)

lemma numrange_loop_groups:
  assumes "slice_of rng cursor range_end = render_groups gs" "cursor \<le> range_end" "range_end \<le> length rng"
    "gs \<noteq> []" "\<forall>g \<in> set gs. group_ok mx g" "0 < mx" "mx < 2 ^ 31" "\<not> (first \<and> fst (hd gs))"
  shows "\<exists>st. numrange_loop rng range_end mx cursor first (result, last_group) = Inr st \<and>
    fst st @ snd st = collect_groups mx (result, last_group) gs"
  using assms
proof (induction gs arbitrary: cursor first result last_group rule: render_groups.induct)
  case 1
  then show ?case by simp
next
  case (2 g)
  have len: "range_end = cursor + length (render_group g)"
    using arg_cong [OF "2.prems"(1), of length] "2.prems"(2,3) by (simp add: slice_of_def)
  have ge: "group_end rng range_end cursor = range_end"
  proof -
    have "0x2C \<notin> set (render_group g)" using render_group_bytes by blast
    then show ?thesis by (simp add: group_end_def "2.prems"(1) position_of_none)
  qed
  have lt: "\<not> cursor \<ge> range_end" using len by (simp add: not_le)
  have "numrange_loop rng range_end mx cursor first (result, last_group) =
      Inr (if fst g then (result, filter (\<lambda>n. n \<notin> set (group_pages mx g)) last_group)
           else (result @ last_group, group_pages mx g))"
    unfolding numrange_loop_unfold [OF lt] ge "2.prems"(1) render_groups.simps
    using numrange_step_group [of mx g first rng cursor result last_group] "2.prems"(5-8)
    by (simp add: numrange_loop_end)
  then show ?case by auto
next
  case (3 g g' gs)
  let ?rest = "render_groups (g' # gs)" and ?ge = "cursor + length (render_group g)"
  have slice: "slice_of rng cursor range_end = render_group g @ 0x2C # ?rest" using "3.prems"(1) by simp
  have len: "range_end = cursor + length (render_group g) + 1 + length ?rest"
    using arg_cong [OF slice, of length] "3.prems"(2,3) by (simp add: slice_of_def)
  have lt: "\<not> cursor \<ge> range_end" using len by simp
  have ge: "group_end rng range_end cursor = ?ge"
  proof -
    have "0x2C \<notin> set (render_group g)" using render_group_bytes by blast
    then show ?thesis by (simp add: group_end_def slice position_of_first)
  qed
  have tail: "drop cursor (take range_end rng) = render_group g @ 0x2C # ?rest"
    using slice by (simp add: slice_of_drop_take)
  have "slice_of rng cursor ?ge = take (length (render_group g)) (drop cursor (take range_end rng))"
    using len by (simp add: slice_of_def drop_take min_def)
  then have s: "slice_of rng cursor ?ge = render_group g" unfolding tail by simp
  have "rng ! ?ge = drop cursor (take range_end rng) ! length (render_group g)"
    using len "3.prems"(3) by (subst nth_drop) simp_all
  then have comma: "get_at rng ?ge = Some 0x2C"
    using len "3.prems"(3) unfolding tail by (simp add: get_at_def nth_append)
  have rest: "slice_of rng (?ge + 1) range_end = ?rest"
  proof -
    have "drop (?ge + 1) (take range_end rng) = drop (length (render_group g) + 1) (drop cursor (take range_end rng))"
      by (simp add: add.commute add.left_commute)
    then show ?thesis unfolding slice_of_drop_take tail by simp
  qed
  have ne: "?ge < range_end" "?ge + 1 \<noteq> range_end"
    using len render_groups_nonempty [of "g' # gs"] by (simp_all del: render_groups.simps)
  let ?st = "if fst g then (result, filter (\<lambda>n. n \<notin> set (group_pages mx g)) last_group)
             else (result @ last_group, group_pages mx g)"
  have step: "numrange_loop rng range_end mx cursor first (result, last_group) =
      numrange_loop rng range_end mx (?ge + 1) False ?st"
    unfolding numrange_loop_unfold [OF lt] ge s
    using numrange_step_group [of mx g first rng cursor result last_group] "3.prems"(5-8) comma ne by simp
  have "\<exists>st. numrange_loop rng range_end mx (?ge + 1) False (fst ?st, snd ?st) = Inr st \<and>
      fst st @ snd st = collect_groups mx (fst ?st, snd ?st) (g' # gs)"
    by (rule "3.IH") (use rest len "3.prems"(3,5-7) in simp_all)
  then show ?case unfolding step by (auto split: if_splits)
qed

lemma parse_numrange_means:
  assumes "0 < mx" "mx < 2 ^ 31" "gs \<noteq> []" "\<not> fst (hd gs)" "\<forall>g \<in> set gs. group_ok mx g"
  shows "parse_numrange (render_groups gs @ render_positions pos) mx =
    Inr (choose_positions pos (collect_groups mx ([], []) gs))"
proof -
  let ?g = "render_groups gs" and ?s = "render_positions pos"
  have bytes: "b \<in> set (render_groups gs) \<Longrightarrow> b \<noteq> 0 \<and> b \<noteq> 0x3A" for b gs
    by (induction gs rule: render_groups.induct) (auto dest: render_group_bytes)
  have nul: "until_nul (?g @ ?s) = ?g @ ?s"
    using bytes by (cases pos) (auto simp: until_nul_def takeWhile_eq_all_conv str_def)
  obtain st where st: "numrange_loop (?g @ ?s) (length ?g) mx 0 True ([], []) = Inr st"
    "fst st @ snd st = collect_groups mx ([], []) gs"
    using numrange_loop_groups [of "?g @ ?s" 0 "length ?g" gs mx True "[]" "[]"] assms
    by (auto simp: slice_of_def)
  have colon: "position_of 0x3A (?g @ 0x3A # ys) = Some (length ?g)" "position_of 0x3A ?g = None" for ys
    using bytes by (auto intro!: position_of_first position_of_none)
  have odd_even: "str '':odd'' = 0x3A # str ''odd''" "str '':even'' = 0x3A # str ''even''" "str '':odd'' \<noteq> str '':even''"
    by (simp_all add: str_def)
  show ?thesis
  proof (cases pos)
    case AllPositions
    then show ?thesis using nul st colon by (cases st) (simp add: parse_numrange_def)
  next
    case OddPositions
    then show ?thesis
      using nul st colon(1) [of "str ''odd''"] odd_even by (cases st) (simp add: parse_numrange_def step_by2_even)
  next
    case EvenPositions
    then show ?thesis
      using nul st colon(1) [of "str ''even''"] odd_even step_by2_odd [of "fst st @ snd st"]
      by (cases st) (simp add: parse_numrange_def)
  qed
qed

text \<open>
  C34: \<open>parse_numrange\<close> computes what a range means: for any groups of pages counted from the front or
  from the end, single or as runs up or down, with exclusions from the group before, and with a choice
  of odd or even positions, if the pages exist the text of the range gives exactly those pages.
\<close>

theorem parse_numrange_meaning:
  assumes "0 < mx" "mx < 2 ^ 31" "gs \<noteq> []" "\<not> fst (hd gs)" "\<forall>g \<in> set gs. group_ok mx g"
  shows "parse_numrange (render_groups gs @ render_positions pos) mx =
    Inr (choose_positions pos (collect_groups mx ([], []) gs))"
  using assms by (rule parse_numrange_means)

theorem parse_numrange_meaning_witness:
  "parse_numrange (str ''r2-3,x4,1:even'') 6 = Inr [3]"
proof -
  have eq: "str ''r2-3,x4,1:even'' = render_groups
      [(False, FromEnd 2, Some (PageNum 3)), (True, PageNum 4, None), (False, PageNum 1, None)] @
      render_positions EvenPositions"
    by (simp add: str_def decimal.simps)
  show ?thesis
    unfolding eq
    by (subst parse_numrange_meaning) (simp_all add: group_ok_def endpoint_ok_def upto.simps upt_conv_Cons)
qed

end
