(* ===== verification/Page_Range.thy ===== *)
theory Page_Range
  imports Qutil
begin

text \<open>
  Page selections and rotation parameters of jobs: \<open>crates/flpdf/src/job/page_range.rs\<close> and
  \<open>crates/flpdf/src/job/rotate_spec.rs\<close>, both clients of \<open>parse_numrange\<close>. A \<open>u32\<close> page is a natural
  number with the cast \<open>as u32\<close> written out.
\<close>

section \<open>PageRange\<close>

record page_range =
  pr_raw :: bytes

definition page_range_parse_numrange :: "bytes \<Rightarrow> error + page_range" where
  "page_range_parse_numrange input =
     (case parse_numrange input 0 of Inl e \<Rightarrow> Inl e | Inr pages \<Rightarrow> Inr \<lparr>pr_raw = input\<rparr>)"

definition page_range_all :: page_range where
  "page_range_all = \<lparr>pr_raw = str ''1-z''\<rparr>"

definition page_range_empty :: page_range where
  "page_range_empty = \<lparr>pr_raw = []\<rparr>"

definition as_u32 :: "int \<Rightarrow> nat" where
  "as_u32 i = nat (i mod 2 ^ 32)"

definition page_range_resolve :: "page_range \<Rightarrow> nat \<Rightarrow> error + nat list" where
  "page_range_resolve r page_count =
     (if page_count = 0 then Inl (Parse 0 (str ''page_count must be at least 1''))
      else case qpdf_size_to_int page_count of
        Inl e \<Rightarrow> Inl e
      | Inr mx \<Rightarrow>
          (case parse_numrange (pr_raw r) mx of Inl e \<Rightarrow> Inl e | Inr pages \<Rightarrow> Inr (map as_u32 pages)))"

lemma resolve_pages:
  assumes "page_range_resolve r n = Inr pages"
  shows "\<exists>ps. parse_numrange (pr_raw r) (int n) = Inr ps \<and> pages = map as_u32 ps \<and> 0 < n \<and> n < 2 ^ 31"
  using assms by (auto simp: page_range_resolve_def qpdf_size_to_int_def split: if_splits sum.splits)

lemma as_u32_page: "1 \<le> p \<Longrightarrow> p \<le> int n \<Longrightarrow> n < 2 ^ 31 \<Longrightarrow> int (as_u32 p) = p"
  by (simp add: as_u32_def)

text \<open>
  Resolving a selection gives pages the document has, the cast to \<open>u32\<close> loses nothing, and whatever
  resolves against a page count was accepted by the syntax check before the count was known.
\<close>

lemma page_range_resolve_sound:
  assumes "page_range_resolve r page_count = Inr pages"
  shows "(\<forall>p \<in> set pages. 1 \<le> p \<and> p \<le> page_count) \<and>
    parse_numrange (pr_raw r) (int page_count) = Inr (map int pages) \<and>
    page_range_parse_numrange (pr_raw r) = Inr r"
proof -
  obtain ps where ps: "parse_numrange (pr_raw r) (int page_count) = Inr ps" "pages = map as_u32 ps"
    "0 < page_count" "page_count < 2 ^ 31"
    using resolve_pages [OF assms] by blast
  have bounds: "1 \<le> p \<and> p \<le> int page_count" if "p \<in> set ps" for p
    using parse_numrange_page_bounds [OF ps(1) _ that] ps(3) by simp
  have cast: "int (as_u32 p) = p" if "p \<in> set ps" for p using bounds [OF that] ps(4) by (intro as_u32_page) auto
  have "1 \<le> as_u32 p \<and> as_u32 p \<le> page_count" if "p \<in> set ps" for p using cast [OF that] bounds [OF that] by linarith
  moreover have "map int pages = ps" unfolding ps(2) using cast by (simp add: map_idI)
  moreover have "page_range_parse_numrange (pr_raw r) = Inr r"
    using parse_numrange_syntax [OF ps(1)] by (auto simp: page_range_parse_numrange_def)
  ultimately show ?thesis using ps(1,2) by auto
qed

text \<open>A descending selection resolved against three pages.\<close>

lemma resolve_descending: "page_range_resolve \<lparr>pr_raw = str ''z-1''\<rparr> 3 = Inr [3, 2, 1]"
proof -
  have eq: "str ''z-1'' = render_groups [(False, LastPage, Some (PageNum 1))] @ render_positions AllPositions"
    by (simp add: str_def decimal.simps)
  have "parse_numrange (str ''z-1'') 3 = Inr [3, 2, 1]"
    unfolding eq by (subst parse_numrange_means) (simp_all add: group_ok_def endpoint_ok_def upto.simps)
  then show ?thesis by (simp add: page_range_resolve_def qpdf_size_to_int_def as_u32_def)
qed

theorem page_range_resolve_sound_witness:
  "parse_numrange (str ''z-1'') (int 3) = Inr (map int [3, 2, 1]) \<and>
   page_range_parse_numrange (str ''z-1'') = Inr \<lparr>pr_raw = str ''z-1''\<rparr>"
  by (rule page_range_resolve_sound [OF resolve_descending, unfolded page_range.simps, THEN conjunct2])

text \<open>The default selection is every page in order; the empty one selects none.\<close>

lemma page_range_all_pages:
  assumes "0 < n" "n < 2 ^ 31"
  shows "page_range_resolve page_range_all n = Inr [1..<n + 1]"
proof -
  have eq: "str ''1-z'' = render_groups [(False, PageNum 1, Some LastPage)] @ render_positions AllPositions"
    by (simp add: str_def decimal.simps)
  have "parse_numrange (str ''1-z'') (int n) = Inr [1..int n]"
    unfolding eq by (subst parse_numrange_means) (use assms in \<open>simp_all add: group_ok_def endpoint_ok_def\<close>)
  moreover have "map as_u32 [1..int n] = [1..<n + 1]"
  proof (rule nth_equalityI)
    show "length (map as_u32 [1..int n]) = length [1..<n + 1]" by simp
    show "map as_u32 [1..int n] ! i = [1..<n + 1] ! i" if "i < length (map as_u32 [1..int n])" for i
      using that assms by (simp add: as_u32_def nat_add_distrib del: upt_Suc)
  qed
  ultimately show ?thesis
    using assms by (simp add: page_range_resolve_def page_range_all_def qpdf_size_to_int_def)
qed

lemma page_range_empty_pages:
  "0 < n \<Longrightarrow> n < 2 ^ 31 \<Longrightarrow> page_range_resolve page_range_empty n = Inr []"
  by (simp add: page_range_resolve_def page_range_empty_def qpdf_size_to_int_def parse_numrange_def until_nul_def
      position_of_def numrange_loop_end)

section \<open>Rotation parameters\<close>

record rotation_spec =
  rs_angle :: int
  rs_relative :: bool

record rotation_parameter =
  rp_range :: bytes
  rp_spec :: rotation_spec

definition invalid_rotation_parameter :: "bytes \<Rightarrow> error" where
  "invalid_rotation_parameter parameter = Usage (str ''invalid parameter to rotate: '' @ parameter)"

definition parse_rotation_parts :: "bytes \<Rightarrow> bytes \<Rightarrow> bytes option \<Rightarrow> error + rotation_parameter" where
  "parse_rotation_parts parameter angle_bytes range_bytes =
     (let (angle, relative) =
            (case angle_bytes of
               [] \<Rightarrow> (angle_bytes, False)
             | sign # rest \<Rightarrow>
                 if sign = 0x2B \<or> sign = 0x2D then (rest, True)
                 else if \<not> is_ascii_digit sign then ([], False)
                 else (angle_bytes, False));
          negative = (angle_bytes \<noteq> [] \<and> hd angle_bytes = 0x2D);
          rng = (case range_bytes of Some bytes \<Rightarrow> if bytes \<noteq> [] then bytes else str ''1-z'' | None \<Rightarrow> str ''1-z'')
      in case parse_numrange rng 0 of
           Inl e \<Rightarrow> Inl (invalid_rotation_parameter parameter)
         | Inr pages \<Rightarrow>
             let angle_value =
                   (if angle = str ''0'' then Some 0
                    else if angle = str ''90'' then Some 90
                    else if angle = str ''180'' then Some 180
                    else if angle = str ''270'' then Some 270
                    else None)
             in case angle_value of
                  None \<Rightarrow> Inl (invalid_rotation_parameter parameter)
                | Some v \<Rightarrow>
                    Inr \<lparr>rp_range = rng,
                         rp_spec = \<lparr>rs_angle = (if negative then - v else v), rs_relative = relative\<rparr>\<rparr>)"

definition parse_rotation_parameter :: "bytes \<Rightarrow> error + rotation_parameter" where
  "parse_rotation_parameter parameter =
     (case position_of 0x3A parameter of
        None \<Rightarrow> parse_rotation_parts parameter parameter None
      | Some colon \<Rightarrow>
          let angle = take colon parameter;
              rng = (if colon + 1 < length parameter then drop (colon + 1) parameter else [])
          in parse_rotation_parts parameter angle (Some rng))"

text \<open>The parameters there are: an optional sign, one of four angles, and an optional range.\<close>

datatype rotation_sign = NoSign | Plus | Minus

fun render_sign :: "rotation_sign \<Rightarrow> bytes" where
  "render_sign NoSign = []"
| "render_sign Plus = [0x2B]"
| "render_sign Minus = [0x2D]"

definition rotation_angles :: "nat set" where
  "rotation_angles = {0, 90, 180, 270}"

definition render_rotation :: "rotation_sign \<Rightarrow> nat \<Rightarrow> bytes option \<Rightarrow> bytes" where
  "render_rotation sign angle rng =
     render_sign sign @ decimal angle @ (case rng of None \<Rightarrow> [] | Some r \<Rightarrow> 0x3A # r)"

definition effective_range :: "bytes option \<Rightarrow> bytes" where
  "effective_range rng = (case rng of None \<Rightarrow> str ''1-z'' | Some r \<Rightarrow> if r = [] then str ''1-z'' else r)"

lemma rotation_decimal: "decimal 0 = str ''0''" "decimal 90 = str ''90''" "decimal 180 = str ''180''" "decimal 270 = str ''270''"
  by (simp_all add: decimal.simps str_def)

lemma parse_rotation_split:
  assumes "0x3A \<notin> set a"
  shows "parse_rotation_parameter (a @ (case rng of None \<Rightarrow> [] | Some r \<Rightarrow> 0x3A # r)) =
    parse_rotation_parts (a @ (case rng of None \<Rightarrow> [] | Some r \<Rightarrow> 0x3A # r)) a rng"
  using assms
  by (cases rng) (auto simp: parse_rotation_parameter_def position_of_none position_of_first)

text \<open>The whole language: a parameter is accepted exactly when it is rendered from its parts.\<close>

lemma split_at_colon:
  "\<exists>a rng. 0x3A \<notin> set a \<and> (p :: bytes) = a @ (case rng of None \<Rightarrow> [] | Some r \<Rightarrow> 0x3A # r)"
proof (cases "0x3A \<in> set p")
  case True
  then obtain a r where "p = a @ 0x3A # r" "0x3A \<notin> set a" by (meson split_list_first)
  then show ?thesis by (intro exI [of _ a] exI [of _ "Some r"]) simp
next
  case False
  then show ?thesis by (intro exI [of _ p] exI [of _ None]) simp
qed

lemma sign_split:
  obtains s a where "(b :: bytes) = render_sign s @ a" "s = NoSign \<Longrightarrow> a = [] \<or> hd a \<noteq> 0x2B \<and> hd a \<noteq> 0x2D"
proof (cases "b \<noteq> [] \<and> (hd b = 0x2B \<or> hd b = 0x2D)")
  case True
  then show ?thesis using that [of Plus "tl b"] that [of Minus "tl b"] by (cases b) auto
next
  case False
  then show ?thesis using that [of NoSign b] by auto
qed

lemma parse_rotation_parts_eq:
  "parse_rotation_parts parameter (render_sign s @ a) rng =
     (if (\<exists>pages. parse_numrange (effective_range rng) 0 = Inr pages) \<and> (\<exists>n \<in> rotation_angles. a = decimal n)
      then Inr \<lparr>rp_range = effective_range rng,
        rp_spec = \<lparr>rs_angle = (if s = Minus then - digits_value a else digits_value a), rs_relative = (s \<noteq> NoSign)\<rparr>\<rparr>
      else Inl (invalid_rotation_parameter parameter))"
  if "s = NoSign \<Longrightarrow> a = [] \<or> hd a \<noteq> 0x2B \<and> hd a \<noteq> 0x2D"
proof -
  have rng: "(case rng of Some bytes \<Rightarrow> if bytes \<noteq> [] then bytes else str ''1-z'' | None \<Rightarrow> str ''1-z'') = effective_range rng"
    by (auto simp: effective_range_def split: option.splits)
  have angle: "(case render_sign s @ a of
      [] \<Rightarrow> (render_sign s @ a, False)
    | sign # rest \<Rightarrow> if sign = 0x2B \<or> sign = 0x2D then (rest, True)
        else if \<not> is_ascii_digit sign then ([], False) else (render_sign s @ a, False)) =
      (if s = NoSign \<and> a \<noteq> [] \<and> \<not> is_ascii_digit (hd a) then [] else a, s \<noteq> NoSign)"
    using that by (cases s; cases a) simp_all
  have neg: "(render_sign s @ a \<noteq> [] \<and> hd (render_sign s @ a) = 0x2D) = (s = Minus)"
    using that by (cases s; cases a) simp_all
  have bad: "s = NoSign \<and> a \<noteq> [] \<and> \<not> is_ascii_digit (hd a) \<Longrightarrow> \<not> (\<exists>n \<in> rotation_angles. a = decimal n)"
    using decimal_all [OF hd_in_set [OF decimal_nonempty]] by auto
  show ?thesis
    unfolding parse_rotation_parts_def Let_def rng angle neg prod.case
    using bad by (auto simp: rotation_angles_def rotation_decimal str_def split: sum.splits)
qed

lemma parse_rotation_text:
  assumes "0x3A \<notin> set a" "s = NoSign \<Longrightarrow> a = [] \<or> hd a \<noteq> 0x2B \<and> hd a \<noteq> 0x2D"
  shows "parse_rotation_parameter (render_sign s @ a @ (case rng of None \<Rightarrow> [] | Some r \<Rightarrow> 0x3A # r)) =
      (if (\<exists>pages. parse_numrange (effective_range rng) 0 = Inr pages) \<and> (\<exists>n \<in> rotation_angles. a = decimal n)
       then Inr \<lparr>rp_range = effective_range rng,
         rp_spec = \<lparr>rs_angle = (if s = Minus then - digits_value a else digits_value a), rs_relative = (s \<noteq> NoSign)\<rparr>\<rparr>
       else Inl (invalid_rotation_parameter (render_sign s @ a @ (case rng of None \<Rightarrow> [] | Some r \<Rightarrow> 0x3A # r))))"
proof -
  have "0x3A \<notin> set (render_sign s @ a)" using assms(1) by (cases s) simp_all
  then show ?thesis using parse_rotation_split [of "render_sign s @ a" rng] parse_rotation_parts_eq [OF assms(2)] by simp
qed

lemma parse_rotation_rendered:
  assumes "n \<in> rotation_angles" "\<exists>pages. parse_numrange (effective_range rng) 0 = Inr pages"
  shows "parse_rotation_parameter (render_rotation s n rng) = Inr \<lparr>rp_range = effective_range rng,
    rp_spec = \<lparr>rs_angle = (if s = Minus then - int n else int n), rs_relative = (s \<noteq> NoSign)\<rparr>\<rparr>"
proof -
  have val: "digits_value (decimal n) = int n" using decimal_digits [of n] by simp
  have "0x3A \<notin> set (decimal n)" using digit_distinct [OF decimal_all] by blast
  moreover have "hd (decimal n) \<noteq> 0x2B \<and> hd (decimal n) \<noteq> 0x2D"
    using digit_distinct [OF decimal_all [OF hd_in_set [OF decimal_nonempty [of n]]]] by blast
  ultimately show ?thesis using parse_rotation_text [of "decimal n" s rng] assms val by (auto simp: render_rotation_def)
qed

text \<open>
  C37: a rotation parameter is accepted exactly when it is an optional sign, one of the angles 0, 90, 180,
  270 and an optional range of correct syntax; a sign makes it relative, \<open>-\<close> makes the angle negative,
  and a missing or empty range is \<open>1-z\<close>. Everything else is the usage error that quotes it.
\<close>

theorem parse_rotation_parameter_language:
  "(parse_rotation_parameter p = Inr rp \<longleftrightarrow>
      (\<exists>s rng. \<exists>n \<in> rotation_angles. p = render_rotation s n rng \<and>
        (\<exists>pages. parse_numrange (effective_range rng) 0 = Inr pages) \<and>
        rp = \<lparr>rp_range = effective_range rng,
              rp_spec = \<lparr>rs_angle = (if s = Minus then - int n else int n), rs_relative = (s \<noteq> NoSign)\<rparr>\<rparr>)) \<and>
   (parse_rotation_parameter p = Inl e \<longleftrightarrow>
      e = invalid_rotation_parameter p \<and> (\<nexists>rp. parse_rotation_parameter p = Inr rp))"
proof -
  let ?tail = "\<lambda>rng. case rng of None \<Rightarrow> [] | Some r \<Rightarrow> (0x3A :: byte) # r"
  let ?ok = "\<lambda>s a rng. (\<exists>pages. parse_numrange (effective_range rng) 0 = Inr pages) \<and> (\<exists>n \<in> rotation_angles. a = decimal n)"
  let ?rp = "\<lambda>s v rng. \<lparr>rp_range = effective_range rng,
      rp_spec = \<lparr>rs_angle = (if s = Minus then - v else v), rs_relative = (s \<noteq> NoSign)\<rparr>\<rparr>"
  have val: "digits_value (decimal n) = int n" for n using decimal_digits [of n] by simp
  obtain b rng where b: "0x3A \<notin> set b" "p = b @ ?tail rng" using split_at_colon by blast
  obtain s a where a: "b = render_sign s @ a" "s = NoSign \<Longrightarrow> a = [] \<or> hd a \<noteq> 0x2B \<and> hd a \<noteq> 0x2D"
    by (rule sign_split [of b]) blast
  have p: "p = render_sign s @ a @ ?tail rng" using b(2) a(1) by simp
  have full: "parse_rotation_parameter p =
      (if ?ok s a rng then Inr (?rp s (digits_value a) rng) else Inl (invalid_rotation_parameter p))"
    unfolding p by (rule parse_rotation_text) (use b(1) a in auto)
  have sound: "parse_rotation_parameter p = Inr rp \<Longrightarrow> \<exists>s rng. \<exists>n \<in> rotation_angles. p = render_rotation s n rng \<and>
      (\<exists>pages. parse_numrange (effective_range rng) 0 = Inr pages) \<and> rp = ?rp s (int n) rng" for rp
  proof -
    assume "parse_rotation_parameter p = Inr rp"
    then have ok: "?ok s a rng" and rp: "rp = ?rp s (digits_value a) rng" unfolding full by (auto split: if_splits)
    then obtain n where n: "n \<in> rotation_angles" "a = decimal n" by blast
    have "p = render_rotation s n rng" unfolding p render_rotation_def n(2) ..
    moreover have "rp = ?rp s (int n) rng" using rp val [of n] n(2) by simp
    ultimately show ?thesis using ok n(1) by blast
  qed
  show ?thesis
  proof (intro conjI)
    show "parse_rotation_parameter p = Inr rp \<longleftrightarrow> (\<exists>s rng. \<exists>n \<in> rotation_angles. p = render_rotation s n rng \<and>
        (\<exists>pages. parse_numrange (effective_range rng) 0 = Inr pages) \<and> rp = ?rp s (int n) rng)"
      using sound parse_rotation_rendered by blast
    show "parse_rotation_parameter p = Inl e \<longleftrightarrow>
        e = invalid_rotation_parameter p \<and> (\<nexists>rp. parse_rotation_parameter p = Inr rp)"
      unfolding full by auto
  qed
qed

end
