(* ===== verification/Pdf_Version.thy ===== *)
theory Pdf_Version
  imports Qutil
begin

text \<open>
  PDF versions, \<open>crates/flpdf/src/pdf_version.rs\<close>: the version triple with its derived order, the strict
  \<open>M.m\<close> parser, the lenient header prefix, the writer's comparison pair and the job option with its
  extension level.
\<close>

section \<open>PdfVersion\<close>

datatype pdf_version = Pdf_Version (pv_major: int) (pv_minor: int) (pv_extension_level: int)

text \<open>\<open>#[derive(Ord)]\<close> compares the fields in order.\<close>

definition pdf_version_le :: "pdf_version \<Rightarrow> pdf_version \<Rightarrow> bool" where
  "pdf_version_le a b \<longleftrightarrow>
     pv_major a < pv_major b \<or> pv_major a = pv_major b \<and>
       (pv_minor a < pv_minor b \<or> pv_minor a = pv_minor b \<and> pv_extension_level a \<le> pv_extension_level b)"

instantiation pdf_version :: linorder
begin

definition less_eq_pdf_version :: "pdf_version \<Rightarrow> pdf_version \<Rightarrow> bool" where
  "less_eq_pdf_version = pdf_version_le"

definition less_pdf_version :: "pdf_version \<Rightarrow> pdf_version \<Rightarrow> bool" where
  "less_pdf_version a b \<longleftrightarrow> pdf_version_le a b \<and> \<not> pdf_version_le b a"

instance
  by standard
    (auto simp: less_eq_pdf_version_def less_pdf_version_def pdf_version_le_def intro: pdf_version.expand)

end

definition pdf_version_new_with_extension_level :: "int \<Rightarrow> int \<Rightarrow> int \<Rightarrow> pdf_version" where
  "pdf_version_new_with_extension_level major minor extension_level = Pdf_Version major minor extension_level"

definition pdf_version_new :: "int \<Rightarrow> int \<Rightarrow> pdf_version" where
  "pdf_version_new major minor = pdf_version_new_with_extension_level major minor 0"

definition parse_u8 :: "bytes \<Rightarrow> int_error_kind + int" where
  "parse_u8 = parse_int 0 255"

definition pdf_version_parse :: "bytes \<Rightarrow> pdf_version option" where
  "pdf_version_parse text =
     (case position_of 0x2E text of
        None \<Rightarrow> None
      | Some dot \<Rightarrow>
          (case parse_u8 (take dot text) of
             Inl e \<Rightarrow> None
           | Inr major \<Rightarrow>
               (case parse_u8 (drop (dot + 1) text) of
                  Inl e \<Rightarrow> None
                | Inr minor \<Rightarrow> Some (pdf_version_new major minor))))"

definition update_if_greater :: "pdf_version \<Rightarrow> pdf_version \<Rightarrow> pdf_version" where
  "update_if_greater v other = (if v < other then other else v)"

definition get_version :: "pdf_version \<Rightarrow> bytes \<times> int" where
  "get_version v = (decimal_int (pv_major v) @ str ''.'' @ decimal_int (pv_minor v), pv_extension_level v)"

definition static_version_str :: "pdf_version \<Rightarrow> bytes option" where
  "static_version_str v =
     (if (pv_major v, pv_minor v) = (1, 3) then Some (str ''1.3'')
      else if (pv_major v, pv_minor v) = (1, 4) then Some (str ''1.4'')
      else if (pv_major v, pv_minor v) = (1, 5) then Some (str ''1.5'')
      else if (pv_major v, pv_minor v) = (1, 6) then Some (str ''1.6'')
      else if (pv_major v, pv_minor v) = (1, 7) then Some (str ''1.7'')
      else None)"

definition parse_pdf_version :: "bytes \<Rightarrow> pdf_version option" where
  "parse_pdf_version text = pdf_version_parse text"

section \<open>The header prefix\<close>

definition digit_run_to_i32 :: "bytes \<Rightarrow> error + int option" where
  "digit_run_to_i32 digits =
     (case qpdf_string_to_int_checked digits of
        Value v \<Rightarrow> Inr (Some v)
      | Overflow m \<Rightarrow> Inl (System m)
      | NoDigits \<Rightarrow> Inr None)"

definition is_version_space :: "byte \<Rightarrow> bool" where
  "is_version_space b \<longleftrightarrow> b \<in> {0x20, 0x09, 0x0A, 0x0B, 0x0C, 0x0D}"

text \<open>\<open>while bytes.get(index).is_some_and(p) { index += 1; }\<close>\<close>

definition scan_while :: "(byte \<Rightarrow> bool) \<Rightarrow> bytes \<Rightarrow> nat \<Rightarrow> nat" where
  "scan_while p bs index = index + length (takeWhile p (drop index bs))"

definition leading_major_minor :: "bytes \<Rightarrow> error + int \<times> int" where
  "leading_major_minor text =
     (let major_start = scan_while is_version_space text 0;
          index = scan_while is_ascii_digit text major_start
      in if index = major_start \<or> get_at text index \<noteq> Some 0x2E then Inr (1, 3)
         else
           let major_digits = slice_of text major_start index;
               minor_start = index + 1;
               index = scan_while is_ascii_digit text minor_start
           in if index = minor_start then Inr (1, 3)
              else
                let minor_digits = slice_of text minor_start index
                in case digit_run_to_i32 major_digits of
                     Inl e \<Rightarrow> Inl e
                   | Inr major \<Rightarrow>
                       (case digit_run_to_i32 minor_digits of
                          Inl e \<Rightarrow> Inl e
                        | Inr minor \<Rightarrow>
                            (case (major, minor) of
                               (Some a, Some b) \<Rightarrow> Inr (a, b)
                             | _ \<Rightarrow> Inr (1, 3))))"

section \<open>The writer's pair and the job option\<close>

datatype qpdf_version_parts = Qpdf_Version_Parts (qv_major: int) (qv_minor: int)

text \<open>An \<open>i32\<close> that went through \<open>i64\<close> comes back unchanged from \<open>as i32\<close>.\<close>

definition qpdf_string_to_int :: "bytes \<Rightarrow> int option" where
  "qpdf_string_to_int text =
     (case qpdf_string_to_int_checked text of NoDigits \<Rightarrow> Some 0 | Overflow m \<Rightarrow> None | Value v \<Rightarrow> Some v)"

definition parse_qpdf_writer_version :: "bytes \<Rightarrow> qpdf_version_parts option" where
  "parse_qpdf_writer_version text =
     (case qpdf_string_to_int text of
        None \<Rightarrow> None
      | Some major \<Rightarrow>
          (case (case position_of 0x2E text of Some dot \<Rightarrow> qpdf_string_to_int (drop (dot + 1) text) | None \<Rightarrow> Some 0) of
             None \<Rightarrow> None
           | Some minor \<Rightarrow> Some (Qpdf_Version_Parts (wrap_i32 major) (wrap_i32 minor))))"

definition parse_pdf_version_spec :: "bytes \<Rightarrow> (bytes \<times> int) option" where
  "parse_pdf_version_spec text =
     (let text = until_nul text
      in case position_of 0x2E text of
           None \<Rightarrow> (case parse_qpdf_writer_version text of None \<Rightarrow> None | Some parts \<Rightarrow> Some (text, 0))
         | Some first_dot \<Rightarrow>
             let second_dot = map_option (\<lambda>offset. first_dot + 1 + offset) (position_of 0x2E (drop (first_dot + 1) text));
                 split =
                   (case second_dot of
                      Some second_dot \<Rightarrow>
                        if second_dot + 1 < length text
                        then map_option (Pair (take second_dot text)) (qpdf_string_to_int (drop (second_dot + 1) text))
                        else Some (text, 0)
                    | None \<Rightarrow> Some (text, 0))
             in case split of
                  None \<Rightarrow> None
                | Some (version, extension_level) \<Rightarrow>
                    (case parse_qpdf_writer_version version of
                       None \<Rightarrow> None
                     | Some parts \<Rightarrow> Some (version, extension_level)))"

section \<open>Order and round trip\<close>

lemma update_if_greater_max: "update_if_greater v w = max v w"
  by (auto simp: update_if_greater_def max_def dest: less_imp_le)

text \<open>
  After any sequence of updates the version is the greatest of the initial one and all that were
  offered, whatever their order, in the order major, minor, extension level.
\<close>

lemma updates_keep_greatest:
  "foldl update_if_greater v vs = Max (set (v # vs)) \<and>
   (pdf_version_new_with_extension_level a b c \<le> pdf_version_new_with_extension_level a' b' c' \<longleftrightarrow>
      a < a' \<or> a = a' \<and> (b < b' \<or> b = b' \<and> c \<le> c'))"
proof
  show "foldl update_if_greater v vs = Max (set (v # vs))"
  proof (induction vs arbitrary: v)
    case Nil
    then show ?case by simp
  next
    case (Cons w vs)
    then show ?case by (cases "vs = []") (simp_all add: update_if_greater_max max.assoc)
  qed
qed (simp add: pdf_version_new_with_extension_level_def less_eq_pdf_version_def pdf_version_le_def)

lemma dot_not_in_decimal: "0x2E \<notin> set (decimal n)"
  by (auto dest!: decimal_all simp: is_ascii_digit_def word_le_iff_unat)

text \<open>
  The text \<open>get_version\<close> gives parses back to the version for every pair of components the parser's
  byte range has, and for no others.
\<close>

lemma pdf_version_roundtrip:
  "pdf_version_parse (fst (get_version (pdf_version_new (int a) (int b)))) =
     (if a \<le> 255 \<and> b \<le> 255 then Some (pdf_version_new (int a) (int b)) else None)"
proof -
  have u8: "parse_u8 (decimal n) = (if n \<le> 255 then Inr (int n) else Inl PosOverflow)" for n
    using parse_int_run [of "decimal n" 0 255] decimal_digits [of n] by (simp add: parse_u8_def)
  have shown: "fst (get_version (pdf_version_new (int a) (int b))) = decimal a @ 0x2E # decimal b"
    by (simp add: get_version_def pdf_version_new_def pdf_version_new_with_extension_level_def decimal_int_def str_def)
  show ?thesis unfolding shown pdf_version_parse_def by (simp add: position_of_first [OF dot_not_in_decimal] u8)
qed

text \<open>The documentation promises that runs of three digits or more are refused; only values above 255 are.\<close>

lemma three_digit_runs_parse: "pdf_version_parse (str ''100.0007'') = Some (pdf_version_new 100 7)"
  by code_simp

section \<open>What the lenient parsers read\<close>

lemma scan_while_run:
  assumes "list_all p run" "rest = [] \<or> \<not> p (hd rest)" "n = length pre"
  shows "scan_while p (pre @ run @ rest) n = n + length run"
proof -
  have "takeWhile p rest = []" using assms(2) by (cases rest) auto
  then show ?thesis using assms(1,3) by (simp add: scan_while_def list_all_iff takeWhile_append2)
qed

lemma version_space_not_digit: "is_version_space b \<Longrightarrow> \<not> is_ascii_digit b"
  by (auto simp: is_version_space_def is_ascii_digit_def word_le_iff_unat)

lemma digit_run_value:
  assumes "list_all is_ascii_digit ds" "ds \<noteq> []"
  shows "if digits_value ds < 2 ^ 31 then digit_run_to_i32 ds = Inr (Some (digits_value ds))
    else \<exists>m. digit_run_to_i32 ds = Inl (System m)"
  using string_to_int_run [of "[]" "[]" ds "[]"] assms digits_value_nonneg [of ds]
  by (auto simp: digit_run_to_i32_def split: if_splits)

text \<open>
  A header text with white space, a run of digits, a dot and a run of digits gives their values,
  whatever follows; it fails, with a system error, exactly when one of the runs exceeds an \<open>i32\<close>.
\<close>

lemma leading_major_minor_reads:
  assumes "list_all is_version_space ws" "list_all is_ascii_digit ds" "ds \<noteq> []" "list_all is_ascii_digit es" "es \<noteq> []"
    "rest = [] \<or> \<not> is_ascii_digit (hd rest)"
  shows "if digits_value ds < 2 ^ 31 \<and> digits_value es < 2 ^ 31
    then leading_major_minor (ws @ ds @ 0x2E # es @ rest) = Inr (digits_value ds, digits_value es)
    else \<exists>m. leading_major_minor (ws @ ds @ 0x2E # es @ rest) = Inl (System m)"
proof -
  let ?t = "ws @ ds @ 0x2E # es @ rest"
  have "\<not> is_version_space (hd (ds @ 0x2E # es @ rest))"
    using assms(2,3) version_space_not_digit by (cases ds) auto
  then have s1: "scan_while is_version_space ?t 0 = length ws"
    using scan_while_run [of is_version_space ws "ds @ 0x2E # es @ rest" 0 "[]"] assms(1) by simp
  have s2: "scan_while is_ascii_digit ?t (length ws) = length ws + length ds"
    using scan_while_run [of is_ascii_digit ds "0x2E # es @ rest" "length ws" ws] assms(2)
    by (simp add: is_ascii_digit_def word_le_iff_unat)
  have s3: "scan_while is_ascii_digit ?t (length ws + length ds + 1) = length ws + length ds + 1 + length es"
    using scan_while_run [of is_ascii_digit es rest "length ws + length ds + 1" "ws @ ds @ [0x2E]"] assms(4,6) by simp
  have dot: "get_at ?t (length ws + length ds) = Some 0x2E"
    using get_at_append [of "ws @ ds" "0x2E" "es @ rest"] by simp
  have major: "slice_of ?t (length ws) (length ws + length ds) = ds" by simp
  have minor: "slice_of ?t (length ws + length ds + 1) (length ws + length ds + 1 + length es) = es"
    using slice_of_middle [of "ws @ ds @ [0x2E]" es rest] by (simp del: slice_of_middle)
  have "leading_major_minor ?t =
      (case digit_run_to_i32 ds of
         Inl e \<Rightarrow> Inl e
       | Inr major \<Rightarrow>
           (case digit_run_to_i32 es of
              Inl e \<Rightarrow> Inl e
            | Inr minor \<Rightarrow> (case (major, minor) of (Some a, Some b) \<Rightarrow> Inr (a, b) | _ \<Rightarrow> Inr (1, 3))))"
    unfolding leading_major_minor_def Let_def s1 s2 s3 dot major minor using assms(3,5) by simp
  then show ?thesis
    using digit_run_value [OF assms(2,3)] digit_run_value [OF assms(4,5)] by (auto split: if_splits)
qed

theorem leading_major_minor_reads_witness:
  "leading_major_minor ([0x20] @ [0x31] @ 0x2E # [0x30, 0x37] @ [0x61]) = Inr (1, 7)"
  using leading_major_minor_reads [of "[0x20]" "[0x31]" "[0x30, 0x37]" "[0x61]"]
  by (simp add: is_version_space_def is_ascii_digit_def)

text \<open>
  The job option is taken apart without loss: either it is the version as it stands, with level 0, or
  it is the version up to the second dot, that dot and a non-empty rest whose number is the level; the
  version itself always passes the writer's range check.
\<close>

lemma parse_pdf_version_spec_splits:
  assumes "parse_pdf_version_spec text = Some (version, level)"
  shows "(version = until_nul text \<and> level = 0 \<or>
      (\<exists>tail. until_nul text = version @ 0x2E # tail \<and> tail \<noteq> [] \<and> qpdf_string_to_int tail = Some level \<and>
        count_list version 0x2E = 1)) \<and>
    (\<exists>parts. parse_qpdf_writer_version version = Some parts)"
proof -
  let ?t = "until_nul text"
  show ?thesis
  proof (cases "\<exists>a b c. ?t = a @ 0x2E # b @ 0x2E # c \<and> 0x2E \<notin> set a \<and> 0x2E \<notin> set b \<and> c \<noteq> []")
    case True
    then obtain a b c where abc: "?t = a @ 0x2E # b @ 0x2E # c" "0x2E \<notin> set a" "0x2E \<notin> set b" "c \<noteq> []" by blast
    then show ?thesis
      using assms position_of_first [OF abc(2), of "b @ 0x2E # c"] position_of_first [OF abc(3), of c]
      by (auto simp: parse_pdf_version_spec_def Let_def count_list_0_iff split: option.splits if_splits)
  next
    case False
    have "parse_pdf_version_spec text =
        (case parse_qpdf_writer_version ?t of None \<Rightarrow> None | Some parts \<Rightarrow> Some (?t, 0))"
    proof (cases "0x2E \<in> set ?t")
      case dot: True
      then obtain a r where a: "?t = a @ 0x2E # r" "0x2E \<notin> set a" by (meson split_list_first)
      show ?thesis
      proof (cases "0x2E \<in> set r")
        case True
        then obtain b c where b: "r = b @ 0x2E # c" "0x2E \<notin> set b" by (meson split_list_first)
        then have "c = []" using False a by blast
        then show ?thesis
          using a b position_of_first [OF a(2), of r] position_of_first [OF b(2), of c]
          by (simp add: parse_pdf_version_spec_def Let_def split: option.split)
      next
        case False
        then show ?thesis
          using a position_of_first [OF a(2), of r] position_of_none [OF False]
          by (simp add: parse_pdf_version_spec_def Let_def split: option.split)
      qed
    qed (simp add: parse_pdf_version_spec_def Let_def position_of_none)
    then show ?thesis using assms by (auto split: option.splits)
  qed
qed

theorem parse_pdf_version_spec_splits_witness:
  "str ''1.7'' = until_nul (str ''1.7.8'') \<and> (8 :: int) = 0 \<or>
   (\<exists>tail. until_nul (str ''1.7.8'') = str ''1.7'' @ 0x2E # tail \<and> tail \<noteq> [] \<and> qpdf_string_to_int tail = Some 8 \<and>
     count_list (str ''1.7'') 0x2E = 1)"
proof -
  have "parse_pdf_version_spec (str ''1.7.8'') = Some (str ''1.7'', 8)" by code_simp
  from parse_pdf_version_spec_splits [OF this] show ?thesis by blast
qed

end
