(* ===== verification/Permissions.thy ===== *)
theory Permissions
  imports Prelude
begin

text \<open>
  The permission bits \<open>/P\<close> of encrypted documents, \<open>crates/flpdf/src/encryption/permissions.rs\<close>: the
  reader's view of the bit field and the writer's configurations of revision 2 and of revision 3 and later.
  An \<open>i32\<close> is its 32-bit word, so that \<open>as u32\<close> and \<open>as i32\<close> are the identity.
\<close>

section \<open>The reader's view\<close>

record permissions =
  pm_raw :: "32 word"

definition permissions_new :: "32 word \<Rightarrow> permissions" where
  "permissions_new raw = \<lparr>pm_raw = raw\<rparr>"

definition has_bit :: "permissions \<Rightarrow> 32 word \<Rightarrow> bool" where
  "has_bit p b \<longleftrightarrow> pm_raw p AND b \<noteq> 0"

definition can_print :: "permissions \<Rightarrow> bool" where
  "can_print p \<longleftrightarrow> has_bit p 0x0004"

definition can_modify :: "permissions \<Rightarrow> bool" where
  "can_modify p \<longleftrightarrow> has_bit p 0x0008"

definition can_copy :: "permissions \<Rightarrow> bool" where
  "can_copy p \<longleftrightarrow> has_bit p 0x0010"

definition can_annotate :: "permissions \<Rightarrow> bool" where
  "can_annotate p \<longleftrightarrow> has_bit p 0x0020"

definition can_fill_forms :: "permissions \<Rightarrow> bool" where
  "can_fill_forms p \<longleftrightarrow> has_bit p 0x0100"

definition can_extract_for_accessibility :: "permissions \<Rightarrow> bool" where
  "can_extract_for_accessibility p \<longleftrightarrow> has_bit p 0x0200"

definition can_assemble :: "permissions \<Rightarrow> bool" where
  "can_assemble p \<longleftrightarrow> has_bit p 0x0400"

definition can_print_high_quality :: "permissions \<Rightarrow> bool" where
  "can_print_high_quality p \<longleftrightarrow> has_bit p 0x0800"

section \<open>The writer's configurations\<close>

datatype print_permission = PrintNone | PrintLow | PrintHigh

record r2_permissions_config =
  r2_print :: bool
  r2_modify :: bool
  r2_extract :: bool
  r2_annotate :: bool

definition r2_permissions_default :: r2_permissions_config where
  "r2_permissions_default = \<lparr>r2_print = True, r2_modify = True, r2_extract = True, r2_annotate = True\<rparr>"

text \<open>\<open>if c { bits |= m; }\<close>\<close>

definition or_if :: "bool \<Rightarrow> 32 word \<Rightarrow> 32 word \<Rightarrow> 32 word" where
  "or_if c m bits = (if c then bits OR m else bits)"

definition r2_to_p_bits :: "r2_permissions_config \<Rightarrow> 32 word" where
  "r2_to_p_bits c =
     (let bits = 0xFFFFFFC0;
          bits = or_if (r2_print c) 0x004 bits;
          bits = or_if (r2_modify c) 0x008 bits;
          bits = or_if (r2_extract c) 0x010 bits
      in or_if (r2_annotate c) 0x020 bits)"

record permissions_config =
  pc_print :: print_permission
  pc_modify_contents :: bool
  pc_extract :: bool
  pc_annotate :: bool
  pc_fill_forms :: bool
  pc_accessibility :: bool
  pc_assemble :: bool

definition permissions_default :: permissions_config where
  "permissions_default =
     \<lparr>pc_print = PrintHigh, pc_modify_contents = True, pc_extract = True, pc_annotate = True,
      pc_fill_forms = True, pc_accessibility = True, pc_assemble = True\<rparr>"

definition permissions_none :: permissions_config where
  "permissions_none =
     \<lparr>pc_print = PrintNone, pc_modify_contents = False, pc_extract = False, pc_annotate = False,
      pc_fill_forms = False, pc_accessibility = False, pc_assemble = False\<rparr>"

definition to_p_bits :: "permissions_config \<Rightarrow> 32 word" where
  "to_p_bits c =
     (let bits = 0;
          bits = or_if (pc_print c \<noteq> PrintNone) 0x004 bits;
          bits = or_if (pc_modify_contents c) 0x008 bits;
          bits = or_if (pc_extract c) 0x010 bits;
          bits = or_if (pc_annotate c) 0x020 bits;
          bits = bits OR (0x040 OR 0x080);
          bits = or_if (pc_fill_forms c) 0x100 bits;
          bits = or_if (pc_accessibility c) 0x200 bits;
          bits = or_if (pc_assemble c) 0x400 bits;
          bits = or_if (pc_print c = PrintHigh) 0x800 bits
      in bits OR 0xFFFFF000)"

definition from_p_bits :: "32 word \<Rightarrow> permissions_config" where
  "from_p_bits bits =
     (let any_print = (bits AND 0x004 \<noteq> 0);
          high_print = (bits AND 0x800 \<noteq> 0)
      in \<lparr>pc_print = (if \<not> any_print then PrintNone else if high_print then PrintHigh else PrintLow),
          pc_modify_contents = (bits AND 0x008 \<noteq> 0),
          pc_extract = (bits AND 0x010 \<noteq> 0),
          pc_annotate = (bits AND 0x020 \<noteq> 0),
          pc_fill_forms = (bits AND 0x100 \<noteq> 0),
          pc_accessibility = (bits AND 0x200 \<noteq> 0),
          pc_assemble = (bits AND 0x400 \<noteq> 0)\<rparr>)"

section \<open>Bit by bit\<close>

text \<open>The masks single out one bit; a word is known when its 32 bits are.\<close>

lemma and_exp_nonzero: "(w :: 32 word) AND 2 ^ n \<noteq> 0 \<longleftrightarrow> n < 32 \<and> bit w n"
proof -
  have "w AND 2 ^ n = (if n < 32 \<and> bit w n then 2 ^ n else 0)"
    by (rule bit_word_eqI) (auto simp: bit_simps)
  then show ?thesis by (auto simp: word_exp_length_eq_0 split: if_splits) 
qed

lemma masks_nonzero:
  "(w :: 32 word) AND 0x004 \<noteq> 0 \<longleftrightarrow> bit w 2" "w AND 0x008 \<noteq> 0 \<longleftrightarrow> bit w 3"
  "w AND 0x010 \<noteq> 0 \<longleftrightarrow> bit w 4" "w AND 0x020 \<noteq> 0 \<longleftrightarrow> bit w 5"
  "w AND 0x100 \<noteq> 0 \<longleftrightarrow> bit w 8" "w AND 0x200 \<noteq> 0 \<longleftrightarrow> bit w 9"
  "w AND 0x400 \<noteq> 0 \<longleftrightarrow> bit w 10" "w AND 0x800 \<noteq> 0 \<longleftrightarrow> bit w 11"
  using and_exp_nonzero [of w 2] and_exp_nonzero [of w 3] and_exp_nonzero [of w 4] and_exp_nonzero [of w 5]
    and_exp_nonzero [of w 8] and_exp_nonzero [of w 9] and_exp_nonzero [of w 10] and_exp_nonzero [of w 11]
  by simp_all

lemma bit_or_if [simp]: "bit (or_if c m w) n = (c \<and> bit m n \<or> bit w n)"
  by (auto simp: or_if_def bit_simps)

lemma high_mask_bit: "bit (0xFFFFF000 :: 32 word) n \<longleftrightarrow> 12 \<le> n \<and> n < 32"
proof -
  have "(0xFFFFF000 :: 32 word) = push_bit 12 (mask 20)" by (simp add: push_bit_eq_mult mask_eq_exp_minus_1)
  moreover have "bit (push_bit 12 (mask 20) :: 32 word) n \<longleftrightarrow> 12 \<le> n \<and> n < 32" by (auto simp: bit_simps)
  ultimately show ?thesis by (simp only:)
qed

definition p_bit :: "permissions_config \<Rightarrow> nat \<Rightarrow> bool" where
  "p_bit c n \<longleftrightarrow>
     (if n < 2 then False
      else if n = 2 then pc_print c \<noteq> PrintNone
      else if n = 3 then pc_modify_contents c
      else if n = 4 then pc_extract c
      else if n = 5 then pc_annotate c
      else if n = 8 then pc_fill_forms c
      else if n = 9 then pc_accessibility c
      else if n = 10 then pc_assemble c
      else if n = 11 then pc_print c = PrintHigh
      else n < 32)"

lemma bit_to_p_bits: "bit (to_p_bits c) n = p_bit c n"
proof (cases "n < 32")
  case True
  then consider "n \<in> {0, 1, 2, 3, 4, 5, 6, 7, 8, 9, 10, 11}" | "12 \<le> n"
    by (cases "12 \<le> n") (auto simp: numeral_nat less_Suc_eq)
  then show ?thesis
  proof cases
    case 1
    then show ?thesis
      by (elim insertE emptyE) (simp_all add: to_p_bits_def Let_def p_bit_def bit_simps high_mask_bit)
  next
    case 2
    then show ?thesis using True high_mask_bit [of n] by (simp add: to_p_bits_def Let_def p_bit_def bit_or_iff)
  qed
next
  case False
  then show ?thesis using bit_imp_le_length [of "to_p_bits c" n] by (auto simp: p_bit_def)
qed

lemma from_to_p_bits: "from_p_bits (to_p_bits c) = c"
proof -
  obtain p m e a f ac as where c: "c = \<lparr>pc_print = p, pc_modify_contents = m, pc_extract = e, pc_annotate = a,
      pc_fill_forms = f, pc_accessibility = ac, pc_assemble = as\<rparr>" by (cases c)
  show ?thesis
    unfolding from_p_bits_def Let_def masks_nonzero bit_to_p_bits
    by (cases p) (simp_all add: c p_bit_def)
qed

text \<open>
  C38: decoding an encoded configuration gives it back, so encoding loses nothing; encoding a decoded
  field normalises it once and for all, with bits 1 and 2 clear and all other reserved bits set, and
  keeps every capability bit but a high-quality bit without the printing bit.
\<close>

theorem p_bits_roundtrip:
  "from_p_bits (to_p_bits c) = c \<and>
   to_p_bits (from_p_bits (to_p_bits (from_p_bits w))) = to_p_bits (from_p_bits w) \<and>
   bit (to_p_bits (from_p_bits w)) n =
     (if n < 2 then False
      else if n \<in> {2, 3, 4, 5, 8, 9, 10} then bit w n
      else if n = 11 then bit w 2 \<and> bit w 11
      else n < 32)"
  unfolding from_to_p_bits bit_to_p_bits
  by (simp add: from_p_bits_def Let_def masks_nonzero p_bit_def)

text \<open>
  The reader sees exactly the capabilities the writer granted, for revision 3 and later and for the
  four of revision 2, whose remaining bits are all granted; everything granted is \<open>-4\<close>.
\<close>

lemma reader_sees_granted:
  "(let p = permissions_new (to_p_bits c) in
     can_print p = (pc_print c \<noteq> PrintNone) \<and> can_modify p = pc_modify_contents c \<and>
     can_copy p = pc_extract c \<and> can_annotate p = pc_annotate c \<and> can_fill_forms p = pc_fill_forms c \<and>
     can_extract_for_accessibility p = pc_accessibility c \<and> can_assemble p = pc_assemble c \<and>
     can_print_high_quality p = (pc_print c = PrintHigh)) \<and>
   (let p = permissions_new (r2_to_p_bits d) in
     can_print p = r2_print d \<and> can_modify p = r2_modify d \<and> can_copy p = r2_extract d \<and>
     can_annotate p = r2_annotate d \<and> can_fill_forms p \<and> can_extract_for_accessibility p \<and>
     can_assemble p \<and> can_print_high_quality p) \<and>
   to_p_bits permissions_default = - 4 \<and> r2_to_p_bits r2_permissions_default = - 4"
proof -
  have r2: "bit (r2_to_p_bits d) 2 = r2_print d" "bit (r2_to_p_bits d) 3 = r2_modify d"
    "bit (r2_to_p_bits d) 4 = r2_extract d" "bit (r2_to_p_bits d) 5 = r2_annotate d"
    "bit (r2_to_p_bits d) 8" "bit (r2_to_p_bits d) 9" "bit (r2_to_p_bits d) 10" "bit (r2_to_p_bits d) 11"
    by (simp_all add: r2_to_p_bits_def Let_def bit_simps)
  have all_granted: "to_p_bits permissions_default = - 4" "r2_to_p_bits r2_permissions_default = - 4"
    by (simp_all add: to_p_bits_def permissions_default_def r2_to_p_bits_def r2_permissions_default_def or_if_def)
  show ?thesis
    unfolding Let_def can_print_def can_modify_def can_copy_def can_annotate_def can_fill_forms_def
      can_extract_for_accessibility_def can_assemble_def can_print_high_quality_def has_bit_def permissions_new_def
      permissions.simps masks_nonzero bit_to_p_bits
    using r2 all_granted by (simp add: p_bit_def)
qed

end
