(* ===== verification/Row_Stage.thy ===== *)
theory Row_Stage
  imports Pipeline
begin

text \<open>
  The contract of the stages that work row by row: as long as an invariant holds, how the caller cuts the
  data into writes does not matter. Data of a row-oriented stage is whole rows and a rest.
\<close>

locale row_stage =
  fixes wr :: "'s \<Rightarrow> bytes \<Rightarrow> ('e, 's) outcome" and inv :: "'s \<Rightarrow> bool"
  assumes wr_empty: "inv s \<Longrightarrow> wr s [] = Done s"
    and wr_split: "inv s \<Longrightarrow> wr s (xs @ ys) = seq (wr s xs) (\<lambda>s'. wr s' ys)"
    and wr_inv: "inv s \<Longrightarrow> wr s xs = Done s' \<Longrightarrow> inv s'"
begin

lemma feed_concat: "inv s \<Longrightarrow> feed wr s chunks = wr s (concat chunks)"
proof (induction chunks arbitrary: s)
  case Nil
  then show ?case by (simp add: feed_def wr_empty)
next
  case (Cons c cs)
  have "feed wr s (c # cs) = seq (wr s c) (\<lambda>s'. feed wr s' cs)" by (simp add: feed_def)
  also have "\<dots> = seq (wr s c) (\<lambda>s'. wr s' (concat cs))"
    by (rule seq_cong) (auto intro: Cons.IH wr_inv [OF Cons.prems])
  finally show ?case using wr_split [OF Cons.prems] by simp
qed

end

text \<open>Every list is rows of \<open>n\<close> elements and a shorter rest.\<close>

lemma rows_and_rest:
  assumes "0 < (n :: nat)"
  obtains rows rest where "xs = concat rows @ rest" "\<forall>r \<in> set rows. length r = n" "length rest < n"
proof -
  have "\<exists>rows rest. xs = concat rows @ rest \<and> (\<forall>r \<in> set rows. length r = n) \<and> length rest < n"
  proof (induction "length xs" arbitrary: xs rule: less_induct)
    case less
    show ?case
    proof (cases "length xs < n")
      case True
      then show ?thesis by (intro exI [of _ "[]"] exI [of _ xs]) simp
    next
      case False
      then have "length (drop n xs) < length xs" using assms by simp
      from less [OF this] obtain rows rest where
        "drop n xs = concat rows @ rest" "\<forall>r \<in> set rows. length r = n" "length rest < n" by blast
      moreover have "xs = take n xs @ drop n xs" by simp
      ultimately have "xs = concat (take n xs # rows) @ rest" "\<forall>r \<in> set (take n xs # rows). length r = n" "length rest < n"
        using False by (simp_all del: append_take_drop_id)
      then show ?thesis by blast
    qed
  qed
  then show ?thesis using that by blast
qed

end
