(* ===== verification/Png_Filter.thy ===== *)
theory Png_Filter
  imports Row_Stage
begin

text \<open>
  The PNG predictor stage, \<open>crates/flpdf/src/pipeline/png_filter.rs\<close>: row geometry in wrapping 32-bit
  arithmetic, two rotating row buffers, decoding by each row's filter byte and the fixed Up encoding. The
  decoder is shown to invert all five filters of the PNG specification, and to undo the encoder.
\<close>

section \<open>The stage\<close>

datatype png_filter_action = PngEncode | PngDecode

record 'd png_filter =
  pf_next :: 'd
  pf_action :: png_filter_action
  pf_bytes_per_row :: nat
  pf_bytes_per_pixel :: nat
  pf_row_capacity :: nat
  pf_buf1 :: bytes
  pf_buf2 :: bytes
  pf_cur_is_first :: bool
  pf_has_prev :: bool
  pf_pos :: nat
  pf_incoming :: nat

definition png_filter_new ::
  "'d \<Rightarrow> png_filter_action \<Rightarrow> 32 word \<Rightarrow> 32 word \<Rightarrow> 32 word \<Rightarrow> pipe_error + 'd png_filter" where
  "png_filter_new next action columns samples_per_pixel bits_per_sample =
     (if samples_per_pixel = 0 then Inl (runtime ''PNGFilter created with invalid samples_per_pixel'')
      else if bits_per_sample \<notin> {1, 2, 4, 8, 16}
        then Inl (runtime ''PNGFilter created with invalid bits_per_sample not 1, 2, 4, 8, or 16'')
      else
        let bytes_per_pixel = (bits_per_sample * samples_per_pixel + 7) div 8;
            bytes_per_row = (columns * bits_per_sample * samples_per_pixel + 7) div 8
        in if bytes_per_row = 0 then Inl (runtime ''PNGFilter created with invalid columns value'')
           else
             let bytes_per_row = unat bytes_per_row;
                 row_capacity = bytes_per_row + 1;
                 incoming = (case action of PngEncode \<Rightarrow> bytes_per_row | PngDecode \<Rightarrow> bytes_per_row + 1)
             in Inr \<lparr>pf_next = next, pf_action = action, pf_bytes_per_row = bytes_per_row,
                     pf_bytes_per_pixel = unat bytes_per_pixel, pf_row_capacity = row_capacity,
                     pf_buf1 = [], pf_buf2 = [], pf_cur_is_first = True, pf_has_prev = True,
                     pf_pos = 0, pf_incoming = incoming\<rparr>)"

definition ensure_row_buffers :: "'d png_filter \<Rightarrow> 'd png_filter" where
  "ensure_row_buffers s =
     (if pf_buf1 s = []
      then s\<lparr>pf_buf1 := replicate (pf_row_capacity s) 0, pf_buf2 := replicate (pf_row_capacity s) 0\<rparr>
      else s)"

text \<open>\<open>split_rows\<close>: the current row and, unless it was dropped, the previous one.\<close>

definition current_row :: "'d png_filter \<Rightarrow> bytes" where
  "current_row s = (if pf_cur_is_first s then pf_buf1 s else pf_buf2 s)"

definition other_row :: "'d png_filter \<Rightarrow> bytes" where
  "other_row s = (if pf_cur_is_first s then pf_buf2 s else pf_buf1 s)"

definition split_rows :: "'d png_filter \<Rightarrow> bytes \<times> bytes option" where
  "split_rows s = (current_row s, if pf_has_prev s then Some (other_row s) else None)"

definition set_current_row :: "bytes \<Rightarrow> 'd png_filter \<Rightarrow> 'd png_filter" where
  "set_current_row row s = (if pf_cur_is_first s then s\<lparr>pf_buf1 := row\<rparr> else s\<lparr>pf_buf2 := row\<rparr>)"

definition decode_sub :: "bytes \<Rightarrow> nat \<Rightarrow> bytes" where
  "decode_sub buffer bytes_per_pixel =
     foldl (\<lambda>buffer index.
         let left = (if index \<ge> bytes_per_pixel then buffer ! (index - bytes_per_pixel) else 0)
         in buffer[index := buffer ! index + left])
       buffer [0..<length buffer]"

definition decode_up :: "bytes \<Rightarrow> bytes \<Rightarrow> bytes" where
  "decode_up buffer up_row = map (\<lambda>(byte, up). byte + up) (zip buffer up_row) @ drop (length up_row) buffer"

definition decode_average :: "bytes \<Rightarrow> bytes \<Rightarrow> nat \<Rightarrow> bytes" where
  "decode_average buffer up_row bytes_per_pixel =
     foldl (\<lambda>buffer index.
         let left = (if index \<ge> bytes_per_pixel then uint (buffer ! (index - bytes_per_pixel)) else 0);
             up = uint (up_row ! index)
         in buffer[index := buffer ! index + of_int ((left + up) div 2)])
       buffer [0..<length buffer]"

definition abs_diff :: "int \<Rightarrow> int \<Rightarrow> int" where
  "abs_diff a b = (if a > b then a - b else b - a)"

definition paeth_predictor :: "int \<Rightarrow> int \<Rightarrow> int \<Rightarrow> int" where
  "paeth_predictor a b c =
     (let p = a + b - c;
          pa = abs_diff p a;
          pb = abs_diff p b;
          pc = abs_diff p c
      in if pa \<le> pb \<and> pa \<le> pc then a else if pb \<le> pc then b else c)"

definition decode_paeth :: "bytes \<Rightarrow> bytes \<Rightarrow> nat \<Rightarrow> bytes" where
  "decode_paeth buffer up_row bytes_per_pixel =
     foldl (\<lambda>buffer index.
         let up = uint (up_row ! index);
             (left, upper_left) =
               (if index \<ge> bytes_per_pixel
                then (uint (buffer ! (index - bytes_per_pixel)), uint (up_row ! (index - bytes_per_pixel)))
                else (0, 0))
         in buffer[index := buffer ! index + of_int (paeth_predictor left up upper_left)])
       buffer [0..<length buffer]"

definition png_decode_row :: "'d pipeline \<Rightarrow> 'd png_filter \<Rightarrow> (pipe_error, 'd png_filter) outcome" where
  "png_decode_row p s =
     (let bytes_per_row = pf_bytes_per_row s;
          bytes_per_pixel = pf_bytes_per_pixel s;
          (current, previous) = split_rows s;
          current =
            (case previous of
               None \<Rightarrow> current
             | Some previous \<Rightarrow>
                 let ftype = current ! 0;
                     buffer = take bytes_per_row (drop 1 current);
                     up_row = take bytes_per_row (drop 1 previous);
                     buffer =
                       (if ftype = 0 then buffer
                        else if ftype = 1 then decode_sub buffer bytes_per_pixel
                        else if ftype = 2 then decode_up buffer up_row
                        else if ftype = 3 then decode_average buffer up_row bytes_per_pixel
                        else if ftype = 4 then decode_paeth buffer up_row bytes_per_pixel
                        else buffer)
                 in take 1 current @ buffer @ drop (1 + bytes_per_row) current);
          s = set_current_row current s
      in into (\<lambda>d. s\<lparr>pf_next := d\<rparr>) (pl_write p (pf_next s) (take bytes_per_row (drop 1 current))))"

definition png_encode_row :: "'d pipeline \<Rightarrow> 'd png_filter \<Rightarrow> (pipe_error, 'd png_filter) outcome" where
  "png_encode_row p s =
     (let bytes_per_row = pf_bytes_per_row s;
          has_prev = pf_has_prev s;
          current = current_row s;
          previous = other_row s
      in into (\<lambda>d. s\<lparr>pf_next := d\<rparr>)
           (write_up_predictor_row p (pf_next s) (take bytes_per_row current)
             (if has_prev then Some (take bytes_per_row previous) else None)))"

definition png_process_row :: "'d pipeline \<Rightarrow> 'd png_filter \<Rightarrow> (pipe_error, 'd png_filter) outcome" where
  "png_process_row p s =
     (case pf_action s of PngEncode \<Rightarrow> png_encode_row p s | PngDecode \<Rightarrow> png_decode_row p s)"

text \<open>\<open>current[pos..pos + data.len()].copy_from_slice(data)\<close>\<close>

definition overwrite :: "bytes \<Rightarrow> nat \<Rightarrow> bytes \<Rightarrow> bytes" where
  "overwrite row pos data = take pos row @ data @ drop (pos + length data) row"

definition copy_into_current :: "'d png_filter \<Rightarrow> bytes \<Rightarrow> 'd png_filter" where
  "copy_into_current s data = set_current_row (overwrite (current_row s) (pf_pos s) data) s"

text \<open>The end of one iteration of the loop: the rows change places and the new current row is cleared.\<close>

definition png_next_row :: "'d png_filter \<Rightarrow> 'd png_filter" where
  "png_next_row s =
     (let s = s\<lparr>pf_cur_is_first := \<not> pf_cur_is_first s, pf_has_prev := True\<rparr>;
          s = set_current_row (replicate (length (current_row s)) 0) s
      in s\<lparr>pf_pos := 0\<rparr>)"

text \<open>
  The loop \<open>while len >= left\<close> on the rest of the data. \<open>left\<close> is never zero for a stage that \<open>new\<close> made
  (\<open>png_left_pos\<close>); the test for it only makes the recursion well-founded.
\<close>

function png_loop :: "'d pipeline \<Rightarrow> 'd png_filter \<Rightarrow> bytes \<Rightarrow> nat \<Rightarrow> (pipe_error, 'd png_filter) outcome" where
  "png_loop p s data left =
     (if left \<le> length data \<and> left \<noteq> 0 then
        seq (png_process_row p (copy_into_current s (take left data)))
          (\<lambda>s. let s = png_next_row s in png_loop p s (drop left data) (pf_incoming s))
      else
        let s = (if length data > 0 then copy_into_current s data else s)
        in Done (s\<lparr>pf_pos := pf_pos s + length data\<rparr>))"
  by pat_completeness auto
termination
  by (relation "measure (\<lambda>(p, s, data, left). length data)") auto

declare png_loop.simps [simp del]

definition png_write :: "'d pipeline \<Rightarrow> 'd png_filter \<Rightarrow> bytes \<Rightarrow> (pipe_error, 'd png_filter) outcome" where
  "png_write p s data =
     (if data = [] then Done s
      else let s = ensure_row_buffers s in png_loop p s data (pf_incoming s - pf_pos s))"

definition png_finish :: "'d pipeline \<Rightarrow> 'd png_filter \<Rightarrow> (pipe_error, 'd png_filter) outcome" where
  "png_finish p s =
     seq (if pf_pos s \<noteq> 0 then png_process_row p s else Done s)
       (\<lambda>s. let s = s\<lparr>pf_has_prev := False, pf_cur_is_first := True, pf_pos := 0,
                     pf_buf1 := replicate (length (pf_buf1 s)) 0\<rparr>
            in into (\<lambda>d. s\<lparr>pf_next := d\<rparr>) (pl_finish p (pf_next s)))"

section \<open>The row filters\<close>

text \<open>
  The five filter types of the PNG specification: what is predicted for byte \<open>i\<close> of a row from the bytes
  to its left in the raw row and from the raw row above. The Paeth predictor is the first of left, above and
  upper left that is nearest to \<open>a + b - c\<close>.
\<close>

definition paeth_nearest :: "int \<Rightarrow> int \<Rightarrow> int \<Rightarrow> int" where
  "paeth_nearest a b c =
     (let p = a + b - c in hd (filter (\<lambda>x. \<forall>y \<in> {a, b, c}. \<bar>p - x\<bar> \<le> \<bar>p - y\<bar>) [a, b, c]))"

lemma paeth_predictor_nearest: "paeth_predictor a b c = paeth_nearest a b c"
  by (auto simp: paeth_predictor_def paeth_nearest_def abs_diff_def Let_def)

definition png_predict :: "byte \<Rightarrow> nat \<Rightarrow> bytes \<Rightarrow> bytes \<Rightarrow> nat \<Rightarrow> byte" where
  "png_predict t bpp raw up_row i =
     (let a = (if bpp \<le> i then raw ! (i - bpp) else 0);
          b = up_row ! i;
          c = (if bpp \<le> i then up_row ! (i - bpp) else 0)
      in if t = 1 then a
         else if t = 2 then b
         else if t = 3 then of_int ((uint a + uint b) div 2)
         else if t = 4 then of_int (paeth_nearest (uint a) (uint b) (uint c))
         else 0)"

definition png_filtered :: "byte \<Rightarrow> nat \<Rightarrow> bytes \<Rightarrow> bytes \<Rightarrow> bytes" where
  "png_filtered t bpp raw up_row = map (\<lambda>i. raw ! i - png_predict t bpp raw up_row i) [0..<length raw]"

lemma length_png_filtered [simp]: "length (png_filtered t bpp raw up_row) = length raw"
  by (simp add: png_filtered_def)

text \<open>The loops undo a filter from left to right: after \<open>k\<close> steps the first \<open>k\<close> bytes are raw.\<close>

lemma take_left: "take k xs = take k ys \<Longrightarrow> 0 < n \<Longrightarrow> n \<le> k \<Longrightarrow> xs ! (k - n) = ys ! (k - n)"
  by (metis diff_less less_le_trans nth_take)

lemma undo_loop:
  assumes step: "\<And>k buffer. k < length raw \<Longrightarrow> length buffer = length raw \<Longrightarrow>
      (\<And>n. 0 < n \<Longrightarrow> n \<le> k \<Longrightarrow> buffer ! (k - n) = raw ! (k - n)) \<Longrightarrow>
      f buffer k = buffer[k := buffer ! k + png_predict t bpp raw up_row k]"
  shows "foldl f (png_filtered t bpp raw up_row) [0..<length raw] = raw"
proof -
  have "k \<le> length raw \<Longrightarrow>
      foldl f (png_filtered t bpp raw up_row) [0..<k] = take k raw @ drop k (png_filtered t bpp raw up_row)" for k
  proof (induction k)
    case 0
    then show ?case by simp
  next
    case (Suc k)
    let ?b = "take k raw @ drop k (png_filtered t bpp raw up_row)"
    have k: "k < length raw" using Suc.prems by simp
    have "?b ! k = raw ! k - png_predict t bpp raw up_row k" using k by (simp add: nth_append png_filtered_def)
    moreover have "take k ?b = take k raw" using k by simp
    ultimately have "f ?b k = ?b[k := raw ! k]" using step [of k ?b] k take_left [of k ?b raw] by simp
    also have "\<dots> = take (Suc k) raw @ drop (Suc k) (png_filtered t bpp raw up_row)"
    proof -
      have "k \<le> length raw \<or> length raw \<le> k" by (rule nat_le_linear)
      then show ?thesis
        using k by (simp add: list_update_append take_Suc_conv_app_nth Cons_nth_drop_Suc [symmetric])
    qed
    finally show ?case using Suc k by simp
  qed
  then show ?thesis by simp
qed

lemma decode_sub_undoes: "0 < bpp \<Longrightarrow> decode_sub (png_filtered 1 bpp raw up_row) bpp = raw"
  unfolding decode_sub_def length_png_filtered
  by (rule undo_loop) (simp add: png_predict_def Let_def)

lemma decode_average_undoes: "0 < bpp \<Longrightarrow> decode_average (png_filtered 3 bpp raw up_row) up_row bpp = raw"
  unfolding decode_average_def length_png_filtered
  by (rule undo_loop) (simp add: png_predict_def Let_def)

lemma decode_paeth_undoes: "0 < bpp \<Longrightarrow> decode_paeth (png_filtered 4 bpp raw up_row) up_row bpp = raw"
  unfolding decode_paeth_def length_png_filtered
  by (rule undo_loop) (simp add: png_predict_def Let_def paeth_predictor_nearest)

lemma decode_up_undoes: "length up_row = length raw \<Longrightarrow> decode_up (png_filtered 2 bpp raw up_row) up_row = raw"
  by (rule nth_equalityI) (simp_all add: decode_up_def png_filtered_def png_predict_def nth_append)

lemma png_filtered_none: "t \<notin> {1, 2, 3, 4} \<Longrightarrow> png_filtered t bpp raw up_row = raw"
  by (simp add: png_filtered_def png_predict_def map_nth)

section \<open>Allocated stages\<close>

text \<open>After the first byte both rows have their capacity, and a row in progress is not full.\<close>

definition png_row_len :: "'d png_filter \<Rightarrow> nat" where
  "png_row_len s = pf_bytes_per_row s + (if pf_action s = PngEncode then 0 else 1)"

definition png_ok :: "'d png_filter \<Rightarrow> bool" where
  "png_ok s \<longleftrightarrow> 0 < pf_bytes_per_row s \<and> pf_row_capacity s = pf_bytes_per_row s + 1 \<and>
     pf_incoming s = png_row_len s \<and> pf_pos s < pf_incoming s \<and>
     length (pf_buf1 s) = pf_row_capacity s \<and> length (pf_buf2 s) = pf_row_capacity s"

lemma png_ok_new:
  "png_filter_new next action columns spp bps = Inr s \<Longrightarrow> png_ok (ensure_row_buffers s)"
  by (auto simp: png_filter_new_def png_ok_def png_row_len_def ensure_row_buffers_def Let_def unat_gt_0
      split: if_splits png_filter_action.splits)

lemma png_left_pos: "png_ok s \<Longrightarrow> 0 < pf_incoming s - pf_pos s \<and> 0 < pf_incoming s"
  by (auto simp: png_ok_def)

lemma ensure_ok [simp]: "png_ok s \<Longrightarrow> ensure_row_buffers s = s"
  by (auto simp: png_ok_def ensure_row_buffers_def)

lemma set_current_row_simps [simp]:
  "current_row (set_current_row row s) = row"
  "other_row (set_current_row row s) = other_row s"
  "pf_next (set_current_row row s) = pf_next s"
  "pf_action (set_current_row row s) = pf_action s"
  "pf_bytes_per_row (set_current_row row s) = pf_bytes_per_row s"
  "pf_bytes_per_pixel (set_current_row row s) = pf_bytes_per_pixel s"
  "pf_row_capacity (set_current_row row s) = pf_row_capacity s"
  "pf_cur_is_first (set_current_row row s) = pf_cur_is_first s"
  "pf_has_prev (set_current_row row s) = pf_has_prev s"
  "pf_pos (set_current_row row s) = pf_pos s"
  "pf_incoming (set_current_row row s) = pf_incoming s"
  "set_current_row row (set_current_row row' s) = set_current_row row s"
  by (simp_all add: set_current_row_def current_row_def other_row_def)

lemma row_lengths [simp]:
  "png_ok s \<Longrightarrow> length (current_row s) = pf_bytes_per_row s + 1"
  "png_ok s \<Longrightarrow> length (other_row s) = pf_bytes_per_row s + 1"
  by (simp_all add: png_ok_def current_row_def other_row_def)

lemma png_ok_set [simp]:
  "png_ok s \<Longrightarrow> length row = pf_bytes_per_row s + 1 \<Longrightarrow> png_ok (set_current_row row s)"
  by (auto simp: png_ok_def png_row_len_def set_current_row_def)

lemma png_ok_next [simp]: "png_ok (s\<lparr>pf_next := d\<rparr>) = png_ok s"
  by (simp add: png_ok_def png_row_len_def)

text \<open>Over a vector a row is always processed; what it sends on and what it leaves behind.\<close>

definition decoded_row :: "'d png_filter \<Rightarrow> bytes" where
  "decoded_row s =
     (let n = pf_bytes_per_row s; buffer = take n (drop 1 (current_row s)); up_row = take n (drop 1 (other_row s));
          bpp = pf_bytes_per_pixel s; t = current_row s ! 0
      in if \<not> pf_has_prev s then buffer
         else if t = 1 then decode_sub buffer bpp
         else if t = 2 then decode_up buffer up_row
         else if t = 3 then decode_average buffer up_row bpp
         else if t = 4 then decode_paeth buffer up_row bpp
         else buffer)"

lemma length_foldl_update: "length (foldl (\<lambda>b i. b[i := f b i]) xs is) = length xs"
  by (induction "is" arbitrary: xs) simp_all

lemma length_decode [simp]:
  "length (decode_sub buffer bpp) = length buffer"
  "length (decode_up buffer up_row) = length buffer"
  "length (decode_average buffer up_row bpp) = length buffer"
  "length (decode_paeth buffer up_row bpp) = length buffer"
  by (simp_all add: decode_sub_def decode_up_def decode_average_def decode_paeth_def Let_def
      length_foldl_update case_prod_beta)

lemma length_decoded_row [simp]: "png_ok s \<Longrightarrow> length (decoded_row s) = pf_bytes_per_row s"
  by (simp add: decoded_row_def Let_def)

lemma process_decode:
  assumes "png_ok s" "pf_action s = PngDecode"
  shows "png_process_row vec_sink s =
    Done ((set_current_row (current_row s ! 0 # decoded_row s) s)\<lparr>pf_next := pf_next s @ decoded_row s\<rparr>)"
proof -
  let ?n = "pf_bytes_per_row s"
  obtain b bs where cur: "current_row s = b # bs" "length bs = ?n"
    using row_lengths(1) [OF assms(1)] by (cases "current_row s") auto
  have eq: "current_row s = b # take ?n bs" using cur by simp
  show ?thesis
    using assms cur
    by (simp add: png_process_row_def png_decode_row_def split_rows_def decoded_row_def Let_def)
qed

definition encoded_row :: "'d png_filter \<Rightarrow> bytes" where
  "encoded_row s =
     (let n = pf_bytes_per_row s; row = take n (current_row s)
      in 2 # (if pf_has_prev s then map (\<lambda>(x, y). x - y) (zip row (take n (other_row s))) else row))"

lemma foldm_vec_differences:
  "foldm (\<lambda>d (x, y). Done (d @ [x - y])) d xs = Done (d @ map (\<lambda>(x, y). x - y :: byte) xs)"
  by (induction xs arbitrary: d) auto

lemma process_encode:
  assumes "pf_action s = PngEncode"
  shows "png_process_row vec_sink s = Done (s\<lparr>pf_next := pf_next s @ encoded_row s\<rparr>)"
  using assms
  by (simp add: png_process_row_def png_encode_row_def write_up_predictor_row_def encoded_row_def Let_def
      foldm_vec_differences)

lemma process_done:
  assumes "png_ok s"
  obtains s' where "png_process_row vec_sink s = Done s'" "png_ok s'" "pf_pos s' = pf_pos s"
    "\<And>k. png_process_row vec_sink (s\<lparr>pf_pos := k\<rparr>) = Done (s'\<lparr>pf_pos := k\<rparr>)"
proof (cases "pf_action s")
  case PngEncode
  have "encoded_row (s\<lparr>pf_pos := k\<rparr>) = encoded_row s" for k
    by (simp add: encoded_row_def current_row_def other_row_def Let_def)
  then show ?thesis
    using that [OF process_encode] process_encode [of "s\<lparr>pf_pos := _\<rparr>"] PngEncode assms by simp
next
  case PngDecode
  let ?s' = "(set_current_row (current_row s ! 0 # decoded_row s) s)\<lparr>pf_next := pf_next s @ decoded_row s\<rparr>"
  have "png_process_row vec_sink (s\<lparr>pf_pos := k\<rparr>) = Done (?s'\<lparr>pf_pos := k\<rparr>)" for k
  proof -
    have len: "length (current_row s) = pf_bytes_per_row s + 1" using assms by simp
    then obtain b bs where cur: "current_row s = b # bs" "length bs = pf_bytes_per_row s"
      by (cases "current_row s") auto
    have pos: "current_row (s\<lparr>pf_pos := k\<rparr>) = current_row s" "other_row (s\<lparr>pf_pos := k\<rparr>) = other_row s"
      "\<And>row. set_current_row row (s\<lparr>pf_pos := k\<rparr>) = (set_current_row row s)\<lparr>pf_pos := k\<rparr>"
      by (simp_all add: current_row_def other_row_def set_current_row_def)
    show ?thesis
      using PngDecode cur
      by (simp add: png_process_row_def png_decode_row_def split_rows_def decoded_row_def Let_def pos)
  qed
  then show ?thesis using that [of ?s'] process_decode [OF assms PngDecode] assms by simp
qed

lemma png_ok_next_row [simp]: "png_ok s \<Longrightarrow> png_ok (png_next_row s)"
  by (auto simp: png_ok_def png_row_len_def png_next_row_def Let_def set_current_row_def current_row_def)

lemma png_next_row_simps [simp]:
  "pf_pos (png_next_row s) = 0"
  "pf_incoming (png_next_row s) = pf_incoming s"
  "png_next_row (s\<lparr>pf_pos := k\<rparr>) = png_next_row s"
  by (simp_all add: png_next_row_def Let_def set_current_row_def current_row_def)

lemma length_overwrite: "pos + length data \<le> length row \<Longrightarrow> length (overwrite row pos data) = length row"
  by (simp add: overwrite_def)

lemma overwrite_append:
  "pos + length xs \<le> length row \<Longrightarrow> overwrite (overwrite row pos xs) (pos + length xs) ys = overwrite row pos (xs @ ys)"
proof -
  assume "pos + length xs \<le> length row"
  then have "take (pos + length xs) (overwrite row pos xs) = take pos row @ xs"
    "drop (pos + length xs + length ys) (overwrite row pos xs) = drop (pos + length (xs @ ys)) row"
    by (simp_all add: overwrite_def ac_simps)
  then show ?thesis unfolding overwrite_def [of "overwrite row pos xs"] by (simp add: overwrite_def)
qed

lemma png_room:
  assumes "png_ok s" "length data \<le> pf_incoming s - pf_pos s"
  shows "pf_pos s + length data \<le> length (current_row s)"
  using assms row_lengths(1) [OF assms(1)] by (auto simp: png_ok_def png_row_len_def split: if_splits)

lemma png_ok_copy [simp]:
  "png_ok s \<Longrightarrow> length data \<le> pf_incoming s - pf_pos s \<Longrightarrow> png_ok (copy_into_current s data)"
  unfolding copy_into_current_def using png_room [of s data] by (intro png_ok_set) (simp_all add: length_overwrite)

lemma copy_pos [simp]: "pf_pos (copy_into_current s data) = pf_pos s" "pf_incoming (copy_into_current s data) = pf_incoming s"
  by (simp_all add: copy_into_current_def)

lemma copy_twice:
  assumes "png_ok s" "length xs \<le> pf_incoming s - pf_pos s"
  shows "copy_into_current ((copy_into_current s xs)\<lparr>pf_pos := pf_pos s + length xs\<rparr>) ys =
    (copy_into_current s (xs @ ys))\<lparr>pf_pos := pf_pos s + length xs\<rparr>"
proof -
  from overwrite_append [OF png_room [OF assms]] have
    "overwrite (overwrite (current_row s) (pf_pos s) xs) (pf_pos s + length xs) ys = overwrite (current_row s) (pf_pos s) (xs @ ys)" .
  then show ?thesis
    by (auto simp: copy_into_current_def set_current_row_def current_row_def)
qed

section \<open>Cutting the data\<close>

lemma png_loop_full:
  "left \<le> length data \<Longrightarrow> left \<noteq> 0 \<Longrightarrow>
   png_loop p s data left = seq (png_process_row p (copy_into_current s (take left data)))
     (\<lambda>s. png_loop p (png_next_row s) (drop left data) (pf_incoming s))"
  by (subst png_loop.simps) (simp add: Let_def)

lemma png_loop_part:
  "\<not> left \<le> length data \<Longrightarrow>
   png_loop p s data left =
     Done ((if data = [] then s else copy_into_current s data)\<lparr>pf_pos := pf_pos s + length data\<rparr>)"
  by (subst png_loop.simps) (simp add: Let_def)

lemma png_loop_done:
  "png_ok s \<Longrightarrow> left = pf_incoming s - pf_pos s \<Longrightarrow> \<exists>s'. png_loop vec_sink s data left = Done s' \<and> png_ok s'"
proof (induction "vec_sink" s data left rule: png_loop.induct)
  case (1 s data left)
  have left: "left \<noteq> 0" using png_left_pos [OF 1(2)] 1(3) by simp
  show ?case
  proof (cases "left \<le> length data")
    case True
    obtain s1 where s1: "png_process_row vec_sink (copy_into_current s (take left data)) = Done s1" "png_ok s1"
      by (rule process_done [of "copy_into_current s (take left data)"]) (use 1 in auto)
    have "\<exists>s'. png_loop vec_sink (png_next_row s1) (drop left data) (pf_incoming s1) = Done s' \<and> png_ok s'"
      using 1(1) [of s1 "png_next_row s1"] True left s1 by simp
    then show ?thesis using True left s1(1) by (simp add: png_loop_full)
  next
    case False
    then have "png_ok (s\<lparr>pf_pos := pf_pos s + length data\<rparr>)"
      "png_ok ((copy_into_current s data)\<lparr>pf_pos := pf_pos s + length data\<rparr>)"
      using png_ok_copy [OF 1(2), of data] 1(2,3) by (auto simp: png_ok_def png_row_len_def)
    then show ?thesis using False 1(2) by (simp add: png_loop_part)
  qed
qed

lemma png_loop_split:
  "png_ok s \<Longrightarrow> left = pf_incoming s - pf_pos s \<Longrightarrow>
   png_loop vec_sink s (xs @ ys) left =
     seq (png_loop vec_sink s xs left) (\<lambda>s'. png_loop vec_sink s' ys (pf_incoming s' - pf_pos s'))"
proof (induction "vec_sink" s xs left rule: png_loop.induct)
  case (1 s xs left)
  have left: "left \<noteq> 0" using png_left_pos [OF 1(2)] 1(3) by simp
  show ?case
  proof (cases "left \<le> length xs")
    case True
    obtain s1 where s1: "png_process_row vec_sink (copy_into_current s (take left xs)) = Done s1" "png_ok s1"
      by (rule process_done [of "copy_into_current s (take left xs)"]) (use 1 in auto)
    then show ?thesis
      using 1(1) [of s1 "png_next_row s1"] True left by (simp add: png_loop_full)
  next
    case False
    let ?s' = "(copy_into_current s xs)\<lparr>pf_pos := pf_pos s + length xs\<rparr>" and ?k = "left - length xs"
    show ?thesis
    proof (cases "xs = []")
      case True
      then show ?thesis using left 1(3) by (simp add: png_loop_part)
    next
      case ne: False
      have part: "png_loop vec_sink s xs left = Done ?s'" using False ne by (simp add: png_loop_part)
      have rest: "pf_incoming ?s' - pf_pos ?s' = ?k" using 1(3) by simp
      have copy: "copy_into_current ?s' zs = (copy_into_current s (xs @ zs))\<lparr>pf_pos := pf_pos s + length xs\<rparr>" for zs
        by (rule copy_twice) (use 1(2,3) False in auto)
      show ?thesis
      proof (cases "left \<le> length (xs @ ys)")
        case True
        have take: "take left (xs @ ys) = xs @ take ?k ys" and drop: "drop left (xs @ ys) = drop ?k ys"
          using False by simp_all
        have ok: "png_ok (copy_into_current s (xs @ take ?k ys))" using 1(2,3) False by simp
        obtain s1 where s1: "png_process_row vec_sink (copy_into_current s (xs @ take ?k ys)) = Done s1"
          "\<And>k. png_process_row vec_sink ((copy_into_current s (xs @ take ?k ys))\<lparr>pf_pos := k\<rparr>) = Done (s1\<lparr>pf_pos := k\<rparr>)"
          by (rule process_done [OF ok]) blast
        show ?thesis
          using True False left s1
          unfolding part seq.simps rest by (simp add: png_loop_full [of left] png_loop_full [of ?k] copy)
      next
        case long: False
        then show ?thesis
          using ne False unfolding part seq.simps rest
          by (simp add: png_loop_part [of left] png_loop_part [of ?k] copy)
      qed
    qed
  qed
qed

definition png_inv :: "'d png_filter \<Rightarrow> bool" where
  "png_inv s \<longleftrightarrow> png_ok (ensure_row_buffers s)"

lemma ensure_pos [simp]: "pf_pos (ensure_row_buffers s) = pf_pos s" "pf_incoming (ensure_row_buffers s) = pf_incoming s"
  by (simp_all add: ensure_row_buffers_def)

interpretation png: row_stage "png_write vec_sink" png_inv
proof unfold_locales
  fix s :: "bytes png_filter" and xs ys
  assume inv: "png_inv s"
  show "png_write vec_sink s [] = Done s" by (simp add: png_write_def)
  obtain s' where s': "png_loop vec_sink (ensure_row_buffers s) xs (pf_incoming s - pf_pos s) = Done s'" "png_ok s'"
    using png_loop_done [of "ensure_row_buffers s" _ xs] inv by (auto simp: png_inv_def)
  show "png_write vec_sink s (xs @ ys) = seq (png_write vec_sink s xs) (\<lambda>s'. png_write vec_sink s' ys)"
  proof (cases "xs = [] \<or> ys = []")
    case True
    then show ?thesis by (auto simp: png_write_def)
  next
    case False
    have "png_loop vec_sink (ensure_row_buffers s) (xs @ ys) (pf_incoming s - pf_pos s) =
        png_loop vec_sink s' ys (pf_incoming s' - pf_pos s')"
      using png_loop_split [of "ensure_row_buffers s" _ xs ys] inv s'(1) by (simp add: png_inv_def)
    then show ?thesis using False s' by (simp add: png_write_def Let_def)
  qed
  show "png_inv s'" if "png_write vec_sink s xs = Done s'" for s'
    using that inv s' by (cases "xs = []") (auto simp: png_write_def Let_def png_inv_def)
qed

section \<open>Whole streams\<close>

text \<open>Rows filtered as the specification has it, each by a filter of its own, one after the other.\<close>

fun png_stream :: "nat \<Rightarrow> bytes \<Rightarrow> (byte \<times> bytes) list \<Rightarrow> bytes" where
  "png_stream bpp prev [] = []"
| "png_stream bpp prev ((t, raw) # rows) = t # png_filtered t bpp raw prev @ png_stream bpp raw rows"

lemma copy_whole_row:
  assumes "png_ok s" "pf_pos s = 0" "length row = pf_bytes_per_row s + 1"
  shows "copy_into_current s row = set_current_row row s"
  using assms by (simp add: copy_into_current_def overwrite_def)

lemma next_row_simps [simp]:
  "other_row (png_next_row s) = current_row s"
  "pf_has_prev (png_next_row s)"
  "pf_next (png_next_row s) = pf_next s"
  "pf_action (png_next_row s) = pf_action s"
  "pf_bytes_per_row (png_next_row s) = pf_bytes_per_row s"
  "pf_bytes_per_pixel (png_next_row s) = pf_bytes_per_pixel s"
  "current_row (png_next_row s) = replicate (length (other_row s)) 0"
  by (simp_all add: png_next_row_def Let_def set_current_row_def current_row_def other_row_def)

lemma current_row_next [simp]:
  "current_row (s\<lparr>pf_next := d\<rparr>) = current_row s" "other_row (s\<lparr>pf_next := d\<rparr>) = other_row s"
  by (simp_all add: current_row_def other_row_def)

lemma decoded_row_filtered:
  assumes "png_ok s" "pf_has_prev s" "current_row s = t # png_filtered t (pf_bytes_per_pixel s) raw prev"
    "length raw = pf_bytes_per_row s" "take (pf_bytes_per_row s) (drop 1 (other_row s)) = prev"
    "t \<in> {1, 3, 4} \<longrightarrow> 0 < pf_bytes_per_pixel s"
  shows "decoded_row s = raw"
proof -
  have "length prev = length raw" using assms(1,4,5) by auto
  then show ?thesis
    using assms decode_sub_undoes decode_up_undoes decode_average_undoes decode_paeth_undoes
      png_filtered_none [of t "pf_bytes_per_pixel s" raw prev]
    by (auto simp: decoded_row_def Let_def)
qed

lemma decode_rows:
  assumes "png_ok s" "pf_action s = PngDecode" "pf_has_prev s" "pf_pos s = 0"
    "take (pf_bytes_per_row s) (drop 1 (other_row s)) = prev"
    "\<forall>(t, raw) \<in> set rows. length raw = pf_bytes_per_row s \<and> (t \<in> {1, 3, 4} \<longrightarrow> 0 < pf_bytes_per_pixel s)"
  shows "\<exists>s'. png_loop vec_sink s (png_stream (pf_bytes_per_pixel s) prev rows) (pf_incoming s) = Done s' \<and>
    pf_pos s' = 0 \<and> pf_next s' = pf_next s @ concat (map snd rows)"
  using assms
proof (induction rows arbitrary: s prev)
  case Nil
  then have "\<not> pf_incoming s \<le> length ([] :: bytes)" by (simp add: png_ok_def)
  then show ?case using Nil by (simp add: png_loop_part)
next
  case (Cons row rows)
  obtain t raw where row: "row = (t, raw)" by (cases row)
  let ?f = "t # png_filtered t (pf_bytes_per_pixel s) raw prev"
  have raw: "length raw = pf_bytes_per_row s" "t \<in> {1, 3, 4} \<longrightarrow> 0 < pf_bytes_per_pixel s"
    using Cons.prems(6) row by auto
  have inc: "pf_incoming s = length ?f" using Cons.prems(1,2) raw by (simp add: png_ok_def png_row_len_def)
  let ?s1 = "set_current_row ?f s"
  have ok: "png_ok ?s1" using Cons.prems(1) raw by (intro png_ok_set) simp_all
  have copy: "copy_into_current s ?f = ?s1" using Cons.prems(1,4) raw by (intro copy_whole_row) simp_all
  have dec: "decoded_row ?s1 = raw"
    by (rule decoded_row_filtered [where t = t and prev = prev]) (use ok Cons.prems(3,5) raw in simp_all)
  have process: "png_process_row vec_sink ?s1 = Done ((set_current_row (t # raw) s)\<lparr>pf_next := pf_next s @ raw\<rparr>)"
    using process_decode [OF ok] Cons.prems(2) dec by simp
  let ?s2 = "png_next_row ((set_current_row (t # raw) s)\<lparr>pf_next := pf_next s @ raw\<rparr>)"
  have ok2: "png_ok ?s2" using Cons.prems(1) raw by simp
  have "\<exists>s'. png_loop vec_sink ?s2 (png_stream (pf_bytes_per_pixel ?s2) raw rows) (pf_incoming ?s2) = Done s' \<and>
      pf_pos s' = 0 \<and> pf_next s' = pf_next ?s2 @ concat (map snd rows)"
    by (rule Cons.IH [OF ok2]) (use Cons.prems(2,6) raw in auto)
  moreover have "png_loop vec_sink s (?f @ png_stream (pf_bytes_per_pixel s) raw rows) (pf_incoming s) =
      png_loop vec_sink ?s2 (png_stream (pf_bytes_per_pixel s) raw rows) (pf_incoming s)"
    using inc copy process by (simp add: png_loop_full)
  ultimately show ?case unfolding row by simp
qed

lemma png_new_fields:
  assumes "png_filter_new next action columns spp bps = Inr s"
  shows "pf_next s = next" "pf_action s = action" "pf_has_prev s" "pf_pos s = 0" "pf_buf1 s = []" "pf_cur_is_first s"
    "pf_incoming s = png_row_len s" "pf_row_capacity s = pf_bytes_per_row s + 1"
  using assms by (auto simp: png_filter_new_def Let_def png_row_len_def split: if_splits png_filter_action.splits)

lemma png_decodes:
  assumes "png_filter_new out PngDecode columns spp bps = Inr s"
    "\<forall>(t, raw) \<in> set rows. length raw = pf_bytes_per_row s \<and> (t \<in> {1, 3, 4} \<longrightarrow> 0 < pf_bytes_per_pixel s)"
    "concat writes = png_stream (pf_bytes_per_pixel s) (replicate (pf_bytes_per_row s) 0) rows"
  shows "\<exists>s'. seq (feed (png_write vec_sink) s writes) (png_finish vec_sink) = Done s' \<and>
    pf_next s' = out @ concat (map snd rows)"
proof -
  note new = png_new_fields [OF assms(1)]
  let ?e = "ensure_row_buffers s"
  have ok: "png_ok ?e" by (rule png_ok_new [OF assms(1)])
  have e: "pf_next ?e = out" "pf_action ?e = PngDecode" "pf_has_prev ?e" "pf_bytes_per_row ?e = pf_bytes_per_row s"
    "pf_bytes_per_pixel ?e = pf_bytes_per_pixel s"
    "take (pf_bytes_per_row s) (drop 1 (other_row ?e)) = replicate (pf_bytes_per_row s) 0"
    using new by (simp_all add: ensure_row_buffers_def other_row_def)
  have feed: "feed (png_write vec_sink) s writes = png_write vec_sink s (concat writes)"
    by (rule png.feed_concat) (simp add: png_inv_def ok)
  show ?thesis
  proof (cases "rows = []")
    case True
    then show ?thesis using feed assms(3) new by (simp add: png_write_def png_finish_def)
  next
    case False
    obtain s' where s': "png_loop vec_sink ?e (concat writes) (pf_incoming ?e) = Done s'" "pf_pos s' = 0"
      "pf_next s' = out @ concat (map snd rows)"
      using decode_rows [OF ok e(2,3), of "replicate (pf_bytes_per_row s) 0" rows] e new assms(2,3) by auto
    have "concat writes \<noteq> []" using False assms(3) by (cases rows) auto
    then have "png_write vec_sink s (concat writes) = Done s'" using s'(1) new(4) by (simp add: png_write_def Let_def del: concat_eq_Nil_conv)
    then show ?thesis using feed s' by (simp add: png_finish_def)
  qed
qed

text \<open>
  C32: fed with rows filtered as the PNG specification has it, whatever filter each row chose and however
  the data is cut into writes, the decoder sends on exactly the raw rows.
\<close>

theorem png_decoder_inverts_filters:
  assumes "png_filter_new out PngDecode columns spp bps = Inr s"
    "\<forall>(t, raw) \<in> set rows. length raw = pf_bytes_per_row s \<and> (t \<in> {1, 3, 4} \<longrightarrow> 0 < pf_bytes_per_pixel s)"
    "concat writes = png_stream (pf_bytes_per_pixel s) (replicate (pf_bytes_per_row s) 0) rows"
  shows "\<exists>s'. seq (feed (png_write vec_sink) s writes) (png_finish vec_sink) = Done s' \<and>
    pf_next s' = out @ concat (map snd rows)"
  by (rule png_decodes [OF assms])

text \<open>The encoder writes the Up filter of every row, the last one padded with zeros.\<close>

lemma up_filtered: "length raw = length prev \<Longrightarrow> map (\<lambda>(x, y). x - y) (zip raw prev) = png_filtered 2 bpp raw prev"
  by (rule nth_equalityI) (simp_all add: png_filtered_def png_predict_def)

lemma png_stream_snoc:
  "png_stream bpp prev (rows @ [(t, raw)]) =
     png_stream bpp prev rows @ t # png_filtered t bpp raw (last (prev # map snd rows))"
  by (induction bpp prev rows rule: png_stream.induct) simp_all

lemma encode_rows:
  assumes "png_ok s" "pf_action s = PngEncode" "pf_has_prev s" "pf_pos s = 0"
    "current_row s = replicate (pf_bytes_per_row s + 1) 0" "take (pf_bytes_per_row s) (other_row s) = prev"
    "\<forall>raw \<in> set raws. length raw = pf_bytes_per_row s" "length rest < pf_bytes_per_row s"
  shows "\<exists>s'. png_loop vec_sink s (concat raws @ rest) (pf_incoming s) = Done s' \<and>
    png_ok s' \<and> pf_action s' = PngEncode \<and> pf_has_prev s' \<and> pf_bytes_per_row s' = pf_bytes_per_row s \<and>
    pf_pos s' = length rest \<and> pf_next s' = pf_next s @ png_stream bpp prev (map (Pair 2) raws) \<and>
    take (pf_bytes_per_row s) (current_row s') = rest @ replicate (pf_bytes_per_row s - length rest) 0 \<and>
    take (pf_bytes_per_row s) (other_row s') = last (prev # raws)"
  using assms
proof (induction raws arbitrary: s prev)
  case Nil
  have inc: "pf_incoming s = pf_bytes_per_row s" using Nil.prems(1,2) by (simp add: png_ok_def png_row_len_def)
  then have part: "\<not> pf_incoming s \<le> length rest" using Nil.prems(8) by simp
  let ?s' = "(if rest = [] then s else copy_into_current s rest)\<lparr>pf_pos := pf_pos s + length rest\<rparr>"
  have ok: "png_ok (copy_into_current s rest)" using Nil.prems(1,4,8) inc by (intro png_ok_copy) simp_all
  have "png_ok ?s'" using ok Nil.prems(1,4,8) inc by (auto simp: png_ok_def png_row_len_def)
  moreover have "take (pf_bytes_per_row s) (current_row ?s') = rest @ replicate (pf_bytes_per_row s - length rest) 0"
    "other_row ?s' = other_row s" "pf_action ?s' = PngEncode" "pf_has_prev ?s'" "pf_next ?s' = pf_next s"
    "pf_bytes_per_row ?s' = pf_bytes_per_row s"
    using Nil.prems(2-5,8)
    by (auto simp: copy_into_current_def overwrite_def set_current_row_def current_row_def other_row_def min_def
        simp del: replicate_Suc)
  ultimately show ?case using part Nil.prems(4,6) by (simp add: png_loop_part)
next
  case (Cons raw raws)
  have inc: "pf_incoming s = pf_bytes_per_row s" using Cons.prems(1,2) by (simp add: png_ok_def png_row_len_def)
  have raw: "length raw = pf_bytes_per_row s" using Cons.prems(7) by simp
  let ?cur = "raw @ [0]"
  have "drop (pf_bytes_per_row s) (replicate (pf_bytes_per_row s + 1) 0) = [0 :: byte]"
    by (simp only: drop_replicate) simp
  then have copy: "copy_into_current s raw = set_current_row ?cur s"
    using Cons.prems(4,5) raw by (simp add: copy_into_current_def overwrite_def)
  let ?s1 = "set_current_row ?cur s"
  have len: "length raw = length prev" using raw Cons.prems(1,6) by auto
  have enc: "encoded_row ?s1 = 2 # png_filtered 2 bpp raw prev"
    using Cons.prems(3,6) raw up_filtered [OF len] by (simp add: encoded_row_def Let_def)
  have process: "png_process_row vec_sink ?s1 = Done (?s1\<lparr>pf_next := pf_next s @ 2 # png_filtered 2 bpp raw prev\<rparr>)"
    using process_encode [of ?s1] Cons.prems(2) enc by simp
  let ?s2 = "png_next_row (?s1\<lparr>pf_next := pf_next s @ 2 # png_filtered 2 bpp raw prev\<rparr>)"
  have ok2: "png_ok ?s2" using Cons.prems(1) raw by simp
  have s2: "pf_bytes_per_row ?s2 = pf_bytes_per_row s" "pf_incoming ?s2 = pf_incoming s"
    "pf_next ?s2 = pf_next s @ 2 # png_filtered 2 bpp raw prev" by simp_all
  have IH: "\<exists>s'. png_loop vec_sink ?s2 (concat raws @ rest) (pf_incoming ?s2) = Done s' \<and>
    png_ok s' \<and> pf_action s' = PngEncode \<and> pf_has_prev s' \<and> pf_bytes_per_row s' = pf_bytes_per_row ?s2 \<and>
    pf_pos s' = length rest \<and> pf_next s' = pf_next ?s2 @ png_stream bpp raw (map (Pair 2) raws) \<and>
    take (pf_bytes_per_row ?s2) (current_row s') = rest @ replicate (pf_bytes_per_row ?s2 - length rest) 0 \<and>
    take (pf_bytes_per_row ?s2) (other_row s') = last (raw # raws)"
    by (rule Cons.IH [OF ok2]) (use Cons.prems raw in auto)
  have step: "png_loop vec_sink s (concat (raw # raws) @ rest) (pf_incoming s) =
      png_loop vec_sink ?s2 (concat raws @ rest) (pf_incoming ?s2)"
    using inc raw copy process Cons.prems(8) by (simp add: png_loop_full)
  show ?case using IH unfolding step s2 by simp
qed

lemma png_encodes:
  assumes "png_filter_new [] PngEncode columns spp bps = Inr e" "concat writes = concat raws @ rest"
    "\<forall>r \<in> set raws. length r = pf_bytes_per_row e" "length rest < pf_bytes_per_row e"
  defines "k \<equiv> if rest = [] then 0 else pf_bytes_per_row e - length rest"
  shows "\<exists>e'. seq (feed (png_write vec_sink) e writes) (png_finish vec_sink) = Done e' \<and>
    pf_next e' = png_stream bpp (replicate (pf_bytes_per_row e) 0)
      (map (Pair 2) (if rest = [] then raws else raws @ [rest @ replicate k 0]))"
proof -
  note new = png_new_fields [OF assms(1)]
  let ?e = "ensure_row_buffers e" and ?W = "pf_bytes_per_row e"
  let ?zero = "replicate ?W 0 :: bytes"
  have ok: "png_ok ?e" by (rule png_ok_new [OF assms(1)])
  have e: "pf_next ?e = []" "pf_action ?e = PngEncode" "pf_has_prev ?e" "pf_bytes_per_row ?e = ?W" "pf_pos ?e = 0"
    "current_row ?e = replicate (pf_bytes_per_row ?e + 1) 0" "take (pf_bytes_per_row ?e) (other_row ?e) = ?zero"
    using new by (simp_all add: ensure_row_buffers_def other_row_def current_row_def del: replicate_Suc)
  have feed: "feed (png_write vec_sink) e writes = png_write vec_sink e (concat writes)"
    by (rule png.feed_concat) (simp add: png_inv_def ok)
  show ?thesis
  proof (cases "concat writes = []")
    case True
    then have "rest = []" "concat raws = []" using assms(2) by simp_all
    then have "raws = []" using assms(3,4) by (cases raws) auto
    then show ?thesis
      using feed True \<open>rest = []\<close> new
      by (simp add: png_write_def png_finish_def del: concat_eq_Nil_conv)
  next
    case False
    obtain s' where s': "png_loop vec_sink ?e (concat writes) (pf_incoming ?e) = Done s'" "png_ok s'"
      "pf_action s' = PngEncode" "pf_has_prev s'" "pf_bytes_per_row s' = ?W" "pf_pos s' = length rest"
      "pf_next s' = png_stream bpp ?zero (map (Pair 2) raws)"
      "take ?W (current_row s') = rest @ replicate (?W - length rest) 0" "take ?W (other_row s') = last (?zero # raws)"
      using encode_rows [OF ok e(2,3,5,6,7), of raws rest bpp] assms(2-4) e by auto
    have wr: "png_write vec_sink e (concat writes) = Done s'"
      using s'(1) new(4) False by (simp add: png_write_def Let_def del: concat_eq_Nil_conv)
    show ?thesis
    proof (cases "rest = []")
      case True
      then show ?thesis using feed wr s' by (simp add: png_finish_def)
    next
      case False
      let ?pad = "rest @ replicate (?W - length rest) 0"
      have last: "length ?pad = length (last (?zero # raws))" using assms(3,4) by (cases raws rule: rev_cases) simp_all
      have "encoded_row s' = 2 # png_filtered 2 bpp ?pad (last (?zero # raws))"
        using s'(4,5,8,9) up_filtered [OF last, of bpp] by (simp add: encoded_row_def Let_def)
      then have process: "png_process_row vec_sink s' = Done (s'\<lparr>pf_next := pf_next s' @
          2 # png_filtered 2 bpp ?pad (last (?zero # raws))\<rparr>)"
        using process_encode [OF s'(3)] by simp
      have ne: "pf_pos s' \<noteq> 0" using s'(6) False by simp
      have stream: "png_stream bpp ?zero (map (Pair 2) (raws @ [?pad])) =
          pf_next s' @ 2 # png_filtered 2 bpp ?pad (last (?zero # raws))"
        using png_stream_snoc [of bpp ?zero "map (Pair 2) raws" 2 ?pad] s'(7) by (simp add: o_def)
      have "seq (feed (png_write vec_sink) e writes) (png_finish vec_sink) =
          png_finish vec_sink s'" using feed wr by simp
      moreover have "\<exists>e'. png_finish vec_sink s' = Done e' \<and>
          pf_next e' = pf_next s' @ 2 # png_filtered 2 bpp ?pad (last (?zero # raws))"
        unfolding png_finish_def process using ne by (simp add: Let_def)
      ultimately show ?thesis unfolding stream [symmetric] using False by (simp add: k_def)
    qed
  qed
qed

text \<open>
  C33: what the encoder writes, however its input was cut into writes, the decoder of the same geometry turns
  back into that input, however the encoded bytes are cut; a partial last row comes back padded with zeros.
\<close>

theorem png_up_roundtrip:
  assumes "png_filter_new [] PngEncode columns spp bps = Inr e" "png_filter_new [] PngDecode columns spp bps = Inr d"
  shows "\<exists>e'. seq (feed (png_write vec_sink) e writes) (png_finish vec_sink) = Done e' \<and>
    (\<forall>cut. concat cut = pf_next e' \<longrightarrow>
      (\<exists>d' k. seq (feed (png_write vec_sink) d cut) (png_finish vec_sink) = Done d' \<and>
        pf_next d' = concat writes @ replicate k 0 \<and> k < pf_bytes_per_row e \<and>
        pf_bytes_per_row e dvd length (concat writes) + k))"
proof -
  note new = png_new_fields [OF assms(1)]
  let ?e = "ensure_row_buffers e" and ?W = "pf_bytes_per_row e"
  let ?zero = "replicate ?W 0 :: bytes"
  have W: "0 < ?W" using png_ok_new [OF assms(1)] by (simp add: png_ok_def ensure_row_buffers_def split: if_splits)
  have same: "pf_bytes_per_row d = ?W" using assms by (auto simp: png_filter_new_def Let_def split: if_splits)
  obtain raws rest where data: "concat writes = concat raws @ rest" "\<forall>r \<in> set raws. length r = ?W" "length rest < ?W"
    by (rule rows_and_rest [OF W])
  define k where "k = (if rest = [] then 0 else ?W - length rest)"
  define rows where "rows = (if rest = [] then raws else raws @ [rest @ replicate k 0])"
  obtain e' where enc: "seq (feed (png_write vec_sink) e writes) (png_finish vec_sink) = Done e'"
      "pf_next e' = png_stream (pf_bytes_per_pixel d) ?zero (map (Pair 2) rows)"
    using png_encodes [OF assms(1) data] unfolding rows_def k_def by blast
  have len: "length r = ?W" if "r \<in> set rows" for r
    using that data(2,3) by (auto simp: rows_def k_def split: if_splits)
  have dec: "\<exists>d'. seq (feed (png_write vec_sink) d cut) (png_finish vec_sink) = Done d' \<and> pf_next d' = concat rows"
    if "concat cut = pf_next e'" for cut
    using png_decodes [OF assms(2), of "map (Pair 2) rows" cut] that enc(2) same len by (auto simp: o_def)
  have pad: "concat rows = concat writes @ replicate k 0" "k < ?W"
    using data(1,3) W by (auto simp: rows_def k_def)
  have "?W dvd length (concat rows)"
    using len by (induction rows) (auto intro: dvd_add)
  then have "?W dvd length (concat writes) + k" unfolding pad(1) by simp
  then have "\<exists>d' k. seq (feed (png_write vec_sink) d cut) (png_finish vec_sink) = Done d' \<and>
      pf_next d' = concat writes @ replicate k 0 \<and> k < ?W \<and> ?W dvd length (concat writes) + k"
    if "concat cut = pf_next e'" for cut
    using dec [OF that] pad by metis
  then show ?thesis using enc(1) by blast
qed

lemma png_new_two_columns:
  obtains s where "png_filter_new ([] :: bytes) action 2 1 8 = Inr s" "pf_bytes_per_row s = 2" "pf_bytes_per_pixel s = 1"
  by (auto simp: png_filter_new_def Let_def)

theorem png_decoder_inverts_filters_witness:
  "\<exists>s s'. png_filter_new [] PngDecode 2 1 8 = Inr s \<and>
    seq (feed (png_write vec_sink) s [[1, 1], [1, 2, 2, 3]]) (png_finish vec_sink) = Done s' \<and>
    pf_next s' = [1, 2, 3, 5]"
proof -
  obtain s where s: "png_filter_new ([] :: bytes) PngDecode 2 1 8 = Inr s" "pf_bytes_per_row s = 2" "pf_bytes_per_pixel s = 1"
    by (rule png_new_two_columns)
  have "concat [[1, 1], [1, 2, 2, 3]] =
      png_stream (pf_bytes_per_pixel s) (replicate (pf_bytes_per_row s) 0) [(1, [1, 2]), (2, [3, 5])]"
    using s by (simp add: png_filtered_def png_predict_def upt_rec numeral_2_eq_2)
  from png_decoder_inverts_filters [OF s(1) _ this] s show ?thesis by auto
qed

theorem png_up_roundtrip_witness:
  "\<exists>e d e'. png_filter_new [] PngEncode 2 1 8 = Inr e \<and> png_filter_new [] PngDecode 2 1 8 = Inr d \<and>
    seq (feed (png_write vec_sink) e [[7], [8, 9]]) (png_finish vec_sink) = Done e' \<and>
    (\<exists>d'. seq (feed (png_write vec_sink) d [pf_next e']) (png_finish vec_sink) = Done d' \<and> pf_next d' = [7, 8, 9, 0])"
proof -
  obtain e where e: "png_filter_new ([] :: bytes) PngEncode 2 1 8 = Inr e" "pf_bytes_per_row e = 2" by (rule png_new_two_columns)
  obtain d where d: "png_filter_new ([] :: bytes) PngDecode 2 1 8 = Inr d" by (rule png_new_two_columns)
  obtain e' where e': "seq (feed (png_write vec_sink) e [[7], [8, 9]]) (png_finish vec_sink) = Done e'"
    "\<And>cut. concat cut = pf_next e' \<Longrightarrow>
      \<exists>d' k. seq (feed (png_write vec_sink) d cut) (png_finish vec_sink) = Done d' \<and>
        pf_next d' = concat [[7], [8, 9]] @ replicate k 0 \<and> k < pf_bytes_per_row e \<and>
        pf_bytes_per_row e dvd length (concat [[7 :: byte], [8, 9]]) + k"
    using png_up_roundtrip [OF e(1) d, of "[[7], [8, 9]]"] by blast
  obtain d' k where d': "seq (feed (png_write vec_sink) d [pf_next e']) (png_finish vec_sink) = Done d'"
    "pf_next d' = [7, 8, 9] @ replicate k 0" "k < 2" "even (3 + k)"
    using e'(2) [of "[pf_next e']"] e(2) by auto
  then have "k = 1" by (cases "k = 0") auto
  then show ?thesis using e(1) d e'(1) d'(1,2) by auto
qed

end
