(* ===== verification/Tokenizer.thy ===== *)
theory Tokenizer
  imports Pdf_Syntax Errors
begin

text \<open>
  The PDF tokenizer (\<open>crates/flpdf/src/tokenizer.rs\<close>): token types, tokens, the 21-state character
  machine, its push interface (\<open>present_character\<close>, \<open>present_eof\<close>, \<open>get_token\<close>, \<open>get_live_token\<close>) and
  its pull interface (\<open>read_token_with_options\<close>, the inline-image search). Here: the model, and that
  the character machine leaves the input, the position and the options alone.
\<close>

section \<open>Tokens\<close>

datatype token_type = T_Bad | T_ArrayClose | T_ArrayOpen | T_BraceClose | T_BraceOpen | T_DictClose
  | T_DictOpen | T_Integer | T_Name | T_Real | T_String | T_Null | T_Bool | T_Word | T_Eof | T_Space
  | T_Comment | T_InlineImage

record token =
  tok_type :: token_type
  tok_value :: bytes
  tok_raw :: bytes
  tok_error_message :: "bytes option"
  tok_error_offset :: nat
  tok_start :: nat
  tok_end :: nat

text \<open>\<open>PartialEq\<close>: a bad token equals nothing, not even itself.\<close>

definition token_eq :: "token \<Rightarrow> token \<Rightarrow> bool" where
  "token_eq a b \<longleftrightarrow> tok_type a \<noteq> T_Bad \<and> tok_type a = tok_type b \<and> tok_value a = tok_value b"

definition from_parts ::
  "token_type \<Rightarrow> bytes \<Rightarrow> bytes \<Rightarrow> bytes option \<Rightarrow> nat \<Rightarrow> nat \<Rightarrow> token" where
  "from_parts ty v raw error_message start end' =
     \<lparr>tok_type = ty, tok_value = v, tok_raw = raw, tok_error_message = error_message,
      tok_error_offset = start, tok_start = start, tok_end = end'\<rparr>"

definition canonical_name_raw :: "bytes \<Rightarrow> bytes" where
  "canonical_name_raw v =
     0x2F # write_name_escaped (case v of b # bs \<Rightarrow> if b = 0x2F then bs else v | [] \<Rightarrow> [])"

text \<open>The counting loop; \<open>None\<close> is \<open>force_hex\<close> with its \<open>break\<close>.\<close>

fun string_scan :: "bytes \<Rightarrow> nat \<Rightarrow> nat option" where
  "string_scan [] non_ascii = Some non_ascii"
| "string_scan (b # bs) non_ascii =
     (if b > 126 then string_scan bs (non_ascii + 1)
      else if b \<ge> 32 then string_scan bs non_ascii
      else if b \<ge> 24 then string_scan bs (non_ascii + 1)
      else if b \<notin> {0x0A, 0x0D, 0x09, 0x08, 0x0C} then None
      else string_scan bs non_ascii)"

definition canonical_string_char :: "byte \<Rightarrow> bytes" where
  "canonical_string_char b =
     (if b = 0x0A then [0x5C, 0x6E]
      else if b = 0x0D then [0x5C, 0x72]
      else if b = 0x09 then [0x5C, 0x74]
      else if b = 0x08 then [0x5C, 0x62]
      else if b = 0x0C then [0x5C, 0x66]
      else if b = 0x28 then [0x5C, 0x28]
      else if b = 0x29 then [0x5C, 0x29]
      else if b = 0x5C then [0x5C, 0x5C]
      else if 32 \<le> b \<and> b \<le> 126 \<or> 160 \<le> b then [b]
      else [0x5C, 0x30 + (drop_bit 6 b AND 7), 0x30 + (drop_bit 3 b AND 7), 0x30 + (b AND 7)])"

definition canonical_string_raw :: "bytes \<Rightarrow> bytes" where
  "canonical_string_raw v =
     (if (case string_scan v 0 of None \<Rightarrow> True | Some non_ascii \<Rightarrow> 5 * non_ascii > length v)
      then [0x3C] @ concat (map hex_pair v) @ [0x3E]
      else [0x28] @ concat (map canonical_string_char v) @ [0x29])"

definition token_new :: "token_type \<Rightarrow> bytes \<Rightarrow> token" where
  "token_new ty v =
     from_parts ty v
       (case ty of T_Name \<Rightarrow> canonical_name_raw v | T_String \<Rightarrow> canonical_string_raw v | _ \<Rightarrow> v) None 0 0"

definition is_integer :: "token \<Rightarrow> bool" where
  "is_integer t \<longleftrightarrow> tok_type t = T_Integer"

definition is_word :: "token \<Rightarrow> bool" where
  "is_word t \<longleftrightarrow> tok_type t = T_Word"

definition is_word_value :: "token \<Rightarrow> bytes \<Rightarrow> bool" where
  "is_word_value t v \<longleftrightarrow> is_word t \<and> tok_value t = v"

section \<open>The state\<close>

datatype state = S_InHexString | S_InString | S_InHexStringSecond | S_Name | S_Literal | S_InSpace
  | S_InComment | S_StringEscape | S_CharCode | S_StringAfterCr | S_Lt | S_Gt | S_InlineImage | S_Sign
  | S_Number | S_Real | S_Decimal | S_NameHex1 | S_NameHex2 | S_BeforeToken | S_TokenReady

datatype tokenizer_state_error = TokenWaiting | ImproperInlineImageState

record tokenizer =
  tk_input :: bytes
  tk_pos :: nat
  tk_state :: state
  tk_allow_eof :: bool
  tk_include_ignorable :: bool
  tk_token_type :: token_type
  tk_value :: bytes
  tk_raw :: bytes
  tk_error_message :: "bytes option"
  tk_before_token :: bool
  tk_in_token :: bool
  tk_char_to_unread :: "byte option"
  tk_inline_image_bytes :: nat
  tk_bad :: bool
  tk_string_depth :: nat
  tk_char_code :: "16 word"
  tk_hex_byte :: byte
  tk_digit_count :: nat
  tk_token_start :: nat

definition tokenizer_new :: "bytes \<Rightarrow> tokenizer" where
  "tokenizer_new inp =
     \<lparr>tk_input = inp, tk_pos = 0, tk_state = S_BeforeToken, tk_allow_eof = False,
      tk_include_ignorable = False, tk_token_type = T_Bad, tk_value = [], tk_raw = [],
      tk_error_message = None, tk_before_token = True, tk_in_token = False, tk_char_to_unread = None,
      tk_inline_image_bytes = 0, tk_bad = False, tk_string_depth = 0, tk_char_code = 0,
      tk_hex_byte = 0, tk_digit_count = 0, tk_token_start = 0\<rparr>"

definition allow_eof :: "tokenizer \<Rightarrow> tokenizer" where
  "allow_eof t = t\<lparr>tk_allow_eof := True\<rparr>"

definition include_ignorable :: "tokenizer \<Rightarrow> tokenizer" where
  "include_ignorable t = t\<lparr>tk_include_ignorable := True\<rparr>"

definition tk_reset :: "tokenizer \<Rightarrow> tokenizer" where
  "tk_reset t =
     t\<lparr>tk_state := S_BeforeToken, tk_token_type := T_Bad, tk_value := [], tk_raw := [],
       tk_error_message := None, tk_before_token := True, tk_in_token := False,
       tk_char_to_unread := None, tk_inline_image_bytes := 0, tk_string_depth := 0, tk_bad := False,
       tk_char_code := 0, tk_hex_byte := 0, tk_digit_count := 0, tk_token_start := tk_pos t\<rparr>"

text \<open>\<open>take_ready_token\<close>: every caller resets the tokenizer next, so the buffers it empties are gone.\<close>

definition take_ready_token :: "tokenizer \<Rightarrow> token" where
  "take_ready_token t =
     from_parts (tk_token_type t)
       (if tk_token_type t = T_Name \<or> tk_token_type t = T_String then tk_value t else tk_raw t)
       (tk_raw t) (tk_error_message t) (tk_token_start t) (tk_token_start t + length (tk_raw t))"

section \<open>The character machine\<close>

text \<open>The three ways a handler ends a token: keeping the byte, or giving it back.\<close>

abbreviation push_value :: "byte \<Rightarrow> tokenizer \<Rightarrow> tokenizer" where
  "push_value b t \<equiv> t\<lparr>tk_value := tk_value t @ [b]\<rparr>"

definition in_top :: "tokenizer \<Rightarrow> byte \<Rightarrow> tokenizer" where
  "in_top t b =
     (if b = 0x28 then t\<lparr>tk_string_depth := 1, tk_state := S_InString\<rparr>
      else if b = 0x3C then t\<lparr>tk_state := S_Lt\<rparr>
      else if b = 0x3E then t\<lparr>tk_state := S_Gt\<rparr>
      else if b = 0x29 then
        t\<lparr>tk_token_type := T_Bad, tk_error_message := Some (str ''unexpected )''), tk_state := S_TokenReady\<rparr>
      else if b = 0x5B then t\<lparr>tk_token_type := T_ArrayOpen, tk_state := S_TokenReady\<rparr>
      else if b = 0x5D then t\<lparr>tk_token_type := T_ArrayClose, tk_state := S_TokenReady\<rparr>
      else if b = 0x7B then t\<lparr>tk_token_type := T_BraceOpen, tk_state := S_TokenReady\<rparr>
      else if b = 0x7D then t\<lparr>tk_token_type := T_BraceClose, tk_state := S_TokenReady\<rparr>
      else if b = 0x2F then push_value b (t\<lparr>tk_state := S_Name\<rparr>)
      else if is_ascii_digit b then t\<lparr>tk_state := S_Number\<rparr>
      else if b = 0x2B \<or> b = 0x2D then t\<lparr>tk_state := S_Sign\<rparr>
      else if b = 0x2E then t\<lparr>tk_state := S_Decimal\<rparr>
      else t\<lparr>tk_state := S_Literal\<rparr>)"

definition in_before_token :: "tokenizer \<Rightarrow> byte \<Rightarrow> tokenizer" where
  "in_before_token t b =
     (if is_ws b then
        let t = t\<lparr>tk_before_token := \<not> tk_include_ignorable t, tk_in_token := tk_include_ignorable t\<rparr>
        in if tk_include_ignorable t then t\<lparr>tk_state := S_InSpace\<rparr> else t
      else if b = 0x25 then
        t\<lparr>tk_before_token := \<not> tk_include_ignorable t, tk_in_token := tk_include_ignorable t,
          tk_state := S_InComment\<rparr>
      else in_top (t\<lparr>tk_before_token := False, tk_in_token := True\<rparr>) b)"

definition in_space :: "tokenizer \<Rightarrow> byte \<Rightarrow> tokenizer" where
  "in_space t b =
     (if \<not> is_ws b
      then t\<lparr>tk_token_type := T_Space, tk_in_token := False, tk_char_to_unread := Some b,
             tk_state := S_TokenReady\<rparr>
      else t)"

definition in_comment :: "tokenizer \<Rightarrow> byte \<Rightarrow> tokenizer" where
  "in_comment t b =
     (if b = 0x0D \<or> b = 0x0A then
        if tk_include_ignorable t
        then t\<lparr>tk_token_type := T_Comment, tk_in_token := False, tk_char_to_unread := Some b,
               tk_state := S_TokenReady\<rparr>
        else t\<lparr>tk_state := S_BeforeToken\<rparr>
      else t)"

definition in_string :: "tokenizer \<Rightarrow> byte \<Rightarrow> tokenizer" where
  "in_string t b =
     (if b = 0x5C then t\<lparr>tk_state := S_StringEscape\<rparr>
      else if b = 0x28 then t\<lparr>tk_value := tk_value t @ [b], tk_string_depth := tk_string_depth t + 1\<rparr>
      else if b = 0x29 then
        let t = t\<lparr>tk_string_depth := tk_string_depth t - 1\<rparr>
        in if tk_string_depth t = 0 then t\<lparr>tk_token_type := T_String, tk_state := S_TokenReady\<rparr>
           else push_value b t
      else if b = 0x0D then (push_value 0x0A t)\<lparr>tk_state := S_StringAfterCr\<rparr>
      else push_value b t)"

definition in_name :: "tokenizer \<Rightarrow> byte \<Rightarrow> tokenizer" where
  "in_name t b =
     (if is_token_delimiter b
      then t\<lparr>tk_token_type := (if tk_bad t then T_Bad else T_Name), tk_in_token := False,
             tk_char_to_unread := Some b, tk_state := S_TokenReady\<rparr>
      else if b = 0x23 then t\<lparr>tk_char_code := 0, tk_state := S_NameHex1\<rparr>
      else push_value b t)"

definition stray_hash :: "bytes" where
  "stray_hash = str ''name with stray # will not work with PDF >= 1.2''"

definition in_name_hex1 :: "tokenizer \<Rightarrow> byte \<Rightarrow> tokenizer" where
  "in_name_hex1 t b =
     (let t = t\<lparr>tk_hex_byte := b\<rparr>
      in case hex_value b of
           Some v \<Rightarrow> t\<lparr>tk_char_code := push_bit 4 (ucast v), tk_state := S_NameHex2\<rparr>
         | None \<Rightarrow>
             in_name (push_value 0 (t\<lparr>tk_error_message := Some stray_hash, tk_state := S_Name\<rparr>)) b)"

definition in_name_hex2 :: "tokenizer \<Rightarrow> byte \<Rightarrow> tokenizer" where
  "in_name_hex2 t b =
     (case hex_value b of
        None \<Rightarrow>
          in_name (t\<lparr>tk_error_message := Some stray_hash, tk_value := tk_value t @ [0, tk_hex_byte t],
                     tk_state := S_Name\<rparr>) b
      | Some v \<Rightarrow>
          let t = t\<lparr>tk_char_code := tk_char_code t OR ucast v\<rparr>
          in if tk_char_code t = 0
             then t\<lparr>tk_error_message := Some (str ''null character not allowed in name token''),
                    tk_value := tk_value t @ str ''#00'', tk_state := S_Name, tk_bad := True\<rparr>
             else t\<lparr>tk_value := tk_value t @ [ucast (tk_char_code t)], tk_state := S_Name\<rparr>)"

definition in_literal :: "tokenizer \<Rightarrow> byte \<Rightarrow> tokenizer" where
  "in_literal t b =
     (if is_token_delimiter b
      then t\<lparr>tk_in_token := False, tk_char_to_unread := Some b, tk_state := S_TokenReady,
             tk_token_type :=
               (if tk_raw t = str ''true'' \<or> tk_raw t = str ''false'' then T_Bool
                else if tk_raw t = str ''null'' then T_Null else T_Word)\<rparr>
      else t)"

definition in_sign :: "tokenizer \<Rightarrow> byte \<Rightarrow> tokenizer" where
  "in_sign t b =
     (if is_ascii_digit b then t\<lparr>tk_state := S_Number\<rparr>
      else if b = 0x2E then t\<lparr>tk_state := S_Decimal\<rparr>
      else in_literal (t\<lparr>tk_state := S_Literal\<rparr>) b)"

definition in_decimal :: "tokenizer \<Rightarrow> byte \<Rightarrow> tokenizer" where
  "in_decimal t b =
     (if is_ascii_digit b then t\<lparr>tk_state := S_Real\<rparr>
      else in_literal (t\<lparr>tk_state := S_Literal\<rparr>) b)"

definition in_number :: "tokenizer \<Rightarrow> byte \<Rightarrow> tokenizer" where
  "in_number t b =
     (if is_ascii_digit b then t
      else if b = 0x2E then t\<lparr>tk_state := S_Real\<rparr>
      else if is_token_delimiter b
      then t\<lparr>tk_token_type := T_Integer, tk_state := S_TokenReady, tk_in_token := False,
             tk_char_to_unread := Some b\<rparr>
      else t\<lparr>tk_state := S_Literal\<rparr>)"

definition in_real :: "tokenizer \<Rightarrow> byte \<Rightarrow> tokenizer" where
  "in_real t b =
     (if is_ascii_digit b then t
      else if is_token_delimiter b
      then t\<lparr>tk_token_type := T_Real, tk_state := S_TokenReady, tk_in_token := False,
             tk_char_to_unread := Some b\<rparr>
      else t\<lparr>tk_state := S_Literal\<rparr>)"

definition is_octal :: "byte \<Rightarrow> bool" where
  "is_octal b \<longleftrightarrow> 0x30 \<le> b \<and> b \<le> 0x37"

definition in_char_code :: "tokenizer \<Rightarrow> byte \<Rightarrow> tokenizer" where
  "in_char_code t b =
     (let octal = is_octal b;
          t = (if octal
               then t\<lparr>tk_char_code := 8 * tk_char_code t + ucast (b - 0x30),
                      tk_digit_count := tk_digit_count t + 1\<rparr>
               else t)
      in if octal \<and> tk_digit_count t < 3 then t
         else let t = (push_value (ucast (tk_char_code t mod 256)) t)\<lparr>tk_state := S_InString\<rparr>
              in if octal then t else in_string t b)"

definition in_string_escape :: "tokenizer \<Rightarrow> byte \<Rightarrow> tokenizer" where
  "in_string_escape t b =
     (let t = t\<lparr>tk_state := S_InString\<rparr>
      in if is_octal b
         then in_char_code (t\<lparr>tk_state := S_CharCode, tk_char_code := 0, tk_digit_count := 0\<rparr>) b
         else if b = 0x6E then push_value 0x0A t
         else if b = 0x72 then push_value 0x0D t
         else if b = 0x74 then push_value 0x09 t
         else if b = 0x62 then push_value 0x08 t
         else if b = 0x66 then push_value 0x0C t
         else if b = 0x0A then t
         else if b = 0x0D then t\<lparr>tk_state := S_StringAfterCr\<rparr>
         else push_value b t)"

definition in_string_after_cr :: "tokenizer \<Rightarrow> byte \<Rightarrow> tokenizer" where
  "in_string_after_cr t b =
     (let t = t\<lparr>tk_state := S_InString\<rparr> in if b \<noteq> 0x0A then in_string t b else t)"

definition invalid_hex_character_message :: "byte \<Rightarrow> bytes" where
  "invalid_hex_character_message b = str ''invalid character ('' @ [b] @ str '') in hexstring''"

definition in_hex_string :: "tokenizer \<Rightarrow> byte \<Rightarrow> tokenizer" where
  "in_hex_string t b =
     (case hex_value b of
        Some v \<Rightarrow> t\<lparr>tk_char_code := push_bit 4 (ucast v), tk_state := S_InHexStringSecond\<rparr>
      | None \<Rightarrow>
          if b = 0x3E then t\<lparr>tk_token_type := T_String, tk_state := S_TokenReady\<rparr>
          else if is_ws b then t
          else t\<lparr>tk_token_type := T_Bad, tk_error_message := Some (invalid_hex_character_message b),
                 tk_state := S_TokenReady\<rparr>)"

definition in_hex_string_second :: "tokenizer \<Rightarrow> byte \<Rightarrow> tokenizer" where
  "in_hex_string_second t b =
     (case hex_value b of
        Some v \<Rightarrow> t\<lparr>tk_value := tk_value t @ [ucast (tk_char_code t OR ucast v)], tk_state := S_InHexString\<rparr>
      | None \<Rightarrow>
          if b = 0x3E
          then t\<lparr>tk_value := tk_value t @ [ucast (tk_char_code t)], tk_token_type := T_String,
                 tk_state := S_TokenReady\<rparr>
          else if is_ws b then t
          else t\<lparr>tk_token_type := T_Bad, tk_error_message := Some (invalid_hex_character_message b),
                 tk_state := S_TokenReady\<rparr>)"

definition in_lt :: "tokenizer \<Rightarrow> byte \<Rightarrow> tokenizer" where
  "in_lt t b =
     (if b = 0x3C then t\<lparr>tk_token_type := T_DictOpen, tk_state := S_TokenReady\<rparr>
      else in_hex_string (t\<lparr>tk_state := S_InHexString\<rparr>) b)"

definition in_gt :: "tokenizer \<Rightarrow> byte \<Rightarrow> tokenizer" where
  "in_gt t b =
     (if b = 0x3E then t\<lparr>tk_token_type := T_DictClose, tk_state := S_TokenReady\<rparr>
      else t\<lparr>tk_token_type := T_Bad, tk_error_message := Some (str ''unexpected >''),
             tk_in_token := False, tk_char_to_unread := Some b, tk_state := S_TokenReady\<rparr>)"

definition in_inline_image :: "tokenizer \<Rightarrow> byte \<Rightarrow> tokenizer" where
  "in_inline_image t b =
     (if length (tk_raw t) + 1 = tk_inline_image_bytes t
      then t\<lparr>tk_token_type := T_InlineImage, tk_inline_image_bytes := 0, tk_state := S_TokenReady\<rparr>
      else t)"

text \<open>The \<open>TokenReady\<close> arm is the source's \<open>unreachable!\<close>: both callers check for it.\<close>

definition handle_character :: "tokenizer \<Rightarrow> byte \<Rightarrow> tokenizer" where
  "handle_character t b =
     (case tk_state t of
        S_InSpace \<Rightarrow> in_space t b
      | S_InComment \<Rightarrow> in_comment t b
      | S_Lt \<Rightarrow> in_lt t b
      | S_Gt \<Rightarrow> in_gt t b
      | S_InString \<Rightarrow> in_string t b
      | S_Name \<Rightarrow> in_name t b
      | S_Number \<Rightarrow> in_number t b
      | S_Real \<Rightarrow> in_real t b
      | S_StringAfterCr \<Rightarrow> in_string_after_cr t b
      | S_StringEscape \<Rightarrow> in_string_escape t b
      | S_CharCode \<Rightarrow> in_char_code t b
      | S_Literal \<Rightarrow> in_literal t b
      | S_InlineImage \<Rightarrow> in_inline_image t b
      | S_InHexString \<Rightarrow> in_hex_string t b
      | S_InHexStringSecond \<Rightarrow> in_hex_string_second t b
      | S_NameHex1 \<Rightarrow> in_name_hex1 t b
      | S_NameHex2 \<Rightarrow> in_name_hex2 t b
      | S_Sign \<Rightarrow> in_sign t b
      | S_Decimal \<Rightarrow> in_decimal t b
      | S_BeforeToken \<Rightarrow> in_before_token t b
      | S_TokenReady \<Rightarrow> t)"

section \<open>What the machine leaves alone\<close>

text \<open>Input, position, options, the raw bytes and the token's start belong to the callers.\<close>

definition tk_frame :: "tokenizer \<Rightarrow> bytes \<times> nat \<times> bool \<times> bool \<times> bytes \<times> nat" where
  "tk_frame t = (tk_input t, tk_pos t, tk_allow_eof t, tk_include_ignorable t, tk_raw t, tk_token_start t)"

lemma tk_frame_updates [simp]:
  "tk_frame (t\<lparr>tk_state := s\<rparr>) = tk_frame t" "tk_frame (t\<lparr>tk_token_type := ty\<rparr>) = tk_frame t"
  "tk_frame (t\<lparr>tk_value := v\<rparr>) = tk_frame t" "tk_frame (t\<lparr>tk_error_message := e\<rparr>) = tk_frame t"
  "tk_frame (t\<lparr>tk_before_token := x\<rparr>) = tk_frame t" "tk_frame (t\<lparr>tk_in_token := x\<rparr>) = tk_frame t"
  "tk_frame (t\<lparr>tk_char_to_unread := u\<rparr>) = tk_frame t"
  "tk_frame (t\<lparr>tk_inline_image_bytes := n\<rparr>) = tk_frame t" "tk_frame (t\<lparr>tk_bad := x\<rparr>) = tk_frame t"
  "tk_frame (t\<lparr>tk_string_depth := n\<rparr>) = tk_frame t" "tk_frame (t\<lparr>tk_char_code := c\<rparr>) = tk_frame t"
  "tk_frame (t\<lparr>tk_hex_byte := b\<rparr>) = tk_frame t" "tk_frame (t\<lparr>tk_digit_count := n\<rparr>) = tk_frame t"
  by (simp_all add: tk_frame_def)

lemma in_string_frame [simp]: "tk_frame (in_string t b) = tk_frame t"
  by (simp add: in_string_def Let_def)

lemma in_name_frame [simp]: "tk_frame (in_name t b) = tk_frame t"
  by (simp add: in_name_def)

lemma in_literal_frame [simp]: "tk_frame (in_literal t b) = tk_frame t"
  by (simp add: in_literal_def)

lemma in_hex_string_frame [simp]: "tk_frame (in_hex_string t b) = tk_frame t"
  by (simp add: in_hex_string_def split: option.split)

lemma in_char_code_frame [simp]: "tk_frame (in_char_code t b) = tk_frame t"
  by (simp add: in_char_code_def Let_def)

lemma in_top_frame [simp]: "tk_frame (in_top t b) = tk_frame t"
  by (simp add: in_top_def)

lemma handle_character_frame [simp]: "tk_frame (handle_character t b) = tk_frame t"
  by (cases "tk_state t")
    (simp_all add: handle_character_def in_space_def in_comment_def in_lt_def in_gt_def in_number_def
      in_real_def in_string_after_cr_def in_string_escape_def in_inline_image_def
      in_hex_string_second_def in_name_hex1_def in_name_hex2_def in_sign_def in_decimal_def
      in_before_token_def Let_def split: option.split)

lemma tk_frameD:
  assumes "tk_frame t = tk_frame s"
  shows "tk_input t = tk_input s" "tk_pos t = tk_pos s" "tk_allow_eof t = tk_allow_eof s"
    "tk_include_ignorable t = tk_include_ignorable s" "tk_raw t = tk_raw s"
    "tk_token_start t = tk_token_start s"
  using assms by (simp_all add: tk_frame_def)

lemmas handle_character_frames [simp] = tk_frameD [OF handle_character_frame]

section \<open>The push interface\<close>

definition present_character :: "tokenizer \<Rightarrow> byte \<Rightarrow> tokenizer_state_error + tokenizer" where
  "present_character t b =
     (if tk_state t = S_TokenReady then Inl TokenWaiting
      else
        let t = handle_character t b
        in Inr (if tk_in_token t then t\<lparr>tk_raw := tk_raw t @ [b]\<rparr> else t))"

definition present_eof :: "tokenizer \<Rightarrow> tokenizer_state_error + tokenizer" where
  "present_eof t =
     (let r =
        (if tk_state t \<in> {S_Name, S_NameHex1, S_NameHex2, S_Number, S_Real, S_Sign, S_Decimal, S_Literal}
         then (case present_character t 0x0C of
                 Inl e \<Rightarrow> Inl e | Inr t \<Rightarrow> Inr (t\<lparr>tk_in_token := True\<rparr>))
         else if tk_state t = S_BeforeToken then Inr (t\<lparr>tk_token_type := T_Eof\<rparr>)
         else if tk_state t = S_InSpace
         then Inr (t\<lparr>tk_token_type := (if tk_include_ignorable t then T_Space else T_Eof)\<rparr>)
         else if tk_state t = S_InComment
         then Inr (t\<lparr>tk_token_type := (if tk_include_ignorable t then T_Comment else T_Bad)\<rparr>)
         else if tk_state t = S_TokenReady then Inr t
         else Inr (t\<lparr>tk_token_type := T_Bad, tk_error_message := Some (str ''EOF while reading token'')\<rparr>))
      in case r of Inl e \<Rightarrow> Inl e | Inr t \<Rightarrow> Inr (t\<lparr>tk_state := S_TokenReady\<rparr>))"

definition unread_byte :: "tokenizer \<Rightarrow> byte option" where
  "unread_byte t = (if \<not> tk_in_token t \<and> \<not> tk_before_token t then tk_char_to_unread t else None)"

record pushed_token =
  pt_token :: token
  pt_unread :: "byte option"

definition get_token :: "tokenizer \<Rightarrow> (pushed_token \<times> tokenizer) option" where
  "get_token t =
     (if tk_state t \<noteq> S_TokenReady then None
      else Some (\<lparr>pt_token = take_ready_token t, pt_unread = unread_byte t\<rparr>, tk_reset t))"

text \<open>Bytes that are no digits are rejected as "invalid integer" whether or not they are UTF-8.\<close>

definition parse_integer_bytes :: "bytes \<Rightarrow> nat \<Rightarrow> error + int" where
  "parse_integer_bytes bs offset =
     (if \<not> valid_utf8 bs then Inl (Parse offset (str ''invalid integer''))
      else case parse_i64 bs of
        Inr v \<Rightarrow> Inr v
      | Inl e \<Rightarrow>
          if e = PosOverflow \<or> e = NegOverflow
          then Inl (System (str ''overflow/underflow converting '' @ bs @ str '' to 64-bit integer''))
          else Inl (Parse offset (str ''invalid integer'')))"

datatype live_token =
    LiveInteger "error + int" nat "byte option"
  | LiveBool bool nat "byte option"
  | LiveSimple token_type nat "byte option"
  | LiveOwned token_type bytes "bytes option" nat "byte option"

text \<open>Outside the live parser's mode (ignorable tokens, inline images) there is no live token.\<close>

definition get_live_token :: "tokenizer \<Rightarrow> (live_token \<times> tokenizer) option" where
  "get_live_token t =
     (if tk_state t \<noteq> S_TokenReady then None
      else
        let raw_len = length (tk_raw t); unread = unread_byte t; ty = tk_token_type t
        in if ty = T_Integer
           then Some (LiveInteger (parse_integer_bytes (tk_raw t) (tk_token_start t)) raw_len unread, tk_reset t)
           else if ty = T_Bool
           then Some (LiveBool (tk_raw t = str ''true'') raw_len unread, tk_reset t)
           else if ty \<in> {T_ArrayClose, T_ArrayOpen, T_BraceClose, T_BraceOpen, T_DictClose, T_DictOpen,
                         T_Eof, T_Null}
           then Some (LiveSimple ty raw_len unread, tk_reset t)
           else if ty \<in> {T_Space, T_Comment, T_InlineImage} then None
           else Some (LiveOwned ty
                  (if ty = T_Name \<or> ty = T_String then tk_value t
                   else if ty = T_Real \<or> ty = T_Word then tk_raw t else [])
                  (tk_error_message t) raw_len unread, tk_reset t))"

section \<open>The pull interface\<close>

definition tokenizer_state_message :: "tokenizer_state_error \<Rightarrow> bytes" where
  "tokenizer_state_message e =
     (case e of
        TokenWaiting \<Rightarrow> str ''tokenizer already has a token waiting''
      | ImproperInlineImageState \<Rightarrow> str ''tokenizer is in an improper inline image state'')"

text \<open>One byte of the loop of \<open>read_token_with_options\<close>.\<close>

definition read_byte :: "nat \<Rightarrow> tokenizer \<Rightarrow> byte \<Rightarrow> tokenizer" where
  "read_byte max_len t b =
     (let t = handle_character (t\<lparr>tk_pos := tk_pos t + 1\<rparr>) b;
          t = (if tk_before_token t then t\<lparr>tk_token_start := tk_token_start t + 1\<rparr> else t);
          t = (if tk_in_token t then t\<lparr>tk_raw := tk_raw t @ [b]\<rparr> else t)
      in if max_len \<noteq> 0 \<and> length (tk_raw t) \<ge> max_len \<and> tk_state t \<noteq> S_TokenReady
         then t\<lparr>tk_token_type := T_Bad, tk_state := S_TokenReady,
                tk_error_message := Some (str ''exceeded allowable length while reading token'')\<rparr>
         else t)"

definition read_eof :: "tokenizer \<Rightarrow> error + tokenizer" where
  "read_eof t =
     (case present_eof t of
        Inl e \<Rightarrow> Inl (Parse (tk_pos t) (tokenizer_state_message e))
      | Inr t \<Rightarrow>
          Inr (if tk_token_type t = T_Eof \<and> \<not> tk_allow_eof t
               then t\<lparr>tk_token_type := T_Bad, tk_error_message := Some (str ''unexpected EOF'')\<rparr>
               else t))"

lemma read_byte_frame [simp]:
  "tk_input (read_byte max_len t b) = tk_input t" "tk_pos (read_byte max_len t b) = tk_pos t + 1"
  "tk_allow_eof (read_byte max_len t b) = tk_allow_eof t"
  "tk_include_ignorable (read_byte max_len t b) = tk_include_ignorable t"
  by (simp_all add: read_byte_def Let_def)

lemma present_character_frame:
  "present_character t b = Inr u \<Longrightarrow>
   tk_input u = tk_input t \<and> tk_pos u = tk_pos t \<and> tk_allow_eof u = tk_allow_eof t \<and>
   tk_include_ignorable u = tk_include_ignorable t \<and> tk_token_start u = tk_token_start t"
  by (auto simp: present_character_def Let_def split: if_splits)

lemma present_eof_frame:
  "present_eof t = Inr u \<Longrightarrow>
   tk_input u = tk_input t \<and> tk_pos u = tk_pos t \<and> tk_allow_eof u = tk_allow_eof t \<and>
   tk_include_ignorable u = tk_include_ignorable t \<and> tk_token_start u = tk_token_start t \<and>
   tk_state u = S_TokenReady"
  by (auto simp: present_eof_def Let_def split: sum.splits if_splits dest!: present_character_frame)

lemma read_eof_frame:
  "read_eof t = Inr u \<Longrightarrow>
   tk_input u = tk_input t \<and> tk_pos u = tk_pos t \<and> tk_allow_eof u = tk_allow_eof t \<and>
   tk_include_ignorable u = tk_include_ignorable t \<and> tk_token_start u = tk_token_start t \<and>
   tk_state u = S_TokenReady"
  by (auto simp: read_eof_def split: sum.splits if_splits dest!: present_eof_frame)

function read_loop :: "nat \<Rightarrow> tokenizer \<Rightarrow> error + tokenizer" where
  "read_loop max_len t =
     (if tk_state t = S_TokenReady then Inr t
      else if tk_pos t < length (tk_input t)
      then read_loop max_len (read_byte max_len t (tk_input t ! tk_pos t))
      else case read_eof t of Inl e \<Rightarrow> Inl e | Inr t \<Rightarrow> read_loop max_len t)"
  by pat_completeness auto
termination
proof (relation "measure (\<lambda>(max_len, t :: tokenizer).
    2 * (length (tk_input t) - tk_pos t) + (if tk_state t = S_TokenReady then 0 else 1))")
  fix max_len :: nat and t u :: tokenizer
  assume "tk_state t \<noteq> S_TokenReady" "read_eof t = Inr u"
  then show "((max_len, u), max_len, t) \<in> measure (\<lambda>(max_len, t :: tokenizer).
    2 * (length (tk_input t) - tk_pos t) + (if tk_state t = S_TokenReady then 0 else 1))"
    by (auto dest: read_eof_frame)
qed auto

declare read_loop.simps [simp del]

definition start_read :: "tokenizer \<Rightarrow> tokenizer" where
  "start_read t =
     (let t = (if tk_state t \<noteq> S_InlineImage then tk_reset t else t) in t\<lparr>tk_token_start := tk_pos t\<rparr>)"

text \<open>The error text; the message is rendered lossily, as in the source.\<close>

definition bad_token_error :: "token \<Rightarrow> error" where
  "bad_token_error token =
     Parse (tok_start token)
       (case tok_error_message token of Some m \<Rightarrow> utf8_lossy m | None \<Rightarrow> str ''bad token'')"

definition read_token_with_options ::
  "bool \<Rightarrow> nat \<Rightarrow> tokenizer \<Rightarrow> (error + token) \<times> tokenizer" where
  "read_token_with_options allow_bad max_len t =
     (let t = start_read t in
      case read_loop max_len t of
        Inl e \<Rightarrow> (Inl e, t)
      | Inr t \<Rightarrow>
          let t = (if \<not> tk_in_token t \<and> \<not> tk_before_token t then t\<lparr>tk_pos := tk_pos t - 1\<rparr> else t);
              token = take_ready_token t;
              t = tk_reset t
          in (if tok_type token = T_Bad \<and> \<not> allow_bad then Inl (bad_token_error token) else Inr token, t))"

definition read_token :: "tokenizer \<Rightarrow> (error + token) \<times> tokenizer" where
  "read_token = read_token_with_options False 0"

definition set_position :: "nat \<Rightarrow> tokenizer \<Rightarrow> error + tokenizer" where
  "set_position position t =
     (if position > length (tk_input t)
      then Inl (Parse position (str ''tokenizer position beyond end of input''))
      else Inr (tk_reset (t\<lparr>tk_pos := position\<rparr>)))"

definition consume_one_byte :: "tokenizer \<Rightarrow> error + tokenizer" where
  "consume_one_byte t =
     (if tk_pos t \<ge> length (tk_input t) then Inl (Parse (tk_pos t) (str ''missing separator after ID''))
      else Inr (tk_reset (t\<lparr>tk_pos := tk_pos t + 1\<rparr>)))"

definition consume_one_byte_or :: "byte \<Rightarrow> tokenizer \<Rightarrow> byte \<times> tokenizer" where
  "consume_one_byte_or dflt t =
     (let inside = tk_pos t < length (tk_input t)
      in (if inside then tk_input t ! tk_pos t else dflt,
          tk_reset (if inside then t\<lparr>tk_pos := tk_pos t + 1\<rparr> else t)))"

definition read_qpdf_token :: "nat \<Rightarrow> tokenizer \<Rightarrow> (error + token) \<times> tokenizer" where
  "read_qpdf_token max_len t = read_token_with_options True max_len (allow_eof t)"

definition parse_object_stream_integer :: "token \<Rightarrow> error + int" where
  "parse_object_stream_integer token =
     (case (if valid_utf8 (tok_value token) then parse_i64 (tok_value token) else Inl InvalidDigit) of
        Inr v \<Rightarrow> Inr v
      | Inl e \<Rightarrow> Inl (Parse (tok_start token) (str ''integer is out of range'')))"

definition next_object_stream_header_pair :: "tokenizer \<Rightarrow> (error + int \<times> int) \<times> tokenizer" where
  "next_object_stream_header_pair t =
     (case read_qpdf_token 0 t of
        (Inl e, t) \<Rightarrow> (Inl e, t)
      | (Inr object_number, t) \<Rightarrow>
          (case read_qpdf_token 0 t of
             (Inl e, t) \<Rightarrow> (Inl e, t)
           | (Inr object_offset, t) \<Rightarrow>
               if \<not> (is_integer object_number \<and> is_integer object_offset)
               then (Inl (Parse (tok_start object_offset) (str ''expected integer in object stream header'')), t)
               else (case parse_object_stream_integer object_number of
                       Inl e \<Rightarrow> (Inl e, t)
                     | Inr n \<Rightarrow>
                         (case parse_object_stream_integer object_offset of
                            Inl e \<Rightarrow> (Inl e, t)
                          | Inr m \<Rightarrow> (Inr (n, m), t)))))"

section \<open>The end of an inline image\<close>

text \<open>\<open>windows(2).position(|w| w == b"EI")\<close>.\<close>

fun position_EI :: "bytes \<Rightarrow> nat option" where
  "position_EI (a # b # bs) =
     (if a = 0x45 \<and> b = 0x49 then Some 0 else map_option Suc (position_EI (b # bs)))"
| "position_EI bs = None"

definition word_token_at :: "bytes \<Rightarrow> nat \<Rightarrow> bytes \<Rightarrow> nat option" where
  "word_token_at inp start expected =
     (let end' = start + length expected
      in if start = 0 \<or> end' > length inp \<or> take (length expected) (drop start inp) \<noteq> expected \<or>
            (end' < length inp \<and> \<not> is_token_delimiter (inp ! end'))
         then None else Some end')"

fun suspicious_word :: "bool \<Rightarrow> bool \<Rightarrow> bytes \<Rightarrow> bool" where
  "suspicious_word found_alpha found_other [] = (found_alpha \<and> found_other)"
| "suspicious_word found_alpha found_other (b # bs) =
     (if is_ascii_lower b \<or> is_ascii_upper b \<or> b = 0x2A then suspicious_word True found_other bs
      else if sint b < 32 \<and> \<not> is_ws b then True
      else suspicious_word found_alpha True bs)"

text \<open>
  At most ten tokens after \<open>EI\<close>; with \<open>allow_bad\<close> a read has no error, which is the source's
  \<open>expect\<close>.
\<close>

fun lookahead_loop :: "nat \<Rightarrow> nat \<Rightarrow> tokenizer \<Rightarrow> bool \<times> nat" where
  "lookahead_loop 0 after_ei t = (True, after_ei + tk_pos t)"
| "lookahead_loop (Suc n) after_ei t =
     (case read_token_with_options True 0 t of
        (Inl e, t) \<Rightarrow> (False, after_ei + tk_pos t)
      | (Inr token, t) \<Rightarrow>
          let next_search_pos = after_ei + tk_pos t
          in if tok_type token = T_Eof then (True, next_search_pos)
             else if tok_type token = T_Bad then (False, next_search_pos)
             else if tok_type token = T_Word \<and> suspicious_word False False (tok_value token)
             then (False, next_search_pos)
             else lookahead_loop n after_ei t)"

definition inline_lookahead_is_plausible :: "bytes \<Rightarrow> nat \<Rightarrow> bool \<times> nat" where
  "inline_lookahead_is_plausible inp after_ei =
     lookahead_loop 10 after_ei (allow_eof (tokenizer_new (drop after_ei inp)))"

lemma lookahead_loop_pos: "after_ei \<le> snd (lookahead_loop n after_ei t)"
  by (induction n arbitrary: t) (auto simp: Let_def split: prod.split sum.split)

lemma word_token_at_end: "word_token_at inp start expected = Some e \<Longrightarrow> e = start + length expected"
  by (auto simp: word_token_at_def Let_def split: if_splits)

lemma lookahead_progress:
  assumes "word_token_at inp start [0x45, 0x49] = Some after_ei"
    "inline_lookahead_is_plausible inp after_ei = (plausible, next_pos)"
  shows "start < next_pos"
proof -
  have "after_ei = start + 2" using word_token_at_end [OF assms(1)] by simp
  moreover have "after_ei \<le> next_pos"
    using lookahead_loop_pos [of after_ei 10 "allow_eof (tokenizer_new (drop after_ei inp))"] assms(2)
    by (simp only: inline_lookahead_is_plausible_def snd_conv)
  ultimately show ?thesis by linarith
qed

text \<open>The candidate loop: \<open>candidate_distance\<close> is kept when a candidate is rejected.\<close>

function find_ei_loop :: "bytes \<Rightarrow> nat \<Rightarrow> nat \<Rightarrow> nat option \<Rightarrow> nat option" where
  "find_ei_loop inp initial_pos search_pos candidate_distance =
     (if search_pos < length inp then
        case position_EI (drop search_pos inp) of
          None \<Rightarrow> candidate_distance
        | Some relative_start \<Rightarrow>
            let candidate_start = search_pos + relative_start
            in case word_token_at inp candidate_start [0x45, 0x49] of
                 Some after_ei \<Rightarrow>
                   (case inline_lookahead_is_plausible inp after_ei of
                      (plausible, next_search_pos) \<Rightarrow>
                        if plausible then Some (candidate_start - initial_pos)
                        else find_ei_loop inp initial_pos next_search_pos
                               (Some (candidate_start - initial_pos)))
               | None \<Rightarrow> find_ei_loop inp initial_pos (candidate_start + 1) candidate_distance
      else candidate_distance)"
  by pat_completeness auto
termination
  by (relation "measure (\<lambda>(inp, initial_pos, search_pos, candidate_distance). length inp - search_pos)")
    (auto dest!: sym [of "(_, _)"] lookahead_progress)

declare find_ei_loop.simps [simp del]

definition find_ei :: "tokenizer \<Rightarrow> nat option" where
  "find_ei t = find_ei_loop (tk_input t) (tk_pos t) (tk_pos t) None"

text \<open>The one error needs a started token.\<close>

definition expect_inline_image :: "tokenizer \<Rightarrow> tokenizer_state_error + tokenizer" where
  "expect_inline_image t =
     (if tk_state t \<noteq> S_TokenReady \<and> tk_state t \<noteq> S_BeforeToken then Inl ImproperInlineImageState
      else
        let t = (if tk_state t = S_TokenReady then tk_reset t else t);
            t = t\<lparr>tk_inline_image_bytes := (case find_ei t of Some n \<Rightarrow> n | None \<Rightarrow> 0)\<rparr>
        in Inr (t\<lparr>tk_before_token := False, tk_in_token := True, tk_state := S_InlineImage\<rparr>))"

end
