(* ===== verification/Tokenizer_Lossless.thy ===== *)
theory Tokenizer_Lossless
  imports Tokenizer
begin

text \<open>
  The tokenizer loses no input: a token's raw bytes are a span of the input, the cursor ends behind
  it, what is skipped in front of it is white space and comments, and every read makes progress.
\<close>

section \<open>Phases of a read\<close>

lemma in_string_flags [simp]:
  "tk_before_token (in_string t b) = tk_before_token t" "tk_in_token (in_string t b) = tk_in_token t"
  by (simp_all add: in_string_def Let_def)

lemma in_char_code_flags [simp]:
  "tk_before_token (in_char_code t b) = tk_before_token t" "tk_in_token (in_char_code t b) = tk_in_token t"
  by (simp_all add: in_char_code_def Let_def)

lemma in_hex_string_flags [simp]:
  "tk_before_token (in_hex_string t b) = tk_before_token t" "tk_in_token (in_hex_string t b) = tk_in_token t"
  by (simp_all add: in_hex_string_def split: option.split)

text \<open>Inside a token, a byte either joins it or ends it and is given back.\<close>

definition inside_states :: "state set" where
  "inside_states = - {S_BeforeToken, S_InComment, S_InSpace, S_TokenReady}"

lemma in_string_state: "tk_state t \<in> inside_states \<Longrightarrow> tk_state (in_string t b) \<in> inside_states \<union> {S_TokenReady}"
  by (simp add: in_string_def Let_def inside_states_def)

lemma in_char_code_state:
  "tk_state t \<in> inside_states \<Longrightarrow> tk_state (in_char_code t b) \<in> inside_states \<union> {S_TokenReady}"
  by (simp add: in_char_code_def in_string_def Let_def inside_states_def)

lemma in_top_inside:
  "tk_before_token (in_top t b) = tk_before_token t" "tk_in_token (in_top t b) = tk_in_token t"
  "tk_state (in_top t b) \<in> inside_states \<union> {S_TokenReady}"
  by (simp_all add: in_top_def inside_states_def)

lemma in_name_inside:
  "tk_before_token (in_name t b) = tk_before_token t"
  "tk_state t \<in> inside_states \<Longrightarrow>
   tk_in_token (in_name t b) = tk_in_token t \<and> tk_state (in_name t b) \<in> inside_states \<or>
   \<not> tk_in_token (in_name t b) \<and> tk_state (in_name t b) = S_TokenReady"
  by (simp_all add: in_name_def inside_states_def)

lemma in_literal_inside:
  "tk_before_token (in_literal t b) = tk_before_token t"
  "tk_state t \<in> inside_states \<Longrightarrow>
   tk_in_token (in_literal t b) = tk_in_token t \<and> tk_state (in_literal t b) \<in> inside_states \<or>
   \<not> tk_in_token (in_literal t b) \<and> tk_state (in_literal t b) = S_TokenReady"
  by (simp_all add: in_literal_def inside_states_def)

lemma handle_inside_before:
  "tk_state t \<in> inside_states \<Longrightarrow> tk_before_token (handle_character t b) = tk_before_token t"
  by (cases "tk_state t")
    (simp_all add: handle_character_def inside_states_def in_lt_def in_gt_def in_number_def
      in_real_def in_string_after_cr_def in_string_escape_def in_inline_image_def in_name_inside(1)
      in_literal_inside(1) in_hex_string_second_def in_name_hex1_def in_name_hex2_def in_sign_def
      in_decimal_def Let_def split: option.split)

lemma handle_inside:
  "tk_state t \<in> inside_states \<Longrightarrow>
   tk_in_token (handle_character t b) = tk_in_token t \<and>
     tk_state (handle_character t b) \<in> inside_states \<union> {S_TokenReady} \<or>
   \<not> tk_in_token (handle_character t b) \<and> tk_state (handle_character t b) = S_TokenReady"
  apply (cases "tk_state t")
  by (simp_all add: handle_character_def inside_states_def in_lt_def in_gt_def in_number_def
      in_real_def in_string_after_cr_def in_string_escape_def in_inline_image_def in_name_def
      in_literal_def in_hex_string_second_def in_name_hex1_def in_name_hex2_def in_sign_def
      in_decimal_def in_hex_string_def in_string_def in_char_code_def Let_def split: option.split)

section \<open>Slices and skipped text\<close>

definition span :: "nat \<Rightarrow> nat \<Rightarrow> 'a list \<Rightarrow> 'a list" where
  "span i j xs = take (j - i) (drop i xs)"

lemma span_empty [simp]: "span i i xs = []"
  by (simp add: span_def)

lemma span_Suc: "i \<le> j \<Longrightarrow> j < length xs \<Longrightarrow> span i (Suc j) xs = span i j xs @ [xs ! j]"
  by (simp add: span_def Suc_diff_le take_Suc_conv_app_nth)

lemma span_append: "i \<le> j \<Longrightarrow> j \<le> k \<Longrightarrow> span i j xs @ span j k xs = span i k xs"
proof -
  assume "i \<le> j" "j \<le> k"
  then obtain d e where "j = i + d" "k = i + d + e" by (auto simp: le_iff_add)
  then show ?thesis by (simp add: span_def take_add add.commute)
qed

lemma length_span: "j \<le> length xs \<Longrightarrow> length (span i j xs) = j - i"
  by (simp add: span_def)

text \<open>
  White space and comments, a comment reaching to the next line end: whether the text is that, and
  whether it ends inside a comment.
\<close>

fun skipping :: "bool \<Rightarrow> bytes \<Rightarrow> bool option" where
  "skipping comment [] = Some comment"
| "skipping comment (b # bs) =
     (if comment then skipping (b \<noteq> 0x0D \<and> b \<noteq> 0x0A) bs
      else if is_ws b then skipping False bs
      else if b = 0x25 then skipping True bs
      else None)"

lemma skipping_append:
  "skipping c (xs @ ys) = (case skipping c xs of None \<Rightarrow> None | Some c' \<Rightarrow> skipping c' ys)"
  by (induction c xs rule: skipping.induct) auto

section \<open>The invariant of the read loop\<close>

definition read_inv :: "nat \<Rightarrow> tokenizer \<Rightarrow> bool" where
  "read_inv p0 t \<longleftrightarrow>
     p0 \<le> tk_token_start t \<and> tk_pos t \<le> length (tk_input t) \<and>
     tk_raw t = span (tk_token_start t) (tk_token_start t + length (tk_raw t)) (tk_input t) \<and>
     (tk_include_ignorable t \<longrightarrow> tk_token_start t = p0) \<and>
     (if tk_before_token t then
        \<not> tk_in_token t \<and> tk_raw t = [] \<and> tk_token_start t = tk_pos t \<and>
        (tk_state t = S_BeforeToken \<and> skipping False (span p0 (tk_pos t) (tk_input t)) = Some False \<or>
         tk_state t = S_InComment \<and> \<not> tk_include_ignorable t \<and>
           skipping False (span p0 (tk_pos t) (tk_input t)) = Some True \<or>
         tk_state t = S_TokenReady \<and> tk_pos t = length (tk_input t) \<and>
           skipping False (span p0 (tk_pos t) (tk_input t)) \<noteq> None)
      else
        skipping False (span p0 (tk_token_start t) (tk_input t)) = Some False \<and>
        (if tk_in_token t then
           tk_token_start t + length (tk_raw t) = tk_pos t \<and>
           (tk_raw t = [] \<longrightarrow> tk_state t = S_InlineImage \<or> tk_state t = S_TokenReady \<and> tk_pos t = length (tk_input t)) \<and>
           (tk_state t \<in> {S_InComment, S_InSpace} \<and> tk_include_ignorable t \<or>
            tk_state t \<in> inside_states \<or> tk_state t = S_TokenReady)
         else
           tk_state t = S_TokenReady \<and> tk_raw t \<noteq> [] \<and>
           tk_token_start t + length (tk_raw t) + 1 = tk_pos t))"

text \<open>The rules a byte follows, by the phase the read is in.\<close>

lemma handle_before:
  assumes "tk_state t = S_BeforeToken" "tk_before_token t" "\<not> tk_in_token t"
  shows
    "is_ws b \<Longrightarrow> tk_include_ignorable t \<Longrightarrow> handle_character t b =
       t\<lparr>tk_before_token := False, tk_in_token := True, tk_state := S_InSpace\<rparr>"
    "is_ws b \<Longrightarrow> \<not> tk_include_ignorable t \<Longrightarrow> handle_character t b = t"
    "\<not> is_ws b \<Longrightarrow> b = 0x25 \<Longrightarrow> tk_include_ignorable t \<Longrightarrow> handle_character t b =
       t\<lparr>tk_before_token := False, tk_in_token := True, tk_state := S_InComment\<rparr>"
    "\<not> is_ws b \<Longrightarrow> b = 0x25 \<Longrightarrow> \<not> tk_include_ignorable t \<Longrightarrow> handle_character t b =
       t\<lparr>tk_state := S_InComment\<rparr>"
    "\<not> is_ws b \<Longrightarrow> b \<noteq> 0x25 \<Longrightarrow> handle_character t b =
       in_top (t\<lparr>tk_before_token := False, tk_in_token := True\<rparr>) b"
  using assms by (cases t; simp add: handle_character_def in_before_token_def Let_def)+

text \<open>
  Both loops over the bytes share this: the flags after the byte, in terms of the phases. A byte of a
  token in progress is kept or given back.
\<close>

lemma handle_in_token:
  assumes "\<not> tk_before_token t" "tk_in_token t" "tk_state t \<noteq> S_TokenReady"
    "tk_state t \<in> {S_InComment, S_InSpace} \<and> tk_include_ignorable t \<or> tk_state t \<in> inside_states"
  shows "\<not> tk_before_token (handle_character t b)"
    "tk_in_token (handle_character t b) \<and>
       (tk_state (handle_character t b) \<in> {S_InComment, S_InSpace} \<and> tk_include_ignorable t \<or>
        tk_state (handle_character t b) \<in> inside_states \<or> tk_state (handle_character t b) = S_TokenReady) \<or>
     \<not> tk_in_token (handle_character t b) \<and> tk_state (handle_character t b) = S_TokenReady"
proof -
  consider (space) "tk_state t = S_InSpace" "tk_include_ignorable t" |
    (comment) "tk_state t = S_InComment" "tk_include_ignorable t" | (inside) "tk_state t \<in> inside_states"
    using assms(4) by auto
  note cases = this
  show "\<not> tk_before_token (handle_character t b)"
  proof (cases rule: cases)
    case inside
    then show ?thesis using assms(1) handle_inside_before by simp
  qed (use assms in \<open>simp_all add: handle_character_def in_space_def in_comment_def\<close>)
  show "tk_in_token (handle_character t b) \<and>
       (tk_state (handle_character t b) \<in> {S_InComment, S_InSpace} \<and> tk_include_ignorable t \<or>
        tk_state (handle_character t b) \<in> inside_states \<or> tk_state (handle_character t b) = S_TokenReady) \<or>
     \<not> tk_in_token (handle_character t b) \<and> tk_state (handle_character t b) = S_TokenReady"
  proof (cases rule: cases)
    case inside
    then show ?thesis using assms(2) handle_inside [of t b] by auto
  qed (use assms in \<open>simp_all add: handle_character_def in_space_def in_comment_def\<close>)
qed

text \<open>The length cut only marks the token bad.\<close>

definition length_cut :: "nat \<Rightarrow> tokenizer \<Rightarrow> tokenizer" where
  "length_cut max_len t =
     (if max_len \<noteq> 0 \<and> length (tk_raw t) \<ge> max_len \<and> tk_state t \<noteq> S_TokenReady
      then t\<lparr>tk_token_type := T_Bad, tk_state := S_TokenReady,
             tk_error_message := Some (str ''exceeded allowable length while reading token'')\<rparr>
      else t)"

lemma read_byte_cut:
  "read_byte max_len t b =
     length_cut max_len
       (let t = handle_character (t\<lparr>tk_pos := tk_pos t + 1\<rparr>) b;
            t = (if tk_before_token t then t\<lparr>tk_token_start := tk_token_start t + 1\<rparr> else t)
        in (if tk_in_token t then t\<lparr>tk_raw := tk_raw t @ [b]\<rparr> else t))"
  by (simp add: read_byte_def length_cut_def Let_def)

lemma read_inv_cut:
  assumes "read_inv p0 t" "tk_raw t = [] \<longrightarrow> tk_before_token t \<or> \<not> tk_in_token t"
  shows "read_inv p0 (length_cut max_len t)"
proof (cases "length_cut max_len t = t")
  case True
  then show ?thesis using assms(1) by simp
next
  case False
  then have "max_len \<noteq> 0" "length (tk_raw t) \<ge> max_len" "tk_state t \<noteq> S_TokenReady"
    by (auto simp: length_cut_def split: if_splits)
  then have "tk_raw t \<noteq> []" by auto
  then have "\<not> tk_before_token t" using assms(1) by (auto simp: read_inv_def)
  then show ?thesis using assms(1) \<open>tk_raw t \<noteq> []\<close>
    by (cases "tk_in_token t") (auto simp: read_inv_def length_cut_def)
qed

lemma read_inv_byte_before:
  assumes inv: "read_inv p0 t" and st: "tk_state t \<noteq> S_TokenReady" "tk_before_token t"
    and pos: "tk_pos t < length (tk_input t)"
  shows "read_inv p0 (read_byte max_len t (tk_input t ! tk_pos t))"
proof -
  let ?b = "tk_input t ! tk_pos t" and ?t = "t\<lparr>tk_pos := tk_pos t + 1\<rparr>"
  have p0: "p0 \<le> tk_pos t" "tk_token_start t = tk_pos t" "tk_raw t = []" "\<not> tk_in_token t"
    using inv st by (simp_all add: read_inv_def)
  have grow: "span p0 (Suc (tk_pos t)) (tk_input t) = span p0 (tk_pos t) (tk_input t) @ [?b]"
    using p0(1) pos by (rule span_Suc)
  have one: "span (tk_pos t) (Suc (tk_pos t)) (tk_input t) = [?b]"
    using pos by (simp add: span_Suc)
  consider (between) "tk_state t = S_BeforeToken" "skipping False (span p0 (tk_pos t) (tk_input t)) = Some False"
    | (comment) "tk_state t = S_InComment" "\<not> tk_include_ignorable t"
        "skipping False (span p0 (tk_pos t) (tk_input t)) = Some True"
    using inv st by (auto simp: read_inv_def)
  then show ?thesis
  proof cases
    case comment
    have h: "handle_character ?t ?b =
        (if ?b = 0x0D \<or> ?b = 0x0A then ?t\<lparr>tk_state := S_BeforeToken\<rparr> else ?t)"
      using comment by (simp add: handle_character_def in_comment_def)
    show ?thesis unfolding read_byte_cut h Let_def
      using st comment p0 pos grow
      by (intro read_inv_cut) (auto simp: read_inv_def skipping_append)
  next
    case between
    note rules = handle_before [of ?t ?b]
    have flags: "tk_state ?t = S_BeforeToken" "tk_before_token ?t" "\<not> tk_in_token ?t"
      using between st p0 by simp_all
    have started: "read_inv p0 (length_cut max_len (?t\<lparr>tk_before_token := False, tk_in_token := True,
        tk_state := state, tk_raw := [?b]\<rparr>))"
      if "tk_include_ignorable t" "state = S_InSpace \<or> state = S_InComment" for state
      using that between p0 pos one inv by (intro read_inv_cut) (auto simp: read_inv_def)
    have skipped: "read_inv p0 (length_cut max_len (?t\<lparr>tk_state := state, tk_token_start := tk_token_start t + 1\<rparr>))"
      if "\<not> tk_include_ignorable t" "is_ws ?b \<and> state = S_BeforeToken \<or> \<not> is_ws ?b \<and> ?b = 0x25 \<and> state = S_InComment" for state
      using that between p0 st pos grow by (intro read_inv_cut) (auto simp: read_inv_def skipping_append)
    consider (ws) "is_ws ?b" | (percent) "\<not> is_ws ?b" "?b = 0x25" | (top) "\<not> is_ws ?b" "?b \<noteq> 0x25" by blast
    then show ?thesis
    proof cases
      case ws
      show ?thesis
      proof (cases "tk_include_ignorable t")
        case True
        have "handle_character ?t ?b = ?t\<lparr>tk_before_token := False, tk_in_token := True, tk_state := S_InSpace\<rparr>"
          using rules(1) [OF flags ws] True by simp
        then show ?thesis using started [OF True, of S_InSpace] p0 by (simp add: read_byte_cut Let_def)
      next
        case False
        have "handle_character ?t ?b = ?t" using rules(2) [OF flags ws] False by simp
        moreover have "?t\<lparr>tk_state := S_BeforeToken\<rparr> = ?t" using flags(1) by simp
        ultimately show ?thesis using skipped [OF False, of S_BeforeToken] ws p0 st
          by (simp add: read_byte_cut Let_def)
      qed
    next
      case percent
      show ?thesis
      proof (cases "tk_include_ignorable t")
        case True
        have "handle_character ?t ?b = ?t\<lparr>tk_before_token := False, tk_in_token := True, tk_state := S_InComment\<rparr>"
          using rules(3) [OF flags percent] True by simp
        then show ?thesis using started [OF True, of S_InComment] p0 by (simp add: read_byte_cut Let_def)
      next
        case False
        have "handle_character ?t ?b = ?t\<lparr>tk_state := S_InComment\<rparr>"
          using rules(4) [OF flags percent] False by simp
        then show ?thesis using skipped [OF False, of S_InComment] percent p0 st
          by (simp add: read_byte_cut Let_def)
      qed
    next
      case top
      let ?u = "in_top (?t\<lparr>tk_before_token := False, tk_in_token := True\<rparr>) ?b"
      have h: "handle_character ?t ?b = ?u" using rules(5) top st between p0 by simp
      have frame: "tk_frame ?u = tk_frame ?t" by simp
      show ?thesis unfolding read_byte_cut h Let_def
        using tk_frameD [OF frame] in_top_inside [of "?t\<lparr>tk_before_token := False, tk_in_token := True\<rparr>" ?b]
          st between p0 pos one inv
        by (intro read_inv_cut) (auto simp: read_inv_def)
    qed
  qed
qed

lemma read_inv_byte_inside:
  assumes inv: "read_inv p0 t" and st: "tk_state t \<noteq> S_TokenReady" "\<not> tk_before_token t"
    and pos: "tk_pos t < length (tk_input t)"
  shows "read_inv p0 (read_byte max_len t (tk_input t ! tk_pos t))"
proof -
  let ?b = "tk_input t ! tk_pos t" and ?t = "t\<lparr>tk_pos := tk_pos t + 1\<rparr>"
  let ?u = "handle_character ?t ?b"
  have tin: "tk_in_token t" using inv st by (auto simp: read_inv_def split: if_splits)
  then have raw: "tk_token_start t + length (tk_raw t) = tk_pos t"
    "tk_raw t = span (tk_token_start t) (tk_pos t) (tk_input t)"
    "tk_raw t = [] \<longrightarrow> tk_state t = S_InlineImage"
    "tk_state t \<in> {S_InComment, S_InSpace} \<and> tk_include_ignorable t \<or> tk_state t \<in> inside_states"
    and skip: "skipping False (span p0 (tk_token_start t) (tk_input t)) = Some False"
      "tk_include_ignorable t \<longrightarrow> tk_token_start t = p0" "p0 \<le> tk_token_start t"
    using inv st by (auto simp: read_inv_def)
  have keep: "span (tk_token_start t) (Suc (tk_pos t)) (tk_input t) = tk_raw t @ [?b]"
    using raw pos by (simp add: span_Suc)
  note flags = handle_in_token [of ?t ?b]
  have before: "\<not> tk_before_token ?u" using flags(1) tin st raw(4) by simp
  show ?thesis
  proof (cases "tk_in_token ?u")
    case True
    let ?v = "?u\<lparr>tk_raw := tk_raw ?u @ [?b]\<rparr>"
    have states: "tk_state ?u \<in> {S_InComment, S_InSpace} \<and> tk_include_ignorable t \<or>
        tk_state ?u \<in> inside_states \<or> tk_state ?u = S_TokenReady"
      using flags(2) tin st raw(4) True by simp
    have "read_inv p0 ?v"
      using True before states raw(1) keep skip pos by (simp add: read_inv_def)
    then have "read_inv p0 (length_cut max_len ?v)" by (rule read_inv_cut) simp
    then show ?thesis using True before by (simp add: read_byte_cut Let_def)
  next
    case False
    then have ready: "tk_state ?u = S_TokenReady" using flags(2) tin st raw(4) by simp
    have "tk_raw t \<noteq> []"
    proof
      assume "tk_raw t = []"
      then have "tk_state t = S_InlineImage" using raw(3) by simp
      then show False using False tin by (simp add: handle_character_def in_inline_image_def split: if_splits)
    qed
    then have "read_inv p0 ?u"
      using False before ready raw(1,2) skip pos by (simp add: read_inv_def)
    then have "read_inv p0 (length_cut max_len ?u)" by (rule read_inv_cut) (use False in simp)
    then show ?thesis using False before by (simp add: read_byte_cut Let_def)
  qed
qed

lemma read_inv_byte:
  "read_inv p0 t \<Longrightarrow> tk_state t \<noteq> S_TokenReady \<Longrightarrow> tk_pos t < length (tk_input t) \<Longrightarrow>
   read_inv p0 (read_byte max_len t (tk_input t ! tk_pos t))"
  using read_inv_byte_before read_inv_byte_inside by blast

section \<open>End of input\<close>

text \<open>A form feed ends a name, a number or a word without joining it.\<close>

lemma form_feed: "is_token_delimiter 0x0C" "\<not> is_ascii_digit 0x0C" "hex_value 0x0C = None" "is_ws 0x0C"
  by (simp_all add: is_token_delimiter_def is_ws_def is_ascii_digit_def hex_value_def)

lemma handle_form_feed:
  "tk_state t \<in> {S_Name, S_NameHex1, S_NameHex2, S_Number, S_Real, S_Sign, S_Decimal, S_Literal} \<Longrightarrow>
   tk_state (handle_character t 0x0C) = S_TokenReady \<and> \<not> tk_in_token (handle_character t 0x0C)"
  by (auto simp: handle_character_def in_name_def in_name_hex1_def in_name_hex2_def in_number_def in_real_def
    in_sign_def in_decimal_def in_literal_def form_feed Let_def)

lemma form_feed_states:
  "{S_Name, S_NameHex1, S_NameHex2, S_Number, S_Real, S_Sign, S_Decimal, S_Literal} \<subseteq> inside_states"
  by (auto simp: inside_states_def)

lemma read_eof_Inr: "tk_state t \<noteq> S_TokenReady \<Longrightarrow> \<exists>u. read_eof t = Inr u"
  by (auto simp: read_eof_def present_eof_def present_character_def Let_def)

lemma present_eof_inv:
  assumes inv: "read_inv p0 t" and st: "tk_state t \<noteq> S_TokenReady"
    and pos: "\<not> tk_pos t < length (tk_input t)" and eof: "present_eof t = Inr u"
  shows "read_inv p0 u \<and> (tk_before_token u \<or> tk_in_token u)"
proof -
  have len: "tk_pos t = length (tk_input t)" using inv pos by (simp add: read_inv_def)
  let ?delim = "{S_Name, S_NameHex1, S_NameHex2, S_Number, S_Real, S_Sign, S_Decimal, S_Literal}"
  show ?thesis
  proof (cases "tk_state t \<in> ?delim")
    case True
    let ?h = "handle_character t 0x0C"
    have inside: "tk_state t \<in> inside_states" using True form_feed_states by blast
    then have tin: "\<not> tk_before_token t" "tk_in_token t"
      using inv st by (auto simp: read_inv_def inside_states_def split: if_splits)
    have h: "tk_state ?h = S_TokenReady" "\<not> tk_in_token ?h" using handle_form_feed [OF True] by simp_all
    have before: "\<not> tk_before_token ?h" using handle_inside_before [OF inside] tin by simp
    have u: "u = ?h\<lparr>tk_in_token := True, tk_state := S_TokenReady\<rparr>"
      using eof True st h(2) by (simp add: present_eof_def present_character_def Let_def)
    have raw: "tk_token_start t + length (tk_raw t) = tk_pos t"
      "tk_raw t = span (tk_token_start t) (tk_pos t) (tk_input t)"
      using inv tin by (auto simp: read_inv_def)
    show ?thesis using inv tin h before len raw unfolding u by (simp add: read_inv_def raw(1))
  next
    case other: False
    show ?thesis
    proof (cases "tk_before_token t")
      case True
      then have "tk_before_token u \<and> \<not> tk_in_token u \<and> tk_raw u = tk_raw t \<and> tk_pos u = tk_pos t \<and>
          tk_input u = tk_input t \<and> tk_state u = S_TokenReady \<and> tk_token_start u = tk_token_start t \<and>
          tk_include_ignorable u = tk_include_ignorable t"
        using eof other st inv by (auto simp: present_eof_def Let_def read_inv_def split: if_splits)
      then show ?thesis using inv True len by (auto simp: read_inv_def)
    next
      case False
      then have "\<not> tk_before_token u \<and> tk_in_token u \<and> tk_raw u = tk_raw t \<and> tk_pos u = tk_pos t \<and>
          tk_input u = tk_input t \<and> tk_state u = S_TokenReady \<and> tk_token_start u = tk_token_start t \<and>
          tk_include_ignorable u = tk_include_ignorable t"
        using eof other st inv by (auto simp: present_eof_def Let_def read_inv_def split: if_splits)
      then show ?thesis using inv False st len by (auto simp: read_inv_def split: if_splits)
    qed
  qed
qed

lemma read_inv_eof:
  assumes "read_inv p0 t" "tk_state t \<noteq> S_TokenReady" "\<not> tk_pos t < length (tk_input t)" "read_eof t = Inr u"
  shows "read_inv p0 u"
proof -
  obtain v where v: "present_eof t = Inr v" using assms(4) by (auto simp: read_eof_def split: sum.splits)
  have inv: "read_inv p0 v" using present_eof_inv [OF assms(1-3) v] by simp
  have u: "u = v \<or> u = v\<lparr>tk_token_type := T_Bad, tk_error_message := Some (str ''unexpected EOF'')\<rparr>"
    using assms(4) v by (auto simp: read_eof_def split: if_splits)
  have "read_inv p0 (v\<lparr>tk_token_type := ty, tk_error_message := m\<rparr>) = read_inv p0 v" for ty m
    unfolding read_inv_def by simp
  then show ?thesis using inv u by metis
qed

section \<open>One read\<close>

lemma read_loop_inv:
  "read_inv p0 t \<Longrightarrow> \<exists>u. read_loop max_len t = Inr u \<and> read_inv p0 u \<and> tk_state u = S_TokenReady \<and>
     tk_input u = tk_input t \<and> tk_allow_eof u = tk_allow_eof t \<and>
     tk_include_ignorable u = tk_include_ignorable t"
proof (induction max_len t rule: read_loop.induct)
  case (1 max_len t)
  consider (ready) "tk_state t = S_TokenReady" | (byte) "tk_state t \<noteq> S_TokenReady" "tk_pos t < length (tk_input t)"
    | (eof) "tk_state t \<noteq> S_TokenReady" "\<not> tk_pos t < length (tk_input t)" by blast
  then show ?case
  proof cases
    case ready
    then show ?thesis using "1.prems" by (simp add: read_loop.simps)
  next
    case byte
    have "read_loop max_len t = read_loop max_len (read_byte max_len t (tk_input t ! tk_pos t))"
      using byte by (subst read_loop.simps) simp
    then show ?thesis using "1.IH"(1) [OF byte read_inv_byte [OF "1.prems" byte]] by simp
  next
    case eof
    obtain u where u: "read_eof t = Inr u" using read_eof_Inr [OF eof(1)] by blast
    have "read_loop max_len t = read_loop max_len u"
      using eof u by (subst read_loop.simps) simp
    then show ?thesis
      using "1.IH"(2) [OF eof u read_inv_eof [OF "1.prems" eof u]] read_eof_frame [OF u] by simp
  qed
qed

text \<open>A tokenizer between tokens: after \<open>new\<close>, after every read, after \<open>expect_inline_image\<close>.\<close>

definition between_tokens :: "tokenizer \<Rightarrow> bool" where
  "between_tokens t \<longleftrightarrow> tk_pos t \<le> length (tk_input t) \<and> tk_token_type t = T_Bad \<and>
     (tk_state t = S_BeforeToken \<or> tk_state t = S_InlineImage) \<and>
     (tk_state t = S_InlineImage \<longrightarrow> \<not> tk_before_token t \<and> tk_in_token t \<and> tk_raw t = [])"

lemma start_read_inv: "between_tokens t \<Longrightarrow> read_inv (tk_pos t) (start_read t)"
  by (auto simp: between_tokens_def start_read_def read_inv_def tk_reset_def Let_def inside_states_def)

lemma start_read_frame [simp]:
  "tk_input (start_read t) = tk_input t" "tk_allow_eof (start_read t) = tk_allow_eof t"
  "tk_include_ignorable (start_read t) = tk_include_ignorable t"
  by (simp_all add: start_read_def tk_reset_def Let_def)

lemma read_inv_ready:
  assumes "read_inv p0 t" "tk_state t = S_TokenReady"
  shows "tk_raw t = span (tk_token_start t) (tk_token_start t + length (tk_raw t)) (tk_input t)"
    "p0 \<le> tk_token_start t" "tk_token_start t + length (tk_raw t) \<le> length (tk_input t)"
    "tk_token_start t + length (tk_raw t) =
       (if \<not> tk_in_token t \<and> \<not> tk_before_token t then tk_pos t - 1 else tk_pos t)"
    "skipping False (span p0 (tk_token_start t) (tk_input t)) \<noteq> None"
    "tk_raw t = [] \<Longrightarrow> tk_token_start t = length (tk_input t)"
    "tk_include_ignorable t \<Longrightarrow> tk_token_start t = p0"
proof -
  show "tk_raw t = span (tk_token_start t) (tk_token_start t + length (tk_raw t)) (tk_input t)"
    using assms(1) unfolding read_inv_def by blast
qed (use assms in \<open>auto simp: read_inv_def inside_states_def split: if_splits\<close>)

text \<open>One read of a token: where it starts and ends, and that reading does not fail on bad tokens.\<close>

lemma read_token_spec:
  assumes "between_tokens t"
  shows "\<exists>tok u. read_token_with_options True max_len t = (Inr tok, u) \<and>
    tok_raw tok = span (tok_start tok) (tok_end tok) (tk_input t) \<and>
    tk_pos t \<le> tok_start tok \<and> tok_end tok = tok_start tok + length (tok_raw tok) \<and>
    tok_end tok \<le> length (tk_input t) \<and>
    skipping False (span (tk_pos t) (tok_start tok) (tk_input t)) \<noteq> None \<and>
    (tk_include_ignorable t \<longrightarrow> tok_start tok = tk_pos t) \<and>
    (tok_raw tok = [] \<longrightarrow> tok_start tok = length (tk_input t)) \<and>
    tk_input u = tk_input t \<and> tk_pos u = tok_end tok \<and> tk_state u = S_BeforeToken \<and>
    tk_token_type u = T_Bad \<and>
    tk_allow_eof u = tk_allow_eof t \<and> tk_include_ignorable u = tk_include_ignorable t"
proof -
  obtain v where v: "read_loop max_len (start_read t) = Inr v" "read_inv (tk_pos t) v"
    "tk_state v = S_TokenReady" "tk_input v = tk_input t" "tk_allow_eof v = tk_allow_eof t"
    "tk_include_ignorable v = tk_include_ignorable t"
    using read_loop_inv [OF start_read_inv [OF assms]] by auto
  note ready = read_inv_ready [OF v(2,3)]
  let ?w = "if \<not> tk_in_token v \<and> \<not> tk_before_token v then v\<lparr>tk_pos := tk_pos v - 1\<rparr> else v"
  have w: "tk_pos ?w = tk_token_start v + length (tk_raw v)" using ready(4) by simp
  have tok: "take_ready_token ?w = take_ready_token v" by (simp add: take_ready_token_def)
  let ?tok = "take_ready_token v"
  have f: "tok_raw ?tok = tk_raw v" "tok_start ?tok = tk_token_start v"
    "tok_end ?tok = tk_token_start v + length (tk_raw v)"
    by (simp_all add: take_ready_token_def from_parts_def)
  show ?thesis
  proof (intro exI conjI impI)
    show "read_token_with_options True max_len t = (Inr ?tok, tk_reset ?w)"
      using v(1) tok by (simp add: read_token_with_options_def Let_def)
    show "tok_raw ?tok = span (tok_start ?tok) (tok_end ?tok) (tk_input t)"
      unfolding f v(4) [symmetric] by (rule ready(1))
    show "tk_pos t \<le> tok_start ?tok" "tok_end ?tok = tok_start ?tok + length (tok_raw ?tok)"
      "tok_end ?tok \<le> length (tk_input t)" using ready(2,3) v(4) by (simp_all add: f)
    show "skipping False (span (tk_pos t) (tok_start ?tok) (tk_input t)) \<noteq> None"
      unfolding f v(4) [symmetric] by (rule ready(5))
    show "tok_start ?tok = tk_pos t" if "tk_include_ignorable t"
      unfolding f using ready(7) v(6) that by simp
    show "tok_start ?tok = length (tk_input t)" if "tok_raw ?tok = []"
      using ready(6) v(4) that unfolding f by simp
    show "tk_pos (tk_reset ?w) = tok_end ?tok" using w by (simp add: tk_reset_def f)
  qed (use v in \<open>simp_all add: tk_reset_def\<close>)
qed

section \<open>The end-of-file token\<close>

text \<open>No byte makes an end-of-file token; the end of the input makes one between tokens only.\<close>

lemma in_string_type: "tk_token_type (in_string t b) = T_Eof \<Longrightarrow> tk_token_type t = T_Eof"
  by (simp add: in_string_def Let_def split: if_splits)

lemma in_char_code_type: "tk_token_type (in_char_code t b) = T_Eof \<Longrightarrow> tk_token_type t = T_Eof"
  by (auto simp: in_char_code_def Let_def split: if_splits dest: in_string_type)

lemma in_name_type: "tk_token_type (in_name t b) = T_Eof \<Longrightarrow> tk_token_type t = T_Eof"
  by (simp add: in_name_def split: if_splits)

lemma in_literal_type: "tk_token_type (in_literal t b) = T_Eof \<Longrightarrow> tk_token_type t = T_Eof"
  by (simp add: in_literal_def split: if_splits)

lemma in_hex_string_type: "tk_token_type (in_hex_string t b) = T_Eof \<Longrightarrow> tk_token_type t = T_Eof"
  by (simp add: in_hex_string_def split: if_splits option.splits)

lemma in_top_type: "tk_token_type (in_top t b) = T_Eof \<Longrightarrow> tk_token_type t = T_Eof"
  by (simp add: in_top_def split: if_splits)

lemmas in_types = in_string_type in_char_code_type in_name_type in_literal_type in_hex_string_type in_top_type

lemma handle_character_type:
  "tk_token_type (handle_character t b) = T_Eof \<Longrightarrow> tk_token_type t = T_Eof"
  by (cases "tk_state t")
    (auto simp: handle_character_def in_space_def in_comment_def in_lt_def in_gt_def in_number_def
      in_real_def in_string_after_cr_def in_string_escape_def in_inline_image_def
      in_hex_string_second_def in_name_hex1_def in_name_hex2_def in_sign_def in_decimal_def
      in_before_token_def Let_def split: if_splits option.splits dest: in_types)

lemma read_byte_type:
  "tk_token_type (read_byte max_len t b) = T_Eof \<Longrightarrow> tk_token_type t = T_Eof"
  by (auto simp: read_byte_def Let_def split: if_splits dest: handle_character_type)

lemma present_eof_type:
  assumes "read_inv p0 t" "tk_state t \<noteq> S_TokenReady" "tk_token_type t \<noteq> T_Eof" "present_eof t = Inr u"
    "tk_token_type u = T_Eof"
  shows "tk_before_token u \<or> tk_state t = S_InSpace \<and> \<not> tk_include_ignorable t"
  using assms
  by (auto simp: present_eof_def present_character_def Let_def read_inv_def inside_states_def
    split: if_splits dest: handle_character_type)

lemma read_loop_eof:
  "read_inv p0 t \<Longrightarrow> tk_state t \<noteq> S_TokenReady \<Longrightarrow> tk_token_type t \<noteq> T_Eof \<Longrightarrow> read_loop max_len t = Inr u \<Longrightarrow>
   tk_token_type u = T_Eof \<Longrightarrow> tk_before_token u"
proof (induction max_len t rule: read_loop.induct)
  case (1 max_len t)
  show ?case
  proof (cases "tk_pos t < length (tk_input t)")
    case True
    let ?v = "read_byte max_len t (tk_input t ! tk_pos t)"
    have loop: "read_loop max_len ?v = Inr u"
      using "1.prems" True by (subst (asm) read_loop.simps) simp
    have type: "tk_token_type ?v \<noteq> T_Eof" using "1.prems"(3) read_byte_type by blast
    show ?thesis
    proof (cases "tk_state ?v = S_TokenReady")
      case ready: True
      then have "u = ?v" using loop by (subst (asm) read_loop.simps) simp
      then show ?thesis using type "1.prems"(5) by simp
    next
      case False
      then show ?thesis
        using "1.IH"(1) [OF "1.prems"(2) True read_inv_byte [OF "1.prems"(1,2) True] False type loop "1.prems"(5)]
        by simp
    qed
  next
    case False
    obtain v where v: "read_eof t = Inr v" using read_eof_Inr [OF "1.prems"(2)] by blast
    then have "tk_state v = S_TokenReady" by (auto dest: read_eof_frame)
    moreover have "read_loop max_len v = Inr u"
      using "1.prems" False v by (subst (asm) read_loop.simps) simp
    ultimately have u: "u = v" by (simp add: read_loop.simps)
    obtain w where w: "present_eof t = Inr w" using v by (auto simp: read_eof_def split: sum.splits)
    have vw: "v = w" using v w "1.prems"(5) u by (auto simp: read_eof_def split: if_splits)
    have "\<not> (tk_state t = S_InSpace \<and> \<not> tk_include_ignorable t)"
      using "1.prems"(1) by (auto simp: read_inv_def inside_states_def split: if_splits)
    then show ?thesis using present_eof_type [OF "1.prems"(1-3) w] "1.prems"(5) u vw by blast
  qed
qed

text \<open>An end-of-file token is empty, and between tokens at the end of the input there is no other.\<close>

lemma read_token_eof:
  assumes "between_tokens t" "read_token_with_options True max_len t = (Inr tok, u)" "tok_type tok = T_Eof"
  shows "tok_raw tok = []"
proof -
  obtain v where v: "read_loop max_len (start_read t) = Inr v" "read_inv (tk_pos t) v" "tk_state v = S_TokenReady"
    using read_loop_inv [OF start_read_inv [OF assms(1)]] by auto
  have type: "tk_token_type v = T_Eof" "tok_raw tok = tk_raw v"
    using assms(2,3) v(1)
    by (auto simp: read_token_with_options_def Let_def take_ready_token_def from_parts_def split: if_splits)
  have "tk_before_token v"
    using read_loop_eof [OF start_read_inv [OF assms(1)] _ _ v(1) type(1)] assms(1)
    by (simp add: start_read_def tk_reset_def between_tokens_def Let_def)
  then show ?thesis using v(2) type(2) by (simp add: read_inv_def)
qed

lemma read_token_at_end:
  assumes "tk_state t = S_BeforeToken" "tk_allow_eof t" "tk_pos t = length (tk_input t)"
  shows "\<exists>tok. read_token_with_options True max_len t = (Inr tok, tk_reset t) \<and> tok_type tok = T_Eof \<and>
    tok_raw tok = []"
proof -
  let ?s = "start_read t"
  have s: "tk_state ?s = S_BeforeToken" "tk_pos ?s = length (tk_input ?s)" "tk_before_token ?s"
    "tk_raw ?s = []" "tk_allow_eof ?s"
    using assms by (simp_all add: start_read_def tk_reset_def Let_def)
  then have "read_eof ?s = Inr (?s\<lparr>tk_token_type := T_Eof, tk_state := S_TokenReady\<rparr>)"
    by (simp add: read_eof_def present_eof_def Let_def)
  then have loop: "read_loop max_len ?s = Inr (?s\<lparr>tk_token_type := T_Eof, tk_state := S_TokenReady\<rparr>)"
    using s by (subst read_loop.simps) (simp add: read_loop.simps)
  show ?thesis using s loop assms
    by (simp add: read_token_with_options_def Let_def take_ready_token_def from_parts_def)
      (simp add: tk_reset_def start_read_def)
qed

section \<open>Properties\<close>

text \<open>
  C4: reading one token loses no input. From any cursor between tokens and with any length limit, a
  read with \<open>allow_bad\<close> returns a token; its raw bytes are the slice of the input between its start and
  its end, the cursor ends behind them, what is skipped in front is white space and comments (nothing
  when ignorable tokens are requested), and only the end of the input gives an empty token.
\<close>

theorem read_token_lossless:
  assumes "between_tokens t"
  shows "\<exists>tok u. read_token_with_options True max_len t = (Inr tok, u) \<and>
    tok_raw tok = span (tok_start tok) (tok_end tok) (tk_input t) \<and> tk_pos u = tok_end tok \<and>
    tk_pos t \<le> tok_start tok \<and> tok_start tok \<le> tok_end tok \<and> tok_end tok \<le> length (tk_input t) \<and>
    skipping False (span (tk_pos t) (tok_start tok) (tk_input t)) \<noteq> None \<and>
    (tk_include_ignorable t \<longrightarrow> tok_start tok = tk_pos t) \<and>
    (tok_raw tok = [] \<longrightarrow> tok_start tok = length (tk_input t)) \<and> between_tokens u"
proof -
  obtain tok u where r: "read_token_with_options True max_len t = (Inr tok, u)"
    "tok_raw tok = span (tok_start tok) (tok_end tok) (tk_input t)" "tk_pos t \<le> tok_start tok"
    "tok_end tok = tok_start tok + length (tok_raw tok)" "tok_end tok \<le> length (tk_input t)"
    "skipping False (span (tk_pos t) (tok_start tok) (tk_input t)) \<noteq> None"
    "tk_include_ignorable t \<longrightarrow> tok_start tok = tk_pos t"
    "tok_raw tok = [] \<longrightarrow> tok_start tok = length (tk_input t)"
    "tk_input u = tk_input t" "tk_pos u = tok_end tok" "tk_state u = S_BeforeToken" "tk_token_type u = T_Bad"
    using read_token_spec [OF assms, of max_len] by blast
  have "between_tokens u" using r(5,9-12) by (simp add: between_tokens_def)
  moreover have "tok_start tok \<le> tok_end tok" using r(4) by linarith
  ultimately show ?thesis using r(1-3,5-8,10) by blast
qed

theorem read_token_lossless_witness:
  "between_tokens (tokenizer_new (str ''%a(b)'')) \<and>
   (\<exists>tok u. read_token_with_options True 0 (tokenizer_new (str ''%a(b)'')) = (Inr tok, u) \<and>
    tok_raw tok = span (tok_start tok) (tok_end tok) (tk_input (tokenizer_new (str ''%a(b)''))) \<and> tk_pos u = tok_end tok)"
proof
  show btw: "between_tokens (tokenizer_new (str ''%a(b)''))" by (simp add: between_tokens_def tokenizer_new_def)
  show "\<exists>tok u. read_token_with_options True 0 (tokenizer_new (str ''%a(b)'')) = (Inr tok, u) \<and>
    tok_raw tok = span (tok_start tok) (tok_end tok) (tk_input (tokenizer_new (str ''%a(b)''))) \<and> tk_pos u = tok_end tok"
    using read_token_lossless [OF btw, of 0] by blast
qed

end
