(* ===== verification/Tokenizer_Roundtrip.thy ===== *)
theory Tokenizer_Roundtrip
  imports Tokenizer_Lossless
begin

text \<open>
  What the writers print the tokenizer reads back: strings in both notations, names without the
  stray-\<open>#\<close> sentinel, and integers.
\<close>

section \<open>Running the machine over a prefix of the rest of the input\<close>

fun run :: "tokenizer \<Rightarrow> bytes \<Rightarrow> tokenizer option" where
  "run t [] = Some t"
| "run t (b # bs) = (if tk_state t = S_TokenReady then None else run (read_byte 0 t b) bs)"

lemma run_append: "run t (xs @ ys) = (case run t xs of None \<Rightarrow> None | Some u \<Rightarrow> run u ys)"
  by (induction t xs rule: run.induct) auto

lemma run_frame:
  "run t bs = Some u \<Longrightarrow>
   tk_input u = tk_input t \<and> tk_pos u = tk_pos t + length bs \<and> tk_allow_eof u = tk_allow_eof t \<and>
   tk_include_ignorable u = tk_include_ignorable t"
  by (induction t bs rule: run.induct) (auto split: if_splits)

lemma run_read_loop:
  "run t bs = Some u \<Longrightarrow> drop (tk_pos t) (tk_input t) = bs @ rest \<Longrightarrow> read_loop 0 t = read_loop 0 u"
proof (induction t bs rule: run.induct)
  case (1 t)
  then show ?case by simp
next
  case (2 t b bs)
  have st: "tk_state t \<noteq> S_TokenReady" using "2.prems"(1) by (auto split: if_splits)
  have pos: "tk_pos t < length (tk_input t)" using "2.prems"(2) by (cases "tk_pos t < length (tk_input t)") auto
  then have b: "tk_input t ! tk_pos t = b" "drop (tk_pos t + 1) (tk_input t) = bs @ rest"
    using "2.prems"(2) by (simp_all add: Cons_nth_drop_Suc [symmetric])
  have "read_loop 0 t = read_loop 0 (read_byte 0 t b)"
    using st pos b(1) by (subst read_loop.simps) simp
  then show ?case using 2 st b(2) by simp
qed

text \<open>A byte that stays in the token joins its raw bytes.\<close>

lemma read_byte_keep:
  assumes "\<not> tk_before_token (handle_character (t\<lparr>tk_pos := tk_pos t + 1\<rparr>) b)"
    "tk_in_token (handle_character (t\<lparr>tk_pos := tk_pos t + 1\<rparr>) b)"
  shows "read_byte 0 t b = (handle_character (t\<lparr>tk_pos := tk_pos t + 1\<rparr>) b)\<lparr>tk_raw := tk_raw t @ [b]\<rparr>"
  using assms by (simp add: read_byte_def Let_def)

lemma read_byte_end:
  assumes "\<not> tk_before_token (handle_character (t\<lparr>tk_pos := tk_pos t + 1\<rparr>) b)"
    "\<not> tk_in_token (handle_character (t\<lparr>tk_pos := tk_pos t + 1\<rparr>) b)"
  shows "read_byte 0 t b = handle_character (t\<lparr>tk_pos := tk_pos t + 1\<rparr>) b"
  using assms by (simp add: read_byte_def Let_def)

lemma start_top:
  assumes "tk_state t = S_BeforeToken" "\<not> is_ws b" "b \<noteq> 0x25"
  shows "read_byte 0 (start_read t) b =
    (in_top (start_read t\<lparr>tk_pos := tk_pos t + 1, tk_before_token := False, tk_in_token := True\<rparr>) b)\<lparr>tk_raw := [b]\<rparr>"
proof -
  let ?s = "start_read t"
  have s: "tk_state ?s = S_BeforeToken" "tk_pos ?s = tk_pos t" "tk_raw ?s = []"
    using assms(1) by (simp_all add: start_read_def tk_reset_def Let_def)
  have h: "handle_character (?s\<lparr>tk_pos := tk_pos ?s + 1\<rparr>) b =
      in_top (?s\<lparr>tk_pos := tk_pos t + 1, tk_before_token := False, tk_in_token := True\<rparr>) b"
    using assms s by (simp add: handle_character_def in_before_token_def)
  let ?u = "in_top (?s\<lparr>tk_pos := tk_pos t + 1, tk_before_token := False, tk_in_token := True\<rparr>) b"
  have "\<not> tk_before_token ?u" "tk_in_token ?u" by (simp_all add: in_top_inside)
  then show ?thesis using read_byte_keep [of ?s b, unfolded h] s(3) by simp
qed

lemma start_read_fields:
  "tk_state t = S_BeforeToken \<Longrightarrow>
   tk_token_start (start_read t) = tk_pos t \<and> tk_value (start_read t) = [] \<and>
   tk_error_message (start_read t) = None \<and> \<not> tk_bad (start_read t) \<and> tk_pos (start_read t) = tk_pos t \<and>
   tk_state (start_read t) = S_BeforeToken"
  by (simp add: start_read_def tk_reset_def Let_def)

text \<open>A token complete with its last byte.\<close>

lemma read_self_delimited:
  assumes "tk_state t = S_BeforeToken" "run (start_read t) bs = Some u"
    "drop (tk_pos t) (tk_input t) = bs @ rest" "tk_state u = S_TokenReady" "tk_in_token u" "tk_token_type u \<noteq> T_Bad"
  shows "read_token_with_options allow_bad 0 t = (Inr (take_ready_token u), tk_reset u)"
proof -
  have "drop (tk_pos (start_read t)) (tk_input (start_read t)) = bs @ rest"
    using assms(1,3) start_read_fields by simp
  then have "read_loop 0 (start_read t) = read_loop 0 u" using run_read_loop [OF assms(2)] by simp
  also have "\<dots> = Inr u" using assms(4) by (simp add: read_loop.simps)
  finally show ?thesis using assms(5,6)
    by (simp add: read_token_with_options_def Let_def take_ready_token_def from_parts_def)
qed

text \<open>A token that the next delimiter or the end of the input completes.\<close>

definition ends_token :: "tokenizer \<Rightarrow> token_type \<Rightarrow> byte \<Rightarrow> bool" where
  "ends_token u ty d \<longleftrightarrow>
     (let h = handle_character u d
      in tk_state h = S_TokenReady \<and> \<not> tk_in_token h \<and> \<not> tk_before_token h \<and> tk_token_type h = ty \<and>
         tk_value h = tk_value u \<and> tk_error_message h = tk_error_message u)"

lemma read_delimited:
  assumes t: "tk_state t = S_BeforeToken" and run: "run (start_read t) bs = Some u"
    and inp: "drop (tk_pos t) (tk_input t) = bs @ rest"
    and st: "tk_state u \<in> {S_Name, S_Number, S_Real, S_Literal}"
    and rest: "rest = [] \<or> is_token_delimiter (hd rest)"
    and ends: "\<And>d pos. is_token_delimiter d \<Longrightarrow> ends_token (u\<lparr>tk_pos := pos\<rparr>) ty d" and ty: "ty \<noteq> T_Bad" "ty \<noteq> T_Eof"
  shows "\<exists>w. read_token_with_options allow_bad 0 t =
      (Inr (from_parts ty (if ty = T_Name \<or> ty = T_String then tk_value u else tk_raw u) (tk_raw u)
        (tk_error_message u) (tk_token_start u) (tk_token_start u + length (tk_raw u))), w) \<and>
    tk_pos w = tk_pos u"
proof -
  have pos: "tk_pos u = tk_pos t + length bs" "tk_input u = tk_input t"
    using run_frame [OF run] start_read_fields [OF t] by simp_all
  have loop: "read_loop 0 (start_read t) = read_loop 0 u"
    using run_read_loop [OF run, of rest] inp start_read_fields [OF t] by simp
  have dropu: "drop (tk_pos u) (tk_input u) = rest"
    unfolding pos using inp by (metis add.commute append_eq_conv_conj drop_drop)
  have nr: "tk_state u \<noteq> S_TokenReady" using st by auto
  show ?thesis
  proof (cases rest)
    case Nil
    then have len: "\<not> tk_pos u < length (tk_input u)" using dropu by simp
    let ?h = "handle_character u 0x0C"
    have h: "tk_state ?h = S_TokenReady" "\<not> tk_in_token ?h" "\<not> tk_before_token ?h" "tk_token_type ?h = ty"
      "tk_value ?h = tk_value u" "tk_error_message ?h = tk_error_message u"
      using ends [OF form_feed(1), of "tk_pos u"] by (simp_all add: ends_token_def Let_def)
    have "read_eof u = Inr (?h\<lparr>tk_in_token := True, tk_state := S_TokenReady\<rparr>)"
    proof -
      have char: "present_character u 0x0C = Inr ?h"
        using nr h(2) by (simp add: present_character_def Let_def)
      have "present_eof u = Inr (?h\<lparr>tk_in_token := True, tk_state := S_TokenReady\<rparr>)"
        using st unfolding present_eof_def char Let_def by (elim insertE) simp_all
      then show ?thesis using h(4) ty(2) by (simp add: read_eof_def)
    qed
    then have "read_loop 0 u = Inr (?h\<lparr>tk_in_token := True, tk_state := S_TokenReady\<rparr>)"
      using nr len by (subst read_loop.simps) (simp add: read_loop.simps)
    then show ?thesis using loop h ty
      by (simp add: read_token_with_options_def Let_def take_ready_token_def from_parts_def tk_reset_def)
  next
    case (Cons d rest')
    then have d: "is_token_delimiter d" using rest by simp
    have lt: "tk_pos u < length (tk_input u)" using dropu Cons by (cases "tk_pos u < length (tk_input u)") auto
    then have nth: "tk_input u ! tk_pos u = d"
      using dropu Cons by (simp add: Cons_nth_drop_Suc [symmetric])
    let ?h = "handle_character (u\<lparr>tk_pos := tk_pos u + 1\<rparr>) d"
    have h: "tk_state ?h = S_TokenReady" "\<not> tk_in_token ?h" "\<not> tk_before_token ?h" "tk_token_type ?h = ty"
      "tk_value ?h = tk_value u" "tk_error_message ?h = tk_error_message u"
      using ends [OF d, of "tk_pos u + 1"] by (simp_all add: ends_token_def Let_def)
    have "read_loop 0 u = Inr ?h"
      using nr lt nth read_byte_end [OF h(3,2)] h(1) by (subst read_loop.simps) (simp add: read_loop.simps)
    then show ?thesis using loop h ty
      by (simp add: read_token_with_options_def Let_def take_ready_token_def from_parts_def tk_reset_def)
  qed
qed

section \<open>Literal strings\<close>

text \<open>Inside a string at depth 1, with the value and the raw bytes so far.\<close>

definition str_at :: "nat \<Rightarrow> bytes \<Rightarrow> bytes \<Rightarrow> tokenizer \<Rightarrow> bool" where
  "str_at p0 v raw t \<longleftrightarrow>
     tk_state t = S_InString \<and> tk_value t = v \<and> tk_string_depth t = 1 \<and> \<not> tk_before_token t \<and> tk_in_token t \<and>
     tk_raw t = raw \<and> tk_token_start t = p0 \<and> tk_error_message t = None"

lemma str_at_handle:
  "str_at p0 v raw t \<Longrightarrow> handle_character (t\<lparr>tk_pos := n\<rparr>) b = in_string (t\<lparr>tk_pos := n\<rparr>) b"
  by (simp add: str_at_def handle_character_def)

lemma str_plain:
  assumes "str_at p0 v raw t" "b \<notin> {0x5C, 0x28, 0x29, 0x0D}"
  shows "\<exists>u. run t [b] = Some u \<and> str_at p0 (v @ [b]) (raw @ [b]) u"
proof -
  have "handle_character (t\<lparr>tk_pos := tk_pos t + 1\<rparr>) b = push_value b (t\<lparr>tk_pos := tk_pos t + 1\<rparr>)"
    unfolding str_at_handle [OF assms(1)] using assms(2) by (simp add: in_string_def)
  then have "read_byte 0 t b = push_value b (t\<lparr>tk_pos := tk_pos t + 1\<rparr>)\<lparr>tk_raw := raw @ [b]\<rparr>"
    using assms(1) by (subst read_byte_keep) (simp_all add: str_at_def)
  then show ?thesis using assms(1) by (simp add: str_at_def)
qed

text \<open>A backslash leads to the escape state.\<close>

lemma str_backslash:
  assumes "str_at p0 v raw t"
  shows "run t (0x5C # bs) = run ((t\<lparr>tk_pos := tk_pos t + 1, tk_state := S_StringEscape, tk_raw := raw @ [0x5C]\<rparr>)) bs"
proof -
  have "handle_character (t\<lparr>tk_pos := tk_pos t + 1\<rparr>) 0x5C = t\<lparr>tk_pos := tk_pos t + 1, tk_state := S_StringEscape\<rparr>"
    unfolding str_at_handle [OF assms] by (simp add: in_string_def)
  then have "read_byte 0 t 0x5C = t\<lparr>tk_pos := tk_pos t + 1, tk_state := S_StringEscape, tk_raw := raw @ [0x5C]\<rparr>"
    using assms by (subst read_byte_keep) (simp_all add: str_at_def)
  then show ?thesis using assms by (simp add: str_at_def)
qed

definition escape_value :: "byte \<Rightarrow> byte" where
  "escape_value e =
     (if e = 0x6E then 0x0A else if e = 0x72 then 0x0D else if e = 0x74 then 0x09
      else if e = 0x62 then 0x08 else if e = 0x66 then 0x0C else e)"

lemma str_escape:
  assumes "str_at p0 v raw t" "\<not> is_octal e" "e \<noteq> 0x0A" "e \<noteq> 0x0D"
  shows "\<exists>u. run t [0x5C, e] = Some u \<and> str_at p0 (v @ [escape_value e]) (raw @ [0x5C, e]) u"
proof -
  let ?t = "t\<lparr>tk_pos := tk_pos t + 1, tk_state := S_StringEscape, tk_raw := raw @ [0x5C]\<rparr>"
  have "handle_character (?t\<lparr>tk_pos := tk_pos ?t + 1\<rparr>) e =
      push_value (escape_value e) (?t\<lparr>tk_pos := tk_pos ?t + 1, tk_state := S_InString\<rparr>)"
    using assms(2-4) by (simp add: handle_character_def in_string_escape_def escape_value_def Let_def)
  then have "read_byte 0 ?t e =
      push_value (escape_value e) (?t\<lparr>tk_pos := tk_pos ?t + 1, tk_state := S_InString\<rparr>)\<lparr>tk_raw := raw @ [0x5C, e]\<rparr>"
    using assms(1) by (subst read_byte_keep) (simp_all add: str_at_def)
  then show ?thesis using assms(1) unfolding str_backslash [OF assms(1)] by (simp add: str_at_def)
qed

text \<open>Three octal digits.\<close>

definition octal_value :: "byte \<Rightarrow> byte \<Rightarrow> byte \<Rightarrow> byte" where
  "octal_value a b c = ucast ((8 * (8 * ucast (a - 0x30) + ucast (b - 0x30)) + ucast (c - 0x30) :: 16 word) mod 256)"

lemma str_octal:
  assumes "str_at p0 v raw t" "is_octal a" "is_octal b" "is_octal c"
  shows "\<exists>u. run t [0x5C, a, b, c] = Some u \<and> str_at p0 (v @ [octal_value a b c]) (raw @ [0x5C, a, b, c]) u"
proof -
  let ?t = "t\<lparr>tk_pos := tk_pos t + 1, tk_state := S_StringEscape, tk_raw := raw @ [0x5C]\<rparr>"
  let ?t1 = "?t\<lparr>tk_pos := tk_pos ?t + 1, tk_state := S_CharCode, tk_char_code := ucast (a - 0x30),
      tk_digit_count := 1, tk_raw := raw @ [0x5C, a]\<rparr>"
  have "handle_character (?t\<lparr>tk_pos := tk_pos ?t + 1\<rparr>) a =
      ?t\<lparr>tk_pos := tk_pos ?t + 1, tk_state := S_CharCode, tk_char_code := ucast (a - 0x30), tk_digit_count := 1\<rparr>"
    using assms(2) by (simp add: handle_character_def in_string_escape_def in_char_code_def Let_def)
  then have r1: "read_byte 0 ?t a = ?t1"
    using assms(1) by (subst read_byte_keep) (simp_all add: str_at_def)
  let ?t2 = "?t1\<lparr>tk_pos := tk_pos ?t1 + 1, tk_char_code := 8 * ucast (a - 0x30) + ucast (b - 0x30),
      tk_digit_count := 2, tk_raw := raw @ [0x5C, a, b]\<rparr>"
  have "handle_character (?t1\<lparr>tk_pos := tk_pos ?t1 + 1\<rparr>) b =
      ?t1\<lparr>tk_pos := tk_pos ?t1 + 1, tk_char_code := 8 * ucast (a - 0x30) + ucast (b - 0x30), tk_digit_count := 2\<rparr>"
    using assms(3) by (simp add: handle_character_def in_char_code_def Let_def)
  then have r2: "read_byte 0 ?t1 b = ?t2"
    using assms(1) by (subst read_byte_keep) (simp_all add: str_at_def)
  let ?h = "push_value (octal_value a b c) (?t2\<lparr>tk_pos := tk_pos ?t2 + 1,
      tk_char_code := 8 * (8 * ucast (a - 0x30) + ucast (b - 0x30)) + ucast (c - 0x30),
      tk_digit_count := 3, tk_state := S_InString\<rparr>)"
  have "handle_character (?t2\<lparr>tk_pos := tk_pos ?t2 + 1\<rparr>) c = ?h"
    using assms(4) by (simp add: handle_character_def in_char_code_def Let_def octal_value_def)
  then have r3: "read_byte 0 ?t2 c = ?h\<lparr>tk_raw := raw @ [0x5C, a, b, c]\<rparr>"
    using assms(1) by (subst read_byte_keep) (simp_all add: str_at_def)
  have "run t [0x5C, a, b, c] = Some (?h\<lparr>tk_raw := raw @ [0x5C, a, b, c]\<rparr>)"
    unfolding str_backslash [OF assms(1)] using r1 r2 r3 by simp
  then show ?thesis using assms(1) by (simp add: str_at_def)
qed

text \<open>Every byte of a literal string, however it is spelled, comes back.\<close>

lemma canonical_octal:
  "is_octal (0x30 + (drop_bit 6 b AND 7)) \<and> is_octal (0x30 + (drop_bit 3 b AND 7)) \<and> is_octal (0x30 + (b AND 7)) \<and>
   octal_value (0x30 + (drop_bit 6 b AND 7)) (0x30 + (drop_bit 3 b AND 7)) (0x30 + (b AND 7)) = b"
  by (rule all_bytesI [where b = b]) code_simp

lemma str_canonical_char:
  assumes "str_at p0 v raw t"
  shows "\<exists>u. run t (canonical_string_char b) = Some u \<and> str_at p0 (v @ [b]) (raw @ canonical_string_char b) u"
proof -
  have esc: "\<exists>u. run t [0x5C, e] = Some u \<and> str_at p0 (v @ [b]) (raw @ [0x5C, e]) u"
    if "\<not> is_octal e" "e \<noteq> 0x0A" "e \<noteq> 0x0D" "escape_value e = b" for e
    using str_escape [OF assms that(1-3)] that(4) by simp
  consider (named) e where "canonical_string_char b = [0x5C, e]" "\<not> is_octal e" "e \<noteq> 0x0A" "e \<noteq> 0x0D" "escape_value e = b"
    | (plain) "canonical_string_char b = [b]" "b \<notin> {0x5C, 0x28, 0x29, 0x0D}"
    | (octal) "canonical_string_char b =
        [0x5C, 0x30 + (drop_bit 6 b AND 7), 0x30 + (drop_bit 3 b AND 7), 0x30 + (b AND 7)]"
  proof -
    have "(\<exists>e \<in> {0x6E, 0x72, 0x74, 0x62, 0x66, 0x28, 0x29, 0x5C}. canonical_string_char b = [0x5C, e] \<and>
        \<not> is_octal e \<and> e \<noteq> 0x0A \<and> e \<noteq> 0x0D \<and> escape_value e = b) \<or>
      canonical_string_char b = [b] \<and> b \<notin> {0x5C, 0x28, 0x29, 0x0D} \<or>
      canonical_string_char b = [0x5C, 0x30 + (drop_bit 6 b AND 7), 0x30 + (drop_bit 3 b AND 7), 0x30 + (b AND 7)]"
      by (simp add: canonical_string_char_def is_octal_def escape_value_def)
    then show ?thesis using that by blast
  qed
  then show ?thesis
  proof cases
    case named
    then show ?thesis using esc by simp
  next
    case plain
    then show ?thesis using str_plain [OF assms plain(2)] by simp
  next
    case octal
    then show ?thesis using str_octal [OF assms] canonical_octal [of b] by metis
  qed
qed

lemma str_canonical_chars:
  "str_at p0 v raw t \<Longrightarrow>
   \<exists>u. run t (concat (map canonical_string_char bs)) = Some u \<and>
     str_at p0 (v @ bs) (raw @ concat (map canonical_string_char bs)) u"
proof (induction bs arbitrary: v raw t)
  case Nil
  then show ?case by auto
next
  case (Cons b bs)
  obtain w where w: "run t (canonical_string_char b) = Some w" "str_at p0 (v @ [b]) (raw @ canonical_string_char b) w"
    using str_canonical_char [OF Cons.prems] by blast
  obtain u where "run w (concat (map canonical_string_char bs)) = Some u"
    "str_at p0 ((v @ [b]) @ bs) ((raw @ canonical_string_char b) @ concat (map canonical_string_char bs)) u"
    using Cons.IH [OF w(2)] by blast
  then show ?case using w(1) by (simp add: run_append)
qed

text \<open>What a finished string token looks like.\<close>

definition string_done :: "nat \<Rightarrow> bytes \<Rightarrow> bytes \<Rightarrow> tokenizer \<Rightarrow> bool" where
  "string_done p0 v raw t \<longleftrightarrow>
     tk_state t = S_TokenReady \<and> tk_token_type t = T_String \<and> tk_value t = v \<and> tk_in_token t \<and>
     tk_raw t = raw \<and> tk_token_start t = p0 \<and> tk_error_message t = None"

lemma str_close:
  assumes "str_at p0 v raw t"
  shows "\<exists>u. run t [0x29] = Some u \<and> string_done p0 v (raw @ [0x29]) u"
proof -
  have "handle_character (t\<lparr>tk_pos := tk_pos t + 1\<rparr>) 0x29 =
      t\<lparr>tk_pos := tk_pos t + 1, tk_string_depth := 0, tk_token_type := T_String, tk_state := S_TokenReady\<rparr>"
    unfolding str_at_handle [OF assms] using assms by (simp add: in_string_def Let_def str_at_def)
  then have "read_byte 0 t 0x29 =
      t\<lparr>tk_pos := tk_pos t + 1, tk_string_depth := 0, tk_token_type := T_String, tk_state := S_TokenReady,
        tk_raw := raw @ [0x29]\<rparr>"
    using assms by (subst read_byte_keep) (simp_all add: str_at_def)
  then show ?thesis using assms by (simp add: str_at_def string_done_def)
qed

lemma str_open:
  assumes "tk_state t = S_BeforeToken"
  shows "\<exists>u. run (start_read t) [0x28] = Some u \<and> str_at (tk_pos t) [] [0x28] u"
proof -
  have "read_byte 0 (start_read t) 0x28 =
      start_read t\<lparr>tk_pos := tk_pos t + 1, tk_before_token := False, tk_in_token := True, tk_string_depth := 1,
        tk_state := S_InString, tk_raw := [0x28]\<rparr>"
    using start_top [OF assms, of "0x28"] by (simp add: is_ws_def in_top_def)
  then show ?thesis using start_read_fields [OF assms] by (simp add: str_at_def)
qed

section \<open>Hexadecimal strings\<close>

definition hex_at :: "nat \<Rightarrow> bytes \<Rightarrow> bytes \<Rightarrow> tokenizer \<Rightarrow> bool" where
  "hex_at p0 v raw t \<longleftrightarrow>
     (tk_state t = S_InHexString \<or> tk_state t = S_Lt \<and> v = []) \<and> tk_value t = v \<and> \<not> tk_before_token t \<and>
     tk_in_token t \<and> tk_raw t = raw \<and> tk_token_start t = p0 \<and> tk_error_message t = None"

lemma hex_at_handle:
  "hex_at p0 v raw t \<Longrightarrow> b \<noteq> 0x3C \<Longrightarrow>
   handle_character (t\<lparr>tk_pos := n\<rparr>) b = in_hex_string (t\<lparr>tk_pos := n, tk_state := S_InHexString\<rparr>) b"
  by (cases t) (auto simp: hex_at_def handle_character_def in_lt_def)

lemma hex_open:
  assumes "tk_state t = S_BeforeToken"
  shows "\<exists>u. run (start_read t) [0x3C] = Some u \<and> hex_at (tk_pos t) [] [0x3C] u"
proof -
  have "read_byte 0 (start_read t) 0x3C =
      start_read t\<lparr>tk_pos := tk_pos t + 1, tk_before_token := False, tk_in_token := True,
        tk_state := S_Lt, tk_raw := [0x3C]\<rparr>"
    using start_top [OF assms, of "0x3C"] by (simp add: is_ws_def in_top_def)
  then show ?thesis using start_read_fields [OF assms] by (simp add: hex_at_def)
qed

lemma hex_pair_step:
  assumes "hex_at p0 v raw t" "hex_value x = Some h" "hex_value y = Some l"
  shows "\<exists>u. run t [x, y] = Some u \<and>
    hex_at p0 (v @ [ucast (push_bit 4 (ucast h) OR ucast l :: 16 word)]) (raw @ [x, y]) u"
proof -
  have x: "x \<noteq> 0x3C" using assms(2) by (auto simp: hex_value_def is_ascii_digit_def)
  let ?t1 = "t\<lparr>tk_pos := tk_pos t + 1, tk_state := S_InHexStringSecond, tk_char_code := push_bit 4 (ucast h),
      tk_raw := raw @ [x]\<rparr>"
  have "handle_character (t\<lparr>tk_pos := tk_pos t + 1\<rparr>) x =
      t\<lparr>tk_pos := tk_pos t + 1, tk_char_code := push_bit 4 (ucast h), tk_state := S_InHexStringSecond\<rparr>"
    unfolding hex_at_handle [OF assms(1) x] using assms(2) by (simp add: in_hex_string_def)
  then have r1: "read_byte 0 t x = ?t1"
    using assms(1) by (subst read_byte_keep) (simp_all add: hex_at_def)
  let ?b = "ucast (push_bit 4 (ucast h) OR ucast l :: 16 word)"
  have "handle_character (?t1\<lparr>tk_pos := tk_pos ?t1 + 1\<rparr>) y =
      push_value ?b (?t1\<lparr>tk_pos := tk_pos ?t1 + 1, tk_state := S_InHexString\<rparr>)"
    using assms(3) by (simp add: handle_character_def in_hex_string_second_def)
  then have r2: "read_byte 0 ?t1 y =
      push_value ?b (?t1\<lparr>tk_pos := tk_pos ?t1 + 1, tk_state := S_InHexString\<rparr>)\<lparr>tk_raw := raw @ [x, y]\<rparr>"
    using assms(1) by (subst read_byte_keep) (simp_all add: hex_at_def)
  have "tk_state t \<noteq> S_TokenReady" using assms(1) by (auto simp: hex_at_def)
  then show ?thesis using r1 r2 assms(1) by (simp add: hex_at_def)
qed

lemma hex_pairs:
  "hex_at p0 v raw t \<Longrightarrow>
   \<exists>u. run t (concat (map hex_pair bs)) = Some u \<and> hex_at p0 (v @ bs) (raw @ concat (map hex_pair bs)) u"
proof (induction bs arbitrary: v raw t)
  case Nil
  then show ?case by auto
next
  case (Cons b bs)
  obtain x y where xy: "hex_pair b = [x, y]" by (simp add: hex_pair_def)
  obtain h l where hl: "hex_value x = Some h" "hex_value y = Some l"
    "push_bit 4 (ucast h) OR ucast l = (ucast b :: 16 word)"
    using hex_pair_value [of b] xy by auto
  have "ucast (push_bit 4 (ucast h) OR ucast l :: 16 word) = b"
    unfolding hl(3) by (rule all_bytesI [where b = b]) code_simp
  then obtain w where w: "run t (hex_pair b) = Some w" "hex_at p0 (v @ [b]) (raw @ hex_pair b) w"
    using hex_pair_step [OF Cons.prems hl(1,2)] xy by auto
  obtain u where "run w (concat (map hex_pair bs)) = Some u"
    "hex_at p0 ((v @ [b]) @ bs) ((raw @ hex_pair b) @ concat (map hex_pair bs)) u"
    using Cons.IH [OF w(2)] by blast
  then show ?case using w(1) by (simp add: run_append)
qed

lemma hex_close:
  assumes "hex_at p0 v raw t"
  shows "\<exists>u. run t [0x3E] = Some u \<and> string_done p0 v (raw @ [0x3E]) u"
proof -
  have none: "hex_value 0x3E = None" by (simp add: hex_value_def is_ascii_digit_def)
  have "handle_character (t\<lparr>tk_pos := tk_pos t + 1\<rparr>) 0x3E =
      t\<lparr>tk_pos := tk_pos t + 1, tk_token_type := T_String, tk_state := S_TokenReady\<rparr>"
    by (subst hex_at_handle [OF assms]) (simp_all add: in_hex_string_def none)
  then have "read_byte 0 t 0x3E =
      t\<lparr>tk_pos := tk_pos t + 1, tk_token_type := T_String, tk_state := S_TokenReady, tk_raw := raw @ [0x3E]\<rparr>"
    using assms by (subst read_byte_keep) (simp_all add: hex_at_def)
  moreover have "tk_state t \<noteq> S_TokenReady" using assms by (auto simp: hex_at_def)
  ultimately show ?thesis using assms by (simp add: hex_at_def string_done_def)
qed

section \<open>Strings\<close>

lemma string_done_read:
  assumes "tk_state t = S_BeforeToken" "run (start_read t) bs = Some u" "string_done (tk_pos t) v bs u"
    "drop (tk_pos t) (tk_input t) = bs @ rest"
  shows "\<exists>tok w. read_token_with_options allow_bad 0 t = (Inr tok, w) \<and> tok_type tok = T_String \<and>
    tok_value tok = v \<and> tok_raw tok = bs \<and> tk_pos w = tk_pos t + length bs"
proof -
  have "read_token_with_options allow_bad 0 t = (Inr (take_ready_token u), tk_reset u)"
    using assms(3) by (intro read_self_delimited [OF assms(1,2,4)]) (simp_all add: string_done_def)
  moreover have "tk_pos (tk_reset u) = tk_pos t + length bs"
    using run_frame [OF assms(2)] start_read_fields [OF assms(1)] by (simp add: tk_reset_def)
  ultimately show ?thesis using assms(3)
    by (simp add: take_ready_token_def from_parts_def string_done_def)
qed

lemma literal_string_run:
  assumes "tk_state t = S_BeforeToken"
  shows "\<exists>u. run (start_read t) ([0x28] @ concat (map canonical_string_char v) @ [0x29]) = Some u \<and>
    string_done (tk_pos t) v ([0x28] @ concat (map canonical_string_char v) @ [0x29]) u"
proof -
  let ?body = "concat (map canonical_string_char v)"
  obtain u0 where u0: "run (start_read t) [0x28] = Some u0" "str_at (tk_pos t) [] [0x28] u0"
    using str_open [OF assms] by blast
  obtain u1 where u1: "run u0 ?body = Some u1" "str_at (tk_pos t) v ([0x28] @ ?body) u1"
    using str_canonical_chars [OF u0(2), of v] by auto
  obtain u2 where u2: "run u1 [0x29] = Some u2" "string_done (tk_pos t) v (([0x28] @ ?body) @ [0x29]) u2"
    using str_close [OF u1(2)] by blast
  have "run (start_read t) ([0x28] @ ?body @ [0x29]) = Some u2"
    unfolding run_append u0(1) option.case u1(1) u2(1) ..
  moreover have "string_done (tk_pos t) v ([0x28] @ ?body @ [0x29]) u2" using u2(2) by simp
  ultimately show ?thesis by blast
qed

lemma read_literal_string:
  assumes "tk_state t = S_BeforeToken"
    "drop (tk_pos t) (tk_input t) = ([0x28] @ concat (map canonical_string_char v) @ [0x29]) @ rest"
  shows "\<exists>tok w. read_token_with_options allow_bad 0 t = (Inr tok, w) \<and> tok_type tok = T_String \<and>
    tok_value tok = v \<and> tok_raw tok = [0x28] @ concat (map canonical_string_char v) @ [0x29] \<and>
    tk_pos w = tk_pos t + length ([0x28] @ concat (map canonical_string_char v) @ [0x29])"
  using literal_string_run [OF assms(1)] string_done_read [OF assms(1) _ _ assms(2)] by blast

lemma hex_string_run:
  assumes "tk_state t = S_BeforeToken"
  shows "\<exists>u. run (start_read t) ([0x3C] @ concat (map hex_pair v) @ [0x3E]) = Some u \<and>
    string_done (tk_pos t) v ([0x3C] @ concat (map hex_pair v) @ [0x3E]) u"
proof -
  let ?body = "concat (map hex_pair v)"
  obtain u0 where u0: "run (start_read t) [0x3C] = Some u0" "hex_at (tk_pos t) [] [0x3C] u0"
    using hex_open [OF assms] by blast
  obtain u1 where u1: "run u0 ?body = Some u1" "hex_at (tk_pos t) v ([0x3C] @ ?body) u1"
    using hex_pairs [OF u0(2), of v] by auto
  obtain u2 where u2: "run u1 [0x3E] = Some u2" "string_done (tk_pos t) v (([0x3C] @ ?body) @ [0x3E]) u2"
    using hex_close [OF u1(2)] by blast
  have "run (start_read t) ([0x3C] @ ?body @ [0x3E]) = Some u2"
    unfolding run_append u0(1) option.case u1(1) u2(1) ..
  moreover have "string_done (tk_pos t) v ([0x3C] @ ?body @ [0x3E]) u2" using u2(2) by simp
  ultimately show ?thesis by blast
qed

lemma read_hex_string:
  assumes "tk_state t = S_BeforeToken"
    "drop (tk_pos t) (tk_input t) = ([0x3C] @ concat (map hex_pair v) @ [0x3E]) @ rest"
  shows "\<exists>tok w. read_token_with_options allow_bad 0 t = (Inr tok, w) \<and> tok_type tok = T_String \<and>
    tok_value tok = v \<and> tok_raw tok = [0x3C] @ concat (map hex_pair v) @ [0x3E] \<and>
    tk_pos w = tk_pos t + length ([0x3C] @ concat (map hex_pair v) @ [0x3E])"
  using hex_string_run [OF assms(1)] string_done_read [OF assms(1) _ _ assms(2)] by blast

text \<open>The two writers of the crate agree.\<close>

lemma string_scan_eq: "use_hex_loop v n = string_scan v n"
  by (induction v n rule: use_hex_loop.induct) simp_all

lemma literal_char_eq: "literal_char b = canonical_string_char b"
  by (rule all_bytesI [where b = b]) code_simp

section \<open>Names\<close>

definition name_at :: "nat \<Rightarrow> bytes \<Rightarrow> bytes \<Rightarrow> tokenizer \<Rightarrow> bool" where
  "name_at p0 v raw t \<longleftrightarrow>
     tk_state t = S_Name \<and> tk_value t = v \<and> \<not> tk_before_token t \<and> tk_in_token t \<and> \<not> tk_bad t \<and>
     tk_raw t = raw \<and> tk_token_start t = p0 \<and> tk_error_message t = None"

lemma name_open:
  assumes "tk_state t = S_BeforeToken"
  shows "\<exists>u. run (start_read t) [0x2F] = Some u \<and> name_at (tk_pos t) [0x2F] [0x2F] u"
proof -
  have "read_byte 0 (start_read t) 0x2F =
      push_value 0x2F (start_read t\<lparr>tk_pos := tk_pos t + 1, tk_before_token := False, tk_in_token := True,
        tk_state := S_Name\<rparr>)\<lparr>tk_raw := [0x2F]\<rparr>"
    using start_top [OF assms, of "0x2F"] by (simp add: is_ws_def in_top_def)
  then show ?thesis using start_read_fields [OF assms] by (simp add: name_at_def)
qed

lemma name_plain:
  assumes "name_at p0 v raw t" "\<not> is_token_delimiter b" "b \<noteq> 0x23"
  shows "\<exists>u. run t [b] = Some u \<and> name_at p0 (v @ [b]) (raw @ [b]) u"
proof -
  have "handle_character (t\<lparr>tk_pos := tk_pos t + 1\<rparr>) b = push_value b (t\<lparr>tk_pos := tk_pos t + 1\<rparr>)"
    using assms by (simp add: handle_character_def in_name_def name_at_def)
  then have "read_byte 0 t b = push_value b (t\<lparr>tk_pos := tk_pos t + 1\<rparr>)\<lparr>tk_raw := raw @ [b]\<rparr>"
    using assms(1) by (subst read_byte_keep) (simp_all add: name_at_def)
  then show ?thesis using assms(1) by (simp add: name_at_def)
qed

lemma name_escaped:
  assumes "name_at p0 v raw t" "hex_value x = Some h" "hex_value y = Some l"
    "push_bit 4 (ucast h) OR ucast l = (ucast b :: 16 word)" "b \<noteq> 0"
  shows "\<exists>u. run t [0x23, x, y] = Some u \<and> name_at p0 (v @ [b]) (raw @ [0x23, x, y]) u"
proof -
  have hash: "\<not> is_token_delimiter 0x23" by (simp add: is_token_delimiter_def is_ws_def is_delimiter_def)
  let ?t1 = "t\<lparr>tk_pos := tk_pos t + 1, tk_char_code := 0, tk_state := S_NameHex1, tk_raw := raw @ [0x23]\<rparr>"
  have "handle_character (t\<lparr>tk_pos := tk_pos t + 1\<rparr>) 0x23 =
      t\<lparr>tk_pos := tk_pos t + 1, tk_char_code := 0, tk_state := S_NameHex1\<rparr>"
    using assms(1) hash by (simp add: handle_character_def in_name_def name_at_def)
  then have r1: "read_byte 0 t 0x23 = ?t1"
    using assms(1) by (subst read_byte_keep) (simp_all add: name_at_def)
  let ?t2 = "?t1\<lparr>tk_pos := tk_pos ?t1 + 1, tk_hex_byte := x, tk_char_code := push_bit 4 (ucast h),
      tk_state := S_NameHex2, tk_raw := raw @ [0x23, x]\<rparr>"
  have "handle_character (?t1\<lparr>tk_pos := tk_pos ?t1 + 1\<rparr>) x =
      ?t1\<lparr>tk_pos := tk_pos ?t1 + 1, tk_hex_byte := x, tk_char_code := push_bit 4 (ucast h), tk_state := S_NameHex2\<rparr>"
    using assms(2) by (simp add: handle_character_def in_name_hex1_def Let_def)
  then have r2: "read_byte 0 ?t1 x = ?t2"
    using assms(1) by (subst read_byte_keep) (simp_all add: name_at_def)
  have b: "(ucast b :: 16 word) \<noteq> 0" "ucast (ucast b :: 16 word) = b"
  proof -
    have "b \<noteq> 0 \<longrightarrow> (ucast b :: 16 word) \<noteq> 0 \<and> ucast (ucast b :: 16 word) = b"
      by (rule all_bytesI [where b = b]) code_simp
    then show "(ucast b :: 16 word) \<noteq> 0" "ucast (ucast b :: 16 word) = b" using assms(5) by simp_all
  qed
  let ?h = "push_value b (?t2\<lparr>tk_pos := tk_pos ?t2 + 1, tk_char_code := ucast b, tk_state := S_Name\<rparr>)"
  have "handle_character (?t2\<lparr>tk_pos := tk_pos ?t2 + 1\<rparr>) y = ?h"
    using assms(3) b by (simp add: handle_character_def in_name_hex2_def Let_def assms(4))
  then have r3: "read_byte 0 ?t2 y = ?h\<lparr>tk_raw := raw @ [0x23, x, y]\<rparr>"
    using assms(1) by (subst read_byte_keep) (simp_all add: name_at_def)
  have "tk_state t \<noteq> S_TokenReady" using assms(1) by (auto simp: name_at_def)
  then show ?thesis using r1 r2 r3 assms(1) by (simp add: name_at_def)
qed

lemma name_char:
  assumes "name_at p0 v raw t" "b \<noteq> 0"
  shows "\<exists>u. run t (name_escape b) = Some u \<and> name_at p0 (v @ [b]) (raw @ name_escape b) u"
proof (cases "needs_name_escape b")
  case True
  obtain x y where xy: "hex_pair b = [x, y]" by (simp add: hex_pair_def)
  obtain h l where "hex_value x = Some h" "hex_value y = Some l"
    "push_bit 4 (ucast h) OR ucast l = (ucast b :: 16 word)"
    using hex_pair_value [of b] xy by auto
  from name_escaped [OF assms(1) this assms(2)] show ?thesis
    using True assms(2) xy by (simp add: name_escape_def)
next
  case False
  then have "\<not> is_token_delimiter b" "b \<noteq> 0x23"
    by (auto simp: needs_name_escape_def is_token_delimiter_def is_ws_def is_delimiter_def)
  then show ?thesis using name_plain [OF assms(1)] False assms(2) by (simp add: name_escape_def)
qed

lemma name_chars:
  "name_at p0 v raw t \<Longrightarrow> 0 \<notin> set bs \<Longrightarrow>
   \<exists>u. run t (concat (map name_escape bs)) = Some u \<and>
     name_at p0 (v @ bs) (raw @ concat (map name_escape bs)) u"
proof (induction bs arbitrary: v raw t)
  case Nil
  then show ?case by auto
next
  case (Cons b bs)
  obtain w where w: "run t (name_escape b) = Some w" "name_at p0 (v @ [b]) (raw @ name_escape b) w"
    using name_char [OF Cons.prems(1), of b] Cons.prems(2) by auto
  obtain u where "run w (concat (map name_escape bs)) = Some u"
    "name_at p0 ((v @ [b]) @ bs) ((raw @ name_escape b) @ concat (map name_escape bs)) u"
    using Cons.IH [OF w(2)] Cons.prems(2) by auto
  then show ?case using w(1) by (simp add: run_append)
qed

lemma name_ends: "name_at p0 v raw u \<Longrightarrow> is_token_delimiter d \<Longrightarrow> ends_token (u\<lparr>tk_pos := pos\<rparr>) T_Name d"
  by (simp add: ends_token_def handle_character_def in_name_def name_at_def Let_def)

section \<open>Integers\<close>

definition number_at :: "nat \<Rightarrow> bytes \<Rightarrow> tokenizer \<Rightarrow> bool" where
  "number_at p0 raw t \<longleftrightarrow>
     tk_state t = S_Number \<and> \<not> tk_before_token t \<and> tk_in_token t \<and> tk_raw t = raw \<and> tk_token_start t = p0 \<and>
     tk_error_message t = None"

lemma number_digits:
  "number_at p0 raw t \<Longrightarrow> list_all is_ascii_digit ds \<Longrightarrow>
   \<exists>u. run t ds = Some u \<and> number_at p0 (raw @ ds) u"
proof (induction ds arbitrary: raw t)
  case Nil
  then show ?case by simp
next
  case (Cons d ds)
  have "handle_character (t\<lparr>tk_pos := tk_pos t + 1\<rparr>) d = t\<lparr>tk_pos := tk_pos t + 1\<rparr>"
    using Cons.prems by (simp add: handle_character_def in_number_def number_at_def)
  then have r: "read_byte 0 t d = t\<lparr>tk_pos := tk_pos t + 1, tk_raw := raw @ [d]\<rparr>"
    using Cons.prems(1) by (subst read_byte_keep) (simp_all add: number_at_def)
  have "number_at p0 (raw @ [d]) (read_byte 0 t d)" using Cons.prems(1) r by (simp add: number_at_def)
  from Cons.IH [OF this] show ?case using Cons.prems by (simp add: number_at_def)
qed

lemma digit_not_top: "is_ascii_digit d \<Longrightarrow> \<not> is_ws d \<and> d \<notin> {0x25, 0x28, 0x3C, 0x3E, 0x29, 0x5B, 0x5D, 0x7B, 0x7D, 0x2F}"
  by (auto simp: is_ascii_digit_def is_ws_def)

lemma number_open:
  assumes "tk_state t = S_BeforeToken" "is_ascii_digit d"
  shows "\<exists>u. run (start_read t) [d] = Some u \<and> number_at (tk_pos t) [d] u"
proof -
  have "read_byte 0 (start_read t) d =
      start_read t\<lparr>tk_pos := tk_pos t + 1, tk_before_token := False, tk_in_token := True,
        tk_state := S_Number, tk_raw := [d]\<rparr>"
    using start_top [OF assms(1), of d] digit_not_top [OF assms(2)] assms(2) by (simp add: in_top_def)
  then show ?thesis using start_read_fields [OF assms(1)] by (simp add: number_at_def)
qed

lemma number_open_minus:
  assumes "tk_state t = S_BeforeToken" "is_ascii_digit d"
  shows "\<exists>u. run (start_read t) [0x2D, d] = Some u \<and> number_at (tk_pos t) [0x2D, d] u"
proof -
  let ?u = "start_read t\<lparr>tk_pos := tk_pos t + 1, tk_before_token := False, tk_in_token := True,
        tk_state := S_Sign, tk_raw := [0x2D]\<rparr>"
  have r1: "read_byte 0 (start_read t) 0x2D = ?u"
    using start_top [OF assms(1), of "0x2D"] by (simp add: in_top_def is_ws_def is_ascii_digit_def)
  have "handle_character (?u\<lparr>tk_pos := tk_pos ?u + 1\<rparr>) d = ?u\<lparr>tk_pos := tk_pos ?u + 1, tk_state := S_Number\<rparr>"
    using assms(2) by (simp add: handle_character_def in_sign_def)
  then have r2: "read_byte 0 ?u d = ?u\<lparr>tk_pos := tk_pos ?u + 1, tk_state := S_Number, tk_raw := [0x2D, d]\<rparr>"
    by (subst read_byte_keep) simp_all
  show ?thesis using r1 r2 start_read_fields [OF assms(1)] by (simp add: number_at_def)
qed

lemma number_ends: "number_at p0 raw u \<Longrightarrow> is_token_delimiter d \<Longrightarrow> ends_token (u\<lparr>tk_pos := pos\<rparr>) T_Integer d"
proof -
  assume u: "number_at p0 raw u" and d: "is_token_delimiter d"
  have "\<not> is_ascii_digit d" "d \<noteq> 0x2E" using d
    by (auto simp: is_token_delimiter_def is_ws_def is_delimiter_def is_ascii_digit_def)
  then show ?thesis using u d
    by (simp add: ends_token_def handle_character_def in_number_def number_at_def Let_def)
qed

lemma number_run:
  assumes "tk_state t = S_BeforeToken"
  shows "\<exists>u. run (start_read t) (decimal_int i) = Some u \<and> number_at (tk_pos t) (decimal_int i) u"
proof -
  let ?ds = "decimal (nat \<bar>i\<bar>)"
  have ds: "list_all is_ascii_digit ?ds" "?ds \<noteq> []" using decimal_digits by blast+
  then obtain d rest where d: "?ds = d # rest" "is_ascii_digit d" "list_all is_ascii_digit rest"
    by (cases ?ds) auto
  show ?thesis
  proof (cases "i < 0")
    case True
    obtain u where u: "run (start_read t) [0x2D, d] = Some u" "number_at (tk_pos t) [0x2D, d] u"
      using number_open_minus [OF assms d(2)] by blast
    have "decimal_int i = [0x2D, d] @ rest" using True d(1) by (simp add: decimal_int_def)
    moreover obtain w where w: "run u rest = Some w" "number_at (tk_pos t) ([0x2D, d] @ rest) w"
      using number_digits [OF u(2) d(3)] by blast
    moreover have "run (start_read t) ([0x2D, d] @ rest) = Some w" unfolding run_append u(1) option.case by (rule w(1))
    ultimately show ?thesis by metis
  next
    case False
    obtain u where u: "run (start_read t) [d] = Some u" "number_at (tk_pos t) [d] u"
      using number_open [OF assms d(2)] by blast
    have "decimal_int i = [d] @ rest" using False d(1) by (simp add: decimal_int_def)
    moreover obtain w where w: "run u rest = Some w" "number_at (tk_pos t) ([d] @ rest) w"
      using number_digits [OF u(2) d(3)] by blast
    moreover have "run (start_read t) ([d] @ rest) = Some w" unfolding run_append u(1) option.case by (rule w(1))
    ultimately show ?thesis by metis
  qed
qed

lemma parse_integer_decimal:
  assumes "- (2 ^ 63) \<le> i" "i < 2 ^ 63"
  shows "parse_integer_bytes (decimal_int i) n = Inr i"
proof -
  have parse: "parse_i64 (decimal_int i) = Inr i"
    unfolding parse_i64_def using assms by (intro parse_int_decimal_int) simp_all
  have "list_all is_ascii_digit (decimal (nat \<bar>i\<bar>))" using decimal_digits by blast
  then have "list_all (\<lambda>b. b < 0x80) (decimal (nat \<bar>i\<bar>))"
    by (rule list.pred_mono_strong) (auto simp: is_ascii_digit_def intro: order.strict_trans1)
  then have "list_all (\<lambda>b. b < 0x80) (decimal_int i)"
    by (cases "i < 0") (simp_all add: decimal_int_def)
  then show ?thesis by (simp add: parse_integer_bytes_def valid_utf8_ascii parse)
qed

section \<open>Properties\<close>

text \<open>
  C7: a string printed by the token writer and followed by anything is read back as one string token
  with the same bytes, the cursor right behind it.
\<close>

theorem string_token_roundtrip:
  assumes "tk_state t = S_BeforeToken" "drop (tk_pos t) (tk_input t) = canonical_string_raw v @ rest"
  shows "\<exists>tok w. read_token_with_options allow_bad 0 t = (Inr tok, w) \<and> tok_type tok = T_String \<and>
    tok_value tok = v \<and> tok_raw tok = canonical_string_raw v \<and>
    tk_pos w = tk_pos t + length (canonical_string_raw v)"
proof (cases "case string_scan v 0 of None \<Rightarrow> True | Some non_ascii \<Rightarrow> 5 * non_ascii > length v")
  case True
  then have raw: "canonical_string_raw v = [0x3C] @ concat (map hex_pair v) @ [0x3E]"
    by (simp only: canonical_string_raw_def if_True)
  show ?thesis using read_hex_string [OF assms(1) assms(2) [unfolded raw]] unfolding raw .
next
  case False
  then have raw: "canonical_string_raw v = [0x28] @ concat (map canonical_string_char v) @ [0x29]"
    by (simp only: canonical_string_raw_def if_False)
  show ?thesis using read_literal_string [OF assms(1) assms(2) [unfolded raw]] unfolding raw .
qed

theorem string_token_roundtrip_witness:
  "\<exists>tok w. read_token_with_options False 0 (tokenizer_new (canonical_string_raw [0x28, 0x0A] @ [0x41])) = (Inr tok, w) \<and>
    tok_type tok = T_String \<and> tok_value tok = [0x28, 0x0A] \<and> tok_raw tok = canonical_string_raw [0x28, 0x0A] \<and>
    tk_pos w = tk_pos (tokenizer_new (canonical_string_raw [0x28, 0x0A] @ [0x41])) + length (canonical_string_raw [0x28, 0x0A])"
  by (rule string_token_roundtrip) (simp_all add: tokenizer_new_def)

text \<open>The object writer and the token constructor of the crate print every string the same way.\<close>

lemma string_writers_agree: "write_string_value v = canonical_string_raw v"
proof -
  have "literal_char = canonical_string_char" by (rule ext) (rule literal_char_eq)
  then show ?thesis
    by (simp add: write_string_value_def use_hex_string_def canonical_string_raw_def string_scan_eq
      write_hex_string_def write_literal_string_def)
qed

text \<open>
  C8: a name without NUL bytes, printed with its escapes and followed by a delimiter or the end of the
  input, is read back as that name, the delimiter not consumed.
\<close>

theorem name_token_roundtrip:
  assumes "tk_state t = S_BeforeToken" "0 \<notin> set v" "rest = [] \<or> is_token_delimiter (hd rest)"
    "drop (tk_pos t) (tk_input t) = canonical_name_raw (0x2F # v) @ rest"
  shows "\<exists>tok w. read_token_with_options allow_bad 0 t = (Inr tok, w) \<and> tok_type tok = T_Name \<and>
    tok_value tok = 0x2F # v \<and> tok_raw tok = canonical_name_raw (0x2F # v) \<and>
    tk_pos w = tk_pos t + length (canonical_name_raw (0x2F # v))"
proof -
  have raw: "canonical_name_raw (0x2F # v) = [0x2F] @ concat (map name_escape v)"
    by (simp add: canonical_name_raw_def write_name_escaped_eq)
  obtain u0 where u0: "run (start_read t) [0x2F] = Some u0" "name_at (tk_pos t) [0x2F] [0x2F] u0"
    using name_open [OF assms(1)] by blast
  obtain u where u: "run u0 (concat (map name_escape v)) = Some u"
    "name_at (tk_pos t) ([0x2F] @ v) ([0x2F] @ concat (map name_escape v)) u"
    using name_chars [OF u0(2) assms(2)] by blast
  have run: "run (start_read t) (canonical_name_raw (0x2F # v)) = Some u"
    unfolding raw run_append u0(1) option.case by (rule u(1))
  have "tk_state u \<in> {S_Name, S_Number, S_Real, S_Literal}" using u(2) by (simp add: name_at_def)
  then obtain w where w: "read_token_with_options allow_bad 0 t =
      (Inr (from_parts T_Name (if T_Name = T_Name \<or> T_Name = T_String then tk_value u else tk_raw u) (tk_raw u)
        (tk_error_message u) (tk_token_start u) (tk_token_start u + length (tk_raw u))), w)"
    "tk_pos w = tk_pos u"
    using read_delimited [OF assms(1) run assms(4) _ assms(3) name_ends [OF u(2)]] by blast
  have "tk_pos u = tk_pos t + length (canonical_name_raw (0x2F # v))"
    using run_frame [OF run] start_read_fields [OF assms(1)] by simp
  then show ?thesis using w u(2) raw by (simp add: from_parts_def name_at_def)
qed

theorem name_token_roundtrip_witness:
  "\<exists>tok w. read_token_with_options False 0 (tokenizer_new (canonical_name_raw [0x2F, 0x41, 0x20] @ [0x2F])) = (Inr tok, w) \<and>
    tok_type tok = T_Name \<and> tok_value tok = [0x2F, 0x41, 0x20] \<and> tok_raw tok = canonical_name_raw [0x2F, 0x41, 0x20] \<and>
    tk_pos w = tk_pos (tokenizer_new (canonical_name_raw [0x2F, 0x41, 0x20] @ [0x2F])) + length (canonical_name_raw [0x2F, 0x41, 0x20])"
  by (rule name_token_roundtrip) (simp_all add: tokenizer_new_def is_token_delimiter_def is_delimiter_def)


text \<open>
  C9: an integer printed in decimal and followed by a delimiter or the end of the input is read back
  as one integer token whose conversion gives the number.
\<close>

theorem integer_token_roundtrip:
  assumes "tk_state t = S_BeforeToken" "- (2 ^ 63) \<le> i" "i < 2 ^ 63" "rest = [] \<or> is_token_delimiter (hd rest)"
    "drop (tk_pos t) (tk_input t) = decimal_int i @ rest"
  shows "\<exists>tok w. read_token_with_options allow_bad 0 t = (Inr tok, w) \<and> tok_type tok = T_Integer \<and>
    tok_raw tok = decimal_int i \<and> parse_integer_bytes (tok_raw tok) (tok_start tok) = Inr i \<and>
    tk_pos w = tk_pos t + length (decimal_int i)"
proof -
  obtain u where u: "run (start_read t) (decimal_int i) = Some u" "number_at (tk_pos t) (decimal_int i) u"
    using number_run [OF assms(1)] by blast
  have "tk_state u \<in> {S_Name, S_Number, S_Real, S_Literal}" using u(2) by (simp add: number_at_def)
  then obtain w where w: "read_token_with_options allow_bad 0 t =
      (Inr (from_parts T_Integer (if T_Integer = T_Name \<or> T_Integer = T_String then tk_value u else tk_raw u) (tk_raw u)
        (tk_error_message u) (tk_token_start u) (tk_token_start u + length (tk_raw u))), w)"
    "tk_pos w = tk_pos u"
    using read_delimited [OF assms(1) u(1) assms(5) _ assms(4) number_ends [OF u(2)]] by blast
  have "parse_integer_bytes (decimal_int i) n = Inr i" for n
    using assms(2,3) by (rule parse_integer_decimal)
  moreover have "tk_pos u = tk_pos t + length (decimal_int i)"
    using run_frame [OF u(1)] start_read_fields [OF assms(1)] by simp
  ultimately show ?thesis using w u(2) by (simp add: from_parts_def number_at_def)
qed

theorem integer_token_roundtrip_witness:
  "\<exists>tok w. read_token_with_options False 0 (tokenizer_new (decimal_int (- 7) @ [0x20])) = (Inr tok, w) \<and>
    tok_type tok = T_Integer \<and> tok_raw tok = decimal_int (- 7) \<and>
    parse_integer_bytes (tok_raw tok) (tok_start tok) = Inr (- 7) \<and>
    tk_pos w = tk_pos (tokenizer_new (decimal_int (- 7) @ [0x20])) + length (decimal_int (- 7))"
  by (rule integer_token_roundtrip) (simp_all add: tokenizer_new_def is_token_delimiter_def is_ws_def)

end
