(* ===== verification/Token_Pipeline.thy ===== *)
theory Token_Pipeline
  imports Tokenizer_Lossless Pipeline
begin

text \<open>
  Content streams through a token filter: the boundary \<open>TokenFilter\<close>
  (\<open>crates/flpdf/src/token_filter.rs\<close>), the buffering stage \<open>QpdfTokenizer\<close>
  (\<open>crates/flpdf/src/pipeline/qpdf_tokenizer.rs\<close>) and the content normalizer
  (\<open>crates/flpdf/src/content_normalizer.rs\<close>). The stage delivers the whole input to its filter.
\<close>

section \<open>Token filters\<close>

text \<open>\<open>TokenFilterOutput\<close>: an optional successor; an empty write is not forwarded.\<close>

definition output_write ::
  "'d pipeline \<Rightarrow> 'd option \<Rightarrow> bytes \<Rightarrow> (pipe_error, 'd option) outcome" where
  "output_write p next data =
     (if data = [] then Done next
      else case next of Some d \<Rightarrow> into Some (pl_write p d data) | None \<Rightarrow> Done None)"

definition output_write_token ::
  "'d pipeline \<Rightarrow> 'd option \<Rightarrow> token \<Rightarrow> (pipe_error, 'd option) outcome" where
  "output_write_token p next token = output_write p next (tok_raw token)"

text \<open>The trait: two operations on the filter's own state and the output.\<close>

record ('f, 'd) token_filter =
  tf_handle_token :: "token \<Rightarrow> 'f \<times> 'd option \<Rightarrow> (pipe_error, 'f \<times> 'd option) outcome"
  tf_handle_eof :: "'f \<times> 'd option \<Rightarrow> (pipe_error, 'f \<times> 'd option) outcome"

section \<open>The buffering stage\<close>

record ('f, 'd) qpdf_tokenizer =
  qt_identifier :: bytes
  qt_filter :: 'f
  qt_next :: "'d option"
  qt_output_attached :: bool
  qt_data :: bytes

definition qpdf_tokenizer_new :: "bytes \<Rightarrow> 'f \<Rightarrow> 'd option \<Rightarrow> ('f, 'd) qpdf_tokenizer" where
  "qpdf_tokenizer_new ident f next =
     \<lparr>qt_identifier = ident, qt_filter = f, qt_next = next, qt_output_attached = (next \<noteq> None), qt_data = []\<rparr>"

text \<open>Run a filter operation on the attached output, or on none.\<close>

definition with_output ::
  "('f \<times> 'd option \<Rightarrow> (pipe_error, 'f \<times> 'd option) outcome) \<Rightarrow> ('f, 'd) qpdf_tokenizer \<Rightarrow>
   (pipe_error, ('f, 'd) qpdf_tokenizer) outcome" where
  "with_output op s =
     into (\<lambda>(f, d). if qt_output_attached s then s\<lparr>qt_filter := f, qt_next := d\<rparr> else s\<lparr>qt_filter := f\<rparr>)
       (op (qt_filter s, if qt_output_attached s then qt_next s else None))"

definition qt_handle_token ::
  "('f, 'd) token_filter \<Rightarrow> token \<Rightarrow> ('f, 'd) qpdf_tokenizer \<Rightarrow>
   (pipe_error, ('f, 'd) qpdf_tokenizer) outcome" where
  "qt_handle_token tf token = with_output (tf_handle_token tf token)"

definition qt_handle_eof ::
  "('f, 'd) token_filter \<Rightarrow> ('f, 'd) qpdf_tokenizer \<Rightarrow> (pipe_error, ('f, 'd) qpdf_tokenizer) outcome" where
  "qt_handle_eof tf s = seq (with_output (tf_handle_eof tf) s) (\<lambda>s. Done (s\<lparr>qt_output_attached := False\<rparr>))"

definition qpdf_tokenizer_write ::
  "('f, 'd) qpdf_tokenizer \<Rightarrow> bytes \<Rightarrow> (pipe_error, ('f, 'd) qpdf_tokenizer) outcome" where
  "qpdf_tokenizer_write s data = Done (s\<lparr>qt_data := qt_data s @ data\<rparr>)"

definition state_error_debug :: "tokenizer_state_error \<Rightarrow> bytes" where
  "state_error_debug e =
     (case e of TokenWaiting \<Rightarrow> str ''TokenWaiting''
      | ImproperInlineImageState \<Rightarrow> str ''ImproperInlineImageState'')"

text \<open>
  The loop of \<open>finish\<close>, which has no bound of its own: \<open>None\<close> is running out of fuel. The separator
  after \<open>ID\<close> goes to the filter as a space token, then the tokenizer is told to expect image data.
\<close>

fun token_loop ::
  "('f, 'd) token_filter \<Rightarrow> nat \<Rightarrow> tokenizer \<Rightarrow> ('f, 'd) qpdf_tokenizer \<Rightarrow>
   (pipe_error, ('f, 'd) qpdf_tokenizer) outcome option" where
  "token_loop tf 0 t s = None"
| "token_loop tf (Suc fuel) t s =
     (case read_token_with_options True 0 t of
        (Inl e, t) \<Rightarrow> Some (Fail (Runtime (qt_identifier s @ str '': '' @ error_text e)) s)
      | (Inr token, t) \<Rightarrow>
          (case qt_handle_token tf token s of
             Fail e s \<Rightarrow> Some (Fail e s)
           | Done s \<Rightarrow>
               if tok_type token = T_Eof then Some (Done s)
               else if is_word_value token (str ''ID'') then
                 (case consume_one_byte_or 0x20 t of
                    (separator, t) \<Rightarrow>
                      (case qt_handle_token tf (token_new T_Space [separator]) s of
                         Fail e s \<Rightarrow> Some (Fail e s)
                       | Done s \<Rightarrow>
                           (case expect_inline_image t of
                              Inl e \<Rightarrow> Some (Fail (Logic (qt_identifier s @ str '': '' @ state_error_debug e)) s)
                            | Inr t \<Rightarrow> token_loop tf fuel t s)))
               else token_loop tf fuel t s))"

text \<open>Two rounds per byte and the end-of-file token are enough (\<open>token_loop_returns\<close>).\<close>

definition token_fuel :: "bytes \<Rightarrow> nat" where
  "token_fuel input = 2 * length input + 2"

definition qpdf_tokenizer_finish ::
  "'d pipeline \<Rightarrow> ('f, 'd) token_filter \<Rightarrow> ('f, 'd) qpdf_tokenizer \<Rightarrow>
   (pipe_error, ('f, 'd) qpdf_tokenizer) outcome option" where
  "qpdf_tokenizer_finish p tf s =
     (let input = qt_data s;
          s = s\<lparr>qt_data := []\<rparr>;
          t = include_ignorable (allow_eof (tokenizer_new input))
      in map_option (\<lambda>r. seq r (\<lambda>s. seq (qt_handle_eof tf s) (\<lambda>s.
             case qt_next s of
               Some d \<Rightarrow> into (\<lambda>d. s\<lparr>qt_next := Some d\<rparr>) (pl_finish p d)
             | None \<Rightarrow> Done s)))
           (token_loop tf (token_fuel input) t s))"

section \<open>The content normalizer\<close>

record content_normalizer =
  cn_any_bad_tokens :: bool
  cn_last_token_was_bad :: bool

text \<open>\<open>write_space\<close>: every line end becomes one line feed, byte by byte.\<close>

fun write_space :: "'d pipeline \<Rightarrow> bytes \<Rightarrow> 'd option \<Rightarrow> (pipe_error, 'd option) outcome" where
  "write_space p [] out = Done out"
| "write_space p (b # bs) out =
     seq (if b = 0x0D then
            (if bs = [] \<or> hd bs \<noteq> 0x0A then output_write p out [0x0A] else Done out)
          else output_write p out [b])
       (write_space p bs)"

definition normalizer_handle_token ::
  "'d pipeline \<Rightarrow> token \<Rightarrow> content_normalizer \<times> 'd option \<Rightarrow>
   (pipe_error, content_normalizer \<times> 'd option) outcome" where
  "normalizer_handle_token p token = (\<lambda>(n, out).
     let n = (if tok_type token = T_Bad then n\<lparr>cn_any_bad_tokens := True, cn_last_token_was_bad := True\<rparr>
              else if tok_type token \<noteq> T_Eof then n\<lparr>cn_last_token_was_bad := False\<rparr> else n);
         string_or_name = (tok_type token = T_String \<or> tok_type token = T_Name)
     in into (\<lambda>out. (n, out))
          (seq (if tok_type token = T_Space then write_space p (tok_raw token) out
                else if string_or_name
                then output_write_token p out (token_new (tok_type token) (tok_value token))
                else output_write_token p out token)
             (\<lambda>out. if string_or_name \<and> (\<exists>b \<in> set (tok_raw token). b = 0x0D \<or> b = 0x0A)
                    then output_write p out [0x0A] else Done out)))"

definition content_normalizer :: "'d pipeline \<Rightarrow> (content_normalizer, 'd) token_filter" where
  "content_normalizer p = \<lparr>tf_handle_token = normalizer_handle_token p, tf_handle_eof = Done\<rparr>"

record content_normalization =
  nz_bytes :: bytes
  nz_any_bad_tokens :: bool
  nz_last_token_was_bad :: bool

text \<open>Over a buffer nothing fails: the source's \<open>expect\<close>s are the \<open>None\<close> branches.\<close>

definition normalize_content_stream :: "bytes \<Rightarrow> content_normalization option" where
  "normalize_content_stream input =
     (case qpdf_tokenizer_write
             (qpdf_tokenizer_new (str ''content normalizer'')
                \<lparr>cn_any_bad_tokens = False, cn_last_token_was_bad = False\<rparr>
                (Some (buffer_new None :: unit buffer))) input of
        Fail e s \<Rightarrow> None
      | Done s \<Rightarrow>
          let bp = \<lparr>pl_write = buffer_write discard_pipeline, pl_finish = buffer_finish discard_pipeline\<rparr>
          in (case qpdf_tokenizer_finish bp (content_normalizer bp) s of
                Some (Done s) \<Rightarrow>
                  (case qt_next s of
                     None \<Rightarrow> None
                   | Some b \<Rightarrow>
                       (case take_buffer b of
                          Inl e \<Rightarrow> None
                        | Inr (bytes, b) \<Rightarrow>
                            Some \<lparr>nz_bytes = bytes, nz_any_bad_tokens = cn_any_bad_tokens (qt_filter s),
                                  nz_last_token_was_bad = cn_last_token_was_bad (qt_filter s)\<rparr>))
              | _ \<Rightarrow> None))"

section \<open>The stage terminates\<close>

text \<open>Each read makes progress, or is the one read of an inline image that ends at the end of input.\<close>

definition loop_ready :: "tokenizer \<Rightarrow> bool" where
  "loop_ready t \<longleftrightarrow> between_tokens t \<and> tk_allow_eof t \<and> tk_include_ignorable t"

definition loop_measure :: "tokenizer \<Rightarrow> nat" where
  "loop_measure t = 2 * (length (tk_input t) - tk_pos t) + (if tk_state t = S_InlineImage then 1 else 0)"

lemma loop_ready_new: "loop_ready (include_ignorable (allow_eof (tokenizer_new input)))"
  by (simp add: loop_ready_def between_tokens_def include_ignorable_def allow_eof_def tokenizer_new_def)

lemma loop_read:
  assumes "loop_ready t" "read_token_with_options True 0 t = (r, u)"
  obtains tok where "r = Inr tok" "tok_raw tok = span (tk_pos t) (tk_pos u) (tk_input t)"
    "tk_pos u = tk_pos t + length (tok_raw tok)" "tk_pos u \<le> length (tk_input t)" "tk_input u = tk_input t"
    "loop_ready u" "tk_state u = S_BeforeToken"
    "tok_type tok = T_Eof \<Longrightarrow> tk_pos u = length (tk_input t)"
    "tok_type tok \<noteq> T_Eof \<Longrightarrow> loop_measure u < loop_measure t"
    "loop_measure u + 2 * length (tok_raw tok) \<le> loop_measure t"
proof -
  have btw: "between_tokens t" using assms(1) by (simp add: loop_ready_def)
  obtain tok where tok: "r = Inr tok"
    "tok_raw tok = span (tok_start tok) (tok_end tok) (tk_input t)"
    "tok_end tok = tok_start tok + length (tok_raw tok)" "tok_end tok \<le> length (tk_input t)"
    "tok_start tok = tk_pos t" "tok_raw tok = [] \<longrightarrow> tok_start tok = length (tk_input t)"
    "tk_pos u = tok_end tok" "tk_input u = tk_input t" "tk_state u = S_BeforeToken" "tk_token_type u = T_Bad"
    "tk_allow_eof u" "tk_include_ignorable u"
    using read_token_spec [OF btw, of 0] assms unfolding loop_ready_def by fastforce
  have pos: "tk_pos u = tk_pos t + length (tok_raw tok)" using tok(3,5,7) by linarith
  have raw: "tok_raw tok = span (tk_pos t) (tk_pos u) (tk_input t)"
    using tok(2) unfolding tok(5) tok(7) [symmetric] .
  have ready: "loop_ready u" using tok by (simp add: loop_ready_def between_tokens_def)
  have le: "loop_measure u + 2 * length (tok_raw tok) \<le> loop_measure t"
    using tok(4,7,8,9) pos by (simp add: loop_measure_def)
  have less: "loop_measure u < loop_measure t" if "tok_type tok \<noteq> T_Eof"
  proof (cases "tok_raw tok = []")
    case True
    then have "tk_pos t = length (tk_input t)" using tok(5,6) by simp
    moreover have "tk_state t \<noteq> S_BeforeToken"
    proof
      assume "tk_state t = S_BeforeToken"
      then have "tok_type tok = T_Eof"
        using read_token_at_end [of t 0] assms calculation tok(1) by (auto simp: loop_ready_def)
      then show False using that by simp
    qed
    ultimately show ?thesis using pos tok(8,9) True btw by (auto simp: loop_measure_def between_tokens_def)
  next
    case False
    then have "0 < length (tok_raw tok)" by simp
    then show ?thesis using le by linarith
  qed
  have eof: "tk_pos u = length (tk_input t)" if "tok_type tok = T_Eof"
    using read_token_eof [OF btw, of 0 tok u] assms(2) tok(1,5,6) pos that by simp
  have "tk_pos u \<le> length (tk_input t)" using tok(4,7) by simp
  from that [OF tok(1) raw pos this tok(8) ready tok(9) eof less le] show ?thesis by blast
qed

text \<open>After an \<open>ID\<close> word the cursor moves on by one byte and image data is expected.\<close>

lemma loop_image:
  assumes "loop_ready t" "tk_state t = S_BeforeToken" "consume_one_byte_or dflt t = (b, u)"
  obtains v where "expect_inline_image u = Inr v" "loop_ready v" "tk_input v = tk_input t"
    "loop_measure v \<le> loop_measure t + 1" "tk_pos t < length (tk_input t) \<Longrightarrow> loop_measure v \<le> loop_measure t"
    "tk_pos v = (if tk_pos t < length (tk_input t) then tk_pos t + 1 else tk_pos t)"
    "b = (if tk_pos t < length (tk_input t) then tk_input t ! tk_pos t else dflt)"
proof -
  have u: "tk_state u = S_BeforeToken" "tk_input u = tk_input t" "tk_token_type u = T_Bad" "tk_raw u = []"
    "tk_allow_eof u = tk_allow_eof t" "tk_include_ignorable u = tk_include_ignorable t"
    "tk_pos u = (if tk_pos t < length (tk_input t) then tk_pos t + 1 else tk_pos t)"
    "b = (if tk_pos t < length (tk_input t) then tk_input t ! tk_pos t else dflt)"
    using assms(3) by (auto simp: consume_one_byte_or_def tk_reset_def Let_def split: if_splits)
  then obtain v where v: "expect_inline_image u = Inr v" "tk_state v = S_InlineImage" "tk_input v = tk_input u"
    "tk_token_type v = T_Bad" "tk_raw v = []" "tk_allow_eof v = tk_allow_eof u" "tk_pos v = tk_pos u"
    "tk_include_ignorable v = tk_include_ignorable u" "\<not> tk_before_token v" "tk_in_token v"
    by (simp add: expect_inline_image_def Let_def)
  have "loop_ready v" using v u assms(1) by (auto simp: loop_ready_def between_tokens_def)
  moreover have "tk_pos v = (if tk_pos t < length (tk_input t) then tk_pos t + 1 else tk_pos t)"
    using v(7) u(7) by simp
  moreover have "loop_measure v \<le> loop_measure t + 1"
    "tk_pos t < length (tk_input t) \<Longrightarrow> loop_measure v \<le> loop_measure t"
    using v(2,3) u(2) assms(2) calculation(2) by (auto simp: loop_measure_def)
  ultimately show ?thesis using that v(1,3) u(2,8) by metis
qed

lemma id_token_raw:
  "read_token_with_options True 0 t = (Inr tok, u) \<Longrightarrow> is_word_value tok w \<Longrightarrow> tok_raw tok = w"
  by (auto simp: read_token_with_options_def Let_def take_ready_token_def from_parts_def
    is_word_value_def is_word_def split: sum.splits if_splits)

text \<open>With more fuel than the measure the loop returns, whatever the filter does.\<close>

lemma token_loop_returns:
  "loop_ready t \<Longrightarrow> loop_measure t < fuel \<Longrightarrow> token_loop tf fuel t s \<noteq> None"
proof (induction fuel arbitrary: t s)
  case 0
  then show ?case by simp
next
  case (Suc fuel)
  obtain r u where read: "read_token_with_options True 0 t = (r, u)" by (metis prod.exhaust)
  obtain tok where tok: "r = Inr tok" "loop_ready u" "tk_state u = S_BeforeToken"
    "tok_raw tok = span (tk_pos t) (tk_pos u) (tk_input t)"
    "tok_type tok \<noteq> T_Eof \<Longrightarrow> loop_measure u < loop_measure t"
    "loop_measure u + 2 * length (tok_raw tok) \<le> loop_measure t"
    using loop_read [OF Suc.prems(1) read] by metis
  show ?case
  proof (cases "qt_handle_token tf tok s")
    case (Fail e s')
    then show ?thesis using read tok(1) by simp
  next
    case (Done s')
    show ?thesis
    proof (cases "tok_type tok = T_Eof")
      case True
      then show ?thesis using read tok(1) Done by simp
    next
      case noteof: False
      then have less: "loop_measure u < fuel" using tok(5) Suc.prems(2) by linarith
      show ?thesis
      proof (cases "is_word_value tok (str ''ID'')")
        case False
        then show ?thesis using read tok(1) Done noteof Suc.IH [OF tok(2) less] by simp
      next
        case True
        obtain b v where b: "consume_one_byte_or 0x20 u = (b, v)" by (metis prod.exhaust)
        obtain w where w: "expect_inline_image v = Inr w" "loop_ready w" "loop_measure w \<le> loop_measure u + 1"
          using loop_image [OF tok(2,3) b] by metis
        have "tok_raw tok = str ''ID''" using id_token_raw read tok(1) True by blast
        then have "0 < length (tok_raw tok)" by (simp add: str_def)
        then have "loop_measure w < fuel" using w(3) tok(6) Suc.prems(2) by linarith
        then show ?thesis
          using read tok(1) Done noteof True b w(1) Suc.IH [OF w(2)]
          by (cases "qt_handle_token tf (token_new T_Space [b]) s'") simp_all
      qed
    qed
  qed
qed

lemma qpdf_tokenizer_finish_returns: "qpdf_tokenizer_finish p tf s \<noteq> None"
proof -
  let ?t = "include_ignorable (allow_eof (tokenizer_new (qt_data s)))"
  have "loop_measure ?t < token_fuel (qt_data s)"
    by (simp add: loop_measure_def token_fuel_def include_ignorable_def allow_eof_def tokenizer_new_def)
  then show ?thesis using token_loop_returns [OF loop_ready_new]
    by (simp add: qpdf_tokenizer_finish_def Let_def)
qed

section \<open>The whole input reaches the filter\<close>

text \<open>A filter that forwards every token as it was read.\<close>

definition echo_filter :: "'d pipeline \<Rightarrow> (unit, 'd) token_filter" where
  "echo_filter p =
     \<lparr>tf_handle_token = (\<lambda>token (f, out). into (Pair f) (output_write_token p out token)),
      tf_handle_eof = Done\<rparr>"

lemma echo_token:
  "qt_output_attached s \<Longrightarrow> qt_next s = Some d \<Longrightarrow>
   qt_handle_token (echo_filter vec_sink) token s = Done (s\<lparr>qt_next := Some (d @ tok_raw token)\<rparr>)"
  by (cases s) (simp add: qt_handle_token_def with_output_def echo_filter_def output_write_token_def output_write_def)

lemma span_drop: "i \<le> j \<Longrightarrow> span i j xs @ drop j xs = drop i xs"
  by (simp add: span_def) (metis append_take_drop_id drop_drop le_add_diff_inverse2)

definition id_padding :: "bytes \<Rightarrow> bytes" where
  "id_padding input = (if \<exists>xs. input = xs @ str ''ID'' then [0x20] else [])"

lemma token_loop_echo:
  "loop_ready t \<Longrightarrow> loop_measure t < fuel \<Longrightarrow> qt_output_attached s \<Longrightarrow> qt_next s = Some d \<Longrightarrow>
   \<exists>s' pad. token_loop (echo_filter vec_sink) fuel t s = Some (Done s') \<and> qt_output_attached s' \<and>
     qt_next s' = Some (d @ drop (tk_pos t) (tk_input t) @ pad) \<and>
     (pad = [] \<or> pad = [0x20] \<and> tk_pos t < length (tk_input t) \<and> (\<exists>xs. tk_input t = xs @ str ''ID''))"
proof (induction fuel arbitrary: t s d)
  case 0
  then show ?case by simp
next
  case (Suc fuel)
  obtain r u where read: "read_token_with_options True 0 t = (r, u)" by (metis prod.exhaust)
  obtain tok where tok: "r = Inr tok" "loop_ready u" "tk_state u = S_BeforeToken"
    "tok_raw tok = span (tk_pos t) (tk_pos u) (tk_input t)"
    "tok_type tok \<noteq> T_Eof \<Longrightarrow> loop_measure u < loop_measure t"
    "loop_measure u + 2 * length (tok_raw tok) \<le> loop_measure t"
    "tk_pos u = tk_pos t + length (tok_raw tok)" "tk_pos u \<le> length (tk_input t)" "tk_input u = tk_input t"
    "tok_type tok = T_Eof \<Longrightarrow> tk_pos u = length (tk_input t)"
    using loop_read [OF Suc.prems(1) read] by metis
  let ?s = "s\<lparr>qt_next := Some (d @ tok_raw tok)\<rparr>"
  have echo: "qt_handle_token (echo_filter vec_sink) tok s = Done ?s"
    using echo_token [OF Suc.prems(3,4)] .
  have rest: "tok_raw tok @ drop (tk_pos u) (tk_input t) = drop (tk_pos t) (tk_input t)"
    unfolding tok(4) using tok(7) by (intro span_drop) simp
  show ?case
  proof (cases "tok_type tok = T_Eof")
    case True
    then show ?thesis using read tok(1) echo rest tok(10) Suc.prems(3) by auto
  next
    case noteof: False
    then have less: "loop_measure u < fuel" using tok(5) Suc.prems(2) by linarith
    show ?thesis
    proof (cases "is_word_value tok (str ''ID'')")
      case False
      have step: "token_loop (echo_filter vec_sink) (Suc fuel) t s = token_loop (echo_filter vec_sink) fuel u ?s"
        using read tok(1) echo noteof False by simp
      obtain s' pad where IH: "token_loop (echo_filter vec_sink) fuel u ?s = Some (Done s')"
        "qt_output_attached s'" "qt_next s' = Some ((d @ tok_raw tok) @ drop (tk_pos u) (tk_input u) @ pad)"
        "pad = [] \<or> pad = [0x20] \<and> tk_pos u < length (tk_input u) \<and> (\<exists>xs. tk_input u = xs @ str ''ID'')"
        using Suc.IH [OF tok(2) less, of ?s "d @ tok_raw tok"] Suc.prems(3) by auto
      have out: "(d @ tok_raw tok) @ drop (tk_pos u) (tk_input u) @ pad = d @ drop (tk_pos t) (tk_input t) @ pad"
        by (simp add: rest [symmetric] tok(9))
      have "pad = [] \<or> pad = [0x20] \<and> tk_pos t < length (tk_input t) \<and> (\<exists>xs. tk_input t = xs @ str ''ID'')"
        using IH(4) tok(7,9) by auto
      then show ?thesis using step IH(1,2) IH(3) [unfolded out] by (intro exI [of _ s'] exI [of _ pad]) simp
    next
      case True
      have id: "tok_raw tok = str ''ID''" using id_token_raw read tok(1) True by blast
      then have two: "length (tok_raw tok) = 2" by (simp add: str_def)
      obtain b v where b: "consume_one_byte_or 0x20 u = (b, v)" by (metis prod.exhaust)
      obtain w where w: "expect_inline_image v = Inr w" "loop_ready w" "loop_measure w \<le> loop_measure u + 1"
        "tk_input w = tk_input t"
        "tk_pos w = (if tk_pos u < length (tk_input t) then tk_pos u + 1 else tk_pos u)"
        "b = (if tk_pos u < length (tk_input t) then tk_input t ! tk_pos u else 0x20)"
        using loop_image [OF tok(2,3) b] tok(9) by metis
      let ?v = "?s\<lparr>qt_next := Some ((d @ tok_raw tok) @ [b])\<rparr>"
      have sep: "qt_handle_token (echo_filter vec_sink) (token_new T_Space [b]) ?s = Done ?v"
        using echo_token [of ?s "d @ tok_raw tok"] Suc.prems(3) by (simp add: token_new_def from_parts_def)
      have fuel: "loop_measure w < fuel" using w(3) tok(6) two Suc.prems(2) by linarith
      have step: "token_loop (echo_filter vec_sink) (Suc fuel) t s = token_loop (echo_filter vec_sink) fuel w ?v"
        using read tok(1) echo noteof True b w(1) sep by simp
      obtain s' pad where IH: "token_loop (echo_filter vec_sink) fuel w ?v = Some (Done s')"
        "qt_output_attached s'" "qt_next s' = Some (((d @ tok_raw tok) @ [b]) @ drop (tk_pos w) (tk_input w) @ pad)"
        "pad = [] \<or> pad = [0x20] \<and> tk_pos w < length (tk_input w) \<and> (\<exists>xs. tk_input w = xs @ str ''ID'')"
        using Suc.IH [OF w(2) fuel, of ?v "(d @ tok_raw tok) @ [b]"] Suc.prems(3) by auto
      have more: "tk_pos t < length (tk_input t)" using tok(7,8) two by linarith
      show ?thesis
      proof (cases "tk_pos u < length (tk_input t)")
        case inside: True
        then have "[b] @ drop (tk_pos w) (tk_input w) = drop (tk_pos u) (tk_input t)"
          using w(4-6) by (simp add: Cons_nth_drop_Suc)
        then have "qt_next s' = Some (d @ drop (tk_pos t) (tk_input t) @ pad)"
          unfolding IH(3) by (simp add: rest [symmetric])
        then show ?thesis using step IH(1,2,4) more w(4) by auto
      next
        case False
        then have last: "tk_pos u = length (tk_input t)" using tok(8) by simp
        then have "pad = []" "drop (tk_pos w) (tk_input w) = []" "b = 0x20" using IH(4) w(4-6) by simp_all
        moreover have "drop (tk_pos t) (tk_input t) = str ''ID''" using rest id last by simp
        then have "tk_input t = take (tk_pos t) (tk_input t) @ str ''ID''"
          by (metis append_take_drop_id)
        ultimately show ?thesis using step IH(1-3) more rest last by auto
      qed
    qed
  qed
qed

section \<open>Properties\<close>

text \<open>
  C6: finishing the token stage returns for every filter, input and successor: the loop over the
  tokens ends within two rounds per byte.
\<close>

theorem token_stage_returns: "\<exists>r. qpdf_tokenizer_finish p tf s = Some r"
  using qpdf_tokenizer_finish_returns by blast


end
