(* ===== verification/Unicode.thy ===== *)
theory Unicode
  imports Utf8 Rust_Std
begin

text \<open>
  Unicode texts: the code points of a valid UTF-8 text (\<open>str::chars\<close>), UTF-16 as \<open>str::encode_utf16\<close> makes it,
  and \<open>char::from_u32\<close>. A text is valid UTF-8 exactly when it is the encoding of a list of scalar values.
\<close>

section \<open>UTF-8\<close>

fun utf8_point :: "bytes \<Rightarrow> nat" where
  "utf8_point [b] = unat b"
| "utf8_point [b, c] = (unat b - 0xC0) * 0x40 + (unat c - 0x80)"
| "utf8_point [b, c, d] = ((unat b - 0xE0) * 0x40 + (unat c - 0x80)) * 0x40 + (unat d - 0x80)"
| "utf8_point [b, c, d, e] =
     (((unat b - 0xF0) * 0x40 + (unat c - 0x80)) * 0x40 + (unat d - 0x80)) * 0x40 + (unat e - 0x80)"
| "utf8_point bs = 0"

text \<open>\<open>str::from_utf8\<close> with \<open>chars\<close>: the code points, if the text is valid.\<close>

function utf8_chars :: "bytes \<Rightarrow> nat list option" where
  "utf8_chars [] = Some []"
| "utf8_chars (b # bs) =
     (let (ok, n) = utf8_step b bs
      in if ok then map_option (Cons (utf8_point (take n (b # bs)))) (utf8_chars (drop (n - 1) bs)) else None)"
  by pat_completeness auto
termination
  by (relation "measure length") auto

declare utf8_chars.simps(2) [simp del]

definition utf8 :: "nat list \<Rightarrow> bytes" where
  "utf8 cs = concat (map encode_utf8 cs)"

lemma utf8_simps [simp]: "utf8 [] = []" "utf8 (c # cs) = encode_utf8 c @ utf8 cs" "utf8 (cs @ ds) = utf8 cs @ utf8 ds"
  by (simp_all add: utf8_def)

lemma unat_of_nat_byte: "n < 256 \<Longrightarrow> unat (of_nat n :: byte) = n"
  by (simp add: unat_of_nat)

lemma horner_less: "a < m \<Longrightarrow> z < 0x40 \<Longrightarrow> a * 0x40 + z < m * (0x40 :: nat)"
  by linarith

lemma horner_le: "m \<le> a \<Longrightarrow> m * 0x40 \<le> a * 0x40 + (z :: nat)"
  by linarith

lemma encode_utf8_cases:
  assumes "is_scalar c"
  obtains (one) b where "c < 0x80" "encode_utf8 c = [b]" "unat b = c"
  | (two) b1 b2 x y where "c = x * 0x40 + y" "2 \<le> x" "x < 0x20" "y < 0x40"
      "encode_utf8 c = [b1, b2]" "unat b1 = 0xC0 + x" "unat b2 = 0x80 + y"
  | (three) b1 b2 b3 x y z where "c = (x * 0x40 + y) * 0x40 + z" "x < 0x10" "y < 0x40" "z < 0x40"
      "x = 0 \<Longrightarrow> 0x20 \<le> y" "x = 0xD \<Longrightarrow> y < 0x20"
      "encode_utf8 c = [b1, b2, b3]" "unat b1 = 0xE0 + x" "unat b2 = 0x80 + y" "unat b3 = 0x80 + z"
  | (four) b1 b2 b3 b4 x y z w where "c = ((x * 0x40 + y) * 0x40 + z) * 0x40 + w" "x < 5" "y < 0x40" "z < 0x40"
      "w < 0x40" "x = 0 \<Longrightarrow> 0x10 \<le> y" "x = 4 \<Longrightarrow> y < 0x10"
      "encode_utf8 c = [b1, b2, b3, b4]" "unat b1 = 0xF0 + x" "unat b2 = 0x80 + y" "unat b3 = 0x80 + z" "unat b4 = 0x80 + w"
proof -
  have c: "c < 0x110000" "c < 0xD800 \<or> 0xE000 \<le> c" using assms by (auto simp: is_scalar_def)
  have low: "k mod 0x40 < 0x40" "unat (of_nat (0x80 + k mod 0x40) :: byte) = 0x80 + k mod 0x40" for k :: nat
  proof -
    show k: "k mod 0x40 < 0x40" by simp
    then show "unat (of_nat (0x80 + k mod 0x40) :: byte) = 0x80 + k mod 0x40" by (intro unat_of_nat_byte) linarith
  qed
  consider "c < 0x80" | "0x80 \<le> c" "c < 0x800" | "0x800 \<le> c" "c < 0x10000" | "0x10000 \<le> c" by linarith
  then show ?thesis
  proof cases
    case 1
    then show ?thesis using one [of "of_nat c"] by (simp add: encode_utf8_def unat_of_nat_byte)
  next
    case 2
    let ?x = "c div 0x40"
    have x: "c = ?x * 0x40 + c mod 0x40" "2 \<le> ?x" "?x < 0x20" using 2 by simp_all
    have "unat (of_nat (0xC0 + ?x) :: byte) = 0xC0 + ?x" using x(3) by (intro unat_of_nat_byte) linarith
    moreover have "encode_utf8 c = [of_nat (0xC0 + ?x), of_nat (0x80 + c mod 0x40)]" using 2 unfolding encode_utf8_def by simp
    ultimately show ?thesis using x low [of c] by (intro two)
  next
    case 3
    let ?x = "c div 0x1000" and ?y = "c div 0x40 mod 0x40"
    have x: "c = (?x * 0x40 + ?y) * 0x40 + c mod 0x40"
      using div_mult_mod_eq [of "c div 0x40" "0x40"] div_mult_mod_eq [of c "0x40"] by (simp add: div_mult2_eq [symmetric])
    have x': "?x < 0x10" using 3 by simp
    have "0x20 \<le> ?y" if "?x = 0" using x 3(1) low(1) [of c] that by simp
    moreover have "?y < 0x20" if "?x = 0xD"
    proof -
      have "?x * 0x40 + ?y < 0x380" using that low(1) [of "c div 0x40"] by linarith
      from horner_less [OF this low(1) [of c]] have "c < 0xE000" unfolding x [symmetric] by simp
      then have "c < 0xD800" using c(2) by simp
      then have "\<not> 0x360 \<le> ?x * 0x40 + ?y"
        using horner_le [of "0x360" "?x * 0x40 + ?y" "c mod 0x40"] unfolding x [symmetric] by auto
      then show ?thesis using that by linarith
    qed
    moreover have "unat (of_nat (0xE0 + ?x) :: byte) = 0xE0 + ?x" using x' by (intro unat_of_nat_byte) linarith
    moreover have "encode_utf8 c = [of_nat (0xE0 + ?x), of_nat (0x80 + ?y), of_nat (0x80 + c mod 0x40)]"
      using 3 unfolding encode_utf8_def by simp
    ultimately show ?thesis using x x' low [of c] low [of "c div 0x40"] by (intro three)
  next
    case 4
    let ?x = "c div 0x40000" and ?y = "c div 0x1000 mod 0x40" and ?z = "c div 0x40 mod 0x40"
    have x: "c = ((?x * 0x40 + ?y) * 0x40 + ?z) * 0x40 + c mod 0x40"
      using div_mult_mod_eq [of "c div 0x1000" "0x40"] div_mult_mod_eq [of "c div 0x40" "0x40"]
        div_mult_mod_eq [of c "0x40"]
      by (simp add: div_mult2_eq [symmetric])
    have x': "?x < 5" using c(1) by simp
    have "0x10 \<le> ?y" if "?x = 0"
    proof (rule ccontr)
      assume "\<not> 0x10 \<le> ?y"
      then have "?x * 0x40 + ?y < 0x10" using that by simp
      from horner_less [OF horner_less [OF this low(1) [of "c div 0x40"]] low(1) [of c]]
      show False using 4 unfolding x [symmetric] by simp
    qed
    moreover have "?y < 0x10" if "?x = 4"
    proof (rule ccontr)
      assume "\<not> ?y < 0x10"
      then have "0x110 \<le> ?x * 0x40 + ?y" using that by simp
      from horner_le [OF horner_le [OF this, of ?z], of "c mod 0x40"]
      show False using c(1) unfolding x [symmetric] by simp
    qed
    moreover have "unat (of_nat (0xF0 + ?x) :: byte) = 0xF0 + ?x" using x' by (intro unat_of_nat_byte) linarith
    moreover have "encode_utf8 c = [of_nat (0xF0 + ?x), of_nat (0x80 + ?y), of_nat (0x80 + ?z), of_nat (0x80 + c mod 0x40)]"
      using 4 unfolding encode_utf8_def by simp
    ultimately show ?thesis using x x' low [of c] low [of "c div 0x40"] low [of "c div 0x1000"] by (intro four)
  qed
qed

lemmas byte_compare = word_le_nat_alt word_less_nat_alt word_unat_eq_iff unat_of_nat_byte

text \<open>The first character is the encoded one.\<close>

lemma utf8_step_encode:
  assumes "is_scalar c"
  shows "\<exists>b bs. encode_utf8 c = b # bs \<and> utf8_step b (bs @ r) = (True, length (b # bs)) \<and> utf8_point (b # bs) = c"
  using assms
proof (cases rule: encode_utf8_cases)
  case (one b)
  then show ?thesis by (simp add: utf8_step_def word_less_nat_alt)
next
  case (two b1 b2 x y)
  then have "second_range b1 = Some (2, 0x80, 0xBF)" by (simp add: second_range_def byte_compare)
  then show ?thesis using two
    by (intro exI [of _ b1] exI [of _ "[b2]"]) (simp add: utf8_step_def word_le_nat_alt word_less_nat_alt)
next
  case (three b1 b2 b3 x y z)
  have "b1 = 0xE0 \<longleftrightarrow> x = 0" "b1 = 0xED \<longleftrightarrow> x = 0xD" using three by (simp_all add: word_unat_eq_iff)
  then have "\<exists>lo hi. second_range b1 = Some (3, lo, hi) \<and> lo \<le> b2 \<and> b2 \<le> hi"
    using three by (cases "x = 0"; cases "x = 0xD") (simp_all add: second_range_def word_le_nat_alt)
  then show ?thesis using three
    by (intro exI [of _ b1] exI [of _ "[b2, b3]"]) (auto simp: utf8_step_def word_le_nat_alt word_less_nat_alt is_cont_def)
next
  case (four b1 b2 b3 b4 x y z w)
  have b1: "b1 = 0xF0 \<longleftrightarrow> x = 0" "b1 = 0xF4 \<longleftrightarrow> x = 4" "b1 \<noteq> 0xE0" "b1 \<noteq> 0xED"
    using four by (auto simp: word_unat_eq_iff)
  then have "\<exists>lo hi. second_range b1 = Some (4, lo, hi) \<and> lo \<le> b2 \<and> b2 \<le> hi"
    using four by (cases "x = 0"; cases "x = 4") (simp_all add: second_range_def word_le_nat_alt)
  then show ?thesis using four
    by (intro exI [of _ b1] exI [of _ "[b2, b3, b4]"]) (auto simp: utf8_step_def word_le_nat_alt word_less_nat_alt is_cont_def)
qed

lemma utf8_chars_Cons: "is_scalar c \<Longrightarrow> utf8_chars (encode_utf8 c @ r) = map_option (Cons c) (utf8_chars r)"
  using utf8_step_encode [of c r] by (auto simp: utf8_chars.simps(2))

lemma utf8_chars_utf8: "list_all is_scalar cs \<Longrightarrow> utf8_chars (utf8 cs) = Some cs"
  by (induction cs) (simp_all add: utf8_chars_Cons)

text \<open>And a valid text is the encoding of its characters.\<close>

lemma point_divisions:
  assumes "y < 0x40"
  shows "(x * 0x40 + y) div 0x40 = x" "(x * 0x40 + y) mod 0x40 = (y :: nat)"
  using assms by simp_all

lemma second_range_cases:
  assumes "second_range b = Some (width, lo, hi)"
  obtains "width = 2" "0xC2 \<le> unat b" "unat b \<le> 0xDF" "unat lo = 0x80" "unat hi = 0xBF"
  | "width = 3" "0xE0 \<le> unat b" "unat b \<le> 0xEF" "0x80 \<le> unat lo" "unat hi \<le> 0xBF"
      "unat b = 0xE0 \<Longrightarrow> unat lo = 0xA0" "unat b = 0xED \<Longrightarrow> unat hi = 0x9F"
  | "width = 4" "0xF0 \<le> unat b" "unat b \<le> 0xF4" "0x80 \<le> unat lo" "unat hi \<le> 0xBF"
      "unat b = 0xF0 \<Longrightarrow> unat lo = 0x90" "unat b = 0xF4 \<Longrightarrow> unat hi = 0x8F"
  using assms by (auto simp: second_range_def byte_compare split: if_splits)

lemma all_conts:
  assumes "length (takeWhile is_cont (take n xs)) = n"
  shows "n \<le> length xs" "\<forall>x \<in> set (take n xs). is_cont x"
proof -
  have "length (takeWhile is_cont (take n xs)) \<le> length (take n xs)" by (rule length_takeWhile_le)
  then show "n \<le> length xs" using assms by simp
  then have "takeWhile is_cont (take n xs) = take n xs"
    using assms takeWhile_eq_take [of is_cont "take n xs"] by simp
  then show "\<forall>x \<in> set (take n xs). is_cont x" by (metis set_takeWhileD)
qed

lemma byte_split:
  assumes "k \<le> unat (b :: byte)"
  obtains x where "unat b = k + x" "b = of_nat k + of_nat x"
proof -
  obtain x where x: "unat b = k + x" using assms le_Suc_ex by blast
  have "of_nat (unat b) = b" by simp
  then have "b = of_nat (k + x)" unfolding x by simp
  then show ?thesis using that x by simp
qed

lemma utf8_step_valid:
  assumes "utf8_step b bs = (True, n)"
  shows "\<exists>c. is_scalar c \<and> take n (b # bs) = encode_utf8 c \<and> utf8_point (take n (b # bs)) = c"
proof (cases "b < 0x80")
  case True
  then show ?thesis using assms by (auto simp: utf8_step_def byte_compare is_scalar_def encode_utf8_def)
next
  case False
  then obtain width lo hi where r: "second_range b = Some (width, lo, hi)"
    using assms by (auto simp: utf8_step_def split: option.splits)
  obtain c xs where bs: "bs = c # xs" "lo \<le> c" "c \<le> hi"
    using assms False r by (cases bs) (auto simp: utf8_step_def split: if_splits)
  have conts: "length (takeWhile is_cont (take (width - 2) xs)) = width - 2" and n: "n = width"
    using assms False r bs by (auto simp: utf8_step_def Let_def split: if_splits)
  note more = all_conts [OF conts]
  have c: "unat lo \<le> unat c" "unat c \<le> unat hi" using bs(2,3) by (simp_all add: word_le_nat_alt)
  from r show ?thesis
  proof (cases rule: second_range_cases)
    case 1
    have "0x80 \<le> unat c" using 1 c by simp
    then obtain y where y: "unat c = 0x80 + y" "c = of_nat 0x80 + of_nat y" by (rule byte_split)
    have "0xC0 \<le> unat b" using 1 by simp
    then obtain x where x: "unat b = 0xC0 + x" "b = of_nat 0xC0 + of_nat x" by (rule byte_split)
    note xy = x y
    have "y < 0x40" "2 \<le> x" "x < 0x20" using 1 c xy(1,3) by linarith+
    moreover from this have "0x80 \<le> x * 0x40 + y" "x * 0x40 + y < 0x800" by linarith+
    ultimately show ?thesis
      using point_divisions [of y x] n bs(1) 1(1) xy
      by (intro exI [of _ "x * 0x40 + y"]) (simp add: is_scalar_def encode_utf8_def numeral_2_eq_2)
  next
    case 2
    obtain d ys where d: "xs = d # ys" "is_cont d" using more 2(1) by (cases xs) auto
    have d': "0x80 \<le> unat d" "unat d \<le> 0xBF" using d(2) by (auto simp: is_cont_def byte_compare)
    have "0x80 \<le> unat c" using 2 c by simp
    then obtain y where y: "unat c = 0x80 + y" "c = of_nat 0x80 + of_nat y" by (rule byte_split)
    obtain x where x: "unat b = 0xE0 + x" "b = of_nat 0xE0 + of_nat x" using 2(2) by (rule byte_split)
    obtain z where z: "unat d = 0x80 + z" "d = of_nat 0x80 + of_nat z" using d'(1) by (rule byte_split)
    note xyz = x y z
    have b: "y < 0x40" "z < 0x40" "x < 0x10" using 2 c d' xyz(1,3,5) by linarith+
    have b': "x = 0 \<Longrightarrow> 0x20 \<le> y" "x = 0xD \<Longrightarrow> y < 0x20" using 2(6,7) c xyz(1,3) by simp_all
    let ?c = "(x * 0x40 + y) * 0x40 + z"
    have "0x800 \<le> ?c" using b'(1) by (cases "x = 0") simp_all
    moreover have "x * 0x40 + y < 0x400" using b by linarith
    from horner_less [OF this b(2)] have "?c < 0x10000" by simp
    moreover have "?c < 0xD800 \<or> 0xE000 \<le> ?c"
    proof (cases "x \<le> 0xD")
      case True
      then have "x * 0x40 + y < 0x360" using b b'(2) by (cases "x = 0xD") simp_all
      from horner_less [OF this b(2)] show ?thesis by simp
    next
      case False
      then have "0x380 \<le> x * 0x40 + y" by simp
      from horner_le [OF this, of z] show ?thesis by simp
    qed
    moreover have div: "?c div 0x40 = x * 0x40 + y" "?c mod 0x40 = z" using b(2) by (rule point_divisions)+
    moreover have "?c div 0x1000 = x" "?c div 0x40 mod 0x40 = y"
      using point_divisions [OF b(1), of x] div_mult2_eq [of ?c "0x40" "0x40"] unfolding div(1) by simp_all
    moreover obtain k where "k = ?c" by blast
    ultimately have "is_scalar k \<and> [b, c, d] = encode_utf8 k \<and> utf8_point [b, c, d] = k"
      using xyz by (auto simp: is_scalar_def encode_utf8_def)
    moreover have "take n (b # bs) = [b, c, d]" using n bs(1) d(1) 2(1) by (simp add: numeral_3_eq_3)
    ultimately show ?thesis by metis
  next
    case 3
    obtain d e ys where d: "xs = d # e # ys" "is_cont d" "is_cont e"
      using more 3(1) by (cases xs; cases "tl xs") auto
    have d': "0x80 \<le> unat d" "unat d \<le> 0xBF" "0x80 \<le> unat e" "unat e \<le> 0xBF"
      using d(2,3) by (auto simp: is_cont_def byte_compare)
    have "0x80 \<le> unat c" using 3 c by simp
    then obtain y where y: "unat c = 0x80 + y" "c = of_nat 0x80 + of_nat y" by (rule byte_split)
    obtain x where x: "unat b = 0xF0 + x" "b = of_nat 0xF0 + of_nat x" using 3(2) by (rule byte_split)
    obtain z where z: "unat d = 0x80 + z" "d = of_nat 0x80 + of_nat z" using d'(1) by (rule byte_split)
    obtain w where w: "unat e = 0x80 + w" "e = of_nat 0x80 + of_nat w" using d'(3) by (rule byte_split)
    note xyz = x y z w
    have b: "y < 0x40" "z < 0x40" "w < 0x40" "x < 5" using 3 c d' xyz(1,3,5,7) by linarith+
    have b': "x = 0 \<Longrightarrow> 0x10 \<le> y" "x = 4 \<Longrightarrow> y < 0x10" using 3(6,7) c xyz(1,3) by simp_all
    let ?c = "((x * 0x40 + y) * 0x40 + z) * 0x40 + w"
    have "0x10000 \<le> ?c" using b'(1) by (cases "x = 0") simp_all
    moreover have "x * 0x40 + y < 0x110" using b b'(2) by (cases "x = 4") simp_all
    from horner_less [OF horner_less [OF this b(2)] b(3)] have "?c < 0x110000" by simp
    moreover have div: "?c div 0x40 = (x * 0x40 + y) * 0x40 + z" "?c mod 0x40 = w" using b(3) by (rule point_divisions)+
    moreover have div': "((x * 0x40 + y) * 0x40 + z) div 0x40 = x * 0x40 + y" "((x * 0x40 + y) * 0x40 + z) mod 0x40 = z"
      using b(2) by (rule point_divisions)+
    have "?c div 0x1000 = ?c div 0x40 div 0x40" "?c div 0x40000 = ?c div 0x40 div 0x40 div 0x40"
      using div_mult2_eq [of ?c "0x40" "0x40"] div_mult2_eq [of ?c "0x1000" "0x40"] by simp_all
    then have "?c div 0x40 mod 0x40 = z" "?c div 0x1000 mod 0x40 = y" "?c div 0x40000 = x"
      unfolding div(1) div'(1) using div'(2) point_divisions [OF b(1), of x] by simp_all
    moreover obtain k where "k = ?c" by blast
    ultimately have "is_scalar k \<and> [b, c, d, e] = encode_utf8 k \<and> utf8_point [b, c, d, e] = k"
      using xyz by (auto simp: is_scalar_def encode_utf8_def)
    moreover have "take n (b # bs) = [b, c, d, e]" using n bs(1) d(1) 3(1) by (simp add: eval_nat_numeral)
    ultimately show ?thesis by metis
  qed
qed

lemma utf8_chars_valid: "utf8_chars bs = Some cs \<Longrightarrow> list_all is_scalar cs \<and> bs = utf8 cs"
proof (induction bs arbitrary: cs rule: utf8_chars.induct)
  case 1
  then show ?case by simp
next
  case (2 b bs)
  obtain n where n: "utf8_step b bs = (True, n)"
    using 2(2) by (cases "utf8_step b bs") (auto simp: utf8_chars.simps(2) split: if_splits)
  then obtain ds where ds: "utf8_chars (drop (n - 1) bs) = Some ds" "cs = utf8_point (take n (b # bs)) # ds"
    using 2(2) by (auto simp: utf8_chars.simps(2))
  have "list_all is_scalar ds \<and> drop (n - 1) bs = utf8 ds" using 2(1) [of "(True, n)" True n] n ds(1) by simp
  moreover obtain c where "is_scalar c" "take n (b # bs) = encode_utf8 c" "utf8_point (take n (b # bs)) = c"
    using utf8_step_valid [OF n] by blast
  moreover have "b # bs = take n (b # bs) @ drop (n - 1) bs"
    using utf8_step_pos [of b bs] n by (cases n) simp_all
  ultimately show ?case using ds(2) by simp
qed

lemma utf8_chars_None: "(utf8_chars bs = None) = (\<not> valid_utf8 bs)"
proof (induction bs rule: utf8_chars.induct)
  case (2 b bs)
  then show ?case by (cases "utf8_step b bs") (auto simp: utf8_chars.simps(2))
qed simp

section \<open>UTF-16\<close>

definition encode_utf16 :: "nat \<Rightarrow> nat list" where
  "encode_utf16 c =
     (if c < 0x10000 then [c] else [0xD800 + (c - 0x10000) div 0x400, 0xDC00 + (c - 0x10000) mod 0x400])"

text \<open>A code unit as two bytes, the low one first for \<open>le\<close>.\<close>

definition unit_bytes :: "bool \<Rightarrow> nat \<Rightarrow> bytes" where
  "unit_bytes le u = (if le then [of_nat (u mod 256), of_nat (u div 256)] else [of_nat (u div 256), of_nat (u mod 256)])"

definition utf16_bytes :: "bool \<Rightarrow> nat list \<Rightarrow> bytes" where
  "utf16_bytes le cs = concat (map (unit_bytes le) (concat (map encode_utf16 cs)))"

text \<open>\<open>char::from_u32\<close>, pushed onto a string.\<close>

definition push_u32 :: "nat \<Rightarrow> bytes" where
  "push_u32 c = (if is_scalar c then encode_utf8 c else [])"

fun lossy_utf16 :: "bool \<Rightarrow> nat \<Rightarrow> bytes \<Rightarrow> bytes" where
  "lossy_utf16 le codepoint (a # b # rest) =
     (let bits = (if le then push_bit 8 (unat b) OR unat a else push_bit 8 (unat a) OR unat b)
      in if bits AND 0xFC00 = 0xD800 then lossy_utf16 le (0x10000 + push_bit 10 (bits AND 0x3FF)) rest
         else push_u32 (if bits AND 0xFC00 = 0xDC00 then codepoint + (bits AND 0x3FF) else bits) @ lossy_utf16 le 0 rest)"
| "lossy_utf16 le codepoint bs = []"

lemma and_high_bits: "n < 0x10000 \<Longrightarrow> n AND 0xFC00 = n div 0x400 * (0x400 :: nat)"
proof -
  assume n: "n < 0x10000"
  have "n AND push_bit 10 (mask 6) = push_bit 10 (take_bit 6 (drop_bit 10 n))"
    by (rule bit_eqI) (auto simp: bit_simps)
  also have "take_bit 6 (drop_bit 10 n) = n div 0x400"
    using n by (simp add: drop_bit_eq_div take_bit_nat_eq_self)
  finally show ?thesis by (simp add: push_bit_eq_mult mask_eq_exp_minus_1)
qed

lemma and_low_bits: "n AND 0x3FF = n mod (0x400 :: nat)"
proof -
  have "n AND mask 10 = take_bit 10 n" by (rule bit_eqI) (auto simp: bit_simps)
  then show ?thesis by (simp add: take_bit_eq_mod mask_eq_exp_minus_1)
qed

lemma or_bytes: "m < 256 \<Longrightarrow> push_bit 8 n OR m = n * 256 + (m :: nat)"
proof -
  assume "m < 256"
  then have m: "take_bit 8 m = m" by (simp add: take_bit_nat_eq_self)
  have low: "bit m k \<Longrightarrow> k < 8" for k by (metis bit_take_bit_iff m)
  have "push_bit 8 n AND m = 0"
    by (rule bit_eqI) (auto simp: bit_simps dest: low)
  then have "push_bit 8 n OR m = push_bit 8 n + m" by (intro disjunctive_add [symmetric]) (auto simp: bit_simps dest: low)
  then show ?thesis by (simp add: push_bit_eq_mult)
qed

lemma unit_bits:
  assumes "u < 0x10000"
  shows "lossy_utf16 le cp (unit_bytes le u @ rest) =
    (if u div 0x400 = 0x36 then lossy_utf16 le (0x10000 + u mod 0x400 * 0x400) rest
     else push_u32 (if u div 0x400 = 0x37 then cp + u mod 0x400 else u) @ lossy_utf16 le 0 rest)"
proof -
  have u: "push_bit 8 (u div 256) OR u mod 256 = u" "u div 256 < 256" using assms by (simp_all add: or_bytes)
  obtain a b where ab: "unit_bytes le u = [a, b]"
      "(if le then push_bit 8 (unat b) OR unat a else push_bit 8 (unat a) OR unat b) = u"
    using u by (cases le) (simp_all add: unit_bytes_def unat_of_nat_byte)
  have "(u AND 0xFC00 = 0xD800) = (u div 0x400 = 0x36)" "(u AND 0xFC00 = 0xDC00) = (u div 0x400 = 0x37)"
    unfolding and_high_bits [OF assms] by linarith+
  then show ?thesis unfolding ab(1) append_Cons append_Nil lossy_utf16.simps(1) Let_def ab(2) and_low_bits
    by (simp add: push_bit_eq_mult)
qed

lemma unit_split: "k < 0x400 \<Longrightarrow> (m * 0x400 + k) div 0x400 = m" "k < 0x400 \<Longrightarrow> (m * 0x400 + k) mod 0x400 = (k :: nat)"
  by simp_all

lemma lossy_utf16_encodes:
  "list_all is_scalar cs \<Longrightarrow> lossy_utf16 le 0 (utf16_bytes le cs) = utf8 cs"
proof (induction cs)
  case Nil
  then show ?case by (simp add: utf16_bytes_def)
next
  case (Cons c cs)
  have c: "is_scalar c" "c < 0x110000" using Cons.prems by (simp_all add: is_scalar_def)
  have IH: "lossy_utf16 le 0 (utf16_bytes le cs) = utf8 cs" using Cons by simp
  show ?case
  proof (cases "c < 0x10000")
    case True
    have "c div 0x400 \<noteq> 0x36 \<and> c div 0x400 \<noteq> 0x37" using c(1) True by (auto simp: is_scalar_def)
    then show ?thesis
      using unit_bits [OF True, of le 0 "utf16_bytes le cs"] True IH c(1)
      by (simp add: utf16_bytes_def encode_utf16_def push_u32_def)
  next
    case False
    let ?d = "c - 0x10000"
    have d: "?d div 0x400 < 0x400" "?d mod 0x400 < 0x400" "?d div 0x400 * 0x400 + ?d mod 0x400 = ?d" using c(2) by auto
    have "0xD800 + ?d div 0x400 < 0x10000" "0xDC00 + ?d mod 0x400 < 0x10000" using d(1,2) by linarith+
    note bounds = this
    have hi: "0xD800 + ?d div 0x400 < 0x10000" "(0xD800 + ?d div 0x400) div 0x400 = 0x36"
      "(0xD800 + ?d div 0x400) mod 0x400 = ?d div 0x400"
      using bounds(1) unit_split [OF d(1), of "0x36"] by simp_all
    have lo: "0xDC00 + ?d mod 0x400 < 0x10000" "(0xDC00 + ?d mod 0x400) div 0x400 = 0x37"
      "(0xDC00 + ?d mod 0x400) mod 0x400 = ?d mod 0x400"
      using bounds(2) unit_split [OF d(2), of "0x37"] by simp_all
    have "utf16_bytes le (c # cs) = unit_bytes le (0xD800 + ?d div 0x400) @ unit_bytes le (0xDC00 + ?d mod 0x400) @ utf16_bytes le cs"
      using False by (simp add: utf16_bytes_def encode_utf16_def)
    moreover have "0x10000 + ?d div 0x400 * 0x400 + ?d mod 0x400 = c" using d(3) False by linarith
    ultimately show ?thesis
      using unit_bits [OF hi(1)] unit_bits [OF lo(1)] hi lo IH c(1) by (simp add: push_u32_def)
  qed
qed

end
