(* ===== verification/Password.thy ===== *)
theory Password
  imports Unicode Errors
begin

text \<open>
  Passwords on the command line, \<open>crates/flpdf/src/encryption/password.rs\<close>: the bytes tried on a file, with the
  other encodings of the same text, and the bytes written to a file. A \<open>&str\<close> is its list of code points.
\<close>

section \<open>Single-byte encodings\<close>

datatype password_mode = PM_Auto | PM_Bytes | PM_HexBytes | PM_Unicode

datatype password_write_notice = PN_None | PN_Info | PN_Warning

datatype single_byte_encoding = PdfDoc | WinAnsi | MacRoman

definition PDF_DOC_LOW_TO_UNICODE :: "nat list" where
  "PDF_DOC_LOW_TO_UNICODE =
     [0x02D8, 0x02C7, 0x02C6, 0x02D9, 0x02DD, 0x02DB, 0x02DA, 0x02DC]"

definition PDF_DOC_TO_UNICODE :: "nat list" where
  "PDF_DOC_TO_UNICODE =
     [0xFFFD, 0x2022, 0x2020, 0x2021, 0x2026, 0x2014, 0x2013, 0x0192, 0x2044, 0x2039, 0x203A, 0x2212, 0x2030,
      0x201E, 0x201C, 0x201D, 0x2018, 0x2019, 0x201A, 0x2122, 0xFB01, 0xFB02, 0x0141, 0x0152, 0x0160, 0x0178,
      0x017D, 0x0131, 0x0142, 0x0153, 0x0161, 0x017E, 0xFFFD, 0x20AC]"

definition WIN_ANSI_TO_UNICODE :: "nat list" where
  "WIN_ANSI_TO_UNICODE =
     [0x20AC, 0xFFFD, 0x201A, 0x0192, 0x201E, 0x2026, 0x2020, 0x2021, 0x02C6, 0x2030, 0x0160, 0x2039, 0x0152,
      0xFFFD, 0x017D, 0xFFFD, 0xFFFD, 0x2018, 0x2019, 0x201C, 0x201D, 0x2022, 0x2013, 0x2014, 0x0303, 0x2122,
      0x0161, 0x203A, 0x0153, 0xFFFD, 0x017E, 0x0178, 0x00A0]"

definition MAC_ROMAN_TO_UNICODE :: "nat list" where
  "MAC_ROMAN_TO_UNICODE =
     [0x00C4, 0x00C5, 0x00C7, 0x00C9, 0x00D1, 0x00D6, 0x00DC, 0x00E1, 0x00E0, 0x00E2, 0x00E4, 0x00E3, 0x00E5,
      0x00E7, 0x00E9, 0x00E8, 0x00EA, 0x00EB, 0x00ED, 0x00EC, 0x00EE, 0x00EF, 0x00F1, 0x00F3, 0x00F2, 0x00F4,
      0x00F6, 0x00F5, 0x00FA, 0x00F9, 0x00FB, 0x00FC, 0x2020, 0x00B0, 0x00A2, 0x00A3, 0x00A7, 0x2022, 0x00B6,
      0x00DF, 0x00AE, 0x00A9, 0x2122, 0x0301, 0x0308, 0xFFFD, 0x00C6, 0x00D8, 0xFFFD, 0x00B1, 0xFFFD, 0xFFFD,
      0x00A5, 0x03BC, 0xFFFD, 0xFFFD, 0xFFFD, 0xFFFD, 0xFFFD, 0x1D43, 0x1D52, 0xFFFD, 0x00E6, 0x00F8, 0x00BF,
      0x00A1, 0x00AC, 0xFFFD, 0x0192, 0xFFFD, 0xFFFD, 0x00AB, 0x00BB, 0x2026, 0xFFFD, 0x00C0, 0x00C3, 0x00D5,
      0x0152, 0x0153, 0x2013, 0x2014, 0x201C, 0x201D, 0x2018, 0x2019, 0x00F7, 0xFFFD, 0x00FF, 0x0178, 0x2044,
      0x00A4, 0x2039, 0x203A, 0xFB01, 0xFB02, 0x2021, 0x00B7, 0x201A, 0x201E, 0x2030, 0x00C2, 0x00CA, 0x00C1,
      0x00CB, 0x00C8, 0x00CD, 0x00CE, 0x00CF, 0x00CC, 0x00D3, 0x00D4, 0xFFFD, 0x00D2, 0x00DA, 0x00DB, 0x00D9,
      0x0131, 0x02C6, 0x0303, 0x0304, 0x0306, 0x0307, 0x030A, 0x0327, 0x030B, 0x0328, 0x02C7]"

text \<open>The code point of a byte.\<close>

definition single_byte_point :: "single_byte_encoding \<Rightarrow> byte \<Rightarrow> nat" where
  "single_byte_point encoding byte =
     (case encoding of
        PdfDoc \<Rightarrow>
          if 0x18 \<le> byte \<and> byte \<le> 0x1F then PDF_DOC_LOW_TO_UNICODE ! unat (byte - 0x18)
          else if 0x7F \<le> byte \<and> byte \<le> 0xA0 then PDF_DOC_TO_UNICODE ! unat (byte - 0x7F)
          else if byte = 0xAD then 0xFFFD
          else unat byte
      | WinAnsi \<Rightarrow> if 0x80 \<le> byte \<and> byte \<le> 0xA0 then WIN_ANSI_TO_UNICODE ! unat (byte - 0x80) else unat byte
      | MacRoman \<Rightarrow> if 0x80 \<le> byte then MAC_ROMAN_TO_UNICODE ! unat (byte - 0x80) else unat byte)"

definition decode_single_byte :: "bytes \<Rightarrow> single_byte_encoding \<Rightarrow> bytes" where
  "decode_single_byte raw encoding = concat (map (\<lambda>byte. push_u32 (single_byte_point encoding byte)) raw)"

text \<open>The \<open>match\<close> of \<open>encode_pdf_doc\<close> and of \<open>encode_win_ansi\<close>, arm by arm.\<close>

definition encode_pdf_doc_table :: "(nat \<times> byte) list" where
  "encode_pdf_doc_table =
     [(0x02D8, 0x18), (0x02C7, 0x19), (0x02C6, 0x1A), (0x02D9, 0x1B), (0x02DD, 0x1C), (0x02DB, 0x1D),
      (0x02DA, 0x1E), (0x02DC, 0x1F), (0x2022, 0x80), (0x2020, 0x81), (0x2021, 0x82), (0x2026, 0x83),
      (0x2014, 0x84), (0x2013, 0x85), (0x0192, 0x86), (0x2044, 0x87), (0x2039, 0x88), (0x203A, 0x89),
      (0x2212, 0x8A), (0x2030, 0x8B), (0x201E, 0x8C), (0x201C, 0x8D), (0x201D, 0x8E), (0x2018, 0x8F),
      (0x2019, 0x90), (0x201A, 0x91), (0x2122, 0x92), (0xFB01, 0x93), (0xFB02, 0x94), (0x0141, 0x95),
      (0x0152, 0x96), (0x0160, 0x97), (0x0178, 0x98), (0x017D, 0x99), (0x0131, 0x9A), (0x0142, 0x9B),
      (0x0153, 0x9C), (0x0161, 0x9D), (0x017E, 0x9E), (0xFFFD, 0x9F), (0x20AC, 0xA0)]"

definition encode_win_ansi_table :: "(nat \<times> byte) list" where
  "encode_win_ansi_table =
     [(0x20AC, 0x80), (0x201A, 0x82), (0x0192, 0x83), (0x201E, 0x84), (0x2026, 0x85), (0x2020, 0x86),
      (0x2021, 0x87), (0x02C6, 0x88), (0x2030, 0x89), (0x0160, 0x8A), (0x2039, 0x8B), (0x0152, 0x8C),
      (0x017D, 0x8E), (0x2018, 0x91), (0x2019, 0x92), (0x201C, 0x93), (0x201D, 0x94), (0x2022, 0x95),
      (0x2013, 0x96), (0x2014, 0x97), (0x0303, 0x98), (0x2122, 0x99), (0x0161, 0x9A), (0x203A, 0x9B),
      (0x0153, 0x9C), (0x017E, 0x9E), (0x0178, 0x9F), (0x00A0, 0xA0)]"

definition encode_pdf_doc :: "nat \<Rightarrow> byte option" where
  "encode_pdf_doc codepoint = map_of encode_pdf_doc_table codepoint"

definition encode_win_ansi :: "nat \<Rightarrow> byte option" where
  "encode_win_ansi codepoint = map_of encode_win_ansi_table codepoint"

fun position_from :: "nat \<Rightarrow> ('a \<Rightarrow> bool) \<Rightarrow> 'a list \<Rightarrow> nat option" where
  "position_from i P [] = None"
| "position_from i P (x # xs) = (if P x then Some i else position_from (i + 1) P xs)"

definition encode_mac_roman :: "nat \<Rightarrow> byte option" where
  "encode_mac_roman codepoint =
     map_option (\<lambda>i. of_nat i + 0x80) (position_from 0 (\<lambda>v. v = codepoint \<and> v \<noteq> 0xFFFD) MAC_ROMAN_TO_UNICODE)"

definition transcode_char :: "single_byte_encoding \<Rightarrow> nat \<Rightarrow> byte option" where
  "transcode_char encoding codepoint =
     (if codepoint < 0x80 then
        if encoding = PdfDoc \<and> (0x18 \<le> codepoint \<and> codepoint \<le> 0x1F \<or> codepoint = 0x7F) then None
        else Some (of_nat codepoint)
      else if encoding = PdfDoc \<and> codepoint = 0xAD then None
      else if codepoint > 0xA0 \<and> codepoint < 0x100 \<and> (encoding = PdfDoc \<or> encoding = WinAnsi)
      then Some (of_nat codepoint)
      else
        case encoding of
          PdfDoc \<Rightarrow> encode_pdf_doc codepoint
        | WinAnsi \<Rightarrow> encode_win_ansi codepoint
        | MacRoman \<Rightarrow> encode_mac_roman codepoint)"

fun transcode_chars :: "single_byte_encoding \<Rightarrow> nat list \<Rightarrow> bytes option" where
  "transcode_chars encoding [] = Some []"
| "transcode_chars encoding (c # cs) =
     (case transcode_char encoding c of
        None \<Rightarrow> None
      | Some byte \<Rightarrow> map_option (Cons byte) (transcode_chars encoding cs))"

definition starts_with :: "bytes \<Rightarrow> bytes \<Rightarrow> bool" where
  "starts_with raw prefix \<longleftrightarrow> take (length prefix) raw = prefix"

definition transcode_utf8 :: "bytes \<Rightarrow> single_byte_encoding \<Rightarrow> bytes option" where
  "transcode_utf8 raw encoding =
     (case utf8_chars raw of
        None \<Rightarrow> None
      | Some text \<Rightarrow>
          if encoding = PdfDoc \<and>
             (starts_with raw [0xC3, 0xBE, 0xC3, 0xBF] \<or> starts_with raw [0xC3, 0xBF, 0xC3, 0xBE] \<or>
              starts_with raw [0xC3, 0xAF, 0xC2, 0xBB, 0xC2, 0xBF])
          then None
          else transcode_chars encoding text)"

section \<open>Passwords tried on a file\<close>

definition has_8bit :: "byte \<Rightarrow> bool" where
  "has_8bit byte \<longleftrightarrow> byte AND 0x80 \<noteq> 0"

definition analyze_encoding :: "bytes \<Rightarrow> bool \<times> bool \<times> bool" where
  "analyze_encoding raw =
     (let is_utf16 = starts_with raw [0xFE, 0xFF] \<or> starts_with raw [0xFF, 0xFE];
          has_8bit_chars = is_utf16 \<or> list_ex has_8bit raw;
          is_valid_utf8 = has_8bit_chars \<and> valid_utf8 raw
      in (has_8bit_chars, is_valid_utf8, is_utf16))"

definition utf16_to_utf8 :: "bytes \<Rightarrow> bytes" where
  "utf16_to_utf8 raw =
     (let is_le = starts_with raw [0xFF, 0xFE];
          start = (if starts_with raw [0xFE, 0xFF] \<or> is_le then 2 else 0)
      in lossy_utf16 is_le 0 (drop start raw))"

definition option_list :: "'a option \<Rightarrow> 'a list" where
  "option_list x = (case x of None \<Rightarrow> [] | Some a \<Rightarrow> [a])"

text \<open>Candidates in order, without the later copies.\<close>

definition deduplicate :: "'a list \<Rightarrow> 'a list" where
  "deduplicate xs = foldl (\<lambda>seen x. if x \<in> set seen then seen else seen @ [x]) [] xs"

definition possible_repaired_encodings :: "bytes \<Rightarrow> bytes list" where
  "possible_repaired_encodings supplied =
     (let result = [supplied];
          (has_8bit_chars, is_valid_utf8, is_utf16) = analyze_encoding supplied
      in if \<not> has_8bit_chars then result
         else
           let is_valid_utf8 = (is_utf16 \<or> is_valid_utf8);
               normalized = (if is_utf16 then utf16_to_utf8 supplied else supplied);
               transcoded = (\<lambda>source targets. concat (map (\<lambda>target. option_list (transcode_utf8 source target)) targets));
               from_pdf_doc = decode_single_byte supplied PdfDoc;
               from_win_ansi = decode_single_byte supplied WinAnsi;
               from_mac_roman = decode_single_byte supplied MacRoman
           in deduplicate (result @
                (if is_valid_utf8 then transcoded normalized [PdfDoc, WinAnsi, MacRoman]
                 else [from_pdf_doc, from_win_ansi, from_mac_roman] @
                   transcoded from_pdf_doc [WinAnsi, MacRoman] @ transcoded from_win_ansi [PdfDoc, MacRoman] @
                   transcoded from_mac_roman [PdfDoc, WinAnsi])))"

definition hex_decode_nibble :: "byte \<Rightarrow> byte option" where
  "hex_decode_nibble byte =
     (if 0x30 \<le> byte \<and> byte \<le> 0x39 then Some (byte - 0x30)
      else if 0x61 \<le> byte \<and> byte \<le> 0x66 then Some (byte - 0x61 + 10)
      else if 0x41 \<le> byte \<and> byte \<le> 0x46 then Some (byte - 0x41 + 10)
      else None)"

fun decode_hex_loop :: "byte option \<Rightarrow> bytes \<Rightarrow> bytes" where
  "decode_hex_loop high [] = (case high of None \<Rightarrow> [] | Some h \<Rightarrow> [push_bit 4 h])"
| "decode_hex_loop high (byte # raw) =
     (case hex_decode_nibble byte of
        None \<Rightarrow> decode_hex_loop high raw
      | Some nibble \<Rightarrow>
          (case high of
             Some h \<Rightarrow> (push_bit 4 h OR nibble) # decode_hex_loop None raw
           | None \<Rightarrow> decode_hex_loop (Some nibble) raw))"

definition decode_hex :: "bytes \<Rightarrow> bytes" where
  "decode_hex raw = decode_hex_loop None raw"

definition password_bytes_for_read :: "bytes \<Rightarrow> password_mode \<Rightarrow> bytes" where
  "password_bytes_for_read raw mode = (if mode = PM_HexBytes then decode_hex raw else raw)"

definition password_candidates_for_read :: "bytes \<Rightarrow> password_mode \<Rightarrow> bytes list" where
  "password_candidates_for_read raw mode = possible_repaired_encodings (password_bytes_for_read raw mode)"

section \<open>Passwords written to a file\<close>

definition password_bytes_for_write ::
  "bytes \<Rightarrow> password_mode \<Rightarrow> int \<Rightarrow> error + bytes \<times> password_write_notice" where
  "password_bytes_for_write raw mode revision =
     (let (has_8bit_chars, is_valid_utf8, _) = analyze_encoding raw
      in case mode of
           PM_Bytes \<Rightarrow> Inr (raw, PN_None)
         | PM_HexBytes \<Rightarrow> Inr (decode_hex raw, PN_None)
         | PM_Unicode \<Rightarrow>
             if \<not> has_8bit_chars then Inr (raw, PN_None)
             else if \<not> valid_utf8 raw then Inl (System (str ''supplied password is not valid UTF-8''))
             else if revision < 5 then
               (case transcode_utf8 raw PdfDoc of
                  None \<Rightarrow> Inl (System (str ''supplied password cannot be encoded for 40-bit or 128-bit encryption formats''))
                | Some encoded \<Rightarrow> Inr (encoded, PN_None))
             else Inr (raw, PN_None)
         | PM_Auto \<Rightarrow>
             if \<not> has_8bit_chars then Inr (raw, PN_None)
             else if revision < 5 \<and> is_valid_utf8 then
               (case transcode_utf8 raw PdfDoc of
                  Some encoded \<Rightarrow> Inr (encoded, PN_Info)
                | None \<Rightarrow> Inr (raw, PN_Warning))
             else if revision \<ge> 5 \<and> \<not> is_valid_utf8 then
               Inl (System (str ''supplied password is not a valid Unicode password, which is required for 256-bit encryption; '' @
                 str ''to really use this password, rerun with the --password-mode=bytes option''))
             else Inr (raw, PN_None))"

section \<open>Transcoding is invertible\<close>

lemma position_from_Some: "position_from i P xs = Some j \<Longrightarrow> i \<le> j \<and> j - i < length xs \<and> P (xs ! (j - i))"
proof (induction i P xs rule: position_from.induct)
  case (2 i P x xs)
  show ?case
  proof (cases "P x")
    case False
    then have "Suc i \<le> j \<and> j - Suc i < length xs \<and> P (xs ! (j - Suc i))" using 2 by simp
    then show ?thesis by (auto simp: nth_Cons' Suc_diff_Suc)
  qed (use 2 in auto)
qed simp

lemma encode_pdf_doc_point: "encode_pdf_doc c = Some x \<Longrightarrow> single_byte_point PdfDoc x = c"
proof -
  have "list_all (\<lambda>(c, x). single_byte_point PdfDoc x = c) encode_pdf_doc_table"
    by (simp add: encode_pdf_doc_table_def single_byte_point_def PDF_DOC_LOW_TO_UNICODE_def PDF_DOC_TO_UNICODE_def)
  then show "encode_pdf_doc c = Some x \<Longrightarrow> single_byte_point PdfDoc x = c"
    by (auto simp: encode_pdf_doc_def list_all_iff dest!: map_of_SomeD)
qed

lemma encode_win_ansi_point: "encode_win_ansi c = Some x \<Longrightarrow> single_byte_point WinAnsi x = c"
proof -
  have "list_all (\<lambda>(c, x). single_byte_point WinAnsi x = c) encode_win_ansi_table"
    by (simp add: encode_win_ansi_table_def single_byte_point_def WIN_ANSI_TO_UNICODE_def)
  then show "encode_win_ansi c = Some x \<Longrightarrow> single_byte_point WinAnsi x = c"
    by (auto simp: encode_win_ansi_def list_all_iff dest!: map_of_SomeD)
qed

lemma length_mac_roman: "length MAC_ROMAN_TO_UNICODE = 128"
  by (simp add: MAC_ROMAN_TO_UNICODE_def)

lemma encode_mac_roman_point:
  assumes "encode_mac_roman c = Some x"
  shows "single_byte_point MacRoman x = c"
proof -
  obtain i where i: "position_from 0 (\<lambda>v. v = c \<and> v \<noteq> 0xFFFD) MAC_ROMAN_TO_UNICODE = Some i" "x = of_nat i + 0x80"
    using assms by (auto simp: encode_mac_roman_def)
  have m: "i < 128" "MAC_ROMAN_TO_UNICODE ! i = c" using position_from_Some [OF i(1)] by (auto simp: length_mac_roman)
  have "x = of_nat (i + 0x80)" using i(2) by simp
  then have "unat x = i + 0x80" using m(1) unat_of_nat_byte [of "i + 0x80"] by (simp del: of_nat_add)
  then show ?thesis using m i(2) by (simp add: single_byte_point_def word_le_nat_alt unat_of_nat_byte)
qed

text \<open>The byte of a code point decodes to it.\<close>

lemma transcode_char_point:
  assumes "transcode_char e c = Some x"
  shows "single_byte_point e x = c"
proof (cases "c < 0x80 \<or> (c > 0xA0 \<and> c < 0x100 \<and> e \<noteq> MacRoman)")
  case True
  then have x: "x = of_nat c" "e = PdfDoc \<Longrightarrow> c \<noteq> 0xAD \<and> c \<noteq> 0x7F \<and> \<not> (0x18 \<le> c \<and> c \<le> 0x1F)"
    using assms by (auto simp: transcode_char_def split: if_splits single_byte_encoding.splits)
  then have "unat x = c" using True by (auto simp: unat_of_nat_byte)
  then show ?thesis using True x(2)
    by (cases e) (auto simp: single_byte_point_def word_le_nat_alt word_unat_eq_iff)
next
  case False
  then show ?thesis
    using assms encode_pdf_doc_point encode_win_ansi_point encode_mac_roman_point
    by (cases e) (auto simp: transcode_char_def split: if_splits)
qed

lemma transcode_chars_decode:
  "transcode_chars e cs = Some b \<Longrightarrow> list_all is_scalar cs \<Longrightarrow> decode_single_byte b e = utf8 cs"
proof (induction cs arbitrary: b)
  case Nil
  then show ?case by (simp add: decode_single_byte_def)
next
  case (Cons c cs)
  obtain x y where xy: "transcode_char e c = Some x" "transcode_chars e cs = Some y" "b = x # y"
    using Cons.prems(1) by (auto split: option.splits)
  then show ?case using Cons.IH [OF xy(2)] Cons.prems(2) transcode_char_point [OF xy(1)]
    by (simp add: decode_single_byte_def push_u32_def)
qed

text \<open>Decoding a transcoded text gives the text back.\<close>

lemma transcode_decode: "transcode_utf8 raw e = Some b \<Longrightarrow> decode_single_byte b e = raw"
  using utf8_chars_valid [of raw] transcode_chars_decode
  by (auto simp: transcode_utf8_def split: option.splits if_splits)

section \<open>Candidates\<close>

lemma foldl_dedup:
  "foldl (\<lambda>seen x. if x \<in> set seen then seen else seen @ [x]) seen xs =
     seen @ foldl (\<lambda>s x. if x \<in> set seen \<or> x \<in> set s then s else s @ [x]) [] xs"
proof (induction xs rule: rev_induct)
  case (snoc x xs)
  then show ?case by auto
qed simp

lemma deduplicate_set: "set (deduplicate xs) = set xs"
proof (induction xs rule: rev_induct)
  case (snoc x xs)
  then show ?case by (auto simp: deduplicate_def)
qed (simp add: deduplicate_def)

lemma deduplicate_distinct: "distinct (deduplicate xs)"
proof (induction xs rule: rev_induct)
  case (snoc x xs)
  then show ?case by (auto simp: deduplicate_def)
qed (simp add: deduplicate_def)

lemma deduplicate_hd: "hd (deduplicate (x # xs)) = x"
  using foldl_dedup [of "[x]" xs] by (simp add: deduplicate_def)

lemma has_8bit_iff: "has_8bit b \<longleftrightarrow> 0x80 \<le> b"
  unfolding has_8bit_def by (rule all_bytesI [where b = b]) code_simp

lemma utf8_first: "is_scalar c \<Longrightarrow> \<exists>b bs. encode_utf8 c = b # bs \<and> b \<noteq> 0xFE \<and> b \<noteq> 0xFF \<and> (has_8bit b \<longleftrightarrow> 0x80 \<le> c)"
proof -
  have byte: "b \<noteq> 0xFE \<and> b \<noteq> 0xFF" "has_8bit b \<longleftrightarrow> 0x80 \<le> unat b" if "unat b < 0xFE" for b
    using that by (auto simp: has_8bit_iff word_le_nat_alt)
  assume "is_scalar c"
  then show ?thesis
  proof (cases rule: encode_utf8_cases)
    case (one b)
    then show ?thesis using byte [of b] by simp
  next
    case (two b1 b2 x y)
    then have "unat b1 < 0xFE" "0x80 \<le> unat b1" "0x80 \<le> c" by linarith+
    then show ?thesis using byte [of b1] two by simp
  next
    case (three b1 b2 b3 x y z)
    then have "unat b1 < 0xFE" "0x80 \<le> unat b1" by linarith+
    moreover have "0x80 \<le> c" using three by (cases "x = 0") simp_all
    ultimately show ?thesis using byte [of b1] three by simp
  next
    case (four b1 b2 b3 b4 x y z w)
    then have "unat b1 < 0xFE" "0x80 \<le> unat b1" by linarith+
    moreover have "0x80 \<le> c" using four by (cases "x = 0") simp_all
    ultimately show ?thesis using byte [of b1] four by simp
  qed
qed

lemma starts_with_Cons: "starts_with (b # bs) (x # xs) \<longleftrightarrow> b = x \<and> starts_with bs xs"
  by (simp add: starts_with_def)

lemma utf8_no_bom:
  assumes "list_all is_scalar text"
  shows "\<not> starts_with (utf8 text) [0xFE, 0xFF]" "\<not> starts_with (utf8 text) [0xFF, 0xFE]"
proof -
  have "starts_with (utf8 text) (x # xs) \<Longrightarrow> x \<noteq> 0xFE \<and> x \<noteq> 0xFF" for x xs
    using assms utf8_first [of "hd text"] by (cases "text") (auto simp: starts_with_def)
  then show "\<not> starts_with (utf8 text) [0xFE, 0xFF]" "\<not> starts_with (utf8 text) [0xFF, 0xFE]" by blast+
qed

lemma transcode_ascii:
  "list_all is_scalar cs \<Longrightarrow> \<not> list_ex has_8bit (utf8 cs) \<Longrightarrow> transcode_chars e cs = Some b \<Longrightarrow> b = utf8 cs"
proof (induction cs arbitrary: b)
  case (Cons c cs)
  obtain f fs where f: "encode_utf8 c = f # fs" "has_8bit f \<longleftrightarrow> 0x80 \<le> c" using utf8_first [of c] Cons.prems(1) by auto
  have c: "c < 0x80" using Cons.prems(2) f by auto
  then have "encode_utf8 c = [of_nat c]" by (simp add: encode_utf8_def)
  moreover have "transcode_char e c = Some x \<Longrightarrow> x = of_nat c" for x
    using c by (auto simp: transcode_char_def split: if_splits)
  moreover obtain x y where "transcode_char e c = Some x" "transcode_chars e cs = Some y" "b = x # y"
    using Cons.prems(3) by (auto split: option.splits)
  ultimately show ?case using Cons.IH [of y] Cons.prems(1,2) by simp
qed simp

text \<open>The spellings of a text a user may type, and the bytes a file made from it may hold.\<close>

definition supplied_as :: "nat list \<Rightarrow> bytes \<Rightarrow> bool" where
  "supplied_as text p \<longleftrightarrow>
     p = utf8 text \<or> p = [0xFE, 0xFF] @ utf16_bytes False text \<or> p = [0xFF, 0xFE] @ utf16_bytes True text \<or>
     (\<exists>e. transcode_utf8 (utf8 text) e = Some p \<and> \<not> valid_utf8 p \<and>
        \<not> starts_with p [0xFE, 0xFF] \<and> \<not> starts_with p [0xFF, 0xFE])"

definition stored_as :: "nat list \<Rightarrow> bytes \<Rightarrow> bool" where
  "stored_as text q \<longleftrightarrow> (\<exists>e. transcode_utf8 (utf8 text) e = Some q)"

lemma list_ex_has_8bit: "\<not> valid_utf8 p \<Longrightarrow> list_ex has_8bit p"
  using valid_utf8_ascii [of p] by (force simp: list_ex_iff list_all_iff has_8bit_iff simp flip: not_less)

lemma option_list_Some [simp]: "x \<in> set (option_list y) \<longleftrightarrow> y = Some x"
  by (cases y) (auto simp: option_list_def)

lemma repaired_password_candidates:
  assumes tx: "list_all is_scalar text" "supplied_as text p" and stored: "transcode_utf8 (utf8 text) e = Some q"
  shows "q \<in> set (possible_repaired_encodings p)"
  using tx(2) unfolding supplied_as_def
proof (elim disjE exE conjE)
  assume p: "p = utf8 text"
  have "utf8_chars p = Some text" using utf8_chars_utf8 [OF tx(1)] p by simp
  then have "valid_utf8 p" using utf8_chars_None [of p] by auto
  moreover have "\<not> list_ex has_8bit p \<Longrightarrow> q = p"
    using transcode_ascii [OF tx(1), of e q] stored p utf8_chars_utf8 [OF tx(1)]
    by (auto simp: transcode_utf8_def split: if_splits)
  ultimately show ?thesis using utf8_no_bom [OF tx(1)] stored p
    by (cases e; cases "list_ex has_8bit p")
      (auto simp: possible_repaired_encodings_def analyze_encoding_def deduplicate_set Let_def)
next
  assume p: "p = [0xFE, 0xFF] @ utf16_bytes False text"
  then have "starts_with p [0xFE, 0xFF]" "\<not> starts_with p [0xFF, 0xFE]" by (simp_all add: starts_with_def)
  then show ?thesis using lossy_utf16_encodes [OF tx(1), of False] stored p
    by (cases e) (auto simp: possible_repaired_encodings_def analyze_encoding_def deduplicate_set utf16_to_utf8_def Let_def)
next
  assume p: "p = [0xFF, 0xFE] @ utf16_bytes True text"
  then have "starts_with p [0xFF, 0xFE]" by (simp add: starts_with_def)
  then show ?thesis using lossy_utf16_encodes [OF tx(1), of True] stored p
    by (cases e) (auto simp: possible_repaired_encodings_def analyze_encoding_def deduplicate_set utf16_to_utf8_def Let_def)
next
  fix e'
  assume p: "transcode_utf8 (utf8 text) e' = Some p" "\<not> valid_utf8 p"
    "\<not> starts_with p [0xFE, 0xFF]" "\<not> starts_with p [0xFF, 0xFE]"
  have "decode_single_byte p e' = utf8 text" by (rule transcode_decode) (rule p(1))
  moreover have "q = p" if "e = e'" using that stored p(1) by simp
  ultimately show ?thesis using p(2-4) list_ex_has_8bit [OF p(2)] stored
    by (cases e; cases e') (auto simp: possible_repaired_encodings_def analyze_encoding_def deduplicate_set Let_def)
qed


lemma sample_password:
  "list_all is_scalar [0x6B, 0xE9]" "utf8 [0x6B, 0xE9] = [0x6B, 0xC3, 0xA9]" "utf8_chars [0x6B, 0xC3, 0xA9] = Some [0x6B, 0xE9]"
proof -
  show s: "list_all is_scalar [0x6B, 0xE9]" "utf8 [0x6B, 0xE9] = [0x6B, 0xC3, 0xA9]"
    by (simp_all add: is_scalar_def encode_utf8_def)
  show "utf8_chars [0x6B, 0xC3, 0xA9] = Some [0x6B, 0xE9]" using utf8_chars_utf8 [OF s(1)] unfolding s(2) .
qed


end
