(* ===== verification/Btree_Map.thy ===== *)
theory Btree_Map
  imports Prelude "HOL-Library.List_Lexorder"
begin

text \<open>
  The standard library's \<open>BTreeMap\<close> as the program uses it: an association list in ascending order of the
  keys, with insertion, lookup (\<open>map_of\<close>) and the step to the next larger key. The interface the clients
  rely on is the locale \<open>ordered_map\<close>.
\<close>

fun bt_insert :: "'k :: linorder \<Rightarrow> 'v \<Rightarrow> ('k \<times> 'v) list \<Rightarrow> ('k \<times> 'v) list" where
  "bt_insert k v [] = [(k, v)]"
| "bt_insert k v ((k', v') # m) =
     (if k < k' then (k, v) # (k', v') # m
      else if k = k' then (k, v) # m
      else (k', v') # bt_insert k v m)"

text \<open>\<open>range((Excluded(k), Unbounded)).next()\<close>\<close>

fun bt_next_after :: "'k :: linorder \<Rightarrow> ('k \<times> 'v) list \<Rightarrow> ('k \<times> 'v) option" where
  "bt_next_after k [] = None"
| "bt_next_after k ((k', v') # m) = (if k < k' then Some (k', v') else bt_next_after k m)"

definition bt_sorted :: "('k :: linorder \<times> 'v) list \<Rightarrow> bool" where
  "bt_sorted m \<longleftrightarrow> sorted_wrt (<) (map fst m)"

text \<open>What the clients rely on: insertion keeps the order and updates the map, and a step goes to the next key.\<close>

locale ordered_map =
  fixes ins :: "'k :: linorder \<Rightarrow> 'v \<Rightarrow> ('k \<times> 'v) list \<Rightarrow> ('k \<times> 'v) list"
    and step :: "'k \<Rightarrow> ('k \<times> 'v) list \<Rightarrow> ('k \<times> 'v) option"
  assumes ins_sorted: "bt_sorted m \<Longrightarrow> bt_sorted (ins k v m)"
    and ins_map: "bt_sorted m \<Longrightarrow> map_of (ins k v m) = (map_of m)(k \<mapsto> v)"
    and step_next: "bt_sorted (xs @ (k, v) # ys) \<Longrightarrow> step k (xs @ (k, v) # ys) = (case ys of [] \<Rightarrow> None | y # _ \<Rightarrow> Some y)"
begin

lemma ins_lookup: "bt_sorted m \<Longrightarrow> map_of (ins k v m) k = Some v"
  by (simp add: ins_map)

lemma ins_other: "bt_sorted m \<Longrightarrow> k' \<noteq> k \<Longrightarrow> map_of (ins k v m) k' = map_of m k'"
  by (simp add: ins_map)

lemma ins_keys: "bt_sorted m \<Longrightarrow> fst ` set (ins k v m) = insert k (fst ` set m)"
  using dom_map_of_conv_image_fst [of "ins k v m"] dom_map_of_conv_image_fst [of m] by (simp add: ins_map)

end

lemma bt_sorted_simps [simp]:
  "bt_sorted []"
  "bt_sorted ((k, v) # m) \<longleftrightarrow> (\<forall>k' \<in> fst ` set m. k < k') \<and> bt_sorted m"
  by (simp_all add: bt_sorted_def)

lemma bt_insert_keys: "fst ` set (bt_insert k v m) = insert k (fst ` set m)"
  by (induction k v m rule: bt_insert.induct) auto

lemma bt_insert_sorted: "bt_sorted m \<Longrightarrow> bt_sorted (bt_insert k v m)"
  by (induction k v m rule: bt_insert.induct) (auto simp: bt_insert_keys)

lemma bt_insert_map: "bt_sorted m \<Longrightarrow> map_of (bt_insert k v m) = (map_of m)(k \<mapsto> v)"
  by (induction k v m rule: bt_insert.induct)
    (auto simp: fun_eq_iff map_of_eq_None_iff dest!: map_of_SomeD)

text \<open>The largest key goes to the end.\<close>

lemma bt_insert_last: "(\<forall>k' \<in> fst ` set m. k' < k) \<Longrightarrow> bt_insert k v m = m @ [(k, v)]"
  by (induction k v m rule: bt_insert.induct) (auto dest: less_asym)

lemma bt_next_skip: "(\<forall>k' \<in> fst ` set xs. k' \<le> k) \<Longrightarrow> bt_next_after k (xs @ ys) = bt_next_after k ys"
  by (induction xs) (auto simp: not_less)

lemma bt_next_after_key:
  assumes "bt_sorted (xs @ (k, v) # ys)"
  shows "bt_next_after k (xs @ (k, v) # ys) = (case ys of [] \<Rightarrow> None | y # _ \<Rightarrow> Some y)"
proof -
  have "\<forall>k' \<in> fst ` set xs. k' \<le> k" "\<forall>k' \<in> fst ` set ys. k < k'"
    using assms by (auto simp: bt_sorted_def sorted_wrt_append less_imp_le)
  then show ?thesis by (cases ys) (auto simp: bt_next_skip)
qed

interpretation btree: ordered_map bt_insert bt_next_after
  by unfold_locales (fact bt_insert_sorted bt_insert_map bt_next_after_key)+

end
