(* ===== verification/Json_Value.thy ===== *)
theory Json_Value
  imports Rust_Std Btree_Map
begin

text \<open>
  The shared JSON values of \<open>crates/flpdf/src/json/value.rs\<close>. A \<open>Json\<close> is a handle, \<open>None\<close> or a reference
  counted cell that other handles share, so the cells live in an explicit heap: a handle is an optional
  address, and the operations take the heap and return it. Callbacks of blobs are an abstract type \<open>'b\<close>.
\<close>

section \<open>Values and handles\<close>

datatype json_error = JsonType bytes | JsonParse bytes

type_synonym json = "nat option"

datatype 'b jvalue =
    JDictionary "(bytes \<times> json) list" "bytes set"
  | JArray "json list"
  | JString bytes bytes
  | JNumber bytes
  | JBool bool
  | JNull
  | JBlob 'b

record 'b jmembers =
  mb_value :: "'b jvalue"
  mb_start :: int
  mb_end :: int

type_synonym 'b jheap = "'b jmembers list"

definition members_of :: "'b jheap \<Rightarrow> json \<Rightarrow> 'b jmembers option" where
  "members_of h j = (case j of None \<Rightarrow> None | Some a \<Rightarrow> if a < length h then Some (h ! a) else None)"

definition value_of :: "'b jheap \<Rightarrow> json \<Rightarrow> 'b jvalue option" where
  "value_of h j = map_option mb_value (members_of h j)"

definition set_value :: "'b jheap \<Rightarrow> json \<Rightarrow> 'b jvalue \<Rightarrow> 'b jheap" where
  "set_value h j v = (case j of None \<Rightarrow> h | Some a \<Rightarrow> h[a := (h ! a)\<lparr>mb_value := v\<rparr>])"

definition encode_string_byte :: "byte \<Rightarrow> bytes" where
  "encode_string_byte b =
     (if b = 0x5C then [0x5C, 0x5C]
      else if b = 0x22 then [0x5C, 0x22]
      else if b = 0x08 then str [CHR 0x5C, CHR ''b'']
      else if b = 0x0C then str [CHR 0x5C, CHR ''f'']
      else if b = 0x0A then str [CHR 0x5C, CHR ''n'']
      else if b = 0x0D then str [CHR 0x5C, CHR ''r'']
      else if b = 0x09 then str [CHR 0x5C, CHR ''t'']
      else if b \<le> 0x1F then
        (if b < 0x10 then str [CHR 0x5C, CHR ''u'', CHR ''0'', CHR ''0'', CHR ''0'']
         else str [CHR 0x5C, CHR ''u'', CHR ''0'', CHR ''0'', CHR ''1'']) @
        [str ''0123456789abcdef'' ! unat (b AND 0x0F)]
      else [b])"

definition encode_string :: "bytes \<Rightarrow> bytes" where
  "encode_string s = concat (map encode_string_byte s)"

text \<open>\<open>with_value\<close> allocates a cell.\<close>

definition with_value :: "'b jheap \<Rightarrow> 'b jvalue \<Rightarrow> 'b jheap \<times> json" where
  "with_value h v = (h @ [\<lparr>mb_value = v, mb_start = 0, mb_end = 0\<rparr>], Some (length h))"

definition make_dictionary :: "'b jheap \<Rightarrow> 'b jheap \<times> json" where
  "make_dictionary h = with_value h (JDictionary [] {})"

definition make_array :: "'b jheap \<Rightarrow> 'b jheap \<times> json" where
  "make_array h = with_value h (JArray [])"

definition make_string :: "'b jheap \<Rightarrow> bytes \<Rightarrow> 'b jheap \<times> json" where
  "make_string h s = with_value h (JString s (encode_string s))"

definition make_number :: "'b jheap \<Rightarrow> bytes \<Rightarrow> 'b jheap \<times> json" where
  "make_number h s = with_value h (JNumber s)"

definition make_int :: "'b jheap \<Rightarrow> int \<Rightarrow> 'b jheap \<times> json" where
  "make_int h i = make_number h (decimal_int i)"

definition make_bool :: "'b jheap \<Rightarrow> bool \<Rightarrow> 'b jheap \<times> json" where
  "make_bool h b = with_value h (JBool b)"

definition make_null :: "'b jheap \<Rightarrow> 'b jheap \<times> json" where
  "make_null h = with_value h JNull"

definition make_blob :: "'b jheap \<Rightarrow> 'b \<Rightarrow> 'b jheap \<times> json" where
  "make_blob h callback = with_value h (JBlob callback)"

definition or_null :: "'b jheap \<Rightarrow> json \<Rightarrow> 'b jheap \<times> json" where
  "or_null h j = (if j \<noteq> None then (h, j) else make_null h)"

definition add_dictionary_member :: "'b jheap \<Rightarrow> json \<Rightarrow> bytes \<Rightarrow> json \<Rightarrow> json_error + 'b jheap \<times> json" where
  "add_dictionary_member h self key v =
     (case value_of h self of
        Some (JDictionary dictionary parsed_keys) \<Rightarrow>
          let (h, v) = or_null h v
          in Inr (set_value h self (JDictionary (bt_insert (encode_string key) v dictionary) parsed_keys), v)
      | _ \<Rightarrow> Inl (JsonType (str ''JSON::addDictionaryMember called on non-dictionary'')))"

definition add_array_element :: "'b jheap \<Rightarrow> json \<Rightarrow> json \<Rightarrow> json_error + 'b jheap \<times> json" where
  "add_array_element h self v =
     (case value_of h self of
        Some (JArray array) \<Rightarrow>
          let (h, v) = or_null h v
          in Inr (set_value h self (JArray (array @ [v])), v)
      | _ \<Rightarrow> Inl (JsonType (str ''JSON::addArrayElement called on non-array'')))"

definition is_array :: "'b jheap \<Rightarrow> json \<Rightarrow> bool" where
  "is_array h j \<longleftrightarrow> (case value_of h j of Some (JArray array) \<Rightarrow> True | _ \<Rightarrow> False)"

definition is_dictionary :: "'b jheap \<Rightarrow> json \<Rightarrow> bool" where
  "is_dictionary h j \<longleftrightarrow> (case value_of h j of Some (JDictionary dictionary keys) \<Rightarrow> True | _ \<Rightarrow> False)"

definition check_dictionary_key_seen :: "'b jheap \<Rightarrow> json \<Rightarrow> bytes \<Rightarrow> json_error + 'b jheap \<times> bool" where
  "check_dictionary_key_seen h self key =
     (case value_of h self of
        Some (JDictionary dictionary parsed_keys) \<Rightarrow>
          Inr (set_value h self (JDictionary dictionary (insert key parsed_keys)), key \<in> parsed_keys)
      | _ \<Rightarrow> Inl (JsonType (str ''JSON::checkDictionaryKey called on non-dictionary'')))"

definition get_string :: "'b jheap \<Rightarrow> json \<Rightarrow> bytes option" where
  "get_string h j = (case value_of h j of Some (JString original encoded) \<Rightarrow> Some original | _ \<Rightarrow> None)"

definition get_number :: "'b jheap \<Rightarrow> json \<Rightarrow> bytes option" where
  "get_number h j = (case value_of h j of Some (JNumber v) \<Rightarrow> Some v | _ \<Rightarrow> None)"

definition get_bool :: "'b jheap \<Rightarrow> json \<Rightarrow> bool option" where
  "get_bool h j = (case value_of h j of Some (JBool v) \<Rightarrow> Some v | _ \<Rightarrow> None)"

definition is_null :: "'b jheap \<Rightarrow> json \<Rightarrow> bool" where
  "is_null h j \<longleftrightarrow> (case value_of h j of Some JNull \<Rightarrow> True | _ \<Rightarrow> False)"

definition get_dict_item :: "'b jheap \<Rightarrow> json \<Rightarrow> bytes \<Rightarrow> 'b jheap \<times> json" where
  "get_dict_item h j encoded_key =
     (case value_of h j of
        Some (JDictionary dictionary keys) \<Rightarrow>
          (case map_of dictionary encoded_key of Some v \<Rightarrow> (h, v) | None \<Rightarrow> make_null h)
      | _ \<Rightarrow> make_null h)"

definition next_dictionary_item_after :: "'b jheap \<Rightarrow> json \<Rightarrow> bytes option \<Rightarrow> (bytes \<times> json) option" where
  "next_dictionary_item_after h j previous_key =
     (case value_of h j of
        Some (JDictionary dictionary keys) \<Rightarrow>
          (case previous_key of
             Some previous \<Rightarrow> bt_next_after previous dictionary
           | None \<Rightarrow> (case dictionary of [] \<Rightarrow> None | item # _ \<Rightarrow> Some item))
      | _ \<Rightarrow> None)"

definition dictionary_item_for_write :: "'b jheap \<Rightarrow> json \<Rightarrow> bytes \<Rightarrow> json option" where
  "dictionary_item_for_write h j encoded_key =
     (case value_of h j of Some (JDictionary dictionary keys) \<Rightarrow> map_of dictionary encoded_key | _ \<Rightarrow> None)"

definition array_items_snapshot :: "'b jheap \<Rightarrow> json \<Rightarrow> json list option" where
  "array_items_snapshot h j = (case value_of h j of Some (JArray array) \<Rightarrow> Some array | _ \<Rightarrow> None)"

definition set_start :: "'b jheap \<Rightarrow> json \<Rightarrow> int \<Rightarrow> 'b jheap" where
  "set_start h j start = (case j of None \<Rightarrow> h | Some a \<Rightarrow> h[a := (h ! a)\<lparr>mb_start := start\<rparr>])"

definition set_end :: "'b jheap \<Rightarrow> json \<Rightarrow> int \<Rightarrow> 'b jheap" where
  "set_end h j end' = (case j of None \<Rightarrow> h | Some a \<Rightarrow> h[a := (h ! a)\<lparr>mb_end := end'\<rparr>])"

definition json_start :: "'b jheap \<Rightarrow> json \<Rightarrow> int" where
  "json_start h j = (case members_of h j of None \<Rightarrow> 0 | Some m \<Rightarrow> mb_start m)"

definition json_end :: "'b jheap \<Rightarrow> json \<Rightarrow> int" where
  "json_end h j = (case members_of h j of None \<Rightarrow> 0 | Some m \<Rightarrow> mb_end m)"

text \<open>
  The loop of \<open>for_each_dict_item\<close>, with a callback on a state of its own: it asks for the item after the
  last key until there is none. The keys ascend, so there are at most as many steps as entries greater than
  the last key.
\<close>

definition entries_after :: "'b jheap \<Rightarrow> json \<Rightarrow> bytes option \<Rightarrow> (bytes \<times> json) list" where
  "entries_after h j previous =
     (case value_of h j of
        Some (JDictionary dictionary keys) \<Rightarrow>
          (case previous of None \<Rightarrow> dictionary | Some k \<Rightarrow> filter (\<lambda>(k', v). k < k') dictionary)
      | _ \<Rightarrow> [])"

lemma bt_next_after_filter: "bt_next_after k m = Some item \<Longrightarrow> item \<in> set m \<and> k < fst item"
  by (induction k m rule: bt_next_after.induct) (auto split: if_splits)

lemma next_item_progress:
  assumes "next_dictionary_item_after h j previous = Some (key, v)"
  shows "length (entries_after h j (Some key)) < length (entries_after h j previous)"
proof -
  obtain m keys where m: "value_of h j = Some (JDictionary m keys)"
    using assms by (auto simp: next_dictionary_item_after_def split: option.splits jvalue.splits)
  show ?thesis
  proof (cases previous)
    case None
    then have "(key, v) \<in> set m" using assms m by (auto simp: next_dictionary_item_after_def split: list.splits)
    then have "length (filter (\<lambda>(k', v). key < k') m) < length m" by (intro length_filter_less) auto
    then show ?thesis using None m by (simp add: entries_after_def)
  next
    case (Some k)
    then have "(key, v) \<in> set m" "k < key"
      using assms m bt_next_after_filter [of k m] by (auto simp: next_dictionary_item_after_def)
    moreover have "filter (\<lambda>(k', v). key < k') m = filter (\<lambda>(k', v). key < k') (filter (\<lambda>(k', v). k < k') m)"
      using \<open>k < key\<close> by (auto simp: filter_filter intro!: filter_cong dest: less_trans)
    ultimately have "length (filter (\<lambda>(k', v). key < k') m) < length (filter (\<lambda>(k', v). k < k') m)"
      by (simp only:) (intro length_filter_less; auto)
    then show ?thesis using Some m by (simp add: entries_after_def)
  qed
qed

function dict_items_loop :: "(bytes \<Rightarrow> json \<Rightarrow> 's \<Rightarrow> 's) \<Rightarrow> 'b jheap \<Rightarrow> json \<Rightarrow> bytes option \<Rightarrow> 's \<Rightarrow> 's" where
  "dict_items_loop callback h j previous s =
     (case next_dictionary_item_after h j previous of
        None \<Rightarrow> s
      | Some (key, v) \<Rightarrow> dict_items_loop callback h j (Some key) (callback key v s))"
  by pat_completeness auto
termination
  by (relation "measure (\<lambda>(callback, h, j, previous, s). length (entries_after h j previous))")
    (auto intro: next_item_progress)

declare dict_items_loop.simps [simp del]

definition for_each_dict_item :: "(bytes \<Rightarrow> json \<Rightarrow> 's \<Rightarrow> 's) \<Rightarrow> 'b jheap \<Rightarrow> json \<Rightarrow> 's \<Rightarrow> 's \<times> bool" where
  "for_each_dict_item callback h j s = (dict_items_loop callback h j None s, is_dictionary h j)"

definition for_each_array_item :: "(json \<Rightarrow> 's \<Rightarrow> 's) \<Rightarrow> 'b jheap \<Rightarrow> json \<Rightarrow> 's \<Rightarrow> 's \<times> bool" where
  "for_each_array_item callback h j s =
     (case value_of h j of Some (JArray array) \<Rightarrow> (fold callback array s, True) | _ \<Rightarrow> (s, False))"

text \<open>On a map in order the loop visits every entry once.\<close>

lemma dict_items_loop_suffix:
  assumes "value_of h j = Some (JDictionary (xs @ (k, v) # ys) keys)" "bt_sorted (xs @ (k, v) # ys)"
  shows "dict_items_loop callback h j (Some k) s = fold (\<lambda>(key, v). callback key v) ys s"
  using assms
proof (induction ys arbitrary: xs k v s)
  case Nil
  then show ?case using bt_next_after_key [OF Nil(2)]
    by (subst dict_items_loop.simps) (simp add: next_dictionary_item_after_def)
next
  case (Cons y ys)
  obtain k' v' where y: "y = (k', v')" by (cases y)
  have "dict_items_loop callback h j (Some k') (callback k' v' s) =
      fold (\<lambda>(key, v). callback key v) ys (callback k' v' s)"
    using Cons.IH [of "xs @ [(k, v)]" k' v'] Cons.prems y by simp
  then show ?case using bt_next_after_key [OF Cons.prems(2)] Cons.prems(1) y
    by (subst dict_items_loop.simps) (simp add: next_dictionary_item_after_def)
qed

lemma dict_items_loop_all:
  assumes "value_of h j = Some (JDictionary m keys)" "bt_sorted m"
  shows "dict_items_loop callback h j None s = fold (\<lambda>(key, v). callback key v) m s"
proof (cases m)
  case Nil
  then show ?thesis using assms by (subst dict_items_loop.simps) (simp add: next_dictionary_item_after_def)
next
  case (Cons y ys)
  obtain k v where "y = (k, v)" by (cases y)
  then show ?thesis
    using assms Cons dict_items_loop_suffix [of h j "[]" k v ys keys callback "callback k v s"]
    by (subst dict_items_loop.simps) (simp add: next_dictionary_item_after_def)
qed

end
