(* ===== verification/Json_Writer.thy ===== *)
theory Json_Writer
  imports Json_Value Base64
begin

text \<open>
  The incremental JSON writer, \<open>crates/flpdf/src/json/writer.rs\<close>, on the heap of \<open>Json_Value\<close>. Handles may
  form cycles, on which the code would not return: the writer takes a bound on the nesting and gives
  \<open>None\<close> when it is exhausted. A chunk is one write of prefix, indentation and suffix, whichever buffer it
  is assembled in. The blob callback is given the Base64 stage over the pass-through stage over the output.
\<close>

type_synonym 'd jblob = "'d concatenate base64 \<Rightarrow> (pipe_error, 'd concatenate base64) outcome"

section \<open>Chunks\<close>

definition write_indented :: "'d pipeline \<Rightarrow> 'd \<Rightarrow> bytes \<Rightarrow> nat \<Rightarrow> bytes \<Rightarrow> (pipe_error, 'd) outcome" where
  "write_indented p d prefix depth suffix = pl_write p d (prefix @ concat (replicate depth (str ''  '')) @ suffix)"

text \<open>A state \<open>(d, first)\<close> is the output with the flag the functions share.\<close>

definition write_open :: "'d pipeline \<Rightarrow> 'd \<Rightarrow> bytes \<Rightarrow> (pipe_error, 'd \<times> bool) outcome" where
  "write_open p d delimiter = into (\<lambda>d. (d, True)) (pl_write p d delimiter)"

definition write_dictionary_open :: "'d pipeline \<Rightarrow> 'd \<Rightarrow> (pipe_error, 'd \<times> bool) outcome" where
  "write_dictionary_open p d = write_open p d (str ''{'')"

definition write_array_open :: "'d pipeline \<Rightarrow> 'd \<Rightarrow> (pipe_error, 'd \<times> bool) outcome" where
  "write_array_open p d = write_open p d (str ''['')"

definition write_close :: "'d pipeline \<Rightarrow> 'd \<times> bool \<Rightarrow> nat \<Rightarrow> bytes \<Rightarrow> (pipe_error, 'd \<times> bool) outcome" where
  "write_close p = (\<lambda>(d, first) depth delimiter.
     into (\<lambda>d. (d, first))
       (if \<not> first then write_indented p d [0x0A] depth delimiter else pl_write p d delimiter))"

definition write_dictionary_close :: "'d pipeline \<Rightarrow> 'd \<times> bool \<Rightarrow> nat \<Rightarrow> (pipe_error, 'd \<times> bool) outcome" where
  "write_dictionary_close p s depth = write_close p s depth (str ''}'')"

definition write_array_close :: "'d pipeline \<Rightarrow> 'd \<times> bool \<Rightarrow> nat \<Rightarrow> (pipe_error, 'd \<times> bool) outcome" where
  "write_array_close p s depth = write_close p s depth (str '']'')"

definition write_next :: "'d pipeline \<Rightarrow> 'd \<times> bool \<Rightarrow> nat \<Rightarrow> (pipe_error, 'd \<times> bool) outcome" where
  "write_next p = (\<lambda>(d, first) depth.
     into (\<lambda>d. (d, False)) (write_indented p d (if first then [0x0A] else [0x2C, 0x0A]) depth []))"

definition write_dictionary_key :: "'d pipeline \<Rightarrow> 'd \<times> bool \<Rightarrow> bytes \<Rightarrow> nat \<Rightarrow> (pipe_error, 'd \<times> bool) outcome" where
  "write_dictionary_key p s encoded_key depth =
     seq (write_next p s depth)
       (\<lambda>(d, first). into (\<lambda>d. (d, first)) (pl_write p d (0x22 # encoded_key @ str ''\": '')))"

text \<open>The digits of an \<open>i32\<close> into a fixed buffer, least significant first, then reversed.\<close>

fun decimal_digits_rev :: "nat \<Rightarrow> bytes" where
  "decimal_digits_rev magnitude =
     (0x30 + of_nat (magnitude mod 10)) #
     (if magnitude div 10 = 0 then [] else decimal_digits_rev (magnitude div 10))"

declare decimal_digits_rev.simps [simp del]

definition append_decimal_i32 :: "int \<Rightarrow> bytes" where
  "append_decimal_i32 v = (if v < 0 then [0x2D] else []) @ rev (decimal_digits_rev (nat \<bar>v\<bar>))"

definition write_qpdf_object_key ::
  "'d pipeline \<Rightarrow> 'd \<times> bool \<Rightarrow> int \<Rightarrow> int \<Rightarrow> nat \<Rightarrow> (pipe_error, 'd \<times> bool) outcome" where
  "write_qpdf_object_key p s obj generation depth =
     write_dictionary_key p s
       (str ''obj:'' @ append_decimal_i32 obj @ [0x20] @ append_decimal_i32 generation @ str '' R'') depth"

section \<open>Values\<close>

fun oseq :: "('e, 's) outcome option \<Rightarrow> ('s \<Rightarrow> ('e, 's) outcome option) \<Rightarrow> ('e, 's) outcome option" where
  "oseq None f = None"
| "oseq (Some (Done s)) f = f s"
| "oseq (Some (Fail e s)) f = Some (Fail e s)"

fun ofoldm :: "('s \<Rightarrow> 'a \<Rightarrow> ('e, 's) outcome option) \<Rightarrow> 's \<Rightarrow> 'a list \<Rightarrow> ('e, 's) outcome option" where
  "ofoldm f s [] = Some (Done s)"
| "ofoldm f s (x # xs) = oseq (f s x) (\<lambda>s. ofoldm f s xs)"

text \<open>The entries in the order in which \<open>next_dictionary_item_after\<close> finds them; writing does not change the heap.\<close>

definition dict_items :: "'b jheap \<Rightarrow> json \<Rightarrow> (bytes \<times> json) list" where
  "dict_items h j = dict_items_loop (\<lambda>key v items. items @ [(key, v)]) h j None []"

definition write_blob :: "'d pipeline \<Rightarrow> 'd jblob \<Rightarrow> 'd \<Rightarrow> (pipe_error, 'd) outcome" where
  "write_blob p writer d =
     (let cat = \<lparr>pl_write = concatenate_write p, pl_finish = concatenate_finish\<rparr>
      in seq (pl_write p d [0x22])
           (\<lambda>d. seq (into (\<lambda>s. cc_next (b64_next s))
                  (seq (writer (base64_new (str ''blob base64'') \<lparr>cc_next = d\<rparr> B64_Encode)) (base64_finish cat)))
                (\<lambda>d. pl_write p d [0x22])))"

fun json_write ::
  "nat \<Rightarrow> 'd pipeline \<Rightarrow> 'd jblob jheap \<Rightarrow> json \<Rightarrow> nat \<Rightarrow> 'd \<Rightarrow> (pipe_error, 'd) outcome option" where
  "json_write 0 p h self depth d = None"
| "json_write (Suc n) p h self depth d =
     (case value_of h self of
        None \<Rightarrow> Some (pl_write p d (str ''null''))
      | Some (JNumber v) \<Rightarrow> Some (pl_write p d v)
      | Some (JBool v) \<Rightarrow> Some (pl_write p d (if v then str ''true'' else str ''false''))
      | Some JNull \<Rightarrow> Some (pl_write p d (str ''null''))
      | Some (JString original encoded) \<Rightarrow> Some (pl_write p d (0x22 # encoded @ [0x22]))
      | Some (JDictionary dictionary keys) \<Rightarrow>
          map_option (into fst)
            (oseq (Some (write_dictionary_open p d))
              (\<lambda>s. oseq (ofoldm
                  (\<lambda>s (key, selected). oseq (Some (write_dictionary_key p s key (depth + 1)))
                     (\<lambda>(d, first).
                        let v = (case dictionary_item_for_write h self key of Some v \<Rightarrow> v | None \<Rightarrow> selected)
                        in map_option (into (\<lambda>d. (d, first))) (json_write n p h v (depth + 1) d)))
                  s (dict_items h self))
                (\<lambda>s. Some (write_dictionary_close p s depth))))
      | Some (JArray array) \<Rightarrow>
          map_option (into fst)
            (oseq (Some (write_array_open p d))
              (\<lambda>s. oseq (ofoldm
                  (\<lambda>s v. oseq (Some (write_next p s (depth + 1)))
                     (\<lambda>(d, first). map_option (into (\<lambda>d. (d, first))) (json_write n p h v (depth + 1) d)))
                  s array)
                (\<lambda>s. Some (write_array_close p s depth))))
      | Some (JBlob writer) \<Rightarrow> Some (write_blob p writer d))"

definition write_dictionary_item ::
  "nat \<Rightarrow> 'd pipeline \<Rightarrow> 'd jblob jheap \<Rightarrow> 'd \<times> bool \<Rightarrow> bytes \<Rightarrow> json \<Rightarrow> nat \<Rightarrow> (pipe_error, 'd \<times> bool) outcome option" where
  "write_dictionary_item n p h s key v depth =
     oseq (Some (write_dictionary_key p s key depth))
       (\<lambda>(d, first). map_option (into (\<lambda>d. (d, first))) (json_write n p h v depth d))"

definition write_array_item ::
  "nat \<Rightarrow> 'd pipeline \<Rightarrow> 'd jblob jheap \<Rightarrow> 'd \<times> bool \<Rightarrow> json \<Rightarrow> nat \<Rightarrow> (pipe_error, 'd \<times> bool) outcome option" where
  "write_array_item n p h s v depth =
     oseq (Some (write_next p s depth))
       (\<lambda>(d, first). map_option (into (\<lambda>d. (d, first))) (json_write n p h v depth d))"

text \<open>\<open>unparse\<close>: the vector written, or the error.\<close>

definition json_unparse :: "nat \<Rightarrow> bytes jblob jheap \<Rightarrow> json \<Rightarrow> (pipe_error + bytes) option" where
  "json_unparse n h self =
     map_option (\<lambda>r. case r of Done d \<Rightarrow> Inr d | Fail e d \<Rightarrow> Inl e) (json_write n vec_sink h self 0 [])"

section \<open>What is written\<close>

text \<open>JSON values as trees, the heap cells that represent them, and their text.\<close>

datatype jtree =
    TDict "(bytes \<times> jtree) list"
  | TArr "jtree list"
  | TStr bytes
  | TNum bytes
  | TBool bool
  | TNull

inductive reps :: "'b jheap \<Rightarrow> json \<Rightarrow> jtree \<Rightarrow> bool" for h where
  reps_dict: "value_of h j = Some (JDictionary m keys) \<Longrightarrow> bt_sorted m \<Longrightarrow>
    map fst m = map encode_string (map fst kvs) \<Longrightarrow> list_all2 (\<lambda>t j'. reps h j' t) (map snd kvs) (map snd m) \<Longrightarrow>
    reps h j (TDict kvs)"
| reps_arr: "value_of h j = Some (JArray js) \<Longrightarrow> list_all2 (\<lambda>t j'. reps h j' t) ts js \<Longrightarrow> reps h j (TArr ts)"
| reps_str: "value_of h j = Some (JString s (encode_string s)) \<Longrightarrow> reps h j (TStr s)"
| reps_num: "value_of h j = Some (JNumber s) \<Longrightarrow> reps h j (TNum s)"
| reps_bool: "value_of h j = Some (JBool b) \<Longrightarrow> reps h j (TBool b)"
| reps_null: "value_of h j = Some JNull \<Longrightarrow> reps h j TNull"

inductive_cases reps_dictE: "reps h j (TDict kvs)"
inductive_cases reps_arrE: "reps h j (TArr ts)"
inductive_cases reps_strE: "reps h j (TStr s)"
inductive_cases reps_numE: "reps h j (TNum s)"
inductive_cases reps_boolE: "reps h j (TBool b)"
inductive_cases reps_nullE: "reps h j TNull"

definition newline :: "nat \<Rightarrow> bytes" where
  "newline depth = 0x0A # replicate (2 * depth) 0x20"

fun render_more :: "nat \<Rightarrow> bytes list \<Rightarrow> bytes" where
  "render_more depth [] = newline depth"
| "render_more depth (i # is) = 0x2C # newline (depth + 1) @ i @ render_more depth is"

fun render_seq :: "nat \<Rightarrow> bytes list \<Rightarrow> bytes" where
  "render_seq depth [] = []"
| "render_seq depth (i # is) = newline (depth + 1) @ i @ render_more depth is"

fun jrender :: "nat \<Rightarrow> jtree \<Rightarrow> bytes" where
  "jrender depth (TDict kvs) =
     0x7B # render_seq depth (map (\<lambda>(k, t). 0x22 # encode_string k @ [0x22, 0x3A, 0x20] @ jrender (depth + 1) t) kvs) @ [0x7D]"
| "jrender depth (TArr ts) = 0x5B # render_seq depth (map (jrender (depth + 1)) ts) @ [0x5D]"
| "jrender depth (TStr s) = 0x22 # encode_string s @ [0x22]"
| "jrender depth (TNum s) = s"
| "jrender depth (TBool b) = (if b then str ''true'' else str ''false'')"
| "jrender depth TNull = str ''null''"

fun jheight :: "jtree \<Rightarrow> nat" where
  "jheight (TDict kvs) = Suc (foldr (\<lambda>(k, t). max (jheight t)) kvs 0)"
| "jheight (TArr ts) = Suc (foldr (\<lambda>t. max (jheight t)) ts 0)"
| "jheight t = 0"

lemma foldr_max: "x \<in> set xs \<Longrightarrow> f x \<le> foldr (\<lambda>x. max (f x)) xs (0 :: nat)"
  by (induction xs) auto

lemma jheight_members:
  "(k, t) \<in> set kvs \<Longrightarrow> jheight t < jheight (TDict kvs)"
  "t \<in> set ts \<Longrightarrow> jheight t < jheight (TArr ts)"
proof -
  have "(\<lambda>(k, t). max (jheight t)) = (\<lambda>x. max (jheight (snd (x :: bytes \<times> jtree))))" by auto
  then show "(k, t) \<in> set kvs \<Longrightarrow> jheight t < jheight (TDict kvs)"
    using foldr_max [of "(k, t)" kvs "\<lambda>x. jheight (snd x)"] by (simp add: less_Suc_eq_le)
  show "t \<in> set ts \<Longrightarrow> jheight t < jheight (TArr ts)"
    using foldr_max [of t ts jheight] by (simp add: less_Suc_eq_le)
qed

lemma dict_items_sorted:
  assumes "value_of h j = Some (JDictionary m keys)" "bt_sorted m"
  shows "dict_items h j = m"
proof -
  have "fold (\<lambda>(key, v) items. items @ [(key, v)]) xs acc = acc @ xs" for xs acc :: "(bytes \<times> json) list"
    by (induction xs arbitrary: acc) auto
  then show ?thesis unfolding dict_items_def dict_items_loop_all [OF assms] by simp
qed

lemma indentation: "concat (replicate n [x, x]) = replicate (2 * n) x"
  by (induction n) simp_all

lemma write_chunks [simp]:
  "write_indented vec_sink d prefix depth suffix = Done (d @ prefix @ replicate (2 * depth) 0x20 @ suffix)"
  "write_dictionary_open vec_sink d = Done (d @ [0x7B], True)"
  "write_array_open vec_sink d = Done (d @ [0x5B], True)"
  "write_next vec_sink (d, first) depth = Done (d @ (if first then [] else [0x2C]) @ newline depth, False)"
  "write_dictionary_key vec_sink (d, first) key depth =
     Done (d @ (if first then [] else [0x2C]) @ newline depth @ 0x22 # key @ [0x22, 0x3A, 0x20], False)"
  "write_dictionary_close vec_sink (d, first) depth = Done (d @ (if first then [] else newline depth) @ [0x7D], first)"
  "write_array_close vec_sink (d, first) depth = Done (d @ (if first then [] else newline depth) @ [0x5D], first)"
  by (simp_all add: write_indented_def indentation write_dictionary_open_def write_array_open_def write_open_def
      write_next_def write_dictionary_key_def write_dictionary_close_def write_array_close_def write_close_def
      newline_def str_def)

text \<open>Items one after the other: each step adds a separator and the text of its item.\<close>

lemma ofoldm_items:
  assumes "\<And>d first x. x \<in> set xs \<Longrightarrow>
    f (d, first) x = Some (Done (d @ (if first then [] else [0x2C]) @ newline (depth + 1) @ g x, False))"
  shows "ofoldm f (d, True) xs =
    Some (Done (d @ (case xs of [] \<Rightarrow> [] | x # xs \<Rightarrow> newline (depth + 1) @ g x @
      concat (map (\<lambda>x. 0x2C # newline (depth + 1) @ g x) xs)), xs = []))"
proof -
  have more: "ofoldm f (d, False) xs =
      Some (Done (d @ concat (map (\<lambda>x. 0x2C # newline (depth + 1) @ g x) xs), False))"
    if "\<And>d first x. x \<in> set xs \<Longrightarrow>
      f (d, first) x = Some (Done (d @ (if first then [] else [0x2C]) @ newline (depth + 1) @ g x, False))" for d xs
    using that by (induction xs arbitrary: d) simp_all
  show ?thesis
  proof (cases xs)
    case (Cons y ys)
    have "f (d, True) y = Some (Done (d @ newline (depth + 1) @ g y, False))"
      using assms [of y d True] Cons by simp
    then show ?thesis using Cons more [of ys "d @ newline (depth + 1) @ g y"] assms by simp
  qed simp
qed

lemma render_more_eq:
  "render_more depth is = concat (map (\<lambda>i. 0x2C # newline (depth + 1) @ i) is) @ newline depth"
  by (induction "is") simp_all

lemma json_write_renders:
  "reps h j t \<Longrightarrow> jheight t < n \<Longrightarrow> json_write n vec_sink h j depth d = Some (Done (d @ jrender depth t))"
proof (induction n arbitrary: j t depth d)
  case 0
  then show ?case by simp
next
  case (Suc n)
  show ?case
  proof (cases t)
    case (TDict kvs)
    obtain m keys where m: "value_of h j = Some (JDictionary m keys)" "bt_sorted m"
      "map fst m = map encode_string (map fst kvs)" "list_all2 (\<lambda>t j'. reps h j' t) (map snd kvs) (map snd m)"
      using Suc.prems(1) unfolding TDict by (auto elim!: reps_dictE)
    have len: "length kvs = length m" using m(3) by (metis length_map)
    define g where "g = (\<lambda>(key, v). 0x22 # key @ [0x22, 0x3A, 0x20] @
        (case json_write n vec_sink h v (depth + 1) [] of Some (Done r) \<Rightarrow> r | _ \<Rightarrow> []))"
    have item: "json_write n vec_sink h v (depth + 1) d = Some (Done (d @ jrender (depth + 1) t'))"
      if "i < length m" "m ! i = (key, v)" "snd (kvs ! i) = t'" for i key v t' d
    proof (rule Suc.IH)
      show "reps h v t'" using m(4) that len by (auto simp: list_all2_conv_all_nth)
      have "kvs ! i \<in> set kvs" using that(1) len by simp
      then show "jheight t' < n"
        using jheight_members(1) [of "fst (kvs ! i)" t' kvs] that(3) Suc.prems(2) TDict by auto
    qed
    have gs: "map g m = map (\<lambda>(k, t). 0x22 # encode_string k @ [0x22, 0x3A, 0x20] @ jrender (depth + 1) t) kvs"
    proof (rule nth_equalityI)
      show "length (map g m) = length (map (\<lambda>(k, t). 0x22 # encode_string k @ [0x22, 0x3A, 0x20] @ jrender (depth + 1) t) kvs)"
        using len by simp
      fix i assume "i < length (map g m)"
      then have i: "i < length m" by simp
      obtain key v where kv: "m ! i = (key, v)" by (cases "m ! i")
      have "key = encode_string (fst (kvs ! i))"
        using arg_cong [OF m(3), of "\<lambda>l. l ! i"] i kv len by simp
      then show "map g m ! i = map (\<lambda>(k, t). 0x22 # encode_string k @ [0x22, 0x3A, 0x20] @ jrender (depth + 1) t) kvs ! i"
        using item [OF i kv refl] i kv len by (simp add: g_def case_prod_beta)
    qed
    let ?F = "\<lambda>s (key, selected). oseq (Some (write_dictionary_key vec_sink s key (depth + 1)))
           (\<lambda>(d, first).
              let v = (case dictionary_item_for_write h j key of Some v \<Rightarrow> v | None \<Rightarrow> selected)
              in map_option (into (\<lambda>d. (d, first))) (json_write n vec_sink h v (depth + 1) d))"
    have step: "?F (d, first) x =
        Some (Done (d @ (if first then [] else [0x2C]) @ newline (depth + 1) @ g x, False))"
      if "x \<in> set m" for x d first
    proof -
      obtain i where i: "i < length m" "m ! i = x" using \<open>x \<in> set m\<close> by (auto simp: in_set_conv_nth)
      obtain key v where kv: "x = (key, v)" by (cases x)
      have "map_of m key = Some v"
        using m(2) \<open>x \<in> set m\<close> kv by (intro map_of_is_SomeI) (auto simp: bt_sorted_def strict_sorted_iff)
      then have "dictionary_item_for_write h j key = Some v" using m(1) by (simp add: dictionary_item_for_write_def)
      then show ?thesis using item [of i key v] i kv by (simp add: g_def)
    qed
    have loop: "ofoldm ?F (d', True) m =
        Some (Done (d' @ (case m of [] \<Rightarrow> [] | x # xs \<Rightarrow> newline (depth + 1) @ g x @
          concat (map (\<lambda>x. 0x2C # newline (depth + 1) @ g x) xs)), m = []))" for d'
      by (rule ofoldm_items) (rule step)
    show ?thesis
      unfolding TDict json_write.simps m(1) option.case jvalue.case write_chunks oseq.simps
        dict_items_sorted [OF m(1,2)] loop jrender.simps gs [symmetric]
      by (cases m) (simp_all add: render_more_eq o_def)
  next
    case (TArr ts)
    obtain js where js: "value_of h j = Some (JArray js)" "list_all2 (\<lambda>t j'. reps h j' t) ts js"
      using Suc.prems(1) unfolding TArr by (rule reps_arrE) blast
    define g where "g = (\<lambda>v. case json_write n vec_sink h v (depth + 1) [] of Some (Done r) \<Rightarrow> r | _ \<Rightarrow> [])"
    have len: "length ts = length js" using js(2) by (rule list_all2_lengthD)
    have item: "json_write n vec_sink h (js ! i) (depth + 1) d = Some (Done (d @ jrender (depth + 1) (ts ! i)))"
      if "i < length js" for i d
    proof (rule Suc.IH)
      show "reps h (js ! i) (ts ! i)" using js(2) that len by (auto simp: list_all2_conv_all_nth)
      show "jheight (ts ! i) < n"
        using jheight_members(2) [of "ts ! i" ts] that len Suc.prems(2) TArr by auto
    qed
    have gs: "map g js = map (jrender (depth + 1)) ts"
      by (rule nth_equalityI) (use len item in \<open>simp_all add: g_def\<close>)
    let ?F = "\<lambda>s v. oseq (Some (write_next vec_sink s (depth + 1)))
           (\<lambda>(d, first). map_option (into (\<lambda>d. (d, first))) (json_write n vec_sink h v (depth + 1) d))"
    have step: "?F (d, first) x =
        Some (Done (d @ (if first then [] else [0x2C]) @ newline (depth + 1) @ g x, False))"
      if "x \<in> set js" for x d first
      using item that by (auto simp: in_set_conv_nth g_def)
    have loop: "ofoldm ?F (d', True) js =
        Some (Done (d' @ (case js of [] \<Rightarrow> [] | x # xs \<Rightarrow> newline (depth + 1) @ g x @
          concat (map (\<lambda>x. 0x2C # newline (depth + 1) @ g x) xs)), js = []))" for d'
      by (rule ofoldm_items) (rule step)
    show ?thesis
      unfolding TArr json_write.simps js(1) option.case jvalue.case write_chunks oseq.simps
        loop jrender.simps gs [symmetric]
      by (cases js) (simp_all add: render_more_eq o_def)
  qed (use Suc.prems in \<open>auto elim: reps_strE reps_numE reps_boolE reps_nullE\<close>)
qed

end
