(* ===== verification/Json_Parser.thy ===== *)
theory Json_Parser
  imports Json_Value Utf8
begin

text \<open>
  The JSON parser, \<open>crates/flpdf/src/json/parser.rs\<close>: the lexer's state machine byte by byte, the parser's
  state machine token by token, and the events for a reactor. The reader is the bytes it still delivers and
  the error, if any, that it reports after them. Values are cells of a heap: a container is entered into its
  parent while it is empty and filled through the same handle.
\<close>

section \<open>State\<close>

datatype lex_state = L_Top | L_NumberMinus | L_NumberLeadingZero | L_NumberBeforePoint | L_NumberPoint
  | L_NumberAfterPoint | L_NumberE | L_NumberESign | L_Number | L_Alpha | L_String | L_Backslash | L_U4
  | L_AfterString | L_BeginDictionary | L_EndDictionary | L_BeginArray | L_EndArray | L_Colon | L_Comma

datatype parse_state = P_Top | P_DictionaryBegin | P_DictionaryAfterKey | P_DictionaryAfterColon
  | P_DictionaryAfterItem | P_DictionaryAfterComma | P_ArrayBegin | P_ArrayAfterItem | P_ArrayAfterComma | P_Done

text \<open>A reactor may reach shared cells through its handles: its callbacks take the heap and return it.\<close>

record ('b, 'r) reactor =
  rx_dictionary_start :: "'b jheap \<times> 'r \<Rightarrow> 'b jheap \<times> 'r"
  rx_array_start :: "'b jheap \<times> 'r \<Rightarrow> 'b jheap \<times> 'r"
  rx_container_end :: "json \<Rightarrow> 'b jheap \<times> 'r \<Rightarrow> 'b jheap \<times> 'r"
  rx_top_level_scalar :: "'b jheap \<times> 'r \<Rightarrow> 'b jheap \<times> 'r"
  rx_dictionary_item :: "bytes \<Rightarrow> json \<Rightarrow> 'b jheap \<times> 'r \<Rightarrow> bool \<times> 'b jheap \<times> 'r"
  rx_array_item :: "json \<Rightarrow> 'b jheap \<times> 'r \<Rightarrow> bool \<times> 'b jheap \<times> 'r"

record ('b, 'r) jparser =
  jp_rest :: bytes
  jp_read_error :: "bytes option"
  jp_reactor :: "'r option"
  jp_heap :: "'b jheap"
  jp_pos :: nat
  jp_state :: lex_state
  jp_done :: bool
  jp_token :: bytes
  jp_token_start :: int
  jp_u_count :: nat
  jp_u_value :: "32 word"
  jp_high_surrogate :: "32 word"
  jp_high_offset :: "int option"
  jp_parse_state :: parse_state
  jp_stack :: "(parse_state \<times> json) list"
  jp_dict_key :: bytes
  jp_dict_key_offset :: int

definition jparser_new :: "bytes \<Rightarrow> bytes option \<Rightarrow> 'r option \<Rightarrow> 'b jheap \<Rightarrow> ('b, 'r) jparser" where
  "jparser_new input read_error reactor h =
     \<lparr>jp_rest = input, jp_read_error = read_error, jp_reactor = reactor, jp_heap = h, jp_pos = 0,
      jp_state = L_Top, jp_done = False, jp_token = [], jp_token_start = 0, jp_u_count = 0, jp_u_value = 0,
      jp_high_surrogate = 0, jp_high_offset = None, jp_parse_state = P_Top, jp_stack = [], jp_dict_key = [],
      jp_dict_key_offset = 0\<rparr>"

definition jp_offset :: "('b, 'r) jparser \<Rightarrow> int" where
  "jp_offset s = int (jp_pos s)"

definition jp_current :: "('b, 'r) jparser \<Rightarrow> json_error + byte option" where
  "jp_current s =
     (case jp_rest s of
        b # bs \<Rightarrow> Inr (Some b)
      | [] \<Rightarrow> (case jp_read_error s of Some m \<Rightarrow> Inl (JsonParse m) | None \<Rightarrow> Inr None))"

definition jp_ignore :: "('b, 'r) jparser \<Rightarrow> ('b, 'r) jparser" where
  "jp_ignore s = s\<lparr>jp_rest := tl (jp_rest s), jp_pos := jp_pos s + 1\<rparr>"

definition jp_append :: "byte \<Rightarrow> ('b, 'r) jparser \<Rightarrow> ('b, 'r) jparser" where
  "jp_append b s = jp_ignore (s\<lparr>jp_token := jp_token s @ [b]\<rparr>)"

definition append_state :: "lex_state \<Rightarrow> byte \<Rightarrow> ('b, 'r) jparser \<Rightarrow> ('b, 'r) jparser" where
  "append_state st b s = jp_append b (s\<lparr>jp_state := st\<rparr>)"

definition ignore_state :: "lex_state \<Rightarrow> ('b, 'r) jparser \<Rightarrow> ('b, 'r) jparser" where
  "ignore_state st s = jp_ignore (s\<lparr>jp_state := st\<rparr>)"

section \<open>Errors\<close>

text \<open>\<open>format!("JSON: offset {offset}: ...")\<close>\<close>

definition at_offset :: "int \<Rightarrow> bytes \<Rightarrow> json_error" where
  "at_offset offset m = JsonParse (str ''JSON: offset '' @ decimal_int offset @ str '': '' @ m)"

definition token_error :: "('b, 'r) jparser \<Rightarrow> json_error" where
  "token_error s =
     (if jp_done s then JsonParse (str ''JSON: premature end of input'')
      else
        case jp_current s of
          Inl e \<Rightarrow> e
        | Inr None \<Rightarrow> JsonParse (str ''JSON: premature end of input'')
        | Inr (Some byte) \<Rightarrow>
            let offset = jp_offset s
            in case jp_state s of
                 L_U4 \<Rightarrow> at_offset (offset - int (jp_u_count s) - 1) ([0x5C] @ str ''u must be followed by four hex digits'')
               | L_Alpha \<Rightarrow> at_offset offset (str ''keyword: unexpected character '' @ [byte])
               | L_String \<Rightarrow> at_offset offset (str ''control character in string (missing \"?)'')
               | L_Backslash \<Rightarrow> at_offset offset (str ''invalid character after backslash: '' @ [byte])
               | _ \<Rightarrow>
                   if byte = 0x2E then
                     if jp_state s \<in> {L_Number, L_NumberE, L_NumberESign}
                     then at_offset offset (str ''numeric literal: decimal point after e'')
                     else at_offset offset (str ''numeric literal: decimal point already seen'')
                   else if byte = 0x65 \<or> byte = 0x45 then at_offset offset (str ''numeric literal: e already seen'')
                   else if byte = 0x2B \<or> byte = 0x2D then at_offset offset (str ''numeric literal: unexpected sign'')
                   else if byte \<in> {0x20, 0x09, 0x0A, 0x0D, 0x7B, 0x7D, 0x5B, 0x5D, 0x3A, 0x2C}
                   then at_offset offset (str ''numeric literal: incomplete number'')
                   else at_offset offset (str ''numeric literal: unexpected character '' @ [byte]))"

section \<open>The lexer\<close>

text \<open>
  A code point of a \<open>\u\<close> escape. The combination of surrogates is a scalar value, and any other code
  point is not a surrogate, so \<open>char::from_u32\<close> succeeds.
\<close>

definition handle_u_code :: "32 word \<Rightarrow> int \<Rightarrow> ('b, 'r) jparser \<Rightarrow> json_error + ('b, 'r) jparser" where
  "handle_u_code codepoint offset s =
     (if codepoint AND 0xFC00 = 0xD800 then
        case jp_high_offset s of
          Some high_offset \<Rightarrow> Inl (at_offset offset
            (str ''UTF-16 high surrogate found after previous high surrogate at offset '' @ decimal_int high_offset))
        | None \<Rightarrow> Inr (s\<lparr>jp_high_offset := Some offset, jp_high_surrogate := codepoint\<rparr>)
      else if codepoint AND 0xFC00 = 0xDC00 then
        let high_offset = (case jp_high_offset s of Some h \<Rightarrow> h | None \<Rightarrow> 0)
        in if offset \<noteq> high_offset + 6
           then Inl (at_offset offset (str ''UTF-16 low surrogate found not immediately after high surrogate''))
           else
             let codepoint = 0x10000 + push_bit 10 (jp_high_surrogate s AND 0x3FF) + (codepoint AND 0x3FF)
             in Inr (s\<lparr>jp_high_offset := None, jp_token := jp_token s @ encode_utf8 (unat codepoint)\<rparr>)
      else Inr (s\<lparr>jp_token := jp_token s @ encode_utf8 (unat codepoint)\<rparr>))"

definition json_hex_value :: "byte \<Rightarrow> 32 word option" where
  "json_hex_value byte =
     (if 0x30 \<le> byte \<and> byte \<le> 0x39 then Some (ucast (byte - 0x30))
      else if 0x61 \<le> byte \<and> byte \<le> 0x66 then Some (ucast (byte - 0x61 + 10))
      else if 0x41 \<le> byte \<and> byte \<le> 0x46 then Some (ucast (byte - 0x41 + 10))
      else None)"

text \<open>What one byte does: the loop goes on, it is left (\<open>break\<close>), or \<open>get_token\<close> returns.\<close>

datatype lex_flow = Lex_Go | Lex_Break | Lex_Return

type_synonym ('b, 'r) lex_result = "json_error + lex_flow \<times> ('b, 'r) jparser"

text \<open>The punctuation characters outside and inside strings; an opening one also starts a token.\<close>

definition lex_punctuation :: "lex_state \<Rightarrow> bool \<Rightarrow> byte \<Rightarrow> ('b, 'r) jparser \<Rightarrow> ('b, 'r) lex_result" where
  "lex_punctuation st opening byte s =
     (if jp_state s = L_Top
      then Inr (Lex_Return, ignore_state st (if opening then s\<lparr>jp_token_start := jp_offset s\<rparr> else s))
      else if jp_state s = L_String then Inr (Lex_Go, jp_append byte s)
      else Inr (Lex_Break, s))"

definition lex_control :: "byte \<Rightarrow> ('b, 'r) jparser \<Rightarrow> ('b, 'r) lex_result" where
  "lex_control byte s =
     (if byte = 0x09 \<or> byte = 0x0A \<or> byte = 0x0D then
        if jp_state s = L_Top then Inr (Lex_Go, jp_ignore s) else Inr (Lex_Break, s)
      else Inl (JsonParse (str ''JSON: control or null character at offset '' @ decimal_int (jp_offset s))))"

definition lex_space :: "byte \<Rightarrow> ('b, 'r) jparser \<Rightarrow> ('b, 'r) lex_result" where
  "lex_space byte s =
     (if jp_state s = L_Top then Inr (Lex_Go, jp_ignore s)
      else if jp_state s = L_String then Inr (Lex_Go, jp_append byte s)
      else Inr (Lex_Break, s))"

definition lex_top :: "byte \<Rightarrow> ('b, 'r) jparser \<Rightarrow> ('b, 'r) lex_result" where
  "lex_top byte s =
     (let s = s\<lparr>jp_token_start := jp_offset s\<rparr>
      in if byte = 0x22 then Inr (Lex_Go, ignore_state L_String s)
         else if is_ascii_lower byte then Inr (Lex_Go, append_state L_Alpha byte s)
         else if byte = 0x2D then Inr (Lex_Go, append_state L_NumberMinus byte s)
         else if 0x31 \<le> byte \<and> byte \<le> 0x39 then Inr (Lex_Go, append_state L_NumberBeforePoint byte s)
         else if byte = 0x30 then Inr (Lex_Go, append_state L_NumberLeadingZero byte s)
         else Inl (at_offset (jp_offset s) (str ''unexpected character '' @ [byte])))"

definition lex_backslash :: "byte \<Rightarrow> ('b, 'r) jparser \<Rightarrow> ('b, 'r) lex_result" where
  "lex_backslash byte s =
     (let t = s\<lparr>jp_state := L_String\<rparr>;
          push = (\<lambda>b. Inr (Lex_Go, jp_ignore (t\<lparr>jp_token := jp_token t @ [b]\<rparr>)))
      in if byte = 0x5C \<or> byte = 0x22 \<or> byte = 0x2F then push byte
         else if byte = 0x62 then push 0x08
         else if byte = 0x66 then push 0x0C
         else if byte = 0x6E then push 0x0A
         else if byte = 0x72 then push 0x0D
         else if byte = 0x74 then push 0x09
         else if byte = 0x75 then Inr (Lex_Go, jp_ignore (t\<lparr>jp_state := L_U4, jp_u_count := 0, jp_u_value := 0\<rparr>))
         else Inl (token_error (t\<lparr>jp_state := L_Backslash\<rparr>)))"

definition lex_u4 :: "byte \<Rightarrow> ('b, 'r) jparser \<Rightarrow> ('b, 'r) lex_result" where
  "lex_u4 byte s =
     (case json_hex_value byte of
        None \<Rightarrow> Inl (token_error s)
      | Some v \<Rightarrow>
          let s = s\<lparr>jp_u_value := 16 * jp_u_value s + v, jp_u_count := jp_u_count s + 1\<rparr>
          in if jp_u_count s = 4 then
               case handle_u_code (jp_u_value s) (jp_offset s - 5) s of
                 Inl e \<Rightarrow> Inl e
               | Inr s \<Rightarrow> Inr (Lex_Go, jp_ignore (s\<lparr>jp_state := L_String\<rparr>))
             else Inr (Lex_Go, jp_ignore s))"

definition lex_string :: "byte \<Rightarrow> ('b, 'r) jparser \<Rightarrow> ('b, 'r) lex_result" where
  "lex_string byte s =
     (if byte = 0x22 then
        case jp_high_offset s of
          Some high_offset \<Rightarrow> Inl (at_offset high_offset (str ''UTF-16 high surrogate not followed by low surrogate''))
        | None \<Rightarrow> Inr (Lex_Return, ignore_state L_AfterString s)
      else if byte = 0x5C then Inr (Lex_Go, ignore_state L_Backslash s)
      else Inr (Lex_Go, jp_append byte s))"

definition lex_other :: "byte \<Rightarrow> ('b, 'r) jparser \<Rightarrow> ('b, 'r) lex_result" where
  "lex_other byte s =
     (let is_e = (byte = 0x65 \<or> byte = 0x45);
          go = (\<lambda>st. Inr (Lex_Go, append_state st byte s));
          stay = Inr (Lex_Go, jp_append byte s);
          fail = Inl (token_error s)
      in case jp_state s of
           L_Top \<Rightarrow> lex_top byte s
         | L_NumberMinus \<Rightarrow>
             if 0x31 \<le> byte \<and> byte \<le> 0x39 then go L_NumberBeforePoint
             else if byte = 0x30 then go L_NumberLeadingZero
             else Inl (at_offset (jp_offset s) (str ''numeric literal: no digit after minus sign''))
         | L_NumberLeadingZero \<Rightarrow>
             if byte = 0x2E then go L_NumberPoint else if is_e then go L_NumberE
             else Inl (at_offset (jp_offset s) (str ''number with leading zero''))
         | L_NumberBeforePoint \<Rightarrow>
             if is_ascii_digit byte then stay
             else if byte = 0x2E then go L_NumberPoint else if is_e then go L_NumberE else fail
         | L_NumberPoint \<Rightarrow> if is_ascii_digit byte then go L_NumberAfterPoint else fail
         | L_NumberAfterPoint \<Rightarrow> if is_ascii_digit byte then stay else if is_e then go L_NumberE else fail
         | L_NumberE \<Rightarrow>
             if is_ascii_digit byte then go L_Number
             else if byte = 0x2B \<or> byte = 0x2D then go L_NumberESign else fail
         | L_NumberESign \<Rightarrow> if is_ascii_digit byte then go L_Number else fail
         | L_Number \<Rightarrow> if is_ascii_digit byte then stay else fail
         | L_Alpha \<Rightarrow> if is_ascii_lower byte then stay else fail
         | L_String \<Rightarrow> lex_string byte s
         | L_Backslash \<Rightarrow> lex_backslash byte s
         | L_U4 \<Rightarrow> lex_u4 byte s
         | _ \<Rightarrow> fail)"

definition lex_byte :: "byte \<Rightarrow> ('b, 'r) jparser \<Rightarrow> ('b, 'r) lex_result" where
  "lex_byte byte s =
     (if byte < 0x20 then lex_control byte s
      else if byte = 0x2C then lex_punctuation L_Comma False byte s
      else if byte = 0x3A then lex_punctuation L_Colon False byte s
      else if byte = 0x20 then lex_space byte s
      else if byte = 0x7B then lex_punctuation L_BeginDictionary True byte s
      else if byte = 0x7D then lex_punctuation L_EndDictionary False byte s
      else if byte = 0x5B then lex_punctuation L_BeginArray True byte s
      else if byte = 0x5D then lex_punctuation L_EndArray False byte s
      else lex_other byte s)"

text \<open>Behind the loop: a number or keyword is complete, any other pending token is an error.\<close>

definition lex_end :: "('b, 'r) jparser \<Rightarrow> json_error + ('b, 'r) jparser" where
  "lex_end s =
     (if jp_token s \<noteq> [] then
        if jp_state s \<in> {L_NumberLeadingZero, L_NumberBeforePoint, L_NumberAfterPoint}
        then Inr (s\<lparr>jp_state := L_Number\<rparr>)
        else if jp_state s \<in> {L_Number, L_Alpha} then Inr s
        else Inl (token_error s)
      else Inr s)"

lemma lex_ignored [simp]:
  "jp_rest (jp_ignore s) = tl (jp_rest s)" "jp_rest (jp_append b s) = tl (jp_rest s)"
  "jp_rest (append_state st b s) = tl (jp_rest s)" "jp_rest (ignore_state st s) = tl (jp_rest s)"
  by (simp_all add: jp_ignore_def jp_append_def append_state_def ignore_state_def)

lemma handle_u_code_rest: "handle_u_code c offset s = Inr s' \<Longrightarrow> jp_rest s' = jp_rest s"
  by (auto simp: handle_u_code_def Let_def split: if_splits option.splits)

text \<open>Every byte the loop goes on after is consumed.\<close>

lemma lex_other_go: "lex_other byte s = Inr (flow, s') \<Longrightarrow> jp_rest s' = tl (jp_rest s)"
  by (cases "jp_state s")
    (auto simp: lex_other_def lex_top_def lex_string_def lex_backslash_def lex_u4_def Let_def
      dest!: handle_u_code_rest split: if_splits option.splits sum.splits)

lemma lex_byte_go: "lex_byte byte s = Inr (Lex_Go, s') \<Longrightarrow> jp_rest s' = tl (jp_rest s)"
  by (auto simp: lex_byte_def lex_control_def lex_punctuation_def lex_space_def
      dest: lex_other_go split: if_splits)

function lex_loop :: "('b, 'r) jparser \<Rightarrow> json_error + ('b, 'r) jparser" where
  "lex_loop s =
     (case jp_current s of
        Inl e \<Rightarrow> Inl e
      | Inr None \<Rightarrow> lex_end (s\<lparr>jp_done := True\<rparr>)
      | Inr (Some byte) \<Rightarrow>
          (case lex_byte byte s of
             Inl e \<Rightarrow> Inl e
           | Inr (Lex_Go, s) \<Rightarrow> lex_loop s
           | Inr (Lex_Break, s) \<Rightarrow> lex_end s
           | Inr (Lex_Return, s) \<Rightarrow> Inr s))"
  by pat_completeness auto
termination
  by (relation "measure (\<lambda>s. length (jp_rest s))")
    (auto simp: jp_current_def dest!: lex_byte_go split: list.splits option.splits)

declare lex_loop.simps [simp del]

definition json_get_token :: "('b, 'r) jparser \<Rightarrow> json_error + ('b, 'r) jparser" where
  "json_get_token s = lex_loop (s\<lparr>jp_token := [], jp_high_surrogate := 0, jp_high_offset := None\<rparr>)"

section \<open>The parser\<close>

text \<open>
  Failures: an error value, or a panic of \<open>expect\<close> on an empty stack. The top of the stack is the head of
  the list. A reactor that is absent does nothing.
\<close>

datatype parse_failure = P_Error json_error | P_Panic

definition offset_error :: "('b, 'r) jparser \<Rightarrow> bytes \<Rightarrow> parse_failure" where
  "offset_error s m = P_Error (at_offset (jp_offset s) m)"

definition react :: "('b jheap \<times> 'r \<Rightarrow> 'b jheap \<times> 'r) \<Rightarrow> ('b, 'r) jparser \<Rightarrow> ('b, 'r) jparser" where
  "react f s =
     (case jp_reactor s of
        None \<Rightarrow> s
      | Some r \<Rightarrow> let (h, r) = f (jp_heap s, r) in s\<lparr>jp_heap := h, jp_reactor := Some r\<rparr>)"

definition react_item ::
  "('b jheap \<times> 'r \<Rightarrow> bool \<times> 'b jheap \<times> 'r) \<Rightarrow> ('b, 'r) jparser \<Rightarrow> bool \<times> ('b, 'r) jparser" where
  "react_item f s =
     (case jp_reactor s of
        None \<Rightarrow> (False, s)
      | Some r \<Rightarrow> let (consumed, h, r) = f (jp_heap s, r) in (consumed, s\<lparr>jp_heap := h, jp_reactor := Some r\<rparr>))"

text \<open>The closing delimiter of a container: the handle keeps its end, the state is the one around it.\<close>

definition container_close ::
  "('b, 'r) reactor \<Rightarrow> parse_state \<Rightarrow> parse_state \<Rightarrow> bytes \<Rightarrow> ('b, 'r) jparser \<Rightarrow> parse_failure + ('b, 'r) jparser" where
  "container_close rx begin' after what s =
     (if jp_parse_state s \<noteq> begin' \<and> jp_parse_state s \<noteq> after
      then Inl (offset_error s (str ''unexpected '' @ what @ str '' end delimiter''))
      else
        case jp_stack s of
          [] \<Rightarrow> Inl P_Panic
        | (parent_state, item) # stack \<Rightarrow>
            let s = s\<lparr>jp_parse_state := parent_state, jp_heap := set_end (jp_heap s) item (jp_offset s)\<rparr>;
                s = react (rx_container_end rx item) s
            in Inr (if jp_parse_state s \<noteq> P_Done then s\<lparr>jp_stack := stack\<rparr> else s))"

text \<open>A value or the delimiter has been dealt with, or the value of the token is at hand.\<close>

datatype ('b, 'r) token_outcome = Token_Done "('b, 'r) jparser" | Token_Value json "('b, 'r) jparser"

definition fresh :: "'b jheap \<times> json \<Rightarrow> ('b, 'r) jparser \<Rightarrow> ('b, 'r) token_outcome" where
  "fresh = (\<lambda>(h, j) s. Token_Value j (s\<lparr>jp_heap := h\<rparr>))"

definition token_value ::
  "('b, 'r) reactor \<Rightarrow> lex_state \<Rightarrow> ('b, 'r) jparser \<Rightarrow> parse_failure + ('b, 'r) token_outcome" where
  "token_value rx st s =
     (let h = jp_heap s
      in case st of
           L_BeginDictionary \<Rightarrow> Inr (fresh (make_dictionary h) s)
         | L_BeginArray \<Rightarrow> Inr (fresh (make_array h) s)
         | L_Colon \<Rightarrow>
             if jp_parse_state s \<noteq> P_DictionaryAfterKey then Inl (offset_error s (str ''unexpected colon''))
             else Inr (Token_Done (s\<lparr>jp_parse_state := P_DictionaryAfterColon\<rparr>))
         | L_Comma \<Rightarrow>
             (case jp_parse_state s of
                P_DictionaryAfterItem \<Rightarrow> Inr (Token_Done (s\<lparr>jp_parse_state := P_DictionaryAfterComma\<rparr>))
              | P_ArrayAfterItem \<Rightarrow> Inr (Token_Done (s\<lparr>jp_parse_state := P_ArrayAfterComma\<rparr>))
              | _ \<Rightarrow> Inl (offset_error s (str ''unexpected comma'')))
         | L_EndArray \<Rightarrow> map_sum id Token_Done (container_close rx P_ArrayBegin P_ArrayAfterItem (str ''array'') s)
         | L_EndDictionary \<Rightarrow>
             map_sum id Token_Done (container_close rx P_DictionaryBegin P_DictionaryAfterItem (str ''dictionary'') s)
         | L_Number \<Rightarrow> Inr (fresh (make_number h (jp_token s)) s)
         | L_Alpha \<Rightarrow>
             if jp_token s = str ''true'' then Inr (fresh (make_bool h True) s)
             else if jp_token s = str ''false'' then Inr (fresh (make_bool h False) s)
             else if jp_token s = str ''null'' then Inr (fresh (make_null h) s)
             else Inl (offset_error s (str ''invalid keyword '' @ jp_token s))
         | L_AfterString \<Rightarrow>
             if jp_parse_state s = P_DictionaryBegin \<or> jp_parse_state s = P_DictionaryAfterComma
             then Inr (Token_Done (s\<lparr>jp_dict_key := jp_token s, jp_dict_key_offset := jp_token_start s,
                                      jp_parse_state := P_DictionaryAfterKey\<rparr>))
             else Inr (fresh (make_string h (jp_token s)) s)
         | _ \<Rightarrow> Inl (offset_error s (str ''premature end of input'')))"

definition lift_error :: "json_error + 'a \<Rightarrow> parse_failure + 'a" where
  "lift_error = map_sum P_Error id"

text \<open>The value goes into the container on top of the stack, or is the whole document.\<close>

definition enter_dictionary ::
  "('b, 'r) reactor \<Rightarrow> json \<Rightarrow> json \<Rightarrow> ('b, 'r) jparser \<Rightarrow> parse_failure + ('b, 'r) jparser" where
  "enter_dictionary rx parent v s =
     (case check_dictionary_key_seen (jp_heap s) parent (jp_dict_key s) of
        Inl e \<Rightarrow> Inl (P_Error e)
      | Inr (h, seen) \<Rightarrow>
          if seen then Inl (P_Error (at_offset (jp_dict_key_offset s) (str ''duplicated dictionary key'')))
          else
            let (consumed, s) = react_item (rx_dictionary_item rx (jp_dict_key s) v) (s\<lparr>jp_heap := h\<rparr>)
            in if consumed then Inr s
               else case add_dictionary_member (jp_heap s) parent (jp_dict_key s) v of
                      Inl e \<Rightarrow> Inl (P_Error e)
                    | Inr (h, _) \<Rightarrow> Inr (s\<lparr>jp_heap := h\<rparr>))"

definition enter_array ::
  "('b, 'r) reactor \<Rightarrow> json \<Rightarrow> json \<Rightarrow> ('b, 'r) jparser \<Rightarrow> parse_failure + ('b, 'r) jparser" where
  "enter_array rx parent v s =
     (let (consumed, s) = react_item (rx_array_item rx v) s
      in if consumed then Inr s
         else case add_array_element (jp_heap s) parent v of
                Inl e \<Rightarrow> Inl (P_Error e)
              | Inr (h, _) \<Rightarrow> Inr (s\<lparr>jp_heap := h\<rparr>))"

definition enter_value ::
  "('b, 'r) reactor \<Rightarrow> json \<Rightarrow> ('b, 'r) jparser \<Rightarrow> parse_failure + ('b, 'r) jparser" where
  "enter_value rx v s =
     (let into_parent = (\<lambda>enter after.
            case jp_stack s of
              [] \<Rightarrow> Inl P_Panic
            | (_, parent) # _ \<Rightarrow> map_sum id (\<lambda>s. s\<lparr>jp_parse_state := after\<rparr>) (enter rx parent v s))
      in case jp_parse_state s of
           P_DictionaryBegin \<Rightarrow> Inl (offset_error s (str ''expect string as dictionary key''))
         | P_DictionaryAfterComma \<Rightarrow> Inl (offset_error s (str ''expect string as dictionary key''))
         | P_DictionaryAfterColon \<Rightarrow> into_parent enter_dictionary P_DictionaryAfterItem
         | P_ArrayBegin \<Rightarrow> into_parent enter_array P_ArrayAfterItem
         | P_ArrayAfterComma \<Rightarrow> into_parent enter_array P_ArrayAfterItem
         | P_Top \<Rightarrow> Inr (s\<lparr>jp_parse_state := P_Done\<rparr>)
         | P_DictionaryAfterKey \<Rightarrow> Inl (offset_error s (str ''expected '' @ [0x27, 0x3A, 0x27]))
         | P_DictionaryAfterItem \<Rightarrow> Inl (offset_error s (str ''expected '' @ [0x27, 0x2C, 0x27] @ str '' or '' @ [0x27, 0x7D, 0x27]))
         | P_ArrayAfterItem \<Rightarrow> Inl (offset_error s (str ''expected '' @ [0x27, 0x2C, 0x27] @ str '' or '' @ [0x27, 0x5D, 0x27]))
         | P_Done \<Rightarrow> Inl P_Panic)"

text \<open>A container becomes the top of the stack; a scalar stays there only as the whole document.\<close>

definition open_value :: "('b, 'r) reactor \<Rightarrow> json \<Rightarrow> ('b, 'r) jparser \<Rightarrow> parse_failure + ('b, 'r) jparser" where
  "open_value rx v s =
     (if is_dictionary (jp_heap s) v \<or> is_array (jp_heap s) v then
        let dictionary = is_dictionary (jp_heap s) v;
            s = s\<lparr>jp_stack := (jp_parse_state s, v) # jp_stack s\<rparr>;
            s = (if dictionary then (react (rx_dictionary_start rx) s)\<lparr>jp_parse_state := P_DictionaryBegin\<rparr>
                 else (react (rx_array_start rx) s)\<lparr>jp_parse_state := P_ArrayBegin\<rparr>)
        in if length (jp_stack s) > 500 then Inl (offset_error s (str ''maximum object depth exceeded'')) else Inr s
      else if jp_parse_state s = P_Done then Inr (s\<lparr>jp_stack := (P_Done, v) # jp_stack s\<rparr>)
      else Inr s)"

definition handle_token :: "('b, 'r) reactor \<Rightarrow> ('b, 'r) jparser \<Rightarrow> parse_failure + ('b, 'r) jparser" where
  "handle_token rx s =
     (if jp_state s = L_Top then Inr s
      else if jp_parse_state s = P_Done
      then Inl (offset_error s (str ''material follows end of object: '' @ jp_token s))
      else
        case token_value rx (jp_state s) (s\<lparr>jp_state := L_Top\<rparr>) of
          Inl e \<Rightarrow> Inl e
        | Inr (Token_Done s) \<Rightarrow> Inr s
        | Inr (Token_Value v s) \<Rightarrow>
            let s = s\<lparr>jp_heap := set_end (set_start (jp_heap s) v (jp_token_start s)) v (jp_offset s)\<rparr>
            in case enter_value rx v s of Inl e \<Rightarrow> Inl e | Inr s \<Rightarrow> open_value rx v s)"

text \<open>One round of the loop of \<open>parse\<close>, the loop with a bound on its rounds, and the call.\<close>

definition parse_round :: "('b, 'r) reactor \<Rightarrow> ('b, 'r) jparser \<Rightarrow> parse_failure + ('b, 'r) jparser" where
  "parse_round rx s = (case json_get_token s of Inl e \<Rightarrow> Inl (P_Error e) | Inr s \<Rightarrow> handle_token rx s)"

fun json_parse_loop ::
  "nat \<Rightarrow> ('b, 'r) reactor \<Rightarrow> ('b, 'r) jparser \<Rightarrow> (parse_failure + ('b, 'r) jparser) option" where
  "json_parse_loop n rx s =
     (if jp_done s then Some (Inr s)
      else case n of
             0 \<Rightarrow> None
           | Suc n \<Rightarrow> (case parse_round rx s of Inl e \<Rightarrow> Some (Inl e) | Inr s \<Rightarrow> json_parse_loop n rx s))"

declare json_parse_loop.simps [simp del]

definition json_parse_end :: "('b, 'r) reactor \<Rightarrow> ('b, 'r) jparser \<Rightarrow> parse_failure + ('b, 'r) jparser \<times> json" where
  "json_parse_end rx s =
     (if jp_parse_state s \<noteq> P_Done then Inl (P_Error (JsonParse (str ''JSON: premature end of input'')))
      else
        case jp_stack s of
          [] \<Rightarrow> Inl P_Panic
        | (_, item) # _ \<Rightarrow>
            Inr (if is_array (jp_heap s) item \<or> is_dictionary (jp_heap s) item then s
                 else react (rx_top_level_scalar rx) s, item))"

definition json_parse_run ::
  "nat \<Rightarrow> ('b, 'r) reactor \<Rightarrow> ('b, 'r) jparser \<Rightarrow> (parse_failure + ('b, 'r) jparser \<times> json) option" where
  "json_parse_run n rx s =
     map_option (\<lambda>r. case r of Inl e \<Rightarrow> Inl e | Inr s \<Rightarrow> json_parse_end rx s) (json_parse_loop n rx s)"

text \<open>A round consumes a byte or is the last one, so the input bounds their number.\<close>

definition parse_reader ::
  "('b, 'r) reactor \<Rightarrow> bytes \<Rightarrow> bytes option \<Rightarrow> 'r option \<Rightarrow> 'b jheap \<Rightarrow> (parse_failure + ('b, 'r) jparser \<times> json) option" where
  "parse_reader rx input read_error reactor h =
     json_parse_run (length input + 1) rx (jparser_new input read_error reactor h)"

end
