(* ===== verification/Json_Total.thy ===== *)
theory Json_Total
  imports Json_Parser
begin

text \<open>
  The parser always returns: a round of its loop consumes a byte of the input or reaches its end. It does not
  panic either: whenever it reaches for the top of its stack there is one.
\<close>

section \<open>Rounds consume their input\<close>

lemma lex_kept [simp]:
  "jp_done (jp_ignore s) = jp_done s" "jp_done (jp_append b s) = jp_done s"
  "jp_done (append_state st b s) = jp_done s" "jp_done (ignore_state st s) = jp_done s"
  by (simp_all add: jp_ignore_def jp_append_def append_state_def ignore_state_def)

lemma lex_byte_break: "lex_byte byte s = Inr (Lex_Break, s') \<Longrightarrow> s' = s \<and> jp_state s \<noteq> L_Top"
proof -
  have no: "lex_other byte s \<noteq> Inr (Lex_Break, s')" for byte s s'
    by (cases "jp_state s")
      (auto simp: lex_other_def lex_top_def lex_string_def lex_backslash_def lex_u4_def Let_def
        split: if_splits option.splits sum.splits)
  then show "lex_byte byte s = Inr (Lex_Break, s') \<Longrightarrow> s' = s \<and> jp_state s \<noteq> L_Top"
    by (auto simp: lex_byte_def lex_control_def lex_punctuation_def lex_space_def split: if_splits)
qed

lemma lex_byte_return: "lex_byte byte s = Inr (Lex_Return, s') \<Longrightarrow> jp_rest s' = tl (jp_rest s)"
  by (auto simp: lex_byte_def lex_control_def lex_punctuation_def lex_space_def
      dest: lex_other_go split: if_splits)

lemma lex_end_kept: "lex_end s = Inr s' \<Longrightarrow> jp_rest s' = jp_rest s \<and> jp_done s' = jp_done s"
  by (auto simp: lex_end_def split: if_splits)

lemma lex_loop_consumes:
  "lex_loop s = Inr s' \<Longrightarrow> length (jp_rest s') \<le> length (jp_rest s) \<and>
     (jp_done s' \<or> jp_state s \<noteq> L_Top \<or> length (jp_rest s') < length (jp_rest s))"
proof (induction s rule: lex_loop.induct)
  case (1 s)
  show ?case
  proof (cases "jp_current s")
    case (Inl e)
    then show ?thesis using 1 by (simp add: lex_loop.simps [of s])
  next
    case (Inr c)
    show ?thesis
    proof (cases c)
      case None
      then show ?thesis using 1(2) Inr by (auto simp: lex_loop.simps [of s] dest!: lex_end_kept)
    next
      case (Some byte)
      then obtain bs where bs: "jp_rest s = byte # bs"
        using Inr by (auto simp: jp_current_def split: list.splits option.splits)
      show ?thesis
      proof (cases "lex_byte byte s")
        case (Inl e)
        then show ?thesis using 1(2) Inr Some by (simp add: lex_loop.simps [of s] \<open>jp_current s = Inr c\<close>)
      next
        case r: (Inr p)
        obtain flow t where p: "p = (flow, t)" by (cases p)
        show ?thesis
        proof (cases flow)
          case Lex_Go
          then have "lex_loop t = Inr s'" using 1(2) Inr Some r p by (simp add: lex_loop.simps [of s])
          then show ?thesis using 1(1) [OF Inr Some r p [symmetric] Lex_Go] lex_byte_go [of byte s t] r p Lex_Go bs
            by simp
        next
          case Lex_Break
          then have "lex_end t = Inr s'" using 1(2) Inr Some r p by (simp add: lex_loop.simps [of s])
          then show ?thesis using lex_byte_break [of byte s t] r p Lex_Break by (auto dest: lex_end_kept)
        next
          case Lex_Return
          then have "t = s'" using 1(2) Inr Some r p by (simp add: lex_loop.simps [of s])
          then show ?thesis using lex_byte_return [of byte s t] r p Lex_Return bs by simp
        qed
      qed
    qed
  qed
qed

lemma get_token_consumes:
  "json_get_token s = Inr s' \<Longrightarrow> jp_state s = L_Top \<Longrightarrow>
     jp_done s' \<or> length (jp_rest s') < length (jp_rest s)"
  using lex_loop_consumes [of "s\<lparr>jp_token := [], jp_high_surrogate := 0, jp_high_offset := None\<rparr>" s']
  by (simp add: json_get_token_def)

text \<open>Handling a token leaves the reader alone, and the lexer at the top.\<close>

definition same_input :: "('b, 'r) jparser \<Rightarrow> ('b, 'r) jparser \<Rightarrow> bool" where
  "same_input s s' \<longleftrightarrow> jp_rest s' = jp_rest s \<and> jp_done s' = jp_done s \<and> jp_state s' = jp_state s"

lemma same_input_updates [simp]:
  "same_input s s"
  "same_input s (t\<lparr>jp_heap := h\<rparr>) = same_input s t" "same_input s (t\<lparr>jp_stack := st\<rparr>) = same_input s t"
  "same_input s (t\<lparr>jp_parse_state := ps\<rparr>) = same_input s t" "same_input s (react f t) = same_input s t"
  "same_input s (t\<lparr>jp_dict_key := k\<rparr>) = same_input s t" "same_input s (t\<lparr>jp_dict_key_offset := i\<rparr>) = same_input s t"
  "same_input s (t\<lparr>jp_reactor := r\<rparr>) = same_input s t" "same_input (s\<lparr>jp_heap := h\<rparr>) t = same_input s t"
  by (auto simp: same_input_def react_def split: option.splits prod.splits)

lemma react_item_input: "react_item f s = (c, s') \<Longrightarrow> same_input s s'"
  by (auto simp: react_item_def split: option.splits prod.splits)

lemma same_input_trans: "same_input s t \<Longrightarrow> same_input t u \<Longrightarrow> same_input s u"
  by (simp add: same_input_def)

lemma enter_input:
  "enter_dictionary rx p v s = Inr s' \<Longrightarrow> same_input s s'"
  "enter_array rx p v s = Inr s' \<Longrightarrow> same_input s s'"
  by (auto simp: enter_dictionary_def enter_array_def split: sum.splits prod.splits if_splits
      dest!: react_item_input intro: same_input_trans)

lemma enter_value_input:
  assumes "enter_value rx v s = Inr s'"
  shows "same_input s s'"
proof -
  have "same_input s u" if "enter rx p v s = Inr u" "enter = enter_dictionary \<or> enter = enter_array" for enter p u
    using that enter_input by blast
  then show ?thesis
    using assms
    by (cases "jp_parse_state s"; cases "jp_stack s") (auto simp: enter_value_def map_sum_def split: sum.splits)
qed

lemma open_value_input: "open_value rx v s = Inr s' \<Longrightarrow> same_input s s'"
  by (auto simp: open_value_def Let_def split: if_splits)

lemma container_close_input: "container_close rx b a what s = Inr s' \<Longrightarrow> same_input s s'"
  by (auto simp: container_close_def Let_def split: if_splits list.splits)

lemma fresh_value: "fresh (h, j) s = Token_Value j (s\<lparr>jp_heap := h\<rparr>)"
  by (simp add: fresh_def)

lemmas fresh_values = make_dictionary_def make_array_def make_number_def make_bool_def make_null_def
  make_string_def with_value_def fresh_value

lemma token_value_input:
  "token_value rx st s = Inr r \<Longrightarrow> same_input s (case r of Token_Done s' \<Rightarrow> s' | Token_Value v s' \<Rightarrow> s')"
  by (cases st)
    (auto simp: token_value_def Let_def fresh_values map_sum_def
      split: if_splits parse_state.splits sum.splits dest: container_close_input)

lemma handle_token_input:
  assumes "handle_token rx s = Inr s'"
  shows "jp_rest s' = jp_rest s \<and> jp_done s' = jp_done s \<and> jp_state s' = L_Top"
proof -
  have "jp_state s \<noteq> L_Top \<Longrightarrow> same_input (s\<lparr>jp_state := L_Top\<rparr>) s'"
    using assms
    by (auto simp: handle_token_def Let_def split: if_splits sum.splits token_outcome.splits
        dest!: token_value_input enter_value_input open_value_input elim!: same_input_trans)
  then show ?thesis using assms by (cases "jp_state s = L_Top") (auto simp: handle_token_def same_input_def)
qed

lemma parse_round_consumes:
  assumes "parse_round rx s = Inr s'" "jp_state s = L_Top"
  shows "jp_state s' = L_Top" "jp_done s' \<or> length (jp_rest s') < length (jp_rest s)"
  using assms get_token_consumes [of s] by (auto simp: parse_round_def split: sum.splits dest!: handle_token_input)

lemma json_parse_loop_returns:
  "jp_state s = L_Top \<Longrightarrow> length (jp_rest s) < n \<Longrightarrow> json_parse_loop n rx s \<noteq> None"
proof (induction n arbitrary: s)
  case (Suc n)
  show ?case
  proof (cases "parse_round rx s")
    case (Inr s')
    have "json_parse_loop n rx s' \<noteq> None"
      using parse_round_consumes [OF Inr Suc.prems(1)] Suc.IH [of s'] Suc.prems
      by (cases "jp_done s'") (auto simp: json_parse_loop.simps [of n rx s'])
    then show ?thesis using Inr by (simp add: json_parse_loop.simps [of "Suc n"])
  qed (simp add: json_parse_loop.simps [of "Suc n"])
qed simp

section \<open>The stack\<close>

text \<open>Below an open container, every entry remembers the state after an item, the lowest the end.\<close>

fun open_frames :: "(parse_state \<times> json) list \<Rightarrow> bool" where
  "open_frames [] = False"
| "open_frames ((st, j) # stack) =
     (if st = P_Done then stack = [] else (st = P_DictionaryAfterItem \<or> st = P_ArrayAfterItem) \<and> open_frames stack)"

definition stack_ok :: "('b, 'r) jparser \<Rightarrow> bool" where
  "stack_ok s \<longleftrightarrow>
     (if jp_parse_state s = P_Top then jp_stack s = []
      else if jp_parse_state s = P_Done then jp_stack s \<noteq> []
      else open_frames (jp_stack s))"

definition entering :: "('b, 'r) jparser \<Rightarrow> bool" where
  "entering s \<longleftrightarrow> (if jp_parse_state s = P_Done then jp_stack s = []
     else (jp_parse_state s = P_DictionaryAfterItem \<or> jp_parse_state s = P_ArrayAfterItem) \<and> open_frames (jp_stack s))"

lemma react_frames [simp]:
  "jp_stack (react f s) = jp_stack s" "jp_parse_state (react f s) = jp_parse_state s"
  by (simp_all add: react_def split: option.splits prod.splits)

lemma react_item_frames: "react_item f s = (c, s') \<Longrightarrow> jp_stack s' = jp_stack s \<and> jp_parse_state s' = jp_parse_state s"
  by (auto simp: react_item_def split: option.splits prod.splits)

lemma enter_frames:
  "enter_dictionary rx p v s = Inr s' \<Longrightarrow> jp_stack s' = jp_stack s"
  "enter_array rx p v s = Inr s' \<Longrightarrow> jp_stack s' = jp_stack s"
  "enter_dictionary rx p v s \<noteq> Inl P_Panic" "enter_array rx p v s \<noteq> Inl P_Panic"
  by (auto simp: enter_dictionary_def enter_array_def split: sum.splits prod.splits if_splits dest!: react_item_frames)

lemma enter_value_frames:
  assumes "stack_ok s" "jp_parse_state s \<noteq> P_Done"
  shows "enter_value rx v s \<noteq> Inl P_Panic" and "enter_value rx v s = Inr s' \<Longrightarrow> entering s'"
proof -
  have stack: "jp_parse_state s = P_Top \<or> (\<exists>st j stack. jp_stack s = (st, j) # stack \<and> open_frames (jp_stack s))"
    using assms by (cases "jp_stack s") (auto simp: stack_ok_def split: if_splits)
  show "enter_value rx v s \<noteq> Inl P_Panic" and "enter_value rx v s = Inr s' \<Longrightarrow> entering s'"
    using stack
    using assms enter_frames [of rx _ v s]
    by (cases "jp_parse_state s"; force simp: enter_value_def offset_error_def entering_def stack_ok_def map_sum_def
        split: sum.splits)+
qed

lemma open_value_frames:
  assumes "entering s"
  shows "open_value rx v s \<noteq> Inl P_Panic" and "open_value rx v s = Inr s' \<Longrightarrow> stack_ok s'"
  using assms by (auto simp: open_value_def Let_def offset_error_def entering_def stack_ok_def split: if_splits)

lemma container_close_frames:
  assumes "stack_ok s" "b \<notin> {P_Top, P_Done}" "a \<notin> {P_Top, P_Done}"
  shows "container_close rx b a what s \<noteq> Inl P_Panic" and "container_close rx b a what s = Inr s' \<Longrightarrow> stack_ok s'"
  using assms by (cases "jp_stack s";
    auto simp: container_close_def Let_def offset_error_def stack_ok_def split: if_splits)+

lemma token_value_frames:
  assumes "stack_ok s" "jp_parse_state s \<noteq> P_Done"
  shows "token_value rx st s \<noteq> Inl P_Panic"
    and "token_value rx st s = Inr (Token_Done s') \<Longrightarrow> stack_ok s'"
    and "token_value rx st s = Inr (Token_Value v s') \<Longrightarrow> stack_ok s' \<and> jp_parse_state s' \<noteq> P_Done"
proof -
  note closing = container_close_frames [OF assms(1), of P_ArrayBegin P_ArrayAfterItem rx "str ''array''"]
    container_close_frames [OF assms(1), of P_DictionaryBegin P_DictionaryAfterItem rx "str ''dictionary''"]
  show "token_value rx st s \<noteq> Inl P_Panic"
    using assms closing
    by (cases st) (auto simp: token_value_def Let_def offset_error_def map_sum_def split: parse_state.splits sum.splits)
  show "token_value rx st s = Inr (Token_Done s') \<Longrightarrow> stack_ok s'"
    using assms closing
    by (cases st) (auto simp: token_value_def Let_def fresh_values map_sum_def stack_ok_def split: if_splits parse_state.splits sum.splits)
  show "token_value rx st s = Inr (Token_Value v s') \<Longrightarrow> stack_ok s' \<and> jp_parse_state s' \<noteq> P_Done"
    using assms
    by (cases st) (auto simp: token_value_def Let_def fresh_values map_sum_def stack_ok_def split: if_splits parse_state.splits sum.splits)
qed

lemma stack_ok_updates [simp]:
  "stack_ok (s\<lparr>jp_state := st\<rparr>) = stack_ok s" "stack_ok (s\<lparr>jp_heap := h\<rparr>) = stack_ok s"
  by (simp_all add: stack_ok_def)

lemma handle_token_frames:
  assumes "stack_ok s"
  shows "handle_token rx s \<noteq> Inl P_Panic" and "handle_token rx s = Inr s' \<Longrightarrow> stack_ok s'"
proof -
  have "handle_token rx s \<noteq> Inl P_Panic \<and> (\<forall>s'. handle_token rx s = Inr s' \<longrightarrow> stack_ok s')"
  proof (cases "jp_state s = L_Top \<or> jp_parse_state s = P_Done")
    case True
    then show ?thesis using assms by (auto simp: handle_token_def offset_error_def)
  next
    case False
    let ?t = "s\<lparr>jp_state := L_Top\<rparr>"
    have t: "stack_ok ?t" "jp_parse_state ?t \<noteq> P_Done" using assms False by simp_all
    show ?thesis
    proof (cases "token_value rx (jp_state s) ?t")
      case (Inl e)
      then show ?thesis using token_value_frames(1) [OF t] False by (auto simp: handle_token_def)
    next
      case (Inr r)
      show ?thesis
      proof (cases r)
        case (Token_Done u)
        then show ?thesis using token_value_frames(2) [OF t] Inr False by (auto simp: handle_token_def)
      next
        case (Token_Value v u)
        let ?u = "u\<lparr>jp_heap := set_end (set_start (jp_heap u) v (jp_token_start u)) v (jp_offset u)\<rparr>"
        have u: "stack_ok ?u" "jp_parse_state ?u \<noteq> P_Done"
          using token_value_frames(3) [OF t] Inr Token_Value by auto
        show ?thesis
        proof (cases "enter_value rx v ?u")
          case w: (Inl e)
          then show ?thesis using Inr Token_Value False enter_value_frames(1) [OF u, of rx v]
            by (auto simp: handle_token_def Let_def)
        next
          case w: (Inr w)
          then show ?thesis using Inr Token_Value False open_value_frames [OF enter_value_frames(2) [OF u w]]
            by (auto simp: handle_token_def Let_def)
        qed
      qed
    qed
  qed
  then show "handle_token rx s \<noteq> Inl P_Panic" and "handle_token rx s = Inr s' \<Longrightarrow> stack_ok s'" by blast+
qed

lemma lex_frames [simp]:
  "jp_stack (jp_ignore s) = jp_stack s" "jp_stack (jp_append b s) = jp_stack s"
  "jp_stack (append_state st b s) = jp_stack s" "jp_stack (ignore_state st s) = jp_stack s"
  "jp_parse_state (jp_ignore s) = jp_parse_state s" "jp_parse_state (jp_append b s) = jp_parse_state s"
  "jp_parse_state (append_state st b s) = jp_parse_state s" "jp_parse_state (ignore_state st s) = jp_parse_state s"
  by (simp_all add: jp_ignore_def jp_append_def append_state_def ignore_state_def)

lemma handle_u_code_frames:
  "handle_u_code c offset s = Inr s' \<Longrightarrow> jp_stack s' = jp_stack s \<and> jp_parse_state s' = jp_parse_state s"
  by (auto simp: handle_u_code_def Let_def split: if_splits option.splits)

lemma lex_other_frames:
  "lex_other byte s = Inr (flow, s') \<Longrightarrow> jp_stack s' = jp_stack s \<and> jp_parse_state s' = jp_parse_state s"
  by (cases "jp_state s")
    (auto simp: lex_other_def lex_top_def lex_string_def lex_backslash_def lex_u4_def Let_def
      dest!: handle_u_code_frames split: if_splits option.splits sum.splits)

lemma if_member: "x \<in> A \<Longrightarrow> y \<in> A \<Longrightarrow> (if c then x else y) \<in> A"
  by simp

lemma lex_byte_cases:
  "lex_byte byte s \<in> {lex_control byte s, lex_space byte s, lex_other byte s} \<union> {lex_punctuation st op byte s | st op. True}"
  unfolding lex_byte_def by (intro if_member) auto

lemma lex_byte_frames:
  assumes "lex_byte byte s = Inr (flow, s')"
  shows "jp_stack s' = jp_stack s \<and> jp_parse_state s' = jp_parse_state s"
proof -
  have "lex_control byte s = Inr (flow, s') \<or> lex_space byte s = Inr (flow, s') \<or> lex_other byte s = Inr (flow, s') \<or>
      (\<exists>st op. lex_punctuation st op byte s = Inr (flow, s'))"
    using lex_byte_cases [of byte s] unfolding assms by (auto dest: sym)
  then show ?thesis
  proof (elim disjE exE)
    show "lex_other byte s = Inr (flow, s') \<Longrightarrow> ?thesis" by (rule lex_other_frames)
  qed (auto simp: lex_control_def lex_punctuation_def lex_space_def split: if_splits)
qed

text \<open>What every byte and the end of a token keep, the loop keeps.\<close>

lemma lex_loop_keeps:
  assumes byte: "\<And>byte s flow s'. lex_byte byte s = Inr (flow, s') \<Longrightarrow> P s \<Longrightarrow> P s'"
    and the_end: "\<And>s s'. lex_end s = Inr s' \<Longrightarrow> P s \<Longrightarrow> P s'"
    and eof: "\<And>s. P s \<Longrightarrow> P (s\<lparr>jp_done := True\<rparr>)"
  shows "lex_loop s = Inr s' \<Longrightarrow> P s \<Longrightarrow> P s'"
proof (induction s rule: lex_loop.induct)
  case (1 s)
  show ?case
  proof (cases "jp_current s")
    case (Inr c)
    show ?thesis
    proof (cases c)
      case None
      then show ?thesis using 1(2,3) Inr the_end eof by (simp add: lex_loop.simps [of s])
    next
      case (Some b)
      show ?thesis
      proof (cases "lex_byte b s")
        case r: (Inr p)
        obtain flow t where p: "p = (flow, t)" by (cases p)
        have "P t" using byte r p 1(3) by blast
        then show ?thesis
          using 1(1) [OF Inr Some r p [symmetric]] 1(2) Inr Some r p the_end [of t s']
          by (cases flow) (simp_all add: lex_loop.simps [of s])
      qed (use 1(2) Inr Some in \<open>simp add: lex_loop.simps [of s]\<close>)
    qed
  qed (use 1(2) in \<open>simp add: lex_loop.simps [of s]\<close>)
qed

lemma lex_loop_frames:
  assumes "lex_loop s = Inr s'"
  shows "jp_stack s' = jp_stack s \<and> jp_parse_state s' = jp_parse_state s"
proof (rule lex_loop_keeps [where P = "\<lambda>t. jp_stack t = jp_stack s \<and> jp_parse_state t = jp_parse_state s", OF _ _ _ assms])
  show "lex_end t = Inr t' \<Longrightarrow> jp_stack t = jp_stack s \<and> jp_parse_state t = jp_parse_state s \<Longrightarrow>
      jp_stack t' = jp_stack s \<and> jp_parse_state t' = jp_parse_state s" for t t'
    by (auto simp: lex_end_def split: if_splits)
qed (simp_all add: lex_byte_frames)

lemma parse_round_frames:
  assumes "stack_ok s"
  shows "parse_round rx s \<noteq> Inl P_Panic" and "parse_round rx s = Inr s' \<Longrightarrow> stack_ok s'"
proof -
  have "stack_ok t" if "json_get_token s = Inr t" for t
    using assms lex_loop_frames [OF that [unfolded json_get_token_def]] by (simp add: stack_ok_def)
  then show "parse_round rx s \<noteq> Inl P_Panic" and "parse_round rx s = Inr s' \<Longrightarrow> stack_ok s'"
    using handle_token_frames by (auto simp: parse_round_def split: sum.splits)
qed

lemma json_parse_loop_frames:
  "stack_ok s \<Longrightarrow> json_parse_loop n rx s = Some r \<Longrightarrow> r \<noteq> Inl P_Panic \<and> (\<forall>s'. r = Inr s' \<longrightarrow> stack_ok s')"
proof (induction n arbitrary: s)
  case 0
  then show ?case by (auto simp: json_parse_loop.simps [of 0] split: if_splits)
next
  case (Suc n)
  show ?case
  proof (cases "jp_done s")
    case False
    then show ?thesis using Suc parse_round_frames [OF Suc.prems(1), of rx]
      by (cases "parse_round rx s") (auto simp: json_parse_loop.simps [of "Suc n"])
  qed (use Suc.prems in \<open>auto simp: json_parse_loop.simps [of "Suc n"]\<close>)
qed

text \<open>
  C40: The JSON parser is total. On every input, with any error of the reader behind it, any reactor and any
  heap, the loop ends after at most one round per byte and one for the end, and none of the places that expect
  an entry on the stack finds it empty: the parser returns a value or an error, and never panics.
\<close>

theorem json_parse_total:
  "\<exists>r. parse_reader rx input read_error reactor h = Some r \<and> r \<noteq> Inl P_Panic"
proof -
  let ?s = "jparser_new input read_error reactor h"
  have s: "stack_ok ?s" "jp_state ?s = L_Top" "jp_rest ?s = input"
    by (simp_all add: jparser_new_def stack_ok_def)
  obtain r where r: "json_parse_loop (length input + 1) rx ?s = Some r"
    using json_parse_loop_returns [OF s(2), of "length input + 1" rx] s(3) by auto
  have "r \<noteq> Inl P_Panic \<and> (\<forall>s'. r = Inr s' \<longrightarrow> json_parse_end rx s' \<noteq> Inl P_Panic)"
    using json_parse_loop_frames [OF s(1) r]
    by (auto simp: json_parse_end_def stack_ok_def split: list.splits)
  then show ?thesis using r by (cases r) (auto simp: parse_reader_def json_parse_run_def)
qed

end
