(* ===== verification/Json_Lexing.thy ===== *)
theory Json_Lexing
  imports Json_Total Json_Writer
begin

text \<open>
  What the lexer makes of the text the writer produces: white space is skipped, a written string is read back
  as its bytes, a keyword or a number is one token up to the delimiter behind it.
\<close>

section \<open>Steps of the lexer\<close>

definition kept :: "('b, 'r) jparser \<Rightarrow> ('b, 'r) jparser \<Rightarrow> bool" where
  "kept s s' \<longleftrightarrow> jp_heap s' = jp_heap s \<and> jp_reactor s' = jp_reactor s \<and> jp_read_error s' = jp_read_error s \<and>
     jp_parse_state s' = jp_parse_state s \<and> jp_stack s' = jp_stack s \<and> jp_dict_key s' = jp_dict_key s"

definition lexed :: "('b, 'r) jparser \<Rightarrow> bytes \<Rightarrow> lex_state \<Rightarrow> bytes \<Rightarrow> ('b, 'r) jparser \<Rightarrow> bool" where
  "lexed s rest st tok s' \<longleftrightarrow> jp_rest s' = rest \<and> jp_state s' = st \<and> jp_token s' = tok \<and>
     jp_high_offset s' = None \<and> jp_done s' = jp_done s \<and> kept s s'"

text \<open>The loop goes on from \<open>s\<close> as from a state behind a part of the token.\<close>

definition lexes :: "('b, 'r) jparser \<Rightarrow> bytes \<Rightarrow> lex_state \<Rightarrow> bytes \<Rightarrow> bool" where
  "lexes s rest st tok \<longleftrightarrow> (\<exists>s'. lex_loop s = lex_loop s' \<and> lexed s rest st tok s')"

lemmas jp_steps = jp_ignore_def jp_append_def append_state_def ignore_state_def

lemma lexedD:
  assumes "lexed s rest st tok s'"
  shows "jp_rest s' = rest" "jp_state s' = st" "jp_token s' = tok" "jp_high_offset s' = None" "jp_done s' = jp_done s"
    "kept s s'"
  using assms by (simp_all add: lexed_def)

lemma lexes_trans:
  assumes "lexes s rest st tok" "\<And>s'. lexed s rest st tok s' \<Longrightarrow> lexes s' rest' st' tok'"
  shows "lexes s rest' st' tok'"
proof -
  obtain s' where s': "lex_loop s = lex_loop s'" "lexed s rest st tok s'" using assms(1) by (auto simp: lexes_def)
  obtain u where "lex_loop s' = lex_loop u" "lexed s' rest' st' tok' u" using assms(2) [OF s'(2)] by (auto simp: lexes_def)
  then show ?thesis using s' unfolding lexes_def lexed_def kept_def by (intro exI [of _ u]) simp
qed

lemma lexes_refl: "jp_high_offset s = None \<Longrightarrow> lexes s (jp_rest s) (jp_state s) (jp_token s)"
  by (auto simp: lexes_def lexed_def kept_def)

lemma lex_loop_go: "jp_rest s = b # r \<Longrightarrow> lex_byte b s = Inr (Lex_Go, s') \<Longrightarrow> lex_loop s = lex_loop s'"
  by (simp add: lex_loop.simps [of s] jp_current_def)

lemma lex_loop_break: "jp_rest s = b # r \<Longrightarrow> lex_byte b s = Inr (Lex_Break, s') \<Longrightarrow> lex_loop s = lex_end s'"
  by (simp add: lex_loop.simps [of s] jp_current_def)

lemma lex_loop_return: "jp_rest s = b # r \<Longrightarrow> lex_byte b s = Inr (Lex_Return, s') \<Longrightarrow> lex_loop s = Inr s'"
  by (simp add: lex_loop.simps [of s] jp_current_def)

lemma lexes_step:
  "jp_rest s = b # r \<Longrightarrow> lex_byte b s = Inr (Lex_Go, s') \<Longrightarrow> lexed s r st tok s' \<Longrightarrow> lexes s r st tok"
  by (auto simp: lexes_def dest: lex_loop_go)

section \<open>White space\<close>

definition white :: "bytes \<Rightarrow> bool" where
  "white ws \<longleftrightarrow> list_all (\<lambda>b. b = 0x20 \<or> b = 0x09 \<or> b = 0x0A \<or> b = 0x0D) ws"

lemma white_simps [simp]:
  "white []" "white (b # ws) \<longleftrightarrow> (b = 0x20 \<or> b = 0x09 \<or> b = 0x0A \<or> b = 0x0D) \<and> white ws"
  "white (newline d)" "white (xs @ ys) \<longleftrightarrow> white xs \<and> white ys"
  by (auto simp: white_def newline_def list_all_iff)

lemma lexes_white:
  "jp_state s = L_Top \<Longrightarrow> jp_high_offset s = None \<Longrightarrow> white ws \<Longrightarrow> jp_rest s = ws @ r \<Longrightarrow>
     lexes s r L_Top (jp_token s)"
proof (induction ws arbitrary: s)
  case Nil
  then show ?case using lexes_refl [of s] by simp
next
  case (Cons b ws)
  have "lexes s (ws @ r) L_Top (jp_token s)"
    by (rule lexes_step [of s b _ "jp_ignore s"])
      (use Cons.prems in \<open>auto simp: lex_byte_def lex_control_def lex_space_def lexed_def kept_def jp_steps\<close>)
  then show ?case
  proof (rule lexes_trans)
    fix s' assume s': "lexed s (ws @ r) L_Top (jp_token s) s'"
    show "lexes s' r L_Top (jp_token s)" using Cons.IH [of s'] Cons.prems lexedD [OF s'] by simp
  qed
qed

section \<open>Strings\<close>

text \<open>Bytes that have no meaning outside strings.\<close>

definition word_byte :: "byte \<Rightarrow> bool" where
  "word_byte b \<longleftrightarrow> 0x20 \<le> b \<and> b \<notin> {0x20, 0x2C, 0x3A, 0x5B, 0x5D, 0x7B, 0x7D}"

lemma lex_word_byte: "word_byte b \<Longrightarrow> lex_byte b s = lex_other b s"
  by (auto simp: lex_byte_def word_byte_def)

lemma lex_string_plain:
  "0x20 \<le> b \<Longrightarrow> b \<noteq> 0x22 \<Longrightarrow> b \<noteq> 0x5C \<Longrightarrow> jp_state s = L_String \<Longrightarrow> lex_byte b s = Inr (Lex_Go, jp_append b s)"
  by (auto simp: lex_byte_def lex_punctuation_def lex_space_def lex_other_def lex_string_def Let_def)

lemma lex_escape_start: "jp_state s = L_String \<Longrightarrow> lex_byte 0x5C s = Inr (Lex_Go, ignore_state L_Backslash s)"
  by (simp add: lex_byte_def lex_other_def lex_string_def Let_def)

lemma lexes_plain:
  assumes "jp_state s = L_String" "jp_high_offset s = None" "jp_rest s = b # r" "0x20 \<le> b" "b \<noteq> 0x22" "b \<noteq> 0x5C"
  shows "lexes s r L_String (jp_token s @ [b])"
  by (rule lexes_step [OF assms(3) lex_string_plain]) (use assms in \<open>simp_all add: lexed_def kept_def jp_steps\<close>)

text \<open>The two-byte escapes.\<close>

definition escape_pairs :: "(byte \<times> byte) list" where
  "escape_pairs = [(0x5C, 0x5C), (0x22, 0x22), (0x2F, 0x2F), (0x62, 0x08), (0x66, 0x0C), (0x6E, 0x0A), (0x72, 0x0D), (0x74, 0x09)]"

lemma lex_escape_pair:
  assumes "(e, b) \<in> set escape_pairs" "jp_state s = L_Backslash"
  shows "lex_byte e s = Inr (Lex_Go, jp_ignore (s\<lparr>jp_state := L_String, jp_token := jp_token s @ [b]\<rparr>))"
proof -
  have "word_byte e" using assms(1) by (auto simp: escape_pairs_def word_byte_def)
  then have "lex_byte e s = lex_backslash e s" using assms(2) by (simp add: lex_word_byte lex_other_def Let_def)
  also have "\<dots> = Inr (Lex_Go, jp_ignore (s\<lparr>jp_state := L_String, jp_token := jp_token s @ [b]\<rparr>))"
    using assms(1) unfolding escape_pairs_def
    by (simp, elim disjE conjE; hypsubst; simp add: lex_backslash_def Let_def)
  finally show ?thesis .
qed

lemma lexes_escape:
  assumes "jp_state s = L_String" "jp_high_offset s = None" "jp_rest s = 0x5C # e # r" "(e, b) \<in> set escape_pairs"
  shows "lexes s r L_String (jp_token s @ [b])"
proof -
  have "lexes s (e # r) L_Backslash (jp_token s)"
    by (rule lexes_step [OF assms(3) lex_escape_start [OF assms(1)]])
      (use assms in \<open>simp_all add: lexed_def kept_def jp_steps\<close>)
  then show ?thesis
  proof (rule lexes_trans)
    fix s' assume s': "lexed s (e # r) L_Backslash (jp_token s) s'"
    show "lexes s' r L_String (jp_token s @ [b])"
      by (rule lexes_step [OF lexedD(1) [OF s'] lex_escape_pair [OF assms(4) lexedD(2) [OF s']]])
        (use assms lexedD [OF s'] in \<open>simp add: lexed_def kept_def jp_steps\<close>)
  qed
qed

text \<open>A \<open>\u\<close> escape of a code point that is not a surrogate.\<close>

lemma hex_word_byte: "json_hex_value b = Some v \<Longrightarrow> word_byte b"
  by (auto simp: json_hex_value_def word_byte_def word_le_nat_alt split: if_splits)

lemma lexes_u4:
  assumes s: "jp_state s = L_String" "jp_high_offset s = None" "jp_rest s = 0x5C # 0x75 # h1 # h2 # h3 # h4 # r"
    and hex: "json_hex_value h1 = Some v1" "json_hex_value h2 = Some v2" "json_hex_value h3 = Some v3"
      "json_hex_value h4 = Some v4"
    and c: "c = 16 * (16 * (16 * v1 + v2) + v3) + v4" "c AND 0xFC00 \<noteq> 0xD800" "c AND 0xFC00 \<noteq> 0xDC00"
  shows "lexes s r L_String (jp_token s @ encode_utf8 (unat c))"
proof -
  define at where "at = (\<lambda>n v rest t. jp_state t = L_U4 \<and> jp_u_count t = n \<and> jp_u_value t = v \<and> jp_rest t = rest \<and>
    jp_token t = jp_token s \<and> jp_high_offset t = None \<and> jp_done t = jp_done s \<and> kept s t \<and> lex_loop s = lex_loop t)"
  define t0 where "t0 = jp_ignore (s\<lparr>jp_state := L_Backslash\<rparr>)"
  have "lex_loop s = lex_loop t0"
    by (rule lex_loop_go [OF s(3)]) (simp add: lex_escape_start [OF s(1)] t0_def ignore_state_def)
  moreover have "lex_loop t0 = lex_loop (jp_ignore (t0\<lparr>jp_state := L_U4, jp_u_count := 0, jp_u_value := 0\<rparr>))"
    by (rule lex_loop_go [where b = "0x75" and r = "h1 # h2 # h3 # h4 # r"])
      (simp_all add: t0_def s lex_byte_def lex_other_def lex_backslash_def Let_def jp_steps)
  ultimately have "\<exists>t. at 0 0 (h1 # h2 # h3 # h4 # r) t"
    by (intro exI [of _ "jp_ignore (t0\<lparr>jp_state := L_U4, jp_u_count := 0, jp_u_value := 0\<rparr>)"])
      (simp add: at_def t0_def s jp_steps kept_def)
  moreover have step: "\<exists>t'. at (Suc n) (16 * v + d) rest t'"
    if "at n v (b # rest) t" "json_hex_value b = Some d" "n < 3" for n v b d rest t
  proof -
    let ?t = "jp_ignore (t\<lparr>jp_u_value := 16 * jp_u_value t + d, jp_u_count := jp_u_count t + 1\<rparr>)"
    have "lex_byte b t = Inr (Lex_Go, ?t)"
      using that by (simp add: lex_word_byte [OF hex_word_byte] lex_other_def lex_u4_def at_def Let_def)
    then have "lex_loop t = lex_loop ?t" using that(1) by (intro lex_loop_go) (simp_all add: at_def)
    then show ?thesis using that(1) by (intro exI [of _ ?t]) (simp add: at_def jp_steps kept_def)
  qed
  ultimately obtain t where t: "at 3 (16 * (16 * v1 + v2) + v3) (h4 # r) t"
    using step [OF _ hex(1)] step [OF _ hex(2)] step [OF _ hex(3)]
    by (metis One_nat_def Suc_1 Suc_lessD add_0 lessI mult_zero_right numeral_3_eq_3 zero_less_Suc)
  let ?u = "t\<lparr>jp_u_value := c, jp_u_count := 4\<rparr>"
  let ?t = "jp_ignore (?u\<lparr>jp_token := jp_token t @ encode_utf8 (unat c), jp_state := L_String\<rparr>)"
  have "handle_u_code c offset ?u = Inr (?u\<lparr>jp_token := jp_token t @ encode_utf8 (unat c)\<rparr>)" for offset
    using c(2,3) by (simp add: handle_u_code_def)
  then have "lex_byte h4 t = Inr (Lex_Go, ?t)"
    using t hex(4) c(1) by (simp add: lex_word_byte [OF hex_word_byte] lex_other_def lex_u4_def at_def Let_def)
  then have "lex_loop t = lex_loop ?t" using t by (intro lex_loop_go) (simp_all add: at_def)
  then show ?thesis using t by (auto simp: lexes_def lexed_def at_def jp_steps kept_def intro!: exI [of _ ?t])
qed

text \<open>Every byte of a string comes back from what \<open>encode_string_byte\<close> wrote.\<close>

definition u4_bytes :: "byte list" where
  "u4_bytes = [0, 1, 2, 3, 4, 5, 6, 7, 0x0B, 0x0E, 0x0F, 0x10, 0x11, 0x12, 0x13, 0x14, 0x15, 0x16, 0x17,
     0x18, 0x19, 0x1A, 0x1B, 0x1C, 0x1D, 0x1E, 0x1F]"

definition encode_u4 :: "byte \<Rightarrow> bool" where
  "encode_u4 b \<longleftrightarrow> (\<exists>h4 v4. encode_string_byte b = [0x5C, 0x75, 0x30, 0x30, (if b < 0x10 then 0x30 else 0x31), h4] \<and>
     json_hex_value h4 = Some v4 \<and> (let c = (if b < 0x10 then 0 else 16) + v4 in
       c AND 0xFC00 = 0 \<and> encode_utf8 (unat c) = [b]))"

lemma encode_u4_bytes: "b \<in> set u4_bytes \<Longrightarrow> encode_u4 b"
  unfolding u4_bytes_def encode_u4_def
  by (simp, elim disjE; hypsubst)
    (simp_all add: encode_string_byte_def str_def json_hex_value_def Let_def encode_utf8_def)

lemma encode_string_cases:
  obtains (plain) "encode_string_byte b = [b]" "0x20 \<le> b" "b \<noteq> 0x22" "b \<noteq> 0x5C"
  | (pair) e where "encode_string_byte b = [0x5C, e]" "(e, b) \<in> set escape_pairs"
  | (u4) "encode_u4 b"
proof (cases "0x20 \<le> b")
  case True
  then have "\<not> b \<le> 0x1F" "b \<notin> {8, 9, 0x0A, 0x0C, 0x0D}" by (auto simp: word_le_nat_alt)
  then show ?thesis
    using True plain pair [of "0x5C"] pair [of "0x22"]
    by (cases "b = 0x5C \<or> b = 0x22") (auto simp: encode_string_byte_def escape_pairs_def)
next
  case False
  have "unat b \<in> set [0..<32]" using False by (simp add: word_le_nat_alt)
  then have "(of_nat (unat b) :: byte) \<in> set (map of_nat [0..<32])" by (simp only: set_map) (rule imageI)
  also have "map of_nat [0..<32] = ([0, 1, 2, 3, 4, 5, 6, 7, 8, 9, 0x0A, 0x0B, 0x0C, 0x0D, 0x0E, 0x0F, 0x10, 0x11, 0x12,
      0x13, 0x14, 0x15, 0x16, 0x17, 0x18, 0x19, 0x1A, 0x1B, 0x1C, 0x1D, 0x1E, 0x1F] :: byte list)"
    by (simp add: upt_rec)
  finally have "b \<in> set u4_bytes \<or> b = 8 \<or> b = 9 \<or> b = 0x0A \<or> b = 0x0C \<or> b = 0x0D"
    by (simp add: u4_bytes_def) blast
  then show ?thesis
  proof
    assume "b \<in> set u4_bytes"
    then show ?thesis by (rule u4 [OF encode_u4_bytes])
  next
    assume "b = 8 \<or> b = 9 \<or> b = 0x0A \<or> b = 0x0C \<or> b = 0x0D"
    then have "encode_string_byte b \<in> {[0x5C, e] | e. (e, b) \<in> set escape_pairs}"
      by (elim disjE; hypsubst; simp add: encode_string_byte_def escape_pairs_def str_def)
    then show ?thesis using pair by blast
  qed
qed

lemma lexes_string_byte:
  assumes "jp_state s = L_String" "jp_high_offset s = None" "jp_rest s = encode_string_byte b @ r"
  shows "lexes s r L_String (jp_token s @ [b])"
proof (cases b rule: encode_string_cases)
  case plain
  then show ?thesis using lexes_plain assms by simp
next
  case (pair e)
  then show ?thesis using lexes_escape assms by simp
next
  case u4
  then obtain h4 v4 where h4: "encode_string_byte b = [0x5C, 0x75, 0x30, 0x30, (if b < 0x10 then 0x30 else 0x31), h4]"
    "json_hex_value h4 = Some v4" "((if b < 0x10 then 0 else 16) + v4) AND 0xFC00 = 0"
    "encode_utf8 (unat ((if b < 0x10 then 0 else 16) + v4)) = [b]"
    by (auto simp: encode_u4_def Let_def)
  have hex: "json_hex_value 0x30 = Some 0" "json_hex_value 0x31 = Some 1" by (simp_all add: json_hex_value_def)
  show ?thesis
    using lexes_u4 [OF assms(1,2), of "0x30" "0x30" "if b < 0x10 then 0x30 else 0x31" h4 r 0 0 "if b < 0x10 then 0 else 1" v4
        "(if b < 0x10 then 0 else 16) + v4"] assms(3) hex h4
    by (simp split: if_splits)
qed

lemma lexes_string_bytes:
  "jp_state s = L_String \<Longrightarrow> jp_high_offset s = None \<Longrightarrow> jp_rest s = encode_string k @ r \<Longrightarrow>
     lexes s r L_String (jp_token s @ k)"
proof (induction k arbitrary: s)
  case Nil
  then show ?case using lexes_refl [of s] by (simp add: encode_string_def)
next
  case (Cons b k)
  have "lexes s (encode_string k @ r) L_String (jp_token s @ [b])"
    using lexes_string_byte [OF Cons.prems(1,2)] Cons.prems(3) by (simp add: encode_string_def)
  then show ?case
  proof (rule lexes_trans)
    fix s' assume s': "lexed s (encode_string k @ r) L_String (jp_token s @ [b]) s'"
    show "lexes s' r L_String (jp_token s @ b # k)" using Cons.IH [of s'] lexedD [OF s'] by simp
  qed
qed

section \<open>Tokens\<close>

text \<open>\<open>get_token\<close> returns behind the token.\<close>

definition gets :: "('b, 'r) jparser \<Rightarrow> bytes \<Rightarrow> lex_state \<Rightarrow> bytes \<Rightarrow> bool \<Rightarrow> bool" where
  "gets s rest st tok ended \<longleftrightarrow> (\<exists>s'. json_get_token s = Inr s' \<and> jp_rest s' = rest \<and> jp_state s' = st \<and>
     jp_token s' = tok \<and> jp_done s' = ended \<and> kept s s')"

lemma gets_lexes:
  assumes s: "jp_state s = L_Top" "white ws" "jp_rest s = ws @ r"
    and tok: "\<And>t. lexed (s\<lparr>jp_token := [], jp_high_surrogate := 0, jp_high_offset := None\<rparr>) r L_Top [] t \<Longrightarrow>
      \<exists>u. lex_loop t = Inr u \<and> jp_rest u = rest \<and> jp_state u = st \<and> jp_token u = tok \<and> jp_done u = ended \<and> kept t u"
  shows "gets s rest st tok ended"
proof -
  let ?s = "s\<lparr>jp_token := [], jp_high_surrogate := 0, jp_high_offset := None\<rparr>"
  have "lexes ?s r L_Top []" using lexes_white [of ?s ws r] s by simp
  then obtain t where t: "lex_loop ?s = lex_loop t" "lexed ?s r L_Top [] t" by (auto simp: lexes_def)
  obtain u where u: "lex_loop t = Inr u" "jp_rest u = rest" "jp_state u = st" "jp_token u = tok" "jp_done u = ended"
    "kept t u"
    using tok [OF t(2)] by blast
  have "kept s u" using lexedD(6) [OF t(2)] u(6) by (simp add: kept_def)
  then show ?thesis using t(1) u unfolding gets_def json_get_token_def by (intro exI [of _ u]) simp
qed

lemma punctuation_byte:
  assumes "jp_state s = L_Top"
  shows "lex_byte 0x2C s = Inr (Lex_Return, ignore_state L_Comma s)"
    "lex_byte 0x3A s = Inr (Lex_Return, ignore_state L_Colon s)"
    "lex_byte 0x7B s = Inr (Lex_Return, ignore_state L_BeginDictionary (s\<lparr>jp_token_start := jp_offset s\<rparr>))"
    "lex_byte 0x7D s = Inr (Lex_Return, ignore_state L_EndDictionary s)"
    "lex_byte 0x5B s = Inr (Lex_Return, ignore_state L_BeginArray (s\<lparr>jp_token_start := jp_offset s\<rparr>))"
    "lex_byte 0x5D s = Inr (Lex_Return, ignore_state L_EndArray s)"
  using assms by (simp_all add: lex_byte_def lex_punctuation_def)

definition punctuation :: "(byte \<times> lex_state) list" where
  "punctuation = [(0x2C, L_Comma), (0x3A, L_Colon), (0x7B, L_BeginDictionary), (0x7D, L_EndDictionary),
     (0x5B, L_BeginArray), (0x5D, L_EndArray)]"

lemma gets_punctuation:
  assumes "jp_state s = L_Top" "white ws" "jp_rest s = ws @ b # r" "(b, st) \<in> set punctuation"
  shows "gets s r st [] (jp_done s)"
proof (rule gets_lexes [OF assms(1-3)])
  fix t assume "lexed (s\<lparr>jp_token := [], jp_high_surrogate := 0, jp_high_offset := None\<rparr>) (b # r) L_Top [] t"
  note t = lexedD [OF this]
  have "\<exists>u. lex_byte b t = Inr (Lex_Return, u) \<and> jp_rest u = r \<and> jp_state u = st \<and> jp_token u = [] \<and>
      jp_done u = jp_done s \<and> kept t u"
    using assms(4) punctuation_byte [OF t(2)] t unfolding punctuation_def
    by (simp, elim disjE conjE; hypsubst; simp add: kept_def jp_steps)
  then show "\<exists>u. lex_loop t = Inr u \<and> jp_rest u = r \<and> jp_state u = st \<and> jp_token u = [] \<and> jp_done u = jp_done s \<and> kept t u"
    using lex_loop_return [OF t(1)] by blast
qed

lemma gets_string:
  assumes "jp_state s = L_Top" "white ws" "jp_rest s = ws @ 0x22 # encode_string k @ 0x22 # r"
  shows "gets s r L_AfterString k (jp_done s)"
proof (rule gets_lexes [OF assms])
  fix t assume "lexed (s\<lparr>jp_token := [], jp_high_surrogate := 0, jp_high_offset := None\<rparr>)
    (0x22 # encode_string k @ 0x22 # r) L_Top [] t"
  note t = lexedD [OF this]
  have "lexes t (encode_string k @ 0x22 # r) L_String []"
    by (rule lexes_step [OF t(1), of "ignore_state L_String (t\<lparr>jp_token_start := jp_offset t\<rparr>)"])
      (use t in \<open>simp_all add: lex_byte_def lex_other_def lex_top_def Let_def lexed_def kept_def jp_steps\<close>)
  then have "lexes t (0x22 # r) L_String k"
  proof (rule lexes_trans)
    fix u assume u: "lexed t (encode_string k @ 0x22 # r) L_String [] u"
    show "lexes u (0x22 # r) L_String k" using lexes_string_bytes [of u k "0x22 # r"] lexedD [OF u] by simp
  qed
  then obtain u where u: "lex_loop t = lex_loop u" "lexed t (0x22 # r) L_String k u" by (auto simp: lexes_def)
  note u' = lexedD [OF u(2)]
  have "lex_byte 0x22 u = Inr (Lex_Return, ignore_state L_AfterString u)"
    using u' by (simp add: lex_byte_def lex_other_def lex_string_def Let_def)
  then have "lex_loop t = Inr (ignore_state L_AfterString u)" using u(1) lex_loop_return [OF u'(1)] by simp
  then show "\<exists>u. lex_loop t = Inr u \<and> jp_rest u = r \<and> jp_state u = L_AfterString \<and> jp_token u = k \<and>
      jp_done u = jp_done s \<and> kept t u"
    using u' t by (intro exI [of _ "ignore_state L_AfterString u"]) (simp add: jp_steps kept_def)
qed

text \<open>The end of a number or a keyword: a delimiter, or the end of the input.\<close>

definition closes :: "bytes \<Rightarrow> bool" where
  "closes rest \<longleftrightarrow> (\<exists>r. rest = 0x2C # r \<or> rest = 0x0A # r)"

definition complete :: "lex_state \<Rightarrow> bool" where
  "complete st \<longleftrightarrow> st \<in> {L_NumberLeadingZero, L_NumberBeforePoint, L_NumberAfterPoint, L_Number, L_Alpha}"

lemma complete_end:
  assumes "complete (jp_state s)" "jp_token s \<noteq> []" "st = (if jp_state s = L_Alpha then L_Alpha else L_Number)"
  shows "lex_end s = Inr (s\<lparr>jp_state := st\<rparr>)"
  using assms by (auto simp: complete_def lex_end_def)

lemma word_token_end:
  assumes "complete (jp_state s)" "jp_token s \<noteq> []" "st = (if jp_state s = L_Alpha then L_Alpha else L_Number)"
    and "closes (jp_rest s) \<or> (jp_rest s = [] \<and> jp_read_error s = None)"
  shows "\<exists>u. lex_loop s = Inr u \<and> jp_rest u = jp_rest s \<and> jp_state u = st \<and> jp_token u = jp_token s \<and>
    jp_done u = (jp_done s \<or> jp_rest s = []) \<and> kept s u"
  using assms(4)
proof
  assume "closes (jp_rest s)"
  then obtain b r where b: "jp_rest s = b # r" "b = 0x2C \<or> b = 0x0A" by (auto simp: closes_def)
  have "lex_byte b s = Inr (Lex_Break, s)"
    using b(2) assms(1) by (auto simp: lex_byte_def lex_control_def lex_punctuation_def complete_def)
  then have "lex_loop s = Inr (s\<lparr>jp_state := st\<rparr>)"
    using lex_loop_break [OF b(1)] complete_end [OF assms(1-3)] by simp
  then show ?thesis using b(1) by (simp add: kept_def)
next
  assume "jp_rest s = [] \<and> jp_read_error s = None"
  moreover from this have "lex_loop s = lex_end (s\<lparr>jp_done := True\<rparr>)"
    by (simp add: lex_loop.simps [of s] jp_current_def)
  ultimately show ?thesis using complete_end [of "s\<lparr>jp_done := True\<rparr>" st] assms(1-3) by (simp add: kept_def)
qed

lemma gets_word:
  fixes s :: "('b, 'r) jparser"
  assumes s: "jp_state s = L_Top" "white ws" "jp_rest s = ws @ w @ rest" "w \<noteq> []"
    and run: "\<And>t :: ('b, 'r) jparser. jp_state t = L_Top \<Longrightarrow> jp_high_offset t = None \<Longrightarrow> jp_token t = [] \<Longrightarrow> jp_rest t = w @ rest \<Longrightarrow>
      \<exists>st. complete st \<and> (st = L_Alpha) = alpha \<and> lexes t rest st w"
    and rest: "closes rest \<or> (rest = [] \<and> jp_read_error s = None)"
  shows "gets s rest (if alpha then L_Alpha else L_Number) w (jp_done s \<or> rest = [])"
proof (rule gets_lexes [OF s(1-3)])
  fix t assume t': "lexed (s\<lparr>jp_token := [], jp_high_surrogate := 0, jp_high_offset := None\<rparr>) (w @ rest) L_Top [] t"
  note t = lexedD [OF t']
  obtain st where st: "complete st" "(st = L_Alpha) = alpha" "lexes t rest st w"
    using run [OF t(2,4,3,1)] by blast
  obtain u where u: "lex_loop t = lex_loop u" "lexed t rest st w u" using st(3) by (auto simp: lexes_def)
  note u' = lexedD [OF u(2)]
  have "jp_read_error u = jp_read_error s" using u'(6) t(6) by (simp add: kept_def)
  then obtain v where "lex_loop u = Inr v \<and> jp_rest v = rest \<and> jp_state v = (if alpha then L_Alpha else L_Number) \<and>
      jp_token v = w \<and> jp_done v = (jp_done s \<or> rest = []) \<and> kept u v"
    using word_token_end [of u "if alpha then L_Alpha else L_Number"] u' t(5) st s(4) rest by auto
  then show "\<exists>u. lex_loop t = Inr u \<and> jp_rest u = rest \<and> jp_state u = (if alpha then L_Alpha else L_Number) \<and>
      jp_token u = w \<and> jp_done u = (jp_done s \<or> rest = []) \<and> kept t u"
    using u(1) u'(6) by (intro exI [of _ v]) (simp add: kept_def)
qed

end
