(* ===== verification/Json_Words.thy ===== *)
theory Json_Words
  imports Json_Lexing
begin

text \<open>Numbers and keywords: the grammar of JSON numbers, and the lexer on them.\<close>

section \<open>Numbers\<close>

definition digits :: "bytes \<Rightarrow> bool" where
  "digits ds \<longleftrightarrow> ds \<noteq> [] \<and> list_all is_ascii_digit ds"

definition number_sign :: "bytes \<Rightarrow> bool" where
  "number_sign s \<longleftrightarrow> s = [] \<or> s = [0x2D]"

definition number_int :: "bytes \<Rightarrow> bool" where
  "number_int i \<longleftrightarrow> i = [0x30] \<or> (digits i \<and> hd i \<noteq> 0x30)"

definition number_fraction :: "bytes \<Rightarrow> bool" where
  "number_fraction f \<longleftrightarrow> f = [] \<or> (\<exists>ds. f = 0x2E # ds \<and> digits ds)"

definition number_exponent :: "bytes \<Rightarrow> bool" where
  "number_exponent x \<longleftrightarrow> x = [] \<or>
     (\<exists>e s ds. x = e # s @ ds \<and> (e = 0x65 \<or> e = 0x45) \<and> (s = [] \<or> s = [0x2B] \<or> s = [0x2D]) \<and> digits ds)"

definition json_number :: "bytes \<Rightarrow> bool" where
  "json_number n \<longleftrightarrow> (\<exists>s i f x. n = s @ i @ f @ x \<and> number_sign s \<and> number_int i \<and> number_fraction f \<and> number_exponent x)"

lemma word_bytes:
  "is_ascii_digit b \<Longrightarrow> word_byte b" "is_ascii_lower b \<Longrightarrow> word_byte b"
  "word_byte 0x2E" "word_byte 0x65" "word_byte 0x45" "word_byte 0x2B" "word_byte 0x2D"
  by (auto simp: is_ascii_digit_def is_ascii_lower_def word_byte_def word_le_nat_alt)

text \<open>A byte of a word moves the lexer to a state and joins the token.\<close>

definition moves :: "byte \<Rightarrow> lex_state \<Rightarrow> ('b, 'r) jparser \<Rightarrow> bool" where
  "moves b st s \<longleftrightarrow> (\<exists>k. lex_byte b s = Inr (Lex_Go, append_state st b (s\<lparr>jp_token_start := k\<rparr>)))"

lemma movesI: "lex_byte b s = Inr (Lex_Go, append_state st b s) \<Longrightarrow> moves b st s"
  unfolding moves_def by (rule exI [of _ "jp_token_start s"]) simp

lemma lexes_append:
  assumes "jp_rest s = b # r" "moves b st s" "jp_high_offset s = None"
  shows "lexes s r st (jp_token s @ [b])"
proof -
  obtain k where "lex_byte b s = Inr (Lex_Go, append_state st b (s\<lparr>jp_token_start := k\<rparr>))"
    using assms(2) by (auto simp: moves_def)
  then show ?thesis by (rule lexes_step [OF assms(1)]) (use assms in \<open>simp add: lexed_def kept_def jp_steps\<close>)
qed

lemma append_same_state: "jp_state s = st \<Longrightarrow> append_state st b s = jp_append b s"
  by (cases s) (simp add: append_state_def)

text \<open>Runs of bytes that leave the state alone.\<close>

lemma lexes_run:
  fixes s :: "('b, 'r) jparser"
  assumes stay: "\<And>t b. jp_state (t :: ('b, 'r) jparser) = st \<Longrightarrow> P b \<Longrightarrow> lex_byte b t = Inr (Lex_Go, jp_append b t)"
  shows "jp_state s = st \<Longrightarrow> jp_high_offset s = None \<Longrightarrow> list_all P w \<Longrightarrow> jp_rest s = w @ r \<Longrightarrow>
    lexes s r st (jp_token s @ w)"
proof (induction w arbitrary: s)
  case Nil
  then show ?case using lexes_refl [of s] by simp
next
  case (Cons b w)
  have "lexes s (w @ r) st (jp_token s @ [b])"
    using Cons.prems stay [of s b] by (intro lexes_append movesI) (simp_all add: append_same_state)
  then show ?case
  proof (rule lexes_trans)
    fix t assume t: "lexed s (w @ r) st (jp_token s @ [b]) t"
    show "lexes t r st (jp_token s @ b # w)" using Cons.IH [of t] Cons.prems(3) lexedD [OF t] by simp
  qed
qed

lemma digit_stays:
  "jp_state s \<in> {L_NumberBeforePoint, L_NumberAfterPoint, L_Number} \<Longrightarrow> is_ascii_digit b \<Longrightarrow>
     lex_byte b s = Inr (Lex_Go, jp_append b s)"
  by (auto simp: lex_word_byte [OF word_bytes(1)] lex_other_def Let_def)

lemma lexes_digits:
  assumes "st \<in> {L_NumberBeforePoint, L_NumberAfterPoint, L_Number}" "jp_state s = st" "jp_high_offset s = None"
    "list_all is_ascii_digit w" "jp_rest s = w @ r"
  shows "lexes s r st (jp_token s @ w)"
  by (rule lexes_run [of st is_ascii_digit]) (use assms digit_stays in auto)

text \<open>A first digit and the digits behind it.\<close>

lemma lexes_digits_from:
  assumes "st \<in> {L_NumberBeforePoint, L_NumberAfterPoint, L_Number}" "digits ds" "jp_rest s = ds @ r" "jp_high_offset s = None"
    and first: "moves (hd ds) st s"
  shows "lexes s r st (jp_token s @ ds)"
proof -
  obtain b w where ds: "ds = b # w" "list_all is_ascii_digit w" using assms(2) by (cases ds) (auto simp: digits_def)
  have "lexes s (w @ r) st (jp_token s @ [b])" using assms(3,4) first ds by (intro lexes_append) simp_all
  then show ?thesis
  proof (rule lexes_trans)
    fix t assume t: "lexed s (w @ r) st (jp_token s @ [b]) t"
    show "lexes t r st (jp_token s @ ds)" using lexes_digits [of st t w r] assms(1) ds lexedD [OF t] by simp
  qed
qed

definition int_state :: "bytes \<Rightarrow> lex_state" where
  "int_state i = (if i = [0x30] then L_NumberLeadingZero else L_NumberBeforePoint)"

lemma nonzero_digit: "is_ascii_digit b \<Longrightarrow> b \<noteq> 0x30 \<Longrightarrow> 0x31 \<le> b \<and> b \<le> 0x39"
  by (simp add: is_ascii_digit_def) unat_arith

lemma int_first:
  assumes "number_int i"
  shows "is_ascii_digit (hd i)" "hd i = 0x30 \<longleftrightarrow> i = [0x30]" "i \<noteq> []"
    "i \<noteq> [0x30] \<Longrightarrow> 0x31 \<le> hd i \<and> hd i \<le> 0x39"
  using assms nonzero_digit [of "hd i"]
  by (auto simp: number_int_def digits_def neq_Nil_conv is_ascii_digit_def)

lemma int_moves:
  assumes "jp_state s = L_Top \<or> jp_state s = L_NumberMinus" "number_int i"
  shows "moves (hd i) (int_state i) s"
proof -
  note i = int_first [OF assms(2)]
  have "hd i \<noteq> 0x22 \<and> \<not> is_ascii_lower (hd i) \<and> hd i \<noteq> 0x2D"
    using i(1) by (auto simp: is_ascii_digit_def is_ascii_lower_def word_le_nat_alt)
  moreover have "lex_byte (hd i) s = lex_other (hd i) s" using i(1) by (rule lex_word_byte [OF word_bytes(1)])
  ultimately show ?thesis
    using assms(1) i(2,4)
    by (cases "i = [0x30]")
      (auto simp: moves_def lex_other_def lex_top_def Let_def int_state_def intro: exI [of _ "jp_token_start s"])
qed

lemma lexes_int:
  assumes "jp_state s = L_Top \<or> jp_state s = L_NumberMinus" "number_int i" "jp_rest s = i @ r" "jp_high_offset s = None"
  shows "lexes s r (int_state i) (jp_token s @ i)"
proof (cases "i = [0x30]")
  case True
  then show ?thesis using int_moves [OF assms(1,2)] assms(3,4) by (auto intro: lexes_append)
next
  case False
  then show ?thesis
    using int_moves [OF assms(1,2)] assms by (intro lexes_digits_from) (auto simp: int_state_def number_int_def)
qed

lemma int_states: "int_state i = L_NumberLeadingZero \<or> int_state i = L_NumberBeforePoint"
  by (simp add: int_state_def)

lemma lexes_fraction:
  assumes "number_fraction f" "jp_state s = int_state i" "jp_rest s = f @ r" "jp_high_offset s = None"
  shows "\<exists>st. st \<in> {L_NumberLeadingZero, L_NumberBeforePoint, L_NumberAfterPoint} \<and> lexes s r st (jp_token s @ f)"
proof (cases "f = []")
  case True
  then show ?thesis using assms lexes_refl [of s] int_states [of i] by auto
next
  case False
  then obtain ds where f: "f = 0x2E # ds" "digits ds" using assms(1) by (auto simp: number_fraction_def)
  have "moves 0x2E L_NumberPoint s"
    using assms(2) int_states [of i]
    by (intro movesI) (auto simp: lex_word_byte [OF word_bytes(3)] lex_other_def Let_def is_ascii_digit_def)
  then have "lexes s (ds @ r) L_NumberPoint (jp_token s @ [0x2E])" using assms(3,4) f by (intro lexes_append) simp_all
  then have "lexes s r L_NumberAfterPoint (jp_token s @ f)"
  proof (rule lexes_trans)
    fix t assume "lexed s (ds @ r) L_NumberPoint (jp_token s @ [0x2E]) t"
    note t = lexedD [OF this]
    have "is_ascii_digit (hd ds)" using f(2) by (cases ds) (auto simp: digits_def)
    then have "moves (hd ds) L_NumberAfterPoint t"
      using t(2) by (intro movesI) (simp add: lex_word_byte [OF word_bytes(1)] lex_other_def Let_def)
    then have "lexes t r L_NumberAfterPoint (jp_token t @ ds)" using f(2) t by (intro lexes_digits_from) simp_all
    then show "lexes t r L_NumberAfterPoint (jp_token s @ f)" using t f(1) by simp
  qed
  then show ?thesis by blast
qed

lemma lexes_exponent:
  assumes s: "jp_state s \<in> {L_NumberLeadingZero, L_NumberBeforePoint, L_NumberAfterPoint}" "jp_rest s = x @ r"
      "jp_high_offset s = None"
    and x: "number_exponent x"
  shows "\<exists>st. complete st \<and> st \<noteq> L_Alpha \<and> lexes s r st (jp_token s @ x)"
proof (cases "x = []")
  case True
  have "complete (jp_state s)" "jp_state s \<noteq> L_Alpha" using s(1) by (auto simp: complete_def)
  then show ?thesis using s(2) lexes_refl [OF s(3)] True by (intro exI [of _ "jp_state s"]) simp
next
  case False
  then obtain e g ds where x': "x = e # g @ ds" "e = 0x65 \<or> e = 0x45" "g = [] \<or> g = [0x2B] \<or> g = [0x2D]" "digits ds"
    using x unfolding number_exponent_def by blast
  have e: "word_byte e" "\<not> is_ascii_digit e" "e \<noteq> 0x2E" using x'(2) word_bytes(4,5) by (auto simp: is_ascii_digit_def)
  have "moves e L_NumberE s"
    using s(1) x'(2) e(2,3) by (intro movesI) (auto simp: lex_word_byte [OF e(1)] lex_other_def Let_def)
  then have "lexes s (g @ ds @ r) L_NumberE (jp_token s @ [e])" using s(2,3) x'(1) by (intro lexes_append) simp_all
  moreover have "lexes s (ds @ r) (if g = [] then L_NumberE else L_NumberESign) (jp_token s @ e # g)"
  proof (rule lexes_trans [OF calculation])
    fix t assume "lexed s (g @ ds @ r) L_NumberE (jp_token s @ [e]) t"
    note t = lexedD [OF this]
    show "lexes t (ds @ r) (if g = [] then L_NumberE else L_NumberESign) (jp_token s @ e # g)"
    proof (cases "g = []")
      case True
      then show ?thesis using lexes_refl [OF t(4)] t by simp
    next
      case False
      then obtain b where b: "g = [b]" "b = 0x2B \<or> b = 0x2D" using x'(3) by auto
      have sign: "word_byte b" "\<not> is_ascii_digit b" using b(2) word_bytes(6,7) by (auto simp: is_ascii_digit_def)
      have "moves b L_NumberESign t"
        using b(2) t(2) False sign(2)
        by (intro movesI) (auto simp: lex_word_byte [OF sign(1)] lex_other_def Let_def)
      then show ?thesis using lexes_append [of t b "ds @ r" L_NumberESign] t b by simp
    qed
  qed
  then have "lexes s r L_Number (jp_token s @ x)"
  proof (rule lexes_trans)
    fix t assume "lexed s (ds @ r) (if g = [] then L_NumberE else L_NumberESign) (jp_token s @ e # g) t"
    note t = lexedD [OF this]
    have "is_ascii_digit (hd ds)" using x'(4) by (cases ds) (auto simp: digits_def)
    then have "moves (hd ds) L_Number t"
      using t(2) by (intro movesI) (auto simp: lex_word_byte [OF word_bytes(1)] lex_other_def Let_def split: if_splits)
    then have "lexes t r L_Number (jp_token t @ ds)" using x'(4) t by (intro lexes_digits_from) simp_all
    then show "lexes t r L_Number (jp_token s @ x)" using t x'(1) by simp
  qed
  then show ?thesis by (auto simp: complete_def)
qed

text \<open>A whole number.\<close>

lemma lexes_number:
  assumes s: "jp_state s = L_Top" "jp_rest s = n @ r" "jp_high_offset s = None" "jp_token s = []"
    and n: "json_number n"
  shows "\<exists>st. complete st \<and> st \<noteq> L_Alpha \<and> lexes s r st n"
proof -
  obtain g i f x where n': "n = g @ i @ f @ x" "number_sign g" "number_int i" "number_fraction f" "number_exponent x"
    using n by (auto simp: json_number_def)
  have "lexes s (i @ f @ x @ r) (if g = [] then L_Top else L_NumberMinus) g"
  proof (cases "g = []")
    case True
    then show ?thesis using lexes_refl [OF s(3)] s n'(1) by simp
  next
    case False
    then have g: "g = [0x2D]" using n'(2) by (auto simp: number_sign_def)
    have "moves 0x2D L_NumberMinus s"
      using s(1) unfolding moves_def
      by (auto simp: lex_word_byte [OF word_bytes(7)] lex_other_def lex_top_def Let_def is_ascii_lower_def)
    then show ?thesis using lexes_append [of s "0x2D" "i @ f @ x @ r" L_NumberMinus] s n'(1) g by simp
  qed
  then have "lexes s (f @ x @ r) (int_state i) (g @ i)"
  proof (rule lexes_trans)
    fix t assume "lexed s (i @ f @ x @ r) (if g = [] then L_Top else L_NumberMinus) g t"
    note t = lexedD [OF this]
    show "lexes t (f @ x @ r) (int_state i) (g @ i)"
      using lexes_int [of t i "f @ x @ r"] t n'(3) by (simp split: if_splits)
  qed
  then obtain t where t: "lex_loop s = lex_loop t" "lexed s (f @ x @ r) (int_state i) (g @ i) t" by (auto simp: lexes_def)
  note t' = lexedD [OF t(2)]
  obtain st where st: "st \<in> {L_NumberLeadingZero, L_NumberBeforePoint, L_NumberAfterPoint}"
    "lexes t (x @ r) st (g @ i @ f)"
    using lexes_fraction [OF n'(4) t'(2,1,4)] t'(3) by auto
  obtain u where u: "lex_loop t = lex_loop u" "lexed t (x @ r) st (g @ i @ f) u" using st(2) by (auto simp: lexes_def)
  note u' = lexedD [OF u(2)]
  obtain st' where st': "complete st'" "st' \<noteq> L_Alpha" "lexes u r st' n"
    using lexes_exponent [of u x r] u' st(1) n'(1,5) by auto
  have "lexes s r st' n"
    using lexes_trans [of s "f @ x @ r" "int_state i" "g @ i" r st' n] t u st'(3)
    by (auto simp: lexes_def lexed_def kept_def)
  then show ?thesis using st' by blast
qed

section \<open>Keywords\<close>

lemma lower_stays: "jp_state s = L_Alpha \<Longrightarrow> is_ascii_lower b \<Longrightarrow> lex_byte b s = Inr (Lex_Go, jp_append b s)"
  by (simp add: lex_word_byte [OF word_bytes(2)] lex_other_def Let_def)

lemma lexes_keyword:
  assumes "jp_state s = L_Top" "jp_rest s = w @ r" "jp_high_offset s = None" "jp_token s = []" "w \<noteq> []"
    "list_all is_ascii_lower w"
  shows "lexes s r L_Alpha w"
proof -
  obtain b v where w: "w = b # v" "is_ascii_lower b" "list_all is_ascii_lower v" using assms(5,6) by (cases w) auto
  have "b \<noteq> 0x22" using w(2) by (auto simp: is_ascii_lower_def)
  then have "moves b L_Alpha s"
    using assms(1) w(2) unfolding moves_def
    by (auto simp: lex_word_byte [OF word_bytes(2)] lex_other_def lex_top_def Let_def)
  then have "lexes s (v @ r) L_Alpha [b]" using lexes_append [of s b "v @ r" L_Alpha] assms w by simp
  then show ?thesis
  proof (rule lexes_trans)
    fix t assume "lexed s (v @ r) L_Alpha [b] t"
    note t = lexedD [OF this]
    show "lexes t r L_Alpha w"
      using lexes_run [of L_Alpha is_ascii_lower t v r, OF lower_stays] t w by simp
  qed
qed

end
