(* ===== verification/Json_Roundtrip.thy ===== *)
theory Json_Roundtrip
  imports Json_Words
begin

text \<open>
  The parser reads back what the writer wrote: on the text of a tree it builds cells that represent the tree.
\<close>

section \<open>Trees the parser accepts\<close>

fun json_tree_ok :: "jtree \<Rightarrow> bool" where
  "json_tree_ok (TDict kvs) \<longleftrightarrow>
     sorted_wrt (<) (map encode_string (map fst kvs)) \<and> list_all (\<lambda>(k, t). json_tree_ok t) kvs"
| "json_tree_ok (TArr ts) \<longleftrightarrow> list_all json_tree_ok ts"
| "json_tree_ok (TNum n) \<longleftrightarrow> json_number n"
| "json_tree_ok t \<longleftrightarrow> True"

fun scalar :: "jtree \<Rightarrow> bool" where
  "scalar (TDict kvs) = False"
| "scalar (TArr ts) = False"
| "scalar t = True"

fun head_state :: "jtree \<Rightarrow> lex_state" where
  "head_state (TDict kvs) = L_BeginDictionary"
| "head_state (TArr ts) = L_BeginArray"
| "head_state (TStr s) = L_AfterString"
| "head_state (TNum n) = L_Number"
| "head_state (TBool b) = L_Alpha"
| "head_state TNull = L_Alpha"

fun head_token :: "jtree \<Rightarrow> bytes" where
  "head_token (TStr s) = s"
| "head_token (TNum n) = n"
| "head_token (TBool b) = (if b then str ''true'' else str ''false'')"
| "head_token TNull = str ''null''"
| "head_token t = []"

fun head_value :: "jtree \<Rightarrow> 'b jvalue" where
  "head_value (TDict kvs) = JDictionary [] {}"
| "head_value (TArr ts) = JArray []"
| "head_value (TStr s) = JString s (encode_string s)"
| "head_value (TNum n) = JNumber n"
| "head_value (TBool b) = JBool b"
| "head_value TNull = JNull"

text \<open>The first token of a tree, and the text behind it.\<close>

fun after_head :: "nat \<Rightarrow> jtree \<Rightarrow> bytes" where
  "after_head d (TDict kvs) = tl (jrender d (TDict kvs))"
| "after_head d (TArr ts) = tl (jrender d (TArr ts))"
| "after_head d t = []"

lemma gets_keyword:
  assumes s: "jp_state s = L_Top" "jp_done s = False" "jp_read_error s = None" "white ws" "jp_rest s = ws @ w @ rest"
    and w: "w \<noteq> []" "list_all is_ascii_lower w" "closes rest \<or> rest = []"
  shows "gets s rest L_Alpha w (rest = [])"
proof -
  have "gets s rest (if True then L_Alpha else L_Number) w (jp_done s \<or> rest = [])"
  proof (rule gets_word [OF s(1,4,5) w(1)])
    show "\<exists>st. complete st \<and> (st = L_Alpha) = True \<and> lexes t rest st w"
      if "jp_state t = L_Top" "jp_high_offset t = None" "jp_token t = []" "jp_rest t = w @ rest" for t
      using lexes_keyword [OF that(1,4,2,3) w(1,2)] by (simp add: complete_def)
  qed (use w(3) s(3) in blast)
  then show ?thesis using s(2) by simp
qed

lemma keywords_lower:
  "list_all is_ascii_lower (str ''true'')" "list_all is_ascii_lower (str ''false'')" "list_all is_ascii_lower (str ''null'')"
  "str ''true'' \<noteq> []" "str ''false'' \<noteq> []" "str ''null'' \<noteq> []"
  by (simp_all add: str_def is_ascii_lower_def)

lemma gets_head:
  assumes s: "jp_state s = L_Top" "jp_done s = False" "jp_read_error s = None" "white ws"
      "jp_rest s = ws @ jrender d t @ rest"
    and t: "json_tree_ok t" "closes rest \<or> rest = []"
  shows "gets s (after_head d t @ rest) (head_state t) (head_token t) (rest = [] \<and> scalar t \<and> head_state t \<noteq> L_AfterString)"
proof (cases t)
  case (TDict kvs)
  then show ?thesis using gets_punctuation [OF s(1,4), of "0x7B" "after_head d t @ rest" L_BeginDictionary] s t
    by (simp add: punctuation_def)
next
  case (TArr ts)
  then show ?thesis using gets_punctuation [OF s(1,4), of "0x5B" "after_head d t @ rest" L_BeginArray] s t
    by (simp add: punctuation_def)
next
  case (TStr k)
  then show ?thesis using gets_string [OF s(1,4), of k rest] s by simp
next
  case (TNum n)
  have n: "json_number n" using t(1) TNum by simp
  then have "n \<noteq> []" by (auto simp: json_number_def number_int_def digits_def)
  then have "gets s rest (if False then L_Alpha else L_Number) n (jp_done s \<or> rest = [])"
    using s t TNum lexes_number [OF _ _ _ _ n] by (intro gets_word [of s ws]) auto
  then show ?thesis using TNum s(2) by simp
next
  case (TBool b)
  then show ?thesis using gets_keyword [of s ws "head_token t" rest] s t by (simp add: keywords_lower)
next
  case TNull
  then show ?thesis using gets_keyword [of s ws "head_token t" rest] s t by (simp add: keywords_lower)
qed

section \<open>Cells\<close>

lemma mb_value_update:
  assumes "\<And>m. mb_value (f m) = mb_value m"
  shows "mb_value (h[i := f (h ! i)] ! k) = mb_value (h ! k)"
proof (cases "i < length h")
  case True
  then show ?thesis using assms by (cases "i = k") simp_all
qed (simp add: list_update_beyond not_less)

lemma value_of_append [simp]:
  "value_of (h @ [c]) (Some a) = (if a = length h then Some (mb_value c) else value_of h (Some a))"
  by (cases "a < length h"; cases "a = length h") (simp_all add: value_of_def members_of_def nth_append)

lemma value_of_set [simp]:
  "value_of (set_value h (Some p) v) (Some a) = (if a = p \<and> p < length h then Some v else value_of h (Some a))"
  by (cases "a = p"; cases "p < length h") (simp_all add: value_of_def members_of_def set_value_def)

lemma heap_lengths [simp]:
  "length (set_value h j v) = length h" "length (set_end h j e) = length h" "length (set_start h j e) = length h"
  by (cases j; simp add: set_value_def set_end_def set_start_def)+

lemma value_of_offsets [simp]: "value_of (set_end h j e) k = value_of h k" "value_of (set_start h j e) k = value_of h k"
  using mb_value_update [of "mb_end_update (\<lambda>_. e)" h] mb_value_update [of "mb_start_update (\<lambda>_. e)" h]
  by (auto simp: value_of_def members_of_def set_end_def set_start_def split: option.split)

lemma value_of_bound: "value_of h (Some a) = Some v \<Longrightarrow> a < length h"
  by (auto simp: value_of_def members_of_def split: if_splits)

text \<open>Cells other than \<open>p\<close> are as before.\<close>

definition same_cells :: "nat \<Rightarrow> 'b jheap \<Rightarrow> 'b jheap \<Rightarrow> bool" where
  "same_cells p h h' \<longleftrightarrow> length h \<le> length h' \<and> (\<forall>a < length h. a \<noteq> p \<longrightarrow> value_of h' (Some a) = value_of h (Some a))"

text \<open>A handle whose tree lies in the cells from \<open>lo\<close> on: it stays what it is as long as these do.\<close>

definition owns :: "nat \<Rightarrow> 'b jheap \<Rightarrow> json \<Rightarrow> jtree \<Rightarrow> bool" where
  "owns lo h j t \<longleftrightarrow>
     (\<forall>h'. (\<forall>a. lo \<le> a \<and> a < length h \<longrightarrow> value_of h' (Some a) = value_of h (Some a)) \<longrightarrow> reps h' j t)"

lemma owns_reps: "owns lo h j t \<Longrightarrow> reps h j t"
  by (simp add: owns_def)

lemma owns_mono: "owns lo h j t \<Longrightarrow> same_cells p h h' \<Longrightarrow> p < lo \<Longrightarrow> lo' \<le> lo \<Longrightarrow> owns lo' h' j t"
  by (auto simp: owns_def same_cells_def)

lemma owns_all_mono:
  "list_all2 (\<lambda>t j. owns lo h j t) ts js \<Longrightarrow> same_cells p h h' \<Longrightarrow> p < lo \<Longrightarrow> lo' \<le> lo \<Longrightarrow>
     list_all2 (\<lambda>t j. owns lo' h' j t) ts js"
  by (erule list_all2_mono) (rule owns_mono)

lemma same_cells_trans: "same_cells p h h' \<Longrightarrow> same_cells p h' h'' \<Longrightarrow> same_cells p h h''"
  by (simp add: same_cells_def)

lemma owns_scalar: "scalar t \<Longrightarrow> value_of h (Some a) = Some (head_value t) \<Longrightarrow> owns a h (Some a) t"
  using value_of_bound [of h a "head_value t"] by (cases t) (auto simp: owns_def intro!: reps.intros)

lemma owns_array:
  assumes "value_of h (Some a) = Some (JArray js)" "list_all2 (\<lambda>t j. owns (Suc a) h j t) ts js"
  shows "owns a h (Some a) (TArr ts)"
  unfolding owns_def
proof (intro allI impI)
  fix h' assume same: "\<forall>b. a \<le> b \<and> b < length h \<longrightarrow> value_of h' (Some b) = value_of h (Some b)"
  have "reps h' j t" if "owns (Suc a) h j t" for j t using that same by (simp add: owns_def)
  then have "list_all2 (\<lambda>t j. reps h' j t) ts js" using assms(2) by (auto elim: list_all2_mono)
  then show "reps h' (Some a) (TArr ts)" using same value_of_bound [OF assms(1)] assms(1) by (auto intro: reps_arr)
qed

lemma owns_dict:
  assumes "value_of h (Some a) = Some (JDictionary m keys)" "bt_sorted m" "map fst m = map encode_string (map fst kvs)"
    "list_all2 (\<lambda>t j. owns (Suc a) h j t) (map snd kvs) (map snd m)"
  shows "owns a h (Some a) (TDict kvs)"
  unfolding owns_def
proof (intro allI impI)
  fix h' assume same: "\<forall>b. a \<le> b \<and> b < length h \<longrightarrow> value_of h' (Some b) = value_of h (Some b)"
  have "reps h' j t" if "owns (Suc a) h j t" for j t using that same by (simp add: owns_def)
  then have "list_all2 (\<lambda>t j. reps h' j t) (map snd kvs) (map snd m)" using assms(4) by (auto elim: list_all2_mono)
  then show "reps h' (Some a) (TDict kvs)"
    using same value_of_bound [OF assms(1)] assms by (auto intro: reps_dict)
qed

section \<open>Rounds\<close>

definition round :: "('b, 'r) reactor \<Rightarrow> ('b, 'r) jparser \<Rightarrow> ('b, 'r) jparser \<Rightarrow> bool" where
  "round rx s s' \<longleftrightarrow> jp_done s = False \<and> parse_round rx s = Inr s'"

abbreviation rounds :: "('b, 'r) reactor \<Rightarrow> ('b, 'r) jparser \<Rightarrow> ('b, 'r) jparser \<Rightarrow> bool" where
  "rounds rx \<equiv> (round rx)\<^sup>*\<^sup>*"

lemma loop_rounds: "rounds rx s s' \<Longrightarrow> \<exists>k. \<forall>n. json_parse_loop (k + n) rx s = json_parse_loop n rx s'"
proof (induction rule: converse_rtranclp_induct)
  case base
  then show ?case by (intro exI [of _ 0]) simp
next
  case (step s t)
  then obtain k where "\<forall>n. json_parse_loop (k + n) rx t = json_parse_loop n rx s'" by blast
  then show ?case using step(1)
    by (intro exI [of _ "Suc k"]) (simp add: json_parse_loop.simps [of "Suc _" rx s] round_def)
qed

lemma loop_more: "json_parse_loop n rx s = Some r \<Longrightarrow> json_parse_loop (n + m) rx s = Some r"
proof (induction n arbitrary: s)
  case 0
  then show ?case by (simp add: json_parse_loop.simps [of _ rx s] split: if_splits)
next
  case (Suc n)
  show ?case
  proof (cases "jp_done s")
    case False
    then show ?thesis using Suc.prems Suc.IH
      by (cases "parse_round rx s") (auto simp: json_parse_loop.simps [of "Suc _" rx s])
  qed (use Suc.prems in \<open>simp add: json_parse_loop.simps [of _ rx s]\<close>)
qed

text \<open>Whatever bound the loop is given, if it returns it returns this.\<close>

lemma loop_result:
  assumes "rounds rx s s'" "jp_done s'" "json_parse_loop n rx s = Some r"
  shows "r = Inr s'"
proof -
  obtain k where "json_parse_loop (k + 0) rx s = json_parse_loop 0 rx s'" using loop_rounds [OF assms(1)] by blast
  then have "json_parse_loop k rx s = Some (Inr s')" using assms(2) by (simp add: json_parse_loop.simps [of 0])
  then have "json_parse_loop (k + n) rx s = Some (Inr s')" by (rule loop_more)
  moreover have "json_parse_loop (n + k) rx s = Some r" using assms(3) by (rule loop_more)
  ultimately show ?thesis by (simp add: add.commute)
qed

section \<open>Handling the tokens of a tree\<close>

definition ready :: "('b, 'r) jparser \<Rightarrow> bool" where
  "ready s \<longleftrightarrow> jp_state s = L_Top \<and> jp_done s = False \<and> jp_reactor s = None \<and> jp_read_error s = None"

text \<open>Between two rounds: the text ahead, the parser's state and stack, and the heap.\<close>

definition poised :: "('b, 'r) jparser \<Rightarrow> bytes \<Rightarrow> parse_state \<Rightarrow> (parse_state \<times> json) list \<Rightarrow> 'b jheap \<Rightarrow> bool" where
  "poised s rest ps stk h \<longleftrightarrow>
     ready s \<and> jp_rest s = rest \<and> jp_parse_state s = ps \<and> jp_stack s = stk \<and> jp_heap s = h"

lemma poisedD:
  assumes "poised s rest ps stk h"
  shows "jp_state s = L_Top" "jp_done s = False" "jp_reactor s = None" "jp_read_error s = None" "jp_rest s = rest"
    "jp_parse_state s = ps" "jp_stack s = stk" "jp_heap s = h"
  using assms by (simp_all add: poised_def ready_def)

lemma react_none [simp]: "jp_reactor s = None \<Longrightarrow> react f s = s" "jp_reactor s = None \<Longrightarrow> react_item g s = (False, s)"
  by (simp_all add: react_def react_item_def)

text \<open>A round is a token and its handling.\<close>

lemma round_token:
  assumes "poised s text ps stk h" "gets s rest st tok ended"
    and handle: "\<And>t. jp_rest t = rest \<Longrightarrow> jp_state t = st \<Longrightarrow> jp_token t = tok \<Longrightarrow> jp_done t = ended \<Longrightarrow>
      jp_reactor t = None \<Longrightarrow> jp_read_error t = None \<Longrightarrow> jp_parse_state t = ps \<Longrightarrow> jp_stack t = stk \<Longrightarrow>
      jp_heap t = h \<Longrightarrow> jp_dict_key t = jp_dict_key s \<Longrightarrow> \<exists>s'. handle_token rx t = Inr s' \<and> Q s'"
  shows "\<exists>s'. round rx s s' \<and> Q s'"
proof -
  obtain t where t: "json_get_token s = Inr t" "jp_rest t = rest" "jp_state t = st" "jp_token t = tok" "jp_done t = ended"
    "kept s t"
    using assms(2) by (auto simp: gets_def)
  obtain s' where "handle_token rx t = Inr s'" "Q s'"
    using handle [OF t(2-5)] t(6) poisedD [OF assms(1)] by (auto simp: kept_def)
  then show ?thesis using t(1) poisedD(2) [OF assms(1)] by (auto simp: round_def parse_round_def)
qed

text \<open>What a container accepts, and what it is with one more value in it.\<close>

definition accepts :: "parse_state \<Rightarrow> bytes \<Rightarrow> 'b jvalue \<Rightarrow> bool" where
  "accepts ps key v \<longleftrightarrow>
     (case v of
        JArray js \<Rightarrow> ps = P_ArrayBegin \<or> ps = P_ArrayAfterComma
      | JDictionary m keys \<Rightarrow>
          ps = P_DictionaryAfterColon \<and> key \<notin> keys \<and> (\<forall>k \<in> fst ` set m. k < encode_string key)
      | _ \<Rightarrow> False)"

definition joined :: "bytes \<Rightarrow> json \<Rightarrow> 'b jvalue \<Rightarrow> 'b jvalue" where
  "joined key j v =
     (case v of
        JArray js \<Rightarrow> JArray (js @ [j])
      | JDictionary m keys \<Rightarrow> JDictionary (m @ [(encode_string key, j)]) (insert key keys)
      | _ \<Rightarrow> v)"

definition after_item :: "'b jvalue \<Rightarrow> parse_state" where
  "after_item v = (case v of JArray js \<Rightarrow> P_ArrayAfterItem | _ \<Rightarrow> P_DictionaryAfterItem)"

definition begin_state :: "jtree \<Rightarrow> parse_state" where
  "begin_state t = (case t of TDict kvs \<Rightarrow> P_DictionaryBegin | _ \<Rightarrow> P_ArrayBegin)"

lemma enter_parent:
  assumes "accepts (jp_parse_state s) (jp_dict_key s) v" "jp_stack s = (st, Some p) # stk"
    "value_of (jp_heap s) (Some p) = Some v" "jp_reactor s = None"
  shows "\<exists>h'. enter_value rx (Some a) s = Inr (s\<lparr>jp_heap := h', jp_parse_state := after_item v\<rparr>) \<and>
    value_of h' (Some p) = Some (joined (jp_dict_key s) (Some a) v) \<and> length h' = length (jp_heap s) \<and>
    (\<forall>b. b \<noteq> p \<longrightarrow> value_of h' (Some b) = value_of (jp_heap s) (Some b))"
proof (cases v)
  case (JArray js)
  then have "enter_array rx (Some p) (Some a) s = Inr (s\<lparr>jp_heap := set_value (jp_heap s) (Some p) (JArray (js @ [Some a]))\<rparr>)"
    using assms by (simp add: enter_array_def add_array_element_def or_null_def)
  then show ?thesis
    using assms JArray value_of_bound [OF assms(3)]
    by (intro exI [of _ "set_value (jp_heap s) (Some p) (JArray (js @ [Some a]))"])
      (auto simp: enter_value_def accepts_def after_item_def joined_def)
next
  case (JDictionary m keys)
  let ?h = "set_value (jp_heap s) (Some p) (JDictionary m (insert (jp_dict_key s) keys))"
  let ?h' = "set_value ?h (Some p) (JDictionary (m @ [(encode_string (jp_dict_key s), Some a)]) (insert (jp_dict_key s) keys))"
  have key: "jp_dict_key s \<notin> keys" "\<forall>k \<in> fst ` set m. k < encode_string (jp_dict_key s)"
      "jp_parse_state s = P_DictionaryAfterColon"
    using assms(1) JDictionary by (auto simp: accepts_def)
  have "check_dictionary_key_seen (jp_heap s) (Some p) (jp_dict_key s) = Inr (?h, False)"
    using assms JDictionary key by (simp add: check_dictionary_key_seen_def)
  moreover have "add_dictionary_member ?h (Some p) (jp_dict_key s) (Some a) = Inr (?h', Some a)"
    using JDictionary value_of_bound [OF assms(3)] key
    by (simp add: add_dictionary_member_def or_null_def bt_insert_last)
  ultimately have "enter_dictionary rx (Some p) (Some a) s = Inr (s\<lparr>jp_heap := ?h'\<rparr>)"
    using assms(4) by (simp add: enter_dictionary_def)
  then show ?thesis
    using assms JDictionary value_of_bound [OF assms(3)] key
    by (intro exI [of _ ?h']) (auto simp: enter_value_def after_item_def joined_def)
qed (use assms in \<open>auto simp: accepts_def\<close>)

lemma token_value_head:
  assumes "jp_token s = head_token t" "jp_parse_state s \<noteq> P_DictionaryBegin" "jp_parse_state s \<noteq> P_DictionaryAfterComma"
  shows "token_value rx (head_state t) s =
    Inr (Token_Value (Some (length (jp_heap s)))
      (s\<lparr>jp_heap := jp_heap s @ [\<lparr>mb_value = head_value t, mb_start = 0, mb_end = 0\<rparr>]\<rparr>))"
  using assms by (cases t) (simp_all add: token_value_def Let_def fresh_values str_def)

lemma head_state_top: "head_state t \<noteq> L_Top"
  by (cases t) simp_all

lemma open_head:
  assumes "value_of (jp_heap s) (Some a) = Some (head_value t)" "jp_reactor s = None"
  shows "scalar t \<Longrightarrow> open_value rx (Some a) s =
      Inr (if jp_parse_state s = P_Done then s\<lparr>jp_stack := (P_Done, Some a) # jp_stack s\<rparr> else s)"
    and "\<not> scalar t \<Longrightarrow> length (jp_stack s) < 500 \<Longrightarrow> open_value rx (Some a) s =
      Inr (s\<lparr>jp_stack := (jp_parse_state s, Some a) # jp_stack s, jp_parse_state := begin_state t\<rparr>)"
  using assms by (cases t; simp add: open_value_def is_dictionary_def is_array_def begin_state_def)+

lemma handle_head:
  assumes "jp_state s = head_state t" "jp_token s = head_token t" "jp_reactor s = None"
    "jp_stack s = (st, Some p) # stk" "value_of (jp_heap s) (Some p) = Some v"
    "accepts (jp_parse_state s) (jp_dict_key s) v" "scalar t \<or> length (jp_stack s) < 500"
  shows "\<exists>s'. handle_token rx s = Inr s' \<and> jp_rest s' = jp_rest s \<and> jp_done s' = jp_done s \<and> jp_state s' = L_Top \<and>
    jp_reactor s' = None \<and> jp_read_error s' = jp_read_error s \<and> length (jp_heap s') = Suc (length (jp_heap s)) \<and>
    value_of (jp_heap s') (Some p) = Some (joined (jp_dict_key s) (Some (length (jp_heap s))) v) \<and>
    value_of (jp_heap s') (Some (length (jp_heap s))) = Some (head_value t) \<and> same_cells p (jp_heap s) (jp_heap s') \<and>
    (if scalar t then jp_stack s' = jp_stack s \<and> jp_parse_state s' = after_item v
     else jp_stack s' = (after_item v, Some (length (jp_heap s))) # jp_stack s \<and> jp_parse_state s' = begin_state t)"
proof -
  let ?a = "length (jp_heap s)"
  have ps: "jp_parse_state s \<noteq> P_Done" "jp_parse_state s \<noteq> P_DictionaryBegin" "jp_parse_state s \<noteq> P_DictionaryAfterComma"
    using assms(6) by (cases v; force simp: accepts_def)+
  define u where "u = s\<lparr>jp_state := L_Top, jp_heap := jp_heap s @ [\<lparr>mb_value = head_value t, mb_start = 0, mb_end = 0\<rparr>]\<rparr>"
  define w where "w = u\<lparr>jp_heap := set_end (set_start (jp_heap u) (Some ?a) (jp_token_start u)) (Some ?a) (jp_offset u)\<rparr>"
  have "p < ?a" using assms(5) by (rule value_of_bound)
  then have w: "value_of (jp_heap w) (Some p) = Some v" "value_of (jp_heap w) (Some ?a) = Some (head_value t)"
      "length (jp_heap w) = Suc ?a" "b \<noteq> ?a \<Longrightarrow> value_of (jp_heap w) (Some b) = value_of (jp_heap s) (Some b)" for b
    using assms(5) by (simp_all add: w_def u_def)
  have w': "jp_stack w = (st, Some p) # stk" "accepts (jp_parse_state w) (jp_dict_key w) v" "jp_reactor w = None"
    using assms(3,4,6) by (simp_all add: w_def u_def)
  obtain h' where h': "enter_value rx (Some ?a) w = Inr (w\<lparr>jp_heap := h', jp_parse_state := after_item v\<rparr>)"
    "value_of h' (Some p) = Some (joined (jp_dict_key w) (Some ?a) v)" "length h' = length (jp_heap w)"
    "\<And>b. b \<noteq> p \<Longrightarrow> value_of h' (Some b) = value_of (jp_heap w) (Some b)"
    using enter_parent [OF w'(2,1) w(1) w'(3), of rx ?a] by blast
  let ?x = "w\<lparr>jp_heap := h', jp_parse_state := after_item v\<rparr>"
  have "token_value rx (head_state t) (s\<lparr>jp_state := L_Top\<rparr>) = Inr (Token_Value (Some ?a) u)"
    using token_value_head [of "s\<lparr>jp_state := L_Top\<rparr>" t rx] assms(2) ps by (simp add: u_def)
  then have handle: "handle_token rx s = open_value rx (Some ?a) ?x"
    using assms(1) head_state_top [of t] ps(1) h'(1) by (simp add: handle_token_def Let_def w_def)
  have x: "value_of (jp_heap ?x) (Some ?a) = Some (head_value t)" "jp_reactor ?x = None" "jp_parse_state ?x \<noteq> P_Done"
    using w(2) h'(4) [of ?a] \<open>p < ?a\<close> w'(3) by (simp_all add: after_item_def split: jvalue.split)
  have cells: "same_cells p (jp_heap s) h'"
    using h'(3,4) w(3,4) by (simp add: same_cells_def)
  have same: "jp_dict_key w = jp_dict_key s" "jp_rest w = jp_rest s" "jp_done w = jp_done s" "jp_state w = L_Top"
    "jp_read_error w = jp_read_error s" "jp_stack w = jp_stack s"
    by (simp_all add: w_def u_def)
  show ?thesis
  proof (cases "scalar t")
    case True
    then show ?thesis using handle open_head(1) [OF x(1,2) True, of rx] x same h' w(3) w'(3) cells
      by (intro exI [of _ ?x]) simp
  next
    case False
    then have "length (jp_stack ?x) < 500" using assms(7) same by simp
    then show ?thesis using handle open_head(2) [OF x(1,2) False, of rx] x same h' w(3) w'(3) cells False
      by (intro exI [of _ "?x\<lparr>jp_stack := (after_item v, Some ?a) # jp_stack w, jp_parse_state := begin_state t\<rparr>"]) simp
  qed
qed

lemma handle_head_top:
  assumes "jp_state s = head_state t" "jp_token s = head_token t" "jp_reactor s = None"
    "jp_stack s = []" "jp_parse_state s = P_Top"
  shows "\<exists>s'. handle_token rx s = Inr s' \<and> jp_rest s' = jp_rest s \<and> jp_done s' = jp_done s \<and> jp_state s' = L_Top \<and>
    jp_reactor s' = None \<and> jp_read_error s' = jp_read_error s \<and> length (jp_heap s') = Suc (length (jp_heap s)) \<and>
    value_of (jp_heap s') (Some (length (jp_heap s))) = Some (head_value t) \<and>
    jp_stack s' = [(P_Done, Some (length (jp_heap s)))] \<and>
    jp_parse_state s' = (if scalar t then P_Done else begin_state t)"
proof -
  let ?a = "length (jp_heap s)"
  define u where "u = s\<lparr>jp_state := L_Top, jp_heap := jp_heap s @ [\<lparr>mb_value = head_value t, mb_start = 0, mb_end = 0\<rparr>]\<rparr>"
  define w where "w = u\<lparr>jp_heap := set_end (set_start (jp_heap u) (Some ?a) (jp_token_start u)) (Some ?a) (jp_offset u)\<rparr>"
  let ?x = "w\<lparr>jp_parse_state := P_Done\<rparr>"
  have "token_value rx (head_state t) (s\<lparr>jp_state := L_Top\<rparr>) = Inr (Token_Value (Some ?a) u)"
    using token_value_head [of "s\<lparr>jp_state := L_Top\<rparr>" t rx] assms by (simp add: u_def)
  moreover have "enter_value rx (Some ?a) w = Inr ?x" using assms(5) by (simp add: enter_value_def w_def u_def)
  ultimately have handle: "handle_token rx s = open_value rx (Some ?a) ?x"
    using assms(1,5) head_state_top [of t] by (simp add: handle_token_def Let_def w_def)
  have x: "value_of (jp_heap ?x) (Some ?a) = Some (head_value t)" "jp_reactor ?x = None" "length (jp_stack ?x) < 500"
    using assms(3,4) by (simp_all add: w_def u_def)
  have same: "jp_rest w = jp_rest s" "jp_done w = jp_done s" "jp_state w = L_Top" "jp_read_error w = jp_read_error s"
    "jp_stack w = []" "length (jp_heap w) = Suc ?a"
    using assms(4) by (simp_all add: w_def u_def)
  show ?thesis
  proof (cases "scalar t")
    case True
    then show ?thesis using handle open_head(1) [OF x(1,2) True, of rx] x same
      by (intro exI [of _ "?x\<lparr>jp_stack := [(P_Done, Some ?a)]\<rparr>"]) simp
  next
    case False
    then show ?thesis using handle open_head(2) [OF x(1,2) False x(3), of rx] x same
      by (intro exI [of _ "?x\<lparr>jp_stack := [(P_Done, Some ?a)], jp_parse_state := begin_state t\<rparr>"]) simp
  qed
qed

section \<open>Delimiters\<close>

lemma round_comma:
  assumes "poised s (0x2C # r) ps stk h" "ps = P_ArrayAfterItem \<or> ps = P_DictionaryAfterItem"
  shows "\<exists>s'. round rx s s' \<and> poised s' r (if ps = P_ArrayAfterItem then P_ArrayAfterComma else P_DictionaryAfterComma) stk h"
proof (rule round_token [OF assms(1)])
  show "gets s r L_Comma [] False"
    using gets_punctuation [of s "[]" "0x2C" r L_Comma] poisedD [OF assms(1)] by (simp add: punctuation_def)
qed (use assms(2) in \<open>auto simp: handle_token_def token_value_def poised_def ready_def\<close>)

lemma round_colon:
  assumes "poised s (0x3A # r) P_DictionaryAfterKey stk h"
  shows "\<exists>s'. round rx s s' \<and> poised s' r P_DictionaryAfterColon stk h \<and> jp_dict_key s' = jp_dict_key s"
proof (rule round_token [OF assms(1)])
  show "gets s r L_Colon [] False"
    using gets_punctuation [of s "[]" "0x3A" r L_Colon] poisedD [OF assms(1)] by (simp add: punctuation_def)
qed (auto simp: handle_token_def token_value_def poised_def ready_def)

lemma round_key:
  assumes "poised s (ws @ 0x22 # encode_string k @ 0x22 # r) ps stk h" "white ws"
    "ps = P_DictionaryBegin \<or> ps = P_DictionaryAfterComma"
  shows "\<exists>s'. round rx s s' \<and> poised s' r P_DictionaryAfterKey stk h \<and> jp_dict_key s' = k"
proof (rule round_token [OF assms(1)])
  show "gets s r L_AfterString k False"
    using gets_string [of s ws k r] poisedD [OF assms(1)] assms(2) by simp
qed (use assms(3) in \<open>auto simp: handle_token_def token_value_def poised_def ready_def\<close>)

lemma round_end:
  assumes "poised s (ws @ b # r) ps ((st, j) # stk) h" "white ws"
    "(b = 0x5D \<and> (ps = P_ArrayBegin \<or> ps = P_ArrayAfterItem)) \<or>
     (b = 0x7D \<and> (ps = P_DictionaryBegin \<or> ps = P_DictionaryAfterItem))"
  shows "\<exists>s'. round rx s s' \<and> poised s' r st (if st = P_Done then (st, j) # stk else stk) (set_end h j (jp_offset s'))"
proof -
  let ?tok = "if b = 0x5D then L_EndArray else L_EndDictionary"
  have "(b, ?tok) \<in> set punctuation" using assms(3) by (auto simp: punctuation_def)
  then have "gets s r ?tok [] False"
    using gets_punctuation [of s ws b r ?tok] poisedD [OF assms(1)] assms(2) by simp
  then show ?thesis
    by (rule round_token [OF assms(1)])
      (use assms(3) in \<open>auto simp: handle_token_def token_value_def container_close_def poised_def ready_def jp_offset_def Let_def\<close>)
qed

section \<open>Values in containers\<close>

text \<open>What reading a tree does in a container: the value joins it, in cells of its own.\<close>

definition parses :: "('b, 'r) reactor \<Rightarrow> jtree \<Rightarrow> bool" where
  "parses rx t \<longleftrightarrow> (\<forall>s ws d rest ps st p stk h v.
     poised s (ws @ jrender d t @ rest) ps ((st, Some p) # stk) h \<longrightarrow> white ws \<longrightarrow> closes rest \<longrightarrow>
     value_of h (Some p) = Some v \<longrightarrow> accepts ps (jp_dict_key s) v \<longrightarrow> length stk + 1 + jheight t \<le> 500 \<longrightarrow>
     (\<exists>s' h'. rounds rx s s' \<and> poised s' rest (after_item v) ((st, Some p) # stk) h' \<and>
        value_of h' (Some p) = Some (joined (jp_dict_key s) (Some (length h)) v) \<and> same_cells p h h' \<and>
        owns (length h) h' (Some (length h)) t))"

lemma parsesE:
  assumes "parses rx t" "poised s (ws @ jrender d t @ rest) ps ((st, Some p) # stk) h" "white ws" "closes rest"
    "value_of h (Some p) = Some v" "accepts ps (jp_dict_key s) v" "length stk + 1 + jheight t \<le> 500"
  obtains s' h' where "rounds rx s s'" "poised s' rest (after_item v) ((st, Some p) # stk) h'"
    "value_of h' (Some p) = Some (joined (jp_dict_key s) (Some (length h)) v)" "same_cells p h h'"
    "owns (length h) h' (Some (length h)) t"
  using assms unfolding parses_def by blast

lemma same_cells_refl [simp]: "same_cells p h h"
  by (simp add: same_cells_def)

lemma closes_more: "closes (render_more d is @ b # rest)"
  by (cases "is") (auto simp: closes_def newline_def)

text \<open>The rest of an array, behind an item.\<close>

lemma array_more:
  assumes "\<And>t. t \<in> set ts \<Longrightarrow> parses rx t \<and> length stk + 1 + jheight t \<le> 500"
    "poised s (render_more d (map (jrender (d + 1)) ts) @ 0x5D # rest) P_ArrayAfterItem ((st, Some a) # stk) h"
    "value_of h (Some a) = Some (JArray js)"
  shows "\<exists>s' h' js'. rounds rx s s' \<and> poised s' rest st (if st = P_Done then (st, Some a) # stk else stk) h' \<and>
    value_of h' (Some a) = Some (JArray (js @ js')) \<and> same_cells a h h' \<and> list_all2 (\<lambda>t j. owns (Suc a) h' j t) ts js'"
  using assms
proof (induction ts arbitrary: s h js)
  case Nil
  obtain s' where s': "round rx s s'" "poised s' rest st (if st = P_Done then (st, Some a) # stk else stk) (set_end h (Some a) (jp_offset s'))"
    using round_end [of s "newline d" "0x5D" rest P_ArrayAfterItem st "Some a" stk h rx] Nil by auto
  then show ?case using Nil(3)
    by (intro exI [of _ s'] exI [of _ "set_end h (Some a) (jp_offset s')"] exI [of _ "[]"]) (auto simp: same_cells_def)
next
  case (Cons t ts)
  let ?more = "render_more d (map (jrender (d + 1)) ts) @ 0x5D # rest"
  obtain s1 where s1: "round rx s s1" "poised s1 (newline (d + 1) @ jrender (d + 1) t @ ?more) P_ArrayAfterComma ((st, Some a) # stk) h"
    using round_comma [OF Cons.prems(2) [simplified]] by auto
  obtain s2 h2 where s2: "rounds rx s1 s2" "poised s2 ?more P_ArrayAfterItem ((st, Some a) # stk) h2"
    "value_of h2 (Some a) = Some (JArray (js @ [Some (length h)]))" "same_cells a h h2"
    "owns (length h) h2 (Some (length h)) t"
    using parsesE [OF _ s1(2) _ closes_more Cons.prems(3)] Cons.prems(1) [of t]
    by (auto simp: accepts_def after_item_def joined_def)
  obtain s3 h3 js' where s3: "rounds rx s2 s3" "poised s3 rest st (if st = P_Done then (st, Some a) # stk else stk) h3"
    "value_of h3 (Some a) = Some (JArray ((js @ [Some (length h)]) @ js'))" "same_cells a h2 h3"
    "list_all2 (\<lambda>t j. owns (Suc a) h3 j t) ts js'"
    using Cons.IH [OF Cons.prems(1) s2(2,3)] by auto
  have a: "a < length h" using Cons.prems(3) by (rule value_of_bound)
  then have "owns (Suc a) h3 (Some (length h)) t" using owns_mono [OF s2(5) s3(4)] by simp
  moreover have "rounds rx s s3" using s1(1) s2(1) s3(1) by (meson converse_rtranclp_into_rtranclp rtranclp_trans)
  ultimately show ?case using s2(4) s3
    by (intro exI [of _ s3] exI [of _ h3] exI [of _ "Some (length h) # js'"]) (auto intro: same_cells_trans)
qed

lemma array_body:
  assumes "\<And>t. t \<in> set ts \<Longrightarrow> parses rx t \<and> length stk + 1 + jheight t \<le> 500"
    "poised s (after_head d (TArr ts) @ rest) P_ArrayBegin ((st, Some a) # stk) h"
    "value_of h (Some a) = Some (JArray [])"
  shows "\<exists>s' h'. rounds rx s s' \<and> poised s' rest st (if st = P_Done then (st, Some a) # stk else stk) h' \<and>
    same_cells a h h' \<and> owns a h' (Some a) (TArr ts)"
proof (cases ts)
  case Nil
  then obtain s' where s': "round rx s s'" "poised s' rest st (if st = P_Done then (st, Some a) # stk else stk) (set_end h (Some a) (jp_offset s'))"
    using round_end [of s "[]" "0x5D" rest P_ArrayBegin st "Some a" stk h rx] assms(2) by auto
  then show ?thesis using Nil assms(3) owns_array [of "set_end h (Some a) (jp_offset s')" a "[]" "[]"]
    by (intro exI [of _ s'] exI [of _ "set_end h (Some a) (jp_offset s')"]) (auto simp: same_cells_def)
next
  case (Cons t ts')
  let ?more = "render_more d (map (jrender (d + 1)) ts') @ 0x5D # rest"
  have s: "poised s (newline (d + 1) @ jrender (d + 1) t @ ?more) P_ArrayBegin ((st, Some a) # stk) h"
    using assms(2) Cons by simp
  obtain s2 h2 where s2: "rounds rx s s2" "poised s2 ?more P_ArrayAfterItem ((st, Some a) # stk) h2"
    "value_of h2 (Some a) = Some (JArray [Some (length h)])" "same_cells a h h2"
    "owns (length h) h2 (Some (length h)) t"
    using parsesE [OF _ s _ closes_more assms(3)] assms(1) [of t] Cons
    by (auto simp: accepts_def after_item_def joined_def)
  obtain s3 h3 js' where s3: "rounds rx s2 s3" "poised s3 rest st (if st = P_Done then (st, Some a) # stk else stk) h3"
    "value_of h3 (Some a) = Some (JArray ([Some (length h)] @ js'))" "same_cells a h2 h3"
    "list_all2 (\<lambda>t j. owns (Suc a) h3 j t) ts' js'"
    using array_more [OF assms(1) s2(2,3)] Cons by auto
  have "owns (Suc a) h3 (Some (length h)) t" using owns_mono [OF s2(5) s3(4)] value_of_bound [OF assms(3)] by simp
  then have "owns a h3 (Some a) (TArr ts)" using owns_array [OF s3(3), of ts] s3(5) Cons by simp
  moreover have "rounds rx s s3" using s2(1) s3(1) by (meson rtranclp_trans)
  ultimately show ?thesis using s3(2) same_cells_trans [OF s2(4) s3(4)] by blast
qed

text \<open>One member of a dictionary: its key, the colon and its value.\<close>

abbreviation member_text :: "nat \<Rightarrow> bytes \<times> jtree \<Rightarrow> bytes" where
  "member_text d \<equiv> \<lambda>(k, t). 0x22 # encode_string k @ [0x22, 0x3A, 0x20] @ jrender (d + 1) t"

definition keys_match :: "(bytes \<times> json) list \<Rightarrow> bytes set \<Rightarrow> bool" where
  "keys_match m keys \<longleftrightarrow> encode_string ` keys \<subseteq> fst ` set m"

lemma dict_member:
  assumes "parses rx t" "length stk + 1 + jheight t \<le> 500"
    "poised s (ws @ member_text d (k, t) @ behind) ps ((st, Some a) # stk) h" "white ws" "closes behind"
    "ps = P_DictionaryBegin \<or> ps = P_DictionaryAfterComma"
    "value_of h (Some a) = Some (JDictionary m keys)" "keys_match m keys" "\<forall>k' \<in> fst ` set m. k' < encode_string k"
  shows "\<exists>s' h'. rounds rx s s' \<and> poised s' behind P_DictionaryAfterItem ((st, Some a) # stk) h' \<and>
    value_of h' (Some a) = Some (JDictionary (m @ [(encode_string k, Some (length h))]) (insert k keys)) \<and>
    same_cells a h h' \<and> owns (length h) h' (Some (length h)) t"
proof -
  have "poised s (ws @ 0x22 # encode_string k @ 0x22 # 0x3A # 0x20 # jrender (d + 1) t @ behind) ps ((st, Some a) # stk) h"
    using assms(3) by simp
  from round_key [OF this assms(4,6), of rx]
  obtain s1 where s1: "round rx s s1" "poised s1 (0x3A # 0x20 # jrender (d + 1) t @ behind) P_DictionaryAfterKey ((st, Some a) # stk) h"
    "jp_dict_key s1 = k" by blast
  obtain s2 where s2: "round rx s1 s2" "poised s2 ([0x20] @ jrender (d + 1) t @ behind) P_DictionaryAfterColon ((st, Some a) # stk) h"
    "jp_dict_key s2 = k"
    using round_colon [OF s1(2)] s1(3) by auto
  have "k \<notin> keys" using assms(8,9) unfolding keys_match_def by (metis image_subset_iff order_less_irrefl)
  then have acc: "accepts P_DictionaryAfterColon (jp_dict_key s2) (JDictionary m keys)"
    using assms(9) s2(3) by (simp add: accepts_def)
  obtain s3 h3 where "rounds rx s2 s3" "poised s3 behind P_DictionaryAfterItem ((st, Some a) # stk) h3"
    "value_of h3 (Some a) = Some (JDictionary (m @ [(encode_string k, Some (length h))]) (insert k keys))"
    "same_cells a h h3" "owns (length h) h3 (Some (length h)) t"
    using parsesE [OF assms(1) s2(2) _ assms(5,7) acc assms(2)] s2(3) by (auto simp: after_item_def joined_def)
  moreover from this have "rounds rx s s3"
    using s1(1) s2(1) by (meson converse_rtranclp_into_rtranclp)
  ultimately show ?thesis by blast
qed

lemma keys_match_insert: "keys_match m keys \<Longrightarrow> keys_match (m @ [(encode_string k, j)]) (insert k keys)"
  by (auto simp: keys_match_def)

lemma dict_more:
  assumes "\<And>t. t \<in> snd ` set kvs \<Longrightarrow> parses rx t \<and> length stk + 1 + jheight t \<le> 500"
    "poised s (render_more d (map (member_text d) kvs) @ 0x7D # rest) P_DictionaryAfterItem ((st, Some a) # stk) h"
    "value_of h (Some a) = Some (JDictionary m keys)" "keys_match m keys"
    "sorted_wrt (<) (map fst m @ map encode_string (map fst kvs))"
  shows "\<exists>s' h' m' keys'. rounds rx s s' \<and> poised s' rest st (if st = P_Done then (st, Some a) # stk else stk) h' \<and>
    value_of h' (Some a) = Some (JDictionary (m @ m') keys') \<and> same_cells a h h' \<and>
    map fst m' = map encode_string (map fst kvs) \<and> list_all2 (\<lambda>t j. owns (Suc a) h' j t) (map snd kvs) (map snd m')"
  using assms
proof (induction kvs arbitrary: s h m keys)
  case Nil
  obtain s' where s': "round rx s s'" "poised s' rest st (if st = P_Done then (st, Some a) # stk else stk) (set_end h (Some a) (jp_offset s'))"
    using round_end [of s "newline d" "0x7D" rest P_DictionaryAfterItem st "Some a" stk h rx] Nil by auto
  then show ?case using Nil(3)
    by (intro exI [of _ s'] exI [of _ "set_end h (Some a) (jp_offset s')"] exI [of _ "[]"] exI [of _ keys])
      (auto simp: same_cells_def)
next
  case (Cons kt kvs)
  obtain k t where kt: "kt = (k, t)" by (cases kt)
  let ?more = "render_more d (map (member_text d) kvs) @ 0x7D # rest"
  have "poised s (0x2C # newline (d + 1) @ member_text d (k, t) @ ?more) P_DictionaryAfterItem ((st, Some a) # stk) h"
    using Cons.prems(2) kt by simp
  have kt': "parses rx t" "length stk + 1 + jheight t \<le> 500" "white (newline (d + 1))"
    "P_DictionaryAfterComma = P_DictionaryBegin \<or> P_DictionaryAfterComma = P_DictionaryAfterComma"
    "\<forall>k' \<in> fst ` set m. k' < encode_string k"
    using Cons.prems(1) [of t] Cons.prems(5) kt by (simp_all add: sorted_wrt_append)
  have tail1: "parses rx t \<and> length stk + 1 + jheight t \<le> 500" if "t \<in> snd ` set kvs" for t
    using Cons.prems(1) [of t] that by simp
  have tail2: "sorted_wrt (<) (map fst (m @ [(encode_string k, Some (length h))]) @ map encode_string (map fst kvs))"
    using Cons.prems(5) kt by simp
  from round_comma [OF \<open>poised s (0x2C # _) _ _ _\<close>, of rx]
  obtain s1 where s1: "round rx s s1"
    "poised s1 (newline (d + 1) @ member_text d (k, t) @ ?more) P_DictionaryAfterComma ((st, Some a) # stk) h"
    by auto
  obtain s2 h2 where s2: "rounds rx s1 s2" "poised s2 ?more P_DictionaryAfterItem ((st, Some a) # stk) h2"
    "value_of h2 (Some a) = Some (JDictionary (m @ [(encode_string k, Some (length h))]) (insert k keys))"
    "same_cells a h h2" "owns (length h) h2 (Some (length h)) t"
    using dict_member [OF kt'(1,2) s1(2) kt'(3) closes_more kt'(4) Cons.prems(3,4) kt'(5)] by blast
  obtain s3 h3 m' keys' where s3: "rounds rx s2 s3"
    "poised s3 rest st (if st = P_Done then (st, Some a) # stk else stk) h3"
    "value_of h3 (Some a) = Some (JDictionary ((m @ [(encode_string k, Some (length h))]) @ m') keys')" "same_cells a h2 h3"
    "map fst m' = map encode_string (map fst kvs)" "list_all2 (\<lambda>t j. owns (Suc a) h3 j t) (map snd kvs) (map snd m')"
    using Cons.IH [OF tail1 s2(2,3) keys_match_insert [OF Cons.prems(4)] tail2] by blast
  have "a < length h" using Cons.prems(3) by (rule value_of_bound)
  then have "owns (Suc a) h3 (Some (length h)) t" using owns_mono [OF s2(5) s3(4)] by simp
  moreover have "rounds rx s s3" using s1(1) s2(1) s3(1) by (meson converse_rtranclp_into_rtranclp rtranclp_trans)
  ultimately show ?case using s2(4) s3 kt
    by (intro exI [of _ s3] exI [of _ h3] exI [of _ "(encode_string k, Some (length h)) # m'"] exI [of _ keys'])
      (auto intro: same_cells_trans)
qed

lemma dict_body:
  assumes "\<And>t. t \<in> snd ` set kvs \<Longrightarrow> parses rx t \<and> length stk + 1 + jheight t \<le> 500"
    "poised s (after_head d (TDict kvs) @ rest) P_DictionaryBegin ((st, Some a) # stk) h"
    "value_of h (Some a) = Some (JDictionary [] {})" "sorted_wrt (<) (map encode_string (map fst kvs))"
  shows "\<exists>s' h'. rounds rx s s' \<and> poised s' rest st (if st = P_Done then (st, Some a) # stk else stk) h' \<and>
    same_cells a h h' \<and> owns a h' (Some a) (TDict kvs)"
proof (cases kvs)
  case Nil
  then obtain s' where s': "round rx s s'" "poised s' rest st (if st = P_Done then (st, Some a) # stk else stk) (set_end h (Some a) (jp_offset s'))"
    using round_end [of s "[]" "0x7D" rest P_DictionaryBegin st "Some a" stk h rx] assms(2) by auto
  then show ?thesis using Nil assms(3) owns_dict [of "set_end h (Some a) (jp_offset s')" a "[]" "{}" "[]"]
    by (intro exI [of _ s'] exI [of _ "set_end h (Some a) (jp_offset s')"]) (auto simp: same_cells_def)
next
  case (Cons kt kvs')
  obtain k t where kt: "kt = (k, t)" by (cases kt)
  let ?more = "render_more d (map (member_text d) kvs') @ 0x7D # rest"
  have s: "poised s (newline (d + 1) @ member_text d (k, t) @ ?more) P_DictionaryBegin ((st, Some a) # stk) h"
    using assms(2) Cons kt by simp
  have k0: "keys_match [] {}" by (simp add: keys_match_def)
  have kt': "parses rx t" "length stk + 1 + jheight t \<le> 500" using assms(1) [of t] Cons kt by simp_all
  have tail1: "parses rx t \<and> length stk + 1 + jheight t \<le> 500" if "t \<in> snd ` set kvs'" for t
    using assms(1) [of t] Cons that by simp
  have tail2: "sorted_wrt (<) (map fst ([] @ [(encode_string k, Some (length h))]) @ map encode_string (map fst kvs'))"
    using assms(4) Cons kt by simp
  obtain s2 h2 where s2: "rounds rx s s2" "poised s2 ?more P_DictionaryAfterItem ((st, Some a) # stk) h2"
    "value_of h2 (Some a) = Some (JDictionary ([] @ [(encode_string k, Some (length h))]) (insert k {}))"
    "same_cells a h h2" "owns (length h) h2 (Some (length h)) t"
    using dict_member [OF kt'(1,2) s _ closes_more _ assms(3) k0] by auto
  obtain s3 h3 m' keys' where s3: "rounds rx s2 s3"
    "poised s3 rest st (if st = P_Done then (st, Some a) # stk else stk) h3"
    "value_of h3 (Some a) = Some (JDictionary (([] @ [(encode_string k, Some (length h))]) @ m') keys')" "same_cells a h2 h3"
    "map fst m' = map encode_string (map fst kvs')" "list_all2 (\<lambda>t j. owns (Suc a) h3 j t) (map snd kvs') (map snd m')"
    using dict_more [OF tail1 s2(2,3) keys_match_insert [OF k0] tail2] by blast
  have "owns (Suc a) h3 (Some (length h)) t" using owns_mono [OF s2(5) s3(4)] value_of_bound [OF assms(3)] by simp
  moreover have "map fst ((encode_string k, Some (length h)) # m') = map encode_string (map fst kvs)"
    using s3(5) Cons kt by simp
  moreover from this have "bt_sorted ((encode_string k, Some (length h)) # m')"
    using assms(4) unfolding bt_sorted_def by simp
  ultimately have "owns a h3 (Some a) (TDict kvs)"
    using owns_dict [OF s3(3) [simplified], of kvs] s3(6) Cons kt by simp
  moreover have "rounds rx s s3" using s2(1) s3(1) by (meson rtranclp_trans)
  ultimately show ?thesis using s3(2) same_cells_trans [OF s2(4) s3(4)] by blast
qed

text \<open>Reading a container behind its opening delimiter.\<close>

lemma container_body:
  assumes "\<not> scalar t" "json_tree_ok t"
    "\<And>u. jheight u < jheight t \<Longrightarrow> json_tree_ok u \<Longrightarrow> parses rx u" "length stk + jheight t \<le> 500"
    "poised s (after_head d t @ rest) (begin_state t) ((st, Some a) # stk) h" "value_of h (Some a) = Some (head_value t)"
  shows "\<exists>s' h'. rounds rx s s' \<and> poised s' rest st (if st = P_Done then (st, Some a) # stk else stk) h' \<and>
    same_cells a h h' \<and> owns a h' (Some a) t"
proof (cases t)
  case (TDict kvs)
  have "parses rx u \<and> length stk + 1 + jheight u \<le> 500" if u: "u \<in> snd ` set kvs" for u
  proof -
    obtain x where "x \<in> set kvs" "u = snd x" using u by blast
    then have k: "(fst x, u) \<in> set kvs" by simp
    then show ?thesis using jheight_members(1) [OF k] assms(2-4) TDict by (auto simp: list_all_iff)
  qed
  then show ?thesis using dict_body [of kvs rx stk s d rest st a h] assms(2,5,6) TDict by (simp add: begin_state_def)
next
  case (TArr ts)
  have "parses rx u \<and> length stk + 1 + jheight u \<le> 500" if "u \<in> set ts" for u
    using that jheight_members(2) [OF that] assms(2-4) TArr by (auto simp: list_all_iff)
  then show ?thesis using array_body [of ts rx stk s d rest st a h] assms(5,6) TArr by (simp add: begin_state_def)
qed (use assms(1) in simp_all)

lemma parses_tree:
  fixes rx :: "('b, 'r) reactor"
  shows "json_tree_ok t \<Longrightarrow> parses rx t"
proof (induction t rule: measure_induct_rule [of jheight])
  case (less t)
  show ?case
    unfolding parses_def
  proof (intro allI impI)
    fix s :: "('b, 'r) jparser" and ws d rest ps st p stk h v
    assume s: "poised s (ws @ jrender d t @ rest) ps ((st, Some p) # stk) h" and ws: "white ws" and rest: "closes rest"
      and v: "value_of h (Some p) = Some v" "accepts ps (jp_dict_key s) v" and depth: "length stk + 1 + jheight t \<le> 500"
    note s' = poisedD [OF s]
    have ne: "rest \<noteq> []" using rest by (auto simp: closes_def)
    have "gets s (after_head d t @ rest) (head_state t) (head_token t) False"
      using gets_head [OF s'(1,2,4) ws s'(5) less.prems] rest ne by simp
    then obtain s1 where s1: "round rx s s1" "poised s1 (after_head d t @ rest)
        (if scalar t then after_item v else begin_state t)
        (if scalar t then (st, Some p) # stk else (after_item v, Some (length h)) # (st, Some p) # stk) (jp_heap s1)"
      "value_of (jp_heap s1) (Some p) = Some (joined (jp_dict_key s) (Some (length h)) v)"
      "value_of (jp_heap s1) (Some (length h)) = Some (head_value t)" "same_cells p h (jp_heap s1)"
      "length (jp_heap s1) = Suc (length h)"
    proof (atomize_elim, rule round_token [OF s])
      fix u :: "('b, 'r) jparser"
      assume u: "jp_rest u = after_head d t @ rest" "jp_state u = head_state t" "jp_token u = head_token t"
        "jp_done u = False" "jp_reactor u = None" "jp_read_error u = None" "jp_parse_state u = ps"
        "jp_stack u = (st, Some p) # stk" "jp_heap u = h" "jp_dict_key u = jp_dict_key s"
      have "scalar t \<or> length (jp_stack u) < 500"
        using depth u(8) by (cases t) auto
      then show "\<exists>s'. handle_token rx u = Inr s' \<and> poised s' (after_head d t @ rest)
          (if scalar t then after_item v else begin_state t)
          (if scalar t then (st, Some p) # stk else (after_item v, Some (length h)) # (st, Some p) # stk) (jp_heap s') \<and>
          value_of (jp_heap s') (Some p) = Some (joined (jp_dict_key s) (Some (length h)) v) \<and>
          value_of (jp_heap s') (Some (length h)) = Some (head_value t) \<and> same_cells p h (jp_heap s') \<and>
          length (jp_heap s') = Suc (length h)"
        using handle_head [OF u(2,3,5,8), of v rx] u v by (auto simp: poised_def ready_def split: if_splits)
    qed
    show "\<exists>s' h'. rounds rx s s' \<and> poised s' rest (after_item v) ((st, Some p) # stk) h' \<and>
        value_of h' (Some p) = Some (joined (jp_dict_key s) (Some (length h)) v) \<and> same_cells p h h' \<and>
        owns (length h) h' (Some (length h)) t"
    proof (cases "scalar t")
      case True
      then have "after_head d t = []" by (cases t) simp_all
      then show ?thesis using s1 True owns_scalar [OF True s1(4)]
        by (intro exI [of _ s1] exI [of _ "jp_heap s1"]) auto
    next
      case False
      then have s2: "poised s1 (after_head d t @ rest) (begin_state t)
          ((after_item v, Some (length h)) # (st, Some p) # stk) (jp_heap s1)"
        using s1(2) by simp
      have "after_item v \<noteq> P_Done" by (simp add: after_item_def split: jvalue.split)
      then obtain s3 h3 where s3: "rounds rx s1 s3" "poised s3 rest (after_item v) ((st, Some p) # stk) h3"
        "same_cells (length h) (jp_heap s1) h3" "owns (length h) h3 (Some (length h)) t"
        using container_body [OF False less.prems less.IH _ s2 s1(4)] depth by auto
      have p: "p < length h" using v(1) by (rule value_of_bound)
      then have "value_of h3 (Some p) = value_of (jp_heap s1) (Some p)" "same_cells p h h3"
        using s3(3) s1(5,6) by (auto simp: same_cells_def)
      moreover have "rounds rx s s3" using s1(1) s3(1) by (rule converse_rtranclp_into_rtranclp)
      ultimately show ?thesis using s1(3) s3(2,4) by (intro exI [of _ s3] exI [of _ h3]) simp
    qed
  qed
qed

section \<open>Documents\<close>

lemma json_parse_text:
  assumes "json_tree_ok t" "jheight t \<le> 500"
  shows "\<exists>s' j. parse_reader rx (jrender 0 t) None None h = Some (Inr (s', j)) \<and> reps (jp_heap s') j t"
proof -
  let ?s = "jparser_new (jrender 0 t) None None h"
  have s: "poised ?s ([] @ jrender 0 t @ []) P_Top [] h" by (simp add: poised_def ready_def jparser_new_def)
  note s' = poisedD [OF s]
  let ?ended = "scalar t \<and> head_state t \<noteq> L_AfterString"
  have "gets ?s (after_head 0 t @ []) (head_state t) (head_token t) ?ended"
    using gets_head [OF s'(1,2,4) _ s'(5) assms(1)] by simp
  then obtain s1 where s1: "round rx ?s s1" "jp_rest s1 = after_head 0 t" "jp_done s1 = ?ended" "jp_state s1 = L_Top"
    "jp_reactor s1 = None" "jp_read_error s1 = None" "value_of (jp_heap s1) (Some (length h)) = Some (head_value t)"
    "jp_stack s1 = [(P_Done, Some (length h))]" "jp_parse_state s1 = (if scalar t then P_Done else begin_state t)"
  proof (atomize_elim, rule round_token [OF s])
    fix u :: "('a, 'b) jparser"
    assume u: "jp_rest u = after_head 0 t @ []" "jp_state u = head_state t" "jp_token u = head_token t"
      "jp_done u = ?ended" "jp_reactor u = None" "jp_read_error u = None" "jp_parse_state u = P_Top"
      "jp_stack u = []" "jp_heap u = h"
    show "\<exists>s'. handle_token rx u = Inr s' \<and> jp_rest s' = after_head 0 t \<and> jp_done s' = ?ended \<and> jp_state s' = L_Top \<and>
        jp_reactor s' = None \<and> jp_read_error s' = None \<and> value_of (jp_heap s') (Some (length h)) = Some (head_value t) \<and>
        jp_stack s' = [(P_Done, Some (length h))] \<and> jp_parse_state s' = (if scalar t then P_Done else begin_state t)"
      using handle_head_top [OF u(2,3,5,8,7), of rx] u by auto
  qed
  have last: "\<exists>s'. rounds rx s1 s' \<and> jp_done s' \<and> jp_parse_state s' = P_Done \<and> jp_reactor s' = None \<and>
      jp_stack s' = [(P_Done, Some (length h))] \<and> owns (length h) (jp_heap s') (Some (length h)) t"
  proof (cases ?ended)
    case True
    then show ?thesis using s1 owns_scalar [OF _ s1(7)] by (intro exI [of _ s1]) simp
  next
    case False
    have "\<exists>s2. rounds rx s1 s2 \<and> poised s2 [] P_Done [(P_Done, Some (length h))] (jp_heap s2) \<and>
        owns (length h) (jp_heap s2) (Some (length h)) t"
    proof (cases "scalar t")
      case True
      then have "after_head 0 t = []" by (cases t) simp_all
      then show ?thesis using s1 True False owns_scalar [OF True s1(7)]
        by (intro exI [of _ s1]) (simp add: poised_def ready_def)
    next
      case c: False
      have "poised s1 (after_head 0 t @ []) (begin_state t) [(P_Done, Some (length h))] (jp_heap s1)"
        using s1 c by (simp add: poised_def ready_def)
      then show ?thesis
        using container_body [OF c assms(1) parses_tree, of "[]" s1 0 "[]" P_Done "length h" "jp_heap s1"] s1(7) assms(2)
        by (auto simp: poised_def)
    qed
    then obtain s2 where s2: "rounds rx s1 s2" "poised s2 [] P_Done [(P_Done, Some (length h))] (jp_heap s2)"
      "owns (length h) (jp_heap s2) (Some (length h)) t" by blast
    note s2' = poisedD [OF s2(2)]
    let ?t = "s2\<lparr>jp_token := [], jp_high_surrogate := 0, jp_high_offset := None\<rparr>"
    have "lex_loop ?t = Inr (?t\<lparr>jp_done := True\<rparr>)"
      using s2' by (simp add: lex_loop.simps [of ?t] jp_current_def lex_end_def)
    then have "round rx s2 (?t\<lparr>jp_done := True\<rparr>)"
      using s2' by (simp add: round_def parse_round_def json_get_token_def handle_token_def)
    then show ?thesis using s2(1,3) s2'
      by (intro exI [of _ "?t\<lparr>jp_done := True\<rparr>"]) (simp add: rtranclp.rtrancl_into_rtrancl)
  qed
  then obtain s' where fin: "rounds rx ?s s'" "jp_done s'" "jp_parse_state s' = P_Done" "jp_reactor s' = None"
    "jp_stack s' = [(P_Done, Some (length h))]" "owns (length h) (jp_heap s') (Some (length h)) t"
    using s1(1) by (meson converse_rtranclp_into_rtranclp)
  let ?n = "length (jrender 0 t) + 1"
  obtain r where r: "json_parse_loop ?n rx ?s = Some r"
    using json_parse_loop_returns [of ?s ?n rx] by (auto simp: jparser_new_def)
  then have "r = Inr s'" using loop_result [OF fin(1,2)] by blast
  then show ?thesis using r fin(3-6)
    by (auto simp: parse_reader_def json_parse_run_def json_parse_end_def intro: owns_reps)
qed

text \<open>
  C39: What the JSON writer prints, the JSON parser reads back. For every handle that represents a tree - with
  numbers that are JSON numbers, the members of every dictionary in the order of their encoded keys, and at most
  500 containers inside each other - \<open>unparse\<close> returns a text, and parsing the text, on any heap, returns a handle
  that represents the same tree: every string, escapes included, every key and every nesting comes back.
\<close>

theorem json_roundtrip:
  assumes "reps h j t" "json_tree_ok t" "jheight t \<le> 500"
  shows "\<exists>written s' j'. json_unparse (jheight t + 1) h j = Some (Inr written) \<and>
    parse_reader rx written None None h' = Some (Inr (s', j')) \<and> reps (jp_heap s') j' t"
proof -
  have "json_unparse (jheight t + 1) h j = Some (Inr (jrender 0 t))"
    using json_write_renders [OF assms(1), of "jheight t + 1" 0 "[]"] by (simp add: json_unparse_def)
  then show ?thesis using json_parse_text [OF assms(2,3)] by blast
qed

definition idle_reactor :: "('b, unit) reactor" where
  "idle_reactor = \<lparr>rx_dictionary_start = id, rx_array_start = id, rx_container_end = (\<lambda>j. id), rx_top_level_scalar = id,
     rx_dictionary_item = (\<lambda>k j s. (False, s)), rx_array_item = (\<lambda>j s. (False, s))\<rparr>"

definition sample_heap :: "bytes jblob jheap" where
  "sample_heap = map (\<lambda>v. \<lparr>mb_value = v, mb_start = 0, mb_end = 0\<rparr>)
     [JArray [Some 1, Some 2, Some 3], JString [0x22, 0x07] (encode_string [0x22, 0x07]), JNumber [0x2D, 0x31], JNull]"

definition sample_tree :: jtree where
  "sample_tree = TArr [TStr [0x22, 0x07], TNum [0x2D, 0x31], TNull]"

lemma sample_reps: "reps sample_heap (Some 0) sample_tree"
  unfolding sample_tree_def
  by (rule reps_arr [of _ _ "[Some 1, Some 2, Some 3]"])
    (auto simp: sample_heap_def value_of_def members_of_def intro!: reps.intros)

lemma sample_number: "json_number [0x2D, 0x31]"
  unfolding json_number_def
  by (intro exI [of _ "[0x2D]"] exI [of _ "[0x31]"] exI [of _ "[]"])
    (simp add: number_sign_def number_int_def number_fraction_def number_exponent_def digits_def is_ascii_digit_def)

theorem json_roundtrip_witness:
  "\<exists>written s' j'. json_unparse 2 sample_heap (Some 0) = Some (Inr written) \<and>
    parse_reader (idle_reactor :: (nat, unit) reactor) written None None [] = Some (Inr (s', j')) \<and>
    reps (jp_heap s') j' sample_tree"
  using json_roundtrip [OF sample_reps, of "idle_reactor :: (nat, unit) reactor" "[]"]
  by (simp add: sample_tree_def sample_number numeral_2_eq_2)

end
