(* ===== verification/Object_Model.thy ===== *)
theory Object_Model
  imports Errors Btree_Map
begin

text \<open>
  The object model of \<open>crates/flpdf/src/object_handle.rs\<close>, \<open>qpdf_obj_gen.rs\<close> and \<open>object_ref.rs\<close>: object
  identities, the value layer, and handles. A handle is a slot with an optional identity, a value, the offset
  it was parsed at and the description template of its parse. The operations modelled here never write
  through a shared slot, so the graph of reference counted slots is a tree whose indirect edges end in an
  identity; what such an identity resolves to is the document's business, and the document is an argument.
\<close>

section \<open>Identities\<close>

text \<open>\<open>i32\<close> pairs, \<open>u32\<close> and \<open>u16\<close> pairs.\<close>

datatype qpdf_obj_gen = Qpdf_Obj_Gen (get_obj: int) (get_gen: int)

datatype object_ref = Object_Ref (ref_number: int) (ref_generation: int)

definition try_from_object_ref :: "object_ref \<Rightarrow> error + qpdf_obj_gen" where
  "try_from_object_ref r =
     (if ref_number r < 2 ^ 31 then Inr (Qpdf_Obj_Gen (ref_number r) (ref_generation r))
      else Inl (System (str ''integer out of range converting '' @ decimal_int (ref_number r) @
        str '' from a 4-byte unsigned type to a 4-byte signed type'')))"

definition og_is_indirect :: "qpdf_obj_gen \<Rightarrow> bool" where
  "og_is_indirect og \<longleftrightarrow> get_obj og \<noteq> 0"

text \<open>The syntax of a reference, \<open>N G R\<close>.\<close>

definition reference_text :: "qpdf_obj_gen \<Rightarrow> bytes" where
  "reference_text og = decimal_int (get_obj og) @ str '' '' @ decimal_int (get_gen og) @ str '' R''"

section \<open>Values and handles\<close>

text \<open>
  Dictionaries are ordered maps. Of a stream only the dictionary is here: no modelled operation reads its
  data, provider or filters.
\<close>

datatype handle =
  Handle (h_initialized: bool) (h_obj_gen: "qpdf_obj_gen option") (h_value: object_value)
    (h_parsed_offset: int) (h_description: "bytes option")
and object_value =
    V_Null | V_Unresolved | V_Reserved | V_Destroyed
  | V_Boolean bool | V_Integer int | V_Real bytes | V_Name bytes | V_String bytes
  | V_Operator bytes | V_InlineImage bytes
  | V_Array "handle list"
  | V_Dictionary "(bytes \<times> handle) list"
  | V_Stream handle

definition no_parsed_offset :: int where
  "no_parsed_offset = - 1"

definition type_code :: "object_value \<Rightarrow> nat" where
  "type_code v =
     (case v of
        V_Null \<Rightarrow> 2 | V_Unresolved \<Rightarrow> 13 | V_Reserved \<Rightarrow> 1 | V_Destroyed \<Rightarrow> 14 | V_Boolean b \<Rightarrow> 3
      | V_Integer i \<Rightarrow> 4 | V_Real r \<Rightarrow> 5 | V_String s \<Rightarrow> 6 | V_Name n \<Rightarrow> 7 | V_Array cs \<Rightarrow> 8
      | V_Dictionary m \<Rightarrow> 9 | V_Stream d \<Rightarrow> 10 | V_Operator p \<Rightarrow> 11 | V_InlineImage d \<Rightarrow> 12)"

definition type_name :: "object_value \<Rightarrow> bytes" where
  "type_name v =
     (case v of
        V_Null \<Rightarrow> str ''null'' | V_Unresolved \<Rightarrow> str ''unresolved'' | V_Reserved \<Rightarrow> str ''reserved''
      | V_Destroyed \<Rightarrow> str ''destroyed'' | V_Boolean b \<Rightarrow> str ''boolean'' | V_Integer i \<Rightarrow> str ''integer''
      | V_Real r \<Rightarrow> str ''real'' | V_String s \<Rightarrow> str ''string'' | V_Name n \<Rightarrow> str ''name''
      | V_Array cs \<Rightarrow> str ''array'' | V_Dictionary m \<Rightarrow> str ''dictionary'' | V_Stream d \<Rightarrow> str ''stream''
      | V_Operator p \<Rightarrow> str ''operator'' | V_InlineImage d \<Rightarrow> str ''inline-image'')"

definition canonical_dictionary_key :: "bytes \<Rightarrow> bytes" where
  "canonical_dictionary_key key = (if take 1 key = [0x2F] then key else 0x2F # key)"

definition bt_from_list :: "('k :: linorder \<times> 'v) list \<Rightarrow> ('k \<times> 'v) list" where
  "bt_from_list kvs = foldl (\<lambda>m (k, v). bt_insert k v m) [] kvs"

definition canonicalize_object_value :: "object_value \<Rightarrow> object_value" where
  "canonicalize_object_value v =
     (case v of
        V_Dictionary m \<Rightarrow>
          if list_all (\<lambda>(k, c). take 1 k = [0x2F]) m then V_Dictionary m
          else V_Dictionary (bt_from_list (map (\<lambda>(k, c). (canonical_dictionary_key k, c)) m))
      | _ \<Rightarrow> v)"

definition new_direct :: "object_value \<Rightarrow> int \<Rightarrow> handle" where
  "new_direct v offset = Handle True None (canonicalize_object_value v) offset None"

definition uninitialized :: handle where
  "uninitialized = Handle False None V_Unresolved no_parsed_offset None"

definition handle_null :: handle where
  "handle_null = new_direct V_Null no_parsed_offset"

definition from_value :: "object_value \<Rightarrow> handle" where
  "from_value v = new_direct v no_parsed_offset"

definition handle_dictionary :: "(bytes \<times> handle) list \<Rightarrow> handle" where
  "handle_dictionary entries =
     new_direct (V_Dictionary (bt_from_list (map (\<lambda>(k, c). (canonical_dictionary_key k, c)) entries))) no_parsed_offset"

definition new_indirect_unresolved :: "object_ref \<Rightarrow> int \<Rightarrow> handle" where
  "new_indirect_unresolved r offset =
     (case try_from_object_ref r of
        Inl e \<Rightarrow> uninitialized
      | Inr og \<Rightarrow> Handle True (Some og) V_Unresolved offset None)"

text \<open>The offset is set once, while it is still negative.\<close>

definition set_parsed_offset_if_unset :: "handle \<Rightarrow> int \<Rightarrow> handle" where
  "set_parsed_offset_if_unset h offset =
     (if h_parsed_offset h < 0 then Handle (h_initialized h) (h_obj_gen h) (h_value h) offset (h_description h) else h)"

definition set_shared_description :: "handle \<Rightarrow> bytes \<Rightarrow> int \<Rightarrow> handle" where
  "set_shared_description h template offset =
     set_parsed_offset_if_unset
       (Handle (h_initialized h) (h_obj_gen h) (h_value h) (h_parsed_offset h) (Some template)) offset"

definition is_indirect :: "handle \<Rightarrow> bool" where
  "is_indirect h = (case h_obj_gen h of None \<Rightarrow> False | Some og \<Rightarrow> og_is_indirect og)"

definition as_boolean :: "handle \<Rightarrow> bool option" where
  "as_boolean h = (case h_value h of V_Boolean b \<Rightarrow> Some b | _ \<Rightarrow> None)"

definition as_integer :: "handle \<Rightarrow> int option" where
  "as_integer h = (case h_value h of V_Integer i \<Rightarrow> Some i | _ \<Rightarrow> None)"

definition as_name :: "handle \<Rightarrow> bytes option" where
  "as_name h = (case h_value h of V_Name n \<Rightarrow> Some n | _ \<Rightarrow> None)"

definition as_string :: "handle \<Rightarrow> bytes option" where
  "as_string h = (case h_value h of V_String s \<Rightarrow> Some s | _ \<Rightarrow> None)"

definition handle_is_null :: "handle \<Rightarrow> bool" where
  "handle_is_null h = (h_value h = V_Null)"

definition as_array :: "handle \<Rightarrow> handle list option" where
  "as_array h = (case h_value h of V_Array cs \<Rightarrow> Some cs | _ \<Rightarrow> None)"

definition as_dictionary :: "handle \<Rightarrow> (bytes \<times> handle) list option" where
  "as_dictionary h = (case h_value h of V_Dictionary m \<Rightarrow> Some m | _ \<Rightarrow> None)"

definition is_reserved :: "handle \<Rightarrow> bool" where
  "is_reserved h = (h_value h = V_Reserved)"

section \<open>Resolution\<close>

text \<open>
  What the owning document stores for an identity. The resolver writes it into the slot; here it is the
  value the slot has from then on. A handle without a document resolves to the error of a dropped one.
\<close>

type_synonym document = "qpdf_obj_gen \<Rightarrow> error + object_value"

definition no_document :: document where
  "no_document og =
     Inl (Internal (str ''object '' @ decimal_int (get_obj og) @ str '' '' @ decimal_int (get_gen og) @
       str '' belongs to a dropped PDF''))"

definition try_dereference :: "document \<Rightarrow> handle \<Rightarrow> error + object_value" where
  "try_dereference doc h =
     (if \<not> h_initialized h
      then Inl (Internal (str ''attempted to dereference an uninitialized QPDFObjectHandle''))
      else case h_obj_gen h of
        None \<Rightarrow> Inr (h_value h)
      | Some og \<Rightarrow> if h_value h = V_Unresolved then doc og else Inr (h_value h))"

definition try_is_null :: "document \<Rightarrow> handle \<Rightarrow> error + bool" where
  "try_is_null doc h =
     (if \<not> h_initialized h then Inr False
      else map_sum id (\<lambda>v. v = V_Null) (try_dereference doc h))"

definition try_is_string :: "document \<Rightarrow> handle \<Rightarrow> error + bool" where
  "try_is_string doc h =
     (if \<not> h_initialized h then Inr False
      else map_sum id (\<lambda>v. case v of V_String s \<Rightarrow> True | _ \<Rightarrow> False) (try_dereference doc h))"

definition try_is_name_and_equals :: "document \<Rightarrow> handle \<Rightarrow> bytes \<Rightarrow> error + bool" where
  "try_is_name_and_equals doc h name = map_sum id (\<lambda>v. v = V_Name name) (try_dereference doc h)"

section \<open>Descriptions\<close>

fun replace_first :: "bytes \<Rightarrow> bytes \<Rightarrow> bytes \<Rightarrow> bytes" where
  "replace_first [] needle replacement = []"
| "replace_first (b # bs) needle replacement =
     (if take (length needle) (b # bs) = needle then replacement @ drop (length needle) (b # bs)
      else b # replace_first bs needle replacement)"

definition expand_description_template ::
  "bytes \<Rightarrow> qpdf_obj_gen option \<Rightarrow> object_value \<Rightarrow> int \<Rightarrow> bytes" where
  "expand_description_template template og v parsed_offset =
     (let og_text = (case og of None \<Rightarrow> [] | Some og \<Rightarrow> decimal_int (get_obj og) @ str '' '' @ decimal_int (get_gen og));
          shift = (case v of V_Dictionary m \<Rightarrow> 2 | V_Stream d \<Rightarrow> 2 | V_Array cs \<Rightarrow> 1 | _ \<Rightarrow> 0);
          offset_text = decimal_int (if parsed_offset \<ge> 0 then parsed_offset + shift else parsed_offset)
      in replace_first (replace_first template (str ''$OG'') og_text) (str ''$PO'') offset_text)"

definition get_description :: "handle \<Rightarrow> bytes" where
  "get_description h =
     (case h_description h of
        Some template \<Rightarrow> expand_description_template template (h_obj_gen h) (h_value h) (h_parsed_offset h)
      | None \<Rightarrow>
          (case h_obj_gen h of
             Some og \<Rightarrow> str ''object '' @ decimal_int (get_obj og) @ str '' '' @ decimal_int (get_gen og)
           | None \<Rightarrow> []))"

section \<open>The content of a handle\<close>

text \<open>
  The object a handle stands for in the syntax of a file, without offsets and descriptions: an indirect
  handle is its reference.
\<close>

datatype pdf_object =
    O_Null | O_Boolean bool | O_Integer int | O_Real bytes | O_Name bytes | O_String bytes
  | O_Operator bytes | O_InlineImage bytes
  | O_Array "pdf_object list"
  | O_Dictionary "(bytes \<times> pdf_object) list"
  | O_Stream pdf_object
  | O_Reference int int
  | O_Sentinel nat

fun content :: "handle \<Rightarrow> pdf_object" and value_content :: "object_value \<Rightarrow> pdf_object" where
  "content (Handle i og v off d) =
     (case og of
        None \<Rightarrow> value_content v
      | Some og \<Rightarrow> if og_is_indirect og then O_Reference (get_obj og) (get_gen og) else value_content v)"
| "value_content V_Null = O_Null"
| "value_content V_Unresolved = O_Sentinel 13"
| "value_content V_Reserved = O_Sentinel 1"
| "value_content V_Destroyed = O_Sentinel 14"
| "value_content (V_Boolean b) = O_Boolean b"
| "value_content (V_Integer i) = O_Integer i"
| "value_content (V_Real r) = O_Real r"
| "value_content (V_Name n) = O_Name n"
| "value_content (V_String s) = O_String s"
| "value_content (V_Operator p) = O_Operator p"
| "value_content (V_InlineImage d) = O_InlineImage d"
| "value_content (V_Array cs) = O_Array (map content cs)"
| "value_content (V_Dictionary m) = O_Dictionary (map (map_prod id content) m)"
| "value_content (V_Stream d) = O_Stream (content d)"

lemma content_direct: "h_obj_gen h = None \<Longrightarrow> content h = value_content (h_value h)"
  by (cases h) simp

lemma content_offset [simp]: "content (set_parsed_offset_if_unset h off) = content h"
  by (cases h) (simp add: set_parsed_offset_if_unset_def)

lemma content_described [simp]: "content (set_shared_description h d off) = content h"
  by (cases h) (simp add: set_shared_description_def)

lemma content_null [simp]: "content handle_null = O_Null"
  by (simp add: handle_null_def new_direct_def canonicalize_object_value_def)

lemma content_new_direct: "canonicalize_object_value v = v \<Longrightarrow> content (new_direct v off) = value_content v"
  by (simp add: new_direct_def)

end
