(* ===== verification/Live_Source.thy ===== *)
theory Live_Source
  imports Tokenizer_Roundtrip
begin

text \<open>
  The token source of the object parser, \<open>SliceLiveInput\<close> and \<open>LiveTokenSource\<close> of
  \<open>crates/flpdf/src/parser.rs\<close>: the input is read byte by byte into the push tokenizer, the delimiter that
  ended a token is given back, and the token carries its position in the input. Reading ends for every
  input, a token that is not the end of the input takes at least one byte of it, and a token of the grammar
  is read as itself after any whitespace.
\<close>

section \<open>The input\<close>

record slice_input =
  sl_bytes :: bytes
  sl_position :: nat

definition slice_new :: "bytes \<Rightarrow> slice_input" where
  "slice_new bs = \<lparr>sl_bytes = bs, sl_position = 0\<rparr>"

definition slice_seek :: "slice_input \<Rightarrow> nat \<Rightarrow> error + slice_input" where
  "slice_seek s offset =
     (if offset > length (sl_bytes s) then Inl (Parse offset (str ''seek past end of parser input''))
      else Inr (s\<lparr>sl_position := offset\<rparr>))"

definition slice_read_byte :: "slice_input \<Rightarrow> byte option \<times> slice_input" where
  "slice_read_byte s =
     (if sl_position s < length (sl_bytes s)
      then (Some (sl_bytes s ! sl_position s), s\<lparr>sl_position := sl_position s + 1\<rparr>)
      else (None, s))"

definition slice_unread_byte :: "slice_input \<Rightarrow> error + slice_input" where
  "slice_unread_byte s =
     (if sl_position s = 0 then Inl (Internal (str ''live tokenizer unread before input start''))
      else Inr (s\<lparr>sl_position := sl_position s - 1\<rparr>))"

section \<open>The token source\<close>

record live_source =
  ls_input :: slice_input
  ls_tokenizer :: tokenizer
  ls_last_offset :: nat

definition live_source_new :: "slice_input \<Rightarrow> live_source" where
  "live_source_new inp =
     \<lparr>ls_input = inp, ls_tokenizer = allow_eof (tokenizer_new []), ls_last_offset = 0\<rparr>"

definition live_state_error :: "tokenizer_state_error \<Rightarrow> error" where
  "live_state_error e =
     Internal (str ''live tokenizer state error: '' @
       (case e of TokenWaiting \<Rightarrow> str ''TokenWaiting'' | ImproperInlineImageState \<Rightarrow> str ''ImproperInlineImageState''))"

text \<open>
  One round of the reading loop: a byte, or the end of the input, goes to the tokenizer. The loop goes on
  while the tokenizer has no token.
\<close>

definition present_next :: "live_source \<Rightarrow> error + live_source" where
  "present_next s =
     (case slice_read_byte (ls_input s) of
        (Some b, inp) \<Rightarrow>
          map_sum live_state_error (\<lambda>t. s\<lparr>ls_input := inp, ls_tokenizer := t\<rparr>) (present_character (ls_tokenizer s) b)
      | (None, inp) \<Rightarrow>
          map_sum live_state_error (\<lambda>t. s\<lparr>ls_input := inp, ls_tokenizer := t\<rparr>) (present_eof (ls_tokenizer s)))"

function fill_token :: "live_source \<Rightarrow> error + live_source" where
  "fill_token s =
     (case present_next s of
        Inl e \<Rightarrow> Inl e
      | Inr s' \<Rightarrow> if tk_state (ls_tokenizer s') = S_TokenReady then Inr s' else fill_token s')"
  by pat_completeness auto
termination
proof (relation "measure (\<lambda>s. length (sl_bytes (ls_input s)) - sl_position (ls_input s))")
  fix s s'
  assume "present_next s = Inr s'" "tk_state (ls_tokenizer s') \<noteq> S_TokenReady"
  then show "(s', s) \<in> measure (\<lambda>s. length (sl_bytes (ls_input s)) - sl_position (ls_input s))"
    by (cases "present_eof (ls_tokenizer s)"; cases "sl_position (ls_input s) < length (sl_bytes (ls_input s))";
        cases "present_character (ls_tokenizer s) (sl_bytes (ls_input s) ! sl_position (ls_input s))")
      (auto simp: present_next_def slice_read_byte_def dest!: present_eof_frame)
qed simp

declare fill_token.simps [simp del]

definition set_token_offsets :: "live_source \<Rightarrow> nat \<Rightarrow> byte option \<Rightarrow> error + (nat \<times> nat) \<times> live_source" where
  "set_token_offsets s raw_len unread =
     (case (if unread = None then Inr (ls_input s) else slice_unread_byte (ls_input s)) of
        Inl e \<Rightarrow> Inl e
      | Inr inp \<Rightarrow> Inr ((sl_position inp - raw_len, sl_position inp), s\<lparr>ls_input := inp\<rparr>))"

definition with_token_offsets ::
  "live_source \<Rightarrow> nat \<Rightarrow> byte option \<Rightarrow> (nat \<Rightarrow> nat \<Rightarrow> 'a) \<Rightarrow> error + 'a \<times> live_source" where
  "with_token_offsets s raw_len unread f =
     (case set_token_offsets s raw_len unread of
        Inl e \<Rightarrow> Inl e
      | Inr ((start, end'), s) \<Rightarrow> Inr (f start end', s\<lparr>ls_last_offset := start\<rparr>))"

text \<open>\<open>next_token\<close>: the full token.\<close>

definition full_token :: "token \<Rightarrow> nat \<Rightarrow> nat \<Rightarrow> token" where
  "full_token tok start end' = tok\<lparr>tok_start := start, tok_error_offset := start, tok_end := end'\<rparr>"

definition next_full_token :: "live_source \<Rightarrow> error + token \<times> live_source" where
  "next_full_token s =
     (case fill_token s of
        Inl e \<Rightarrow> Inl e
      | Inr s \<Rightarrow>
          (case get_token (ls_tokenizer s) of
             None \<Rightarrow> Inl (live_state_error TokenWaiting)
           | Some (pushed, t) \<Rightarrow>
               with_token_offsets (s\<lparr>ls_tokenizer := t\<rparr>) (length (tok_raw (pt_token pushed))) (pt_unread pushed)
                 (full_token (pt_token pushed))))"

text \<open>\<open>next_live_token\<close>: integers, booleans and punctuation without their text.\<close>

datatype parser_token =
    PT_Integer int nat nat
  | PT_Bool bool nat nat
  | PT_Simple token_type nat nat
  | PT_Owned token

fun pt_type :: "parser_token \<Rightarrow> token_type" where
  "pt_type (PT_Integer v start end') = T_Integer"
| "pt_type (PT_Bool v start end') = T_Bool"
| "pt_type (PT_Simple ty start end') = ty"
| "pt_type (PT_Owned tok) = tok_type tok"

fun pt_start :: "parser_token \<Rightarrow> nat" where
  "pt_start (PT_Integer v start end') = start"
| "pt_start (PT_Bool v start end') = start"
| "pt_start (PT_Simple ty start end') = start"
| "pt_start (PT_Owned tok) = tok_start tok"

fun pt_end :: "parser_token \<Rightarrow> nat" where
  "pt_end (PT_Integer v start end') = end'"
| "pt_end (PT_Bool v start end') = end'"
| "pt_end (PT_Simple ty start end') = end'"
| "pt_end (PT_Owned tok) = tok_end tok"

definition pt_is_word_value :: "parser_token \<Rightarrow> bytes \<Rightarrow> bool" where
  "pt_is_word_value tok v = (case tok of PT_Owned t \<Rightarrow> is_word_value t v | _ \<Rightarrow> False)"

definition next_live_token :: "live_source \<Rightarrow> error + parser_token \<times> live_source" where
  "next_live_token s =
     (case fill_token s of
        Inl e \<Rightarrow> Inl e
      | Inr s \<Rightarrow>
          (case get_live_token (ls_tokenizer s) of
             Some (LiveInteger r raw_len unread, t) \<Rightarrow>
               (case with_token_offsets (s\<lparr>ls_tokenizer := t\<rparr>) raw_len unread (\<lambda>start end'. (start, end')) of
                  Inl e \<Rightarrow> Inl e
                | Inr ((start, end'), s) \<Rightarrow>
                    (case r of Inl e \<Rightarrow> Inl e | Inr v \<Rightarrow> Inr (PT_Integer v start end', s)))
           | Some (LiveBool v raw_len unread, t) \<Rightarrow>
               with_token_offsets (s\<lparr>ls_tokenizer := t\<rparr>) raw_len unread (PT_Bool v)
           | Some (LiveSimple ty raw_len unread, t) \<Rightarrow>
               with_token_offsets (s\<lparr>ls_tokenizer := t\<rparr>) raw_len unread (PT_Simple ty)
           | Some (LiveOwned ty v message raw_len unread, t) \<Rightarrow>
               with_token_offsets (s\<lparr>ls_tokenizer := t\<rparr>) raw_len unread
                 (\<lambda>start end'. PT_Owned (from_parts ty v [] message start end'))
           | None \<Rightarrow>
               (case get_token (ls_tokenizer s) of
                  None \<Rightarrow> Inl (live_state_error TokenWaiting)
                | Some (pushed, t) \<Rightarrow>
                    with_token_offsets (s\<lparr>ls_tokenizer := t\<rparr>) (length (tok_raw (pt_token pushed))) (pt_unread pushed)
                      (\<lambda>start end'. PT_Owned (full_token (pt_token pushed) start end')))))"

definition live_seek :: "live_source \<Rightarrow> nat \<Rightarrow> error + live_source" where
  "live_seek s offset = map_sum id (\<lambda>inp. s\<lparr>ls_input := inp\<rparr>) (slice_seek (ls_input s) offset)"

section \<open>Progress\<close>

abbreviation ls_position :: "live_source \<Rightarrow> nat" where
  "ls_position s \<equiv> sl_position (ls_input s)"

abbreviation ls_bytes :: "live_source \<Rightarrow> bytes" where
  "ls_bytes s \<equiv> sl_bytes (ls_input s)"

text \<open>Between two tokens the tokenizer is as \<open>reset\<close> left it.\<close>

definition source_idle :: "tokenizer \<Rightarrow> bool" where
  "source_idle t \<longleftrightarrow> t = allow_eof (tokenizer_new [])"

definition source_ok :: "live_source \<Rightarrow> bool" where
  "source_ok s \<longleftrightarrow> source_idle (ls_tokenizer s) \<and> ls_position s \<le> length (ls_bytes s)"

lemma source_ok_new: "source_ok (live_source_new (slice_new bs))"
  by (simp add: source_ok_def source_idle_def live_source_new_def slice_new_def)

text \<open>
  Inside a token: the tokenizer is in its mode for objects, and either still before the token, or inside
  it, or it has read more than one byte.
\<close>

definition object_mode :: "tokenizer \<Rightarrow> bool" where
  "object_mode t \<longleftrightarrow>
     \<not> tk_include_ignorable t \<and> tk_state t \<notin> {S_InSpace, S_InlineImage} \<and>
     (tk_state t \<in> {S_BeforeToken, S_InComment} \<longrightarrow> tk_before_token t \<and> \<not> tk_in_token t)"

lemmas character_handlers = handle_character_def in_space_def in_comment_def in_lt_def in_gt_def in_number_def
  in_real_def in_string_after_cr_def in_string_escape_def in_inline_image_def in_hex_string_second_def
  in_name_hex1_def in_name_hex2_def in_sign_def in_decimal_def in_before_token_def in_string_def in_name_def
  in_literal_def in_hex_string_def in_char_code_def in_top_def

lemma handle_character_mode:
  assumes "object_mode t" "tk_state t \<noteq> S_TokenReady"
  shows "object_mode (handle_character t b) \<and>
    (tk_before_token t \<longrightarrow> tk_before_token (handle_character t b) \<or> tk_in_token (handle_character t b))"
  using assms
  by (cases "tk_state t")
    (simp_all add: object_mode_def character_handlers Let_def split: option.split)

text \<open>The text of an integer token.\<close>

definition integer_text :: "bytes \<Rightarrow> bool" where
  "integer_text raw \<longleftrightarrow>
     (\<exists>sign ds. raw = sign @ ds \<and> sign \<in> {[], [0x2B], [0x2D]} \<and> ds \<noteq> [] \<and> list_all is_ascii_digit ds)"

definition number_mode :: "tokenizer \<Rightarrow> bool" where
  "number_mode t \<longleftrightarrow>
     (tk_state t \<in> {S_BeforeToken, S_InComment} \<longrightarrow> tk_raw t = [] \<and> \<not> tk_in_token t) \<and>
     (tk_state t = S_Sign \<longrightarrow> tk_raw t = [0x2B] \<or> tk_raw t = [0x2D]) \<and>
     (tk_state t = S_Number \<longrightarrow> integer_text (tk_raw t)) \<and>
     (tk_state t \<in> {S_Sign, S_Number} \<longrightarrow> tk_in_token t) \<and>
     (tk_token_type t = T_Integer \<longrightarrow> tk_state t = S_TokenReady \<and> integer_text (tk_raw t))"

lemma integer_text_digit: "is_ascii_digit b \<Longrightarrow> integer_text [b]"
  unfolding integer_text_def by (intro exI [of _ "[]"] exI [of _ "[b]"]) simp

lemma integer_text_signed: "raw = [0x2B] \<or> raw = [0x2D] \<Longrightarrow> is_ascii_digit b \<Longrightarrow> integer_text (raw @ [b])"
  unfolding integer_text_def by (intro exI [of _ raw] exI [of _ "[b]"]) auto

lemma integer_text_more:
  assumes "integer_text raw" "is_ascii_digit b"
  shows "integer_text (raw @ [b])"
proof -
  obtain sign ds where "raw = sign @ ds" "sign \<in> {[], [0x2B], [0x2D]}" "ds \<noteq> []" "list_all is_ascii_digit ds"
    using assms(1) unfolding integer_text_def by blast
  then show ?thesis
    unfolding integer_text_def using assms(2) by (intro exI [of _ sign] exI [of _ "ds @ [b]"]) simp
qed

text \<open>Outside numbers no integer is in the making.\<close>

definition number_free :: "tokenizer \<Rightarrow> bool" where
  "number_free t \<longleftrightarrow>
     tk_state t \<notin> {S_BeforeToken, S_InComment, S_Sign, S_Number} \<and> tk_token_type t \<noteq> T_Integer"

lemma number_free_mode: "number_free t \<Longrightarrow> number_mode t"
  by (auto simp: number_free_def number_mode_def)

lemma number_free_raw [simp]: "number_free (t\<lparr>tk_raw := r\<rparr>) = number_free t"
  by (simp add: number_free_def)

lemma handle_number_free:
  "number_free t \<Longrightarrow> tk_state t \<notin> {S_TokenReady, S_InSpace} \<Longrightarrow> number_free (handle_character t b)"
  by (cases "tk_state t") (simp_all add: number_free_def character_handlers Let_def split: option.split)

lemma in_literal_number_free: "number_free (in_literal (t\<lparr>tk_state := S_Literal\<rparr>) b)" if "tk_token_type t \<noteq> T_Integer"
  using that by (simp add: number_free_def in_literal_def)

lemma present_character_number:
  assumes "number_mode t" "object_mode t" "present_character t b = Inr u"
  shows "number_mode u"
proof -
  have ready: "tk_state t \<noteq> S_TokenReady" using assms(3) by (auto simp: present_character_def)
  let ?u = "handle_character t b"
  have u: "u = (if tk_in_token ?u then ?u\<lparr>tk_raw := tk_raw t @ [b]\<rparr> else ?u)"
    using assms(3) ready by (auto simp: present_character_def Let_def)
  have ty: "tk_token_type t \<noteq> T_Integer" using assms(1) ready by (auto simp: number_mode_def)
  have free: "number_free ?u \<Longrightarrow> number_mode u" using u by (simp add: number_free_mode)
  note mode = assms(1,2) [unfolded number_mode_def object_mode_def]
  consider "tk_state t = S_BeforeToken" | "tk_state t = S_InComment" | "tk_state t = S_Sign" | "tk_state t = S_Number"
    | "number_free t" using ty by (auto simp: number_free_def)
  then show ?thesis
  proof cases
    case 1
    then have raw: "tk_raw t = []" "\<not> tk_include_ignorable t" using mode by simp_all
    consider "is_ws b \<or> b = 0x25" | "is_ascii_digit b" "\<not> is_ws b" "b \<noteq> 0x25" | "b = 0x2B \<or> b = 0x2D" "\<not> is_ws b"
      | "\<not> is_ws b" "b \<noteq> 0x25" "\<not> is_ascii_digit b" "b \<noteq> 0x2B" "b \<noteq> 0x2D"
      by blast
    then show ?thesis
    proof cases
      case 1
      then show ?thesis using \<open>tk_state t = S_BeforeToken\<close> raw ty u
        by (auto simp: number_mode_def handle_character_def in_before_token_def Let_def)
    next
      case 2
      then have "?u = t\<lparr>tk_before_token := False, tk_in_token := True, tk_state := S_Number\<rparr>"
        using \<open>tk_state t = S_BeforeToken\<close> digit_not_top [of b]
        by (simp add: handle_character_def in_before_token_def in_top_def)
      then show ?thesis using u raw ty 2(1) by (simp add: number_mode_def integer_text_digit)
    next
      case 3
      have "\<not> is_ascii_digit b" using 3(1) by (elim disjE) (simp_all add: is_ascii_digit_def)
      then have "in_top s b = s\<lparr>tk_state := S_Sign\<rparr>" for s using 3(1) by (elim disjE) (simp_all add: in_top_def)
      moreover have "b \<noteq> 0x25" using 3(1) by (elim disjE) simp_all
      ultimately have "?u = t\<lparr>tk_before_token := False, tk_in_token := True, tk_state := S_Sign\<rparr>"
        using \<open>tk_state t = S_BeforeToken\<close> 3(2) by (simp add: handle_character_def in_before_token_def)
      then have "u = t\<lparr>tk_before_token := False, tk_in_token := True, tk_state := S_Sign, tk_raw := [b]\<rparr>"
        using u raw by simp
      then show ?thesis using ty 3(1) by (simp add: number_mode_def)
    next
      case 4
      then have "number_free ?u" using \<open>tk_state t = S_BeforeToken\<close> ty
        by (simp add: number_free_def handle_character_def in_before_token_def in_top_def)
      then show ?thesis by (rule free)
    qed
  next
    case 2
    then show ?thesis using mode u ty by (simp add: number_mode_def handle_character_def in_comment_def)
  next
    case 3
    then have raw: "tk_raw t = [0x2B] \<or> tk_raw t = [0x2D]" "tk_in_token t" using mode by simp_all
    show ?thesis
    proof (cases "is_ascii_digit b")
      case True
      then show ?thesis using 3 u raw ty integer_text_signed [OF raw(1) True]
        by (simp add: number_mode_def handle_character_def in_sign_def)
    next
      case False
      then have "number_free ?u" using 3 ty in_literal_number_free [OF ty, of b]
        by (simp add: number_free_def handle_character_def in_sign_def)
      then show ?thesis by (rule free)
    qed
  next
    case 4
    then have raw: "integer_text (tk_raw t)" "tk_in_token t" using mode by simp_all
    show ?thesis
      using 4 u raw ty integer_text_more [OF raw(1), of b]
      by (simp add: number_mode_def handle_character_def in_number_def split: if_splits)
  next
    case 5
    then show ?thesis using handle_number_free [OF 5, of b] ready mode free by (simp add: object_mode_def)
  qed
qed

lemma present_eof_number:
  assumes "number_mode t" "object_mode t" "present_eof t = Inr u"
  shows "tk_token_type u = T_Integer \<longrightarrow> integer_text (tk_raw u)"
proof (cases "tk_state t \<in> {S_Name, S_NameHex1, S_NameHex2, S_Number, S_Real, S_Sign, S_Decimal, S_Literal}")
  case True
  then obtain v where v: "present_character t 0x0C = Inr v" "tk_token_type u = tk_token_type v" "tk_raw u = tk_raw v"
    using assms(3) by (auto simp: present_eof_def split: sum.splits)
  have "number_mode v" by (rule present_character_number [OF assms(1,2) v(1)])
  then show ?thesis using v by (simp add: number_mode_def)
next
  case False
  then have "tk_token_type u = T_Integer \<Longrightarrow> u = t"
    using assms(3) by (cases "tk_state t") (auto simp: present_eof_def split: if_splits)
  then show ?thesis using assms(1) by (auto simp: number_mode_def)
qed

text \<open>The value of a name token starts with its slash.\<close>

definition slashed :: "bytes \<Rightarrow> bool" where
  "slashed v \<longleftrightarrow> v \<noteq> [] \<and> hd v = 0x2F"

lemma slashed_append [simp]: "slashed v \<Longrightarrow> slashed (v @ ys)"
  by (simp add: slashed_def)

lemma slashed_single [simp]: "slashed [0x2F]"
  by (simp add: slashed_def)

definition name_mode :: "tokenizer \<Rightarrow> bool" where
  "name_mode t \<longleftrightarrow>
     (tk_state t \<in> {S_BeforeToken, S_InComment} \<longrightarrow> tk_value t = []) \<and>
     (tk_state t \<in> {S_Name, S_NameHex1, S_NameHex2} \<longrightarrow> slashed (tk_value t)) \<and>
     (tk_token_type t = T_Name \<longrightarrow> tk_state t = S_TokenReady \<and> slashed (tk_value t))"

lemma name_mode_raw [simp]: "name_mode (t\<lparr>tk_raw := r\<rparr>) = name_mode t"
  by (simp add: name_mode_def)

definition name_free :: "tokenizer \<Rightarrow> bool" where
  "name_free t \<longleftrightarrow>
     tk_state t \<notin> {S_BeforeToken, S_InComment, S_Name, S_NameHex1, S_NameHex2} \<and> tk_token_type t \<noteq> T_Name"

lemma name_free_mode: "name_free t \<Longrightarrow> name_mode t"
  by (auto simp: name_free_def name_mode_def)

lemma handle_name_free:
  "name_free t \<Longrightarrow> tk_state t \<notin> {S_TokenReady, S_InSpace} \<Longrightarrow> name_free (handle_character t b)"
  by (cases "tk_state t") (simp_all add: name_free_def character_handlers Let_def split: option.split)


lemma in_name_mode:
  "tk_state t = S_Name \<Longrightarrow> slashed (tk_value t) \<Longrightarrow> tk_token_type t \<noteq> T_Name \<Longrightarrow> name_mode (in_name t b)"
  by (simp add: name_mode_def in_name_def)

lemma present_character_name:
  assumes "name_mode t" "object_mode t" "present_character t b = Inr u"
  shows "name_mode u"
proof -
  have ready: "tk_state t \<noteq> S_TokenReady" using assms(3) by (auto simp: present_character_def)
  let ?u = "handle_character t b"
  have "u = (if tk_in_token ?u then ?u\<lparr>tk_raw := tk_raw t @ [b]\<rparr> else ?u)"
    using assms(3) ready by (auto simp: present_character_def Let_def)
  then have "name_mode u = name_mode ?u" by (simp split: if_splits)
  moreover have "name_mode ?u"
  proof -
    have ty: "tk_token_type t \<noteq> T_Name" using assms(1) ready by (auto simp: name_mode_def)
    note mode = assms(1,2) [unfolded name_mode_def object_mode_def]
    consider "tk_state t = S_BeforeToken" | "tk_state t = S_InComment" | "tk_state t = S_Name" | "tk_state t = S_NameHex1"
      | "tk_state t = S_NameHex2" | "name_free t" using ty by (auto simp: name_free_def)
    then show ?thesis
    proof cases
      case 1
      then show ?thesis using mode ty
        by (simp add: name_mode_def handle_character_def in_before_token_def in_top_def Let_def)
    next
      case 2
      then show ?thesis using mode ty by (simp add: name_mode_def handle_character_def in_comment_def)
    next
      case 3
      then show ?thesis using mode ty in_name_mode [of t b] by (simp add: handle_character_def)
    next
      case 4
      then have v: "slashed (tk_value t @ [0])" using mode by (intro slashed_append) simp
      show ?thesis
      proof (cases "hex_value b")
        case None
        then show ?thesis using 4 ty v unfolding handle_character_def in_name_hex1_def Let_def
          by simp (rule in_name_mode, simp_all)
      next
        case (Some x)
        then show ?thesis using 4 mode ty
          by (simp add: name_mode_def handle_character_def in_name_hex1_def Let_def)
      qed
    next
      case 5
      then have v: "slashed (tk_value t @ ys)" for ys using mode by (intro slashed_append) simp
      show ?thesis
      proof (cases "hex_value b")
        case None
        then show ?thesis using 5 ty v unfolding handle_character_def in_name_hex2_def Let_def
          by simp (rule in_name_mode, simp_all)
      next
        case (Some x)
        then show ?thesis using 5 v ty
          by (simp add: name_mode_def handle_character_def in_name_hex2_def Let_def)
      qed
    next
      case 6
      then show ?thesis using handle_name_free [OF 6, of b] ready mode name_free_mode by (simp add: object_mode_def)
    qed
  qed
  ultimately show ?thesis by simp
qed

lemma present_eof_name:
  assumes "name_mode t" "object_mode t" "present_eof t = Inr u"
  shows "tk_token_type u = T_Name \<longrightarrow> slashed (tk_value u)"
proof (cases "tk_state t \<in> {S_Name, S_NameHex1, S_NameHex2, S_Number, S_Real, S_Sign, S_Decimal, S_Literal}")
  case True
  then obtain v where v: "present_character t 0x0C = Inr v" "tk_token_type u = tk_token_type v" "tk_value u = tk_value v"
    using assms(3) by (auto simp: present_eof_def split: sum.splits)
  have "name_mode v" by (rule present_character_name [OF assms(1,2) v(1)])
  then show ?thesis using v by (simp add: name_mode_def)
next
  case False
  then have "tk_token_type u = T_Name \<Longrightarrow> u = t"
    using assms(3) by (cases "tk_state t") (auto simp: present_eof_def split: if_splits)
  then show ?thesis using assms(1) by (auto simp: name_mode_def)
qed

definition reading :: "nat \<Rightarrow> live_source \<Rightarrow> bool" where
  "reading p s \<longleftrightarrow>
     object_mode (ls_tokenizer s) \<and> number_mode (ls_tokenizer s) \<and> name_mode (ls_tokenizer s) \<and>
     p \<le> ls_position s \<and> ls_position s \<le> length (ls_bytes s) \<and>
     tk_input (ls_tokenizer s) = [] \<and> tk_pos (ls_tokenizer s) = 0 \<and> tk_allow_eof (ls_tokenizer s) \<and>
     (tk_state (ls_tokenizer s) = S_BeforeToken \<or> p < ls_position s) \<and>
     (tk_before_token (ls_tokenizer s) \<or> tk_in_token (ls_tokenizer s) \<or> p + 2 \<le> ls_position s) \<and>
     (p < ls_position s \<or> tk_before_token (ls_tokenizer s))"

lemma reading_start: "source_ok s \<Longrightarrow> reading (ls_position s) s"
  by (simp add: source_ok_def source_idle_def reading_def object_mode_def number_mode_def name_mode_def
      allow_eof_def tokenizer_new_def)

text \<open>What a ready token leaves: a byte to give back only after two, and no progress only at the end.\<close>

definition token_read :: "nat \<Rightarrow> live_source \<Rightarrow> bool" where
  "token_read p s \<longleftrightarrow>
     tk_state (ls_tokenizer s) = S_TokenReady \<and> tk_reset (ls_tokenizer s) = allow_eof (tokenizer_new []) \<and>
     p \<le> ls_position s \<and> ls_position s \<le> length (ls_bytes s) \<and>
     (unread_byte (ls_tokenizer s) = None \<or> p + 2 \<le> ls_position s) \<and>
     (tk_token_type (ls_tokenizer s) = T_Eof \<or> p < ls_position s) \<and>
     (tk_token_type (ls_tokenizer s) = T_Integer \<longrightarrow> integer_text (tk_raw (ls_tokenizer s))) \<and>
     (tk_token_type (ls_tokenizer s) = T_Name \<longrightarrow> slashed (tk_value (ls_tokenizer s)))"

lemma reset_object_tokenizer:
  "tk_input t = [] \<Longrightarrow> tk_pos t = 0 \<Longrightarrow> tk_allow_eof t \<Longrightarrow> \<not> tk_include_ignorable t \<Longrightarrow>
   tk_reset t = allow_eof (tokenizer_new [])"
  by (simp add: tk_reset_def allow_eof_def tokenizer_new_def)

lemma present_byte:
  assumes "reading p s" "tk_state (ls_tokenizer s) \<noteq> S_TokenReady" "ls_position s < length (ls_bytes s)"
  shows "\<exists>s'. present_next s = Inr s' \<and> ls_bytes s' = ls_bytes s \<and> ls_position s' = ls_position s + 1 \<and>
    ls_last_offset s' = ls_last_offset s \<and>
    (if tk_state (ls_tokenizer s') = S_TokenReady then token_read p s' else reading p s')"
proof -
  let ?b = "ls_bytes s ! ls_position s"
  let ?u = "handle_character (ls_tokenizer s) ?b"
  let ?t = "if tk_in_token ?u then ?u\<lparr>tk_raw := tk_raw (ls_tokenizer s) @ [?b]\<rparr> else ?u"
  let ?s = "s\<lparr>ls_input := (ls_input s)\<lparr>sl_position := ls_position s + 1\<rparr>, ls_tokenizer := ?t\<rparr>"
  have nx: "present_next s = Inr ?s"
    using assms(2,3) by (simp add: present_next_def slice_read_byte_def present_character_def Let_def)
  have mode: "object_mode ?u" "tk_before_token (ls_tokenizer s) \<Longrightarrow> tk_before_token ?u \<or> tk_in_token ?u"
    using handle_character_mode [of "ls_tokenizer s" ?b] assms(1,2) by (auto simp: reading_def)
  have "object_mode ?t" using mode(1) by (auto simp: object_mode_def)
  moreover have "number_mode ?t"
    using present_character_number [of "ls_tokenizer s" ?b ?t] assms(1,2)
    by (simp add: reading_def present_character_def Let_def)
  moreover have "name_mode ?t"
    using present_character_name [of "ls_tokenizer s" ?b ?t] assms(1,2)
    by (simp add: reading_def present_character_def Let_def)
  moreover have "tk_before_token ?t \<or> tk_in_token ?t \<or> p + 2 \<le> ls_position ?s"
    using assms(1) mode(2) by (auto simp: reading_def)
  moreover have "tk_input ?t = []" "tk_pos ?t = 0" "tk_allow_eof ?t" "p \<le> ls_position s"
    using assms(1) by (simp_all add: reading_def)
  moreover have "unread_byte ?t = None \<or> p + 2 \<le> ls_position ?s"
    using calculation(4) by (auto simp: unread_byte_def)
  moreover have "tk_reset ?t = allow_eof (tokenizer_new [])"
    using calculation(1,5,6,7) by (intro reset_object_tokenizer) (auto simp: object_mode_def)
  moreover have "tk_token_type ?t = T_Integer \<longrightarrow> integer_text (tk_raw ?t)"
    using calculation(2) by (auto simp: number_mode_def)
  moreover have "tk_token_type ?t = T_Name \<longrightarrow> slashed (tk_value ?t)"
    using calculation(3) by (auto simp: name_mode_def)
  ultimately show ?thesis
    using assms(3) nx unfolding reading_def token_read_def by (intro exI [of _ ?s] conjI) auto
qed

lemma present_end:
  assumes "reading p s" "tk_state (ls_tokenizer s) \<noteq> S_TokenReady" "\<not> ls_position s < length (ls_bytes s)"
  shows "\<exists>s'. present_next s = Inr s' \<and> ls_bytes s' = ls_bytes s \<and> ls_position s' = ls_position s \<and>
    ls_last_offset s' = ls_last_offset s \<and> token_read p s'"
proof -
  obtain t where t: "present_eof (ls_tokenizer s) = Inr t"
    using assms(2) by (cases "present_eof (ls_tokenizer s)")
      (auto simp: present_eof_def present_character_def Let_def split: if_splits)
  let ?s = "s\<lparr>ls_tokenizer := t\<rparr>"
  have nx: "present_next s = Inr ?s"
    using assms(3) t by (simp add: present_next_def slice_read_byte_def)
  have fields: "tk_input t = []" "tk_pos t = 0" "tk_allow_eof t" "\<not> tk_include_ignorable t" "tk_state t = S_TokenReady"
    using present_eof_frame [OF t] assms(1) by (auto simp: reading_def object_mode_def)
  have unread: "unread_byte t = None \<or> p + 2 \<le> ls_position s"
    using t assms(1,2)
    by (auto simp: present_eof_def present_character_def reading_def unread_byte_def object_mode_def Let_def
        split: if_splits)
  have eof: "tk_token_type t = T_Eof \<or> p < ls_position s"
    using t assms(1,2) by (auto simp: present_eof_def reading_def)
  have "tk_token_type t = T_Integer \<longrightarrow> integer_text (tk_raw t)"
    using present_eof_number [OF _ _ t] assms(1) by (simp add: reading_def)
  moreover have "tk_token_type t = T_Name \<longrightarrow> slashed (tk_value t)"
    using present_eof_name [OF _ _ t] assms(1) by (simp add: reading_def)
  ultimately have "token_read p ?s"
    using fields unread eof assms(1) reset_object_tokenizer [of t] by (simp add: token_read_def reading_def)
  with nx show ?thesis by (intro exI [of _ ?s]) simp
qed

lemma fill_token_reads:
  "reading p s \<Longrightarrow> tk_state (ls_tokenizer s) \<noteq> S_TokenReady \<Longrightarrow>
   \<exists>s'. fill_token s = Inr s' \<and> ls_bytes s' = ls_bytes s \<and> ls_last_offset s' = ls_last_offset s \<and> token_read p s'"
proof (induction s rule: fill_token.induct)
  case (1 s)
  show ?case
  proof (cases "ls_position s < length (ls_bytes s)")
    case True
    then obtain s' where s': "present_next s = Inr s'" "ls_bytes s' = ls_bytes s" "ls_last_offset s' = ls_last_offset s"
      "if tk_state (ls_tokenizer s') = S_TokenReady then token_read p s' else reading p s'"
      using present_byte [OF 1(2,3)] by blast
    then show ?thesis
      using 1(1) [OF s'(1)] by (cases "tk_state (ls_tokenizer s') = S_TokenReady") (auto simp: fill_token.simps [of s])
  next
    case False
    then obtain s' where "present_next s = Inr s'" "ls_bytes s' = ls_bytes s" "ls_last_offset s' = ls_last_offset s"
      "token_read p s'"
      using present_end [OF 1(2,3)] by blast
    then show ?thesis by (auto simp: fill_token.simps [of s] token_read_def)
  qed
qed

text \<open>A token: bytes untouched, no step back, and a step forward except at the end of the input.\<close>

lemma with_token_offsets_read:
  assumes "token_read p s"
  shows "\<exists>start end' s'. with_token_offsets (s\<lparr>ls_tokenizer := tk_reset (ls_tokenizer s)\<rparr>) raw_len
      (unread_byte (ls_tokenizer s)) f = Inr (f start end', s') \<and> source_ok s' \<and> ls_bytes s' = ls_bytes s \<and>
    p \<le> ls_position s' \<and> (tk_token_type (ls_tokenizer s) = T_Eof \<or> p < ls_position s') \<and>
    start \<le> ls_position s' \<and> end' = ls_position s' \<and> ls_last_offset s' = start"
  using assms
  by (auto simp: with_token_offsets_def set_token_offsets_def slice_unread_byte_def token_read_def source_ok_def
      source_idle_def)

lemma parse_integer_text:
  assumes "integer_text raw"
  shows "(\<exists>v. parse_integer_bytes raw offset = Inr v \<and> - (2 ^ 63) \<le> v \<and> v < 2 ^ 63) \<or>
    parse_integer_bytes raw offset =
      Inl (System (str ''overflow/underflow converting '' @ raw @ str '' to 64-bit integer''))"
proof -
  obtain sign ds where raw: "raw = sign @ ds" "sign \<in> {[], [0x2B], [0x2D]}" "ds \<noteq> []" "list_all is_ascii_digit ds"
    using assms by (auto simp: integer_text_def)
  have "list_all (\<lambda>b. b < 0x80) raw"
    using raw(2,4) unfolding raw(1) by (auto simp: list_all_iff is_ascii_digit_def word_less_iff_unat word_le_iff_unat)
  then have utf8: "valid_utf8 raw" by (rule valid_utf8_ascii)
  obtain d ds' where d: "ds = d # ds'" "is_ascii_digit d" using raw(3,4) by (cases ds) auto
  then have "d \<noteq> 0x2B" "d \<noteq> 0x2D" by (auto simp: is_ascii_digit_def)
  then have "parse_i64 raw =
      (if sign = [0x2D] then parse_digits (- (2 ^ 63)) (2 ^ 63 - 1) True 0 ds
       else parse_digits (- (2 ^ 63)) (2 ^ 63 - 1) False 0 ds)"
    using raw(1,2) d(1) by (auto simp: parse_i64_def parse_int_def simp del: parse_digits.simps)
  then have "parse_i64 raw =
      (let v = if sign = [0x2D] then - digits_value ds else digits_value ds
       in if - (2 ^ 63) \<le> v \<and> v \<le> 2 ^ 63 - 1 then Inr v else Inl (if sign = [0x2D] then NegOverflow else PosOverflow))"
    using parse_digits_pos [OF raw(4), of 0 "2 ^ 63 - 1" "- (2 ^ 63)"]
      parse_digits_neg [OF raw(4), of 0 "- (2 ^ 63)" "2 ^ 63 - 1"] digits_value_nonneg [of ds]
    by (simp add: Let_def)
  then show ?thesis using utf8 by (auto simp: parse_integer_bytes_def Let_def)
qed

text \<open>The four shapes of a live token, all of them after resetting the tokenizer.\<close>

lemma get_live_token_cases:
  assumes "tk_state t = S_TokenReady"
  obtains
    (integer) "get_live_token t = Some (LiveInteger (parse_integer_bytes (tk_raw t) (tk_token_start t))
        (length (tk_raw t)) (unread_byte t), tk_reset t)" "tk_token_type t = T_Integer"
  | (bool) v where "get_live_token t = Some (LiveBool v (length (tk_raw t)) (unread_byte t), tk_reset t)"
      "tk_token_type t = T_Bool"
  | (simple) "get_live_token t = Some (LiveSimple (tk_token_type t) (length (tk_raw t)) (unread_byte t), tk_reset t)"
      "tk_token_type t \<in> {T_ArrayClose, T_ArrayOpen, T_BraceClose, T_BraceOpen, T_DictClose, T_DictOpen, T_Eof, T_Null}"
  | (owned) v m where
      "get_live_token t = Some (LiveOwned (tk_token_type t) v m (length (tk_raw t)) (unread_byte t), tk_reset t)"
      "tk_token_type t \<in> {T_Name, T_String, T_Real, T_Word, T_Bad}" "tk_token_type t = T_Name \<Longrightarrow> v = tk_value t"
  | (none) "get_live_token t = None" "tk_token_type t \<in> {T_Space, T_Comment, T_InlineImage}"
proof -
  consider "tk_token_type t = T_Integer" | "tk_token_type t = T_Bool"
    | "tk_token_type t \<in> {T_ArrayClose, T_ArrayOpen, T_BraceClose, T_BraceOpen, T_DictClose, T_DictOpen, T_Eof, T_Null}"
    | "tk_token_type t \<in> {T_Space, T_Comment, T_InlineImage}"
    | "tk_token_type t \<in> {T_Name, T_String, T_Real, T_Word, T_Bad}"
    by (cases "tk_token_type t") auto
  then show ?thesis
  proof cases
    case 1
    then show ?thesis using assms by (intro integer) (simp_all add: get_live_token_def Let_def)
  next
    case 2
    then show ?thesis using assms by (intro bool) (simp_all add: get_live_token_def Let_def)
  next
    case 3
    then show ?thesis using assms by (intro simple) (auto simp: get_live_token_def Let_def)
  next
    case 4
    then show ?thesis using assms by (intro none) (auto simp: get_live_token_def Let_def)
  next
    case 5
    then show ?thesis using assms
      by (intro owned [of "if tk_token_type t = T_Name \<or> tk_token_type t = T_String then tk_value t
            else if tk_token_type t = T_Real \<or> tk_token_type t = T_Word then tk_raw t else []" "tk_error_message t"])
        (auto simp: get_live_token_def Let_def)
  qed
qed

lemma with_token_offsets_ok:
  assumes "token_read p s"
  shows "with_token_offsets (s\<lparr>ls_tokenizer := tk_reset (ls_tokenizer s)\<rparr>) raw_len
      (unread_byte (ls_tokenizer s)) f \<noteq> Inl e"
  using with_token_offsets_read [OF assms, of raw_len f] by auto

text \<open>What the parser may assume of a token.\<close>

definition token_shape :: "parser_token \<Rightarrow> bool" where
  "token_shape tok \<longleftrightarrow>
     (case tok of
        PT_Integer v start end' \<Rightarrow> - (2 ^ 63) \<le> v \<and> v < 2 ^ 63
      | PT_Bool v start end' \<Rightarrow> True
      | PT_Simple ty start end' \<Rightarrow>
          ty \<in> {T_ArrayClose, T_ArrayOpen, T_BraceClose, T_BraceOpen, T_DictClose, T_DictOpen, T_Eof, T_Null}
      | PT_Owned t \<Rightarrow>
          tok_type t \<in> {T_Name, T_String, T_Real, T_Word, T_Bad, T_Space, T_Comment, T_InlineImage} \<and>
          (tok_type t = T_Name \<longrightarrow> slashed (tok_value t)))"

lemma next_live_token_reads:
  assumes "source_ok s" "next_live_token s = Inr (tok, s')"
  shows "source_ok s' \<and> ls_bytes s' = ls_bytes s \<and> ls_position s \<le> ls_position s' \<and>
    (pt_type tok = T_Eof \<or> ls_position s < ls_position s') \<and> pt_start tok \<le> ls_position s' \<and>
    pt_end tok = ls_position s' \<and> ls_last_offset s' = pt_start tok \<and>
    token_shape tok"
proof -
  have "tk_state (ls_tokenizer s) \<noteq> S_TokenReady"
    using assms(1) by (simp add: source_ok_def source_idle_def allow_eof_def tokenizer_new_def)
  then obtain u where u: "fill_token s = Inr u" "ls_bytes u = ls_bytes s" "token_read (ls_position s) u"
    using fill_token_reads [OF reading_start [OF assms(1)]] by blast
  have ready: "tk_state (ls_tokenizer u) = S_TokenReady" using u(3) by (simp add: token_read_def)
  have fits: "tk_token_type (ls_tokenizer u) = T_Integer \<Longrightarrow>
      parse_integer_bytes (tk_raw (ls_tokenizer u)) off = Inr v \<Longrightarrow> - (2 ^ 63) \<le> v \<and> v < 2 ^ 63" for off v
    using u(3) parse_integer_text [of "tk_raw (ls_tokenizer u)" off] by (auto simp: token_read_def)
  note read = with_token_offsets_read [OF u(3), of "length (tk_raw (ls_tokenizer u))"]
  show ?thesis
  proof (cases rule: get_live_token_cases [OF ready])
    case 1
    then show ?thesis
      using assms(2) u(1,2) read [of "\<lambda>start end'. (start, end')"] fits
      by (auto simp: next_live_token_def token_shape_def split: sum.splits)
  next
    case (2 v)
    then show ?thesis
      using assms(2) u(1,2) read [of "PT_Bool v"] by (auto simp: next_live_token_def token_shape_def)
  next
    case 3
    then show ?thesis
      using assms(2) u(1,2) read [of "PT_Simple (tk_token_type (ls_tokenizer u))"]
      by (auto simp: next_live_token_def token_shape_def)
  next
    case (4 v m)
    then show ?thesis
      using assms(2) u(1,2) read [of "\<lambda>start end'. PT_Owned (from_parts (tk_token_type (ls_tokenizer u)) v [] m start end')"]
        u(3)
      by (auto simp: next_live_token_def from_parts_def token_shape_def token_read_def)
  next
    case 5
    then show ?thesis
      using assms(2) u(1,2) ready
        read [of "\<lambda>start end'. PT_Owned (full_token (take_ready_token (ls_tokenizer u)) start end')"]
      by (auto simp: next_live_token_def get_token_def full_token_def take_ready_token_def from_parts_def token_shape_def)
  qed
qed

text \<open>The only error is an integer that does not fit.\<close>

definition integer_overflow :: "error \<Rightarrow> bool" where
  "integer_overflow e \<longleftrightarrow>
     (\<exists>text. e = System (str ''overflow/underflow converting '' @ text @ str '' to 64-bit integer''))"

lemma next_live_token_errors:
  assumes "source_ok s" "next_live_token s = Inl e"
  shows "integer_overflow e"
proof -
  have "tk_state (ls_tokenizer s) \<noteq> S_TokenReady"
    using assms(1) by (simp add: source_ok_def source_idle_def allow_eof_def tokenizer_new_def)
  then obtain u where u: "fill_token s = Inr u" "token_read (ls_position s) u"
    using fill_token_reads [OF reading_start [OF assms(1)]] by blast
  have ready: "tk_state (ls_tokenizer u) = S_TokenReady" using u(2) by (simp add: token_read_def)
  have int: "integer_overflow e'" if "tk_token_type (ls_tokenizer u) = T_Integer"
      "parse_integer_bytes (tk_raw (ls_tokenizer u)) offset = Inl e'" for offset e'
    using u(2) that parse_integer_text [of "tk_raw (ls_tokenizer u)" offset]
    by (auto simp: token_read_def integer_overflow_def)
  note ok = with_token_offsets_ok [OF u(2)]
  show ?thesis
  proof (cases rule: get_live_token_cases [OF ready])
    case 1
    then show ?thesis using assms(2) u(1) ok int by (auto simp: next_live_token_def split: sum.splits)
  next
    case 5
    then show ?thesis using assms(2) u(1) ok ready
      by (auto simp: next_live_token_def get_token_def take_ready_token_def from_parts_def)
  qed (use assms(2) u(1) ok in \<open>auto simp: next_live_token_def\<close>)
qed

end
