(* ===== verification/Live_Reading.thy ===== *)
theory Live_Reading
  imports Live_Source
begin

text \<open>
  What the token source reads from printed text: after any whitespace, punctuation, keywords, numbers, names
  and strings come back as their tokens, with the source right behind them. The facts on the character
  machine are those of the pull interface, carried over because the machine does not look at positions.
\<close>

section \<open>Positions do not matter\<close>

definition placed :: "tokenizer \<Rightarrow> tokenizer" where
  "placed t = t\<lparr>tk_pos := 0, tk_token_start := 0\<rparr>"

lemma placed_fields [simp]:
  "tk_state (placed t) = tk_state t" "tk_input (placed t) = tk_input t" "tk_allow_eof (placed t) = tk_allow_eof t"
  "tk_include_ignorable (placed t) = tk_include_ignorable t" "tk_token_type (placed t) = tk_token_type t"
  "tk_value (placed t) = tk_value t" "tk_raw (placed t) = tk_raw t" "tk_error_message (placed t) = tk_error_message t"
  "tk_before_token (placed t) = tk_before_token t" "tk_in_token (placed t) = tk_in_token t"
  "tk_char_to_unread (placed t) = tk_char_to_unread t" "tk_string_depth (placed t) = tk_string_depth t"
  "tk_char_code (placed t) = tk_char_code t" "tk_hex_byte (placed t) = tk_hex_byte t" "tk_bad (placed t) = tk_bad t"
  "tk_digit_count (placed t) = tk_digit_count t" "tk_inline_image_bytes (placed t) = tk_inline_image_bytes t"
  "tk_pos (placed t) = 0" "tk_token_start (placed t) = 0"
  by (simp_all add: placed_def)

lemma handle_character_placed: "handle_character (placed t) b = placed (handle_character t b)"
  by (cases "tk_state t")
    (simp_all add: handle_character_def in_space_def in_comment_def in_lt_def in_gt_def in_number_def
      in_real_def in_string_after_cr_def in_string_escape_def in_inline_image_def in_hex_string_second_def
      in_name_hex1_def in_name_hex2_def in_sign_def in_decimal_def in_before_token_def in_string_def in_name_def
      in_literal_def in_hex_string_def in_char_code_def in_top_def Let_def placed_def split: option.split)

section \<open>Feeding\<close>

definition after_byte :: "tokenizer \<Rightarrow> byte \<Rightarrow> tokenizer" where
  "after_byte t b =
     (let u = handle_character t b in if tk_in_token u then u\<lparr>tk_raw := tk_raw t @ [b]\<rparr> else u)"

fun tk_feed :: "tokenizer \<Rightarrow> bytes \<Rightarrow> tokenizer option" where
  "tk_feed t [] = Some t"
| "tk_feed t (b # bs) = (if tk_state t = S_TokenReady then None else tk_feed (after_byte t b) bs)"

lemma present_character_after: "tk_state t \<noteq> S_TokenReady \<Longrightarrow> present_character t b = Inr (after_byte t b)"
  by (simp add: present_character_def after_byte_def Let_def)

lemma read_byte_placed: "placed (read_byte 0 t b) = after_byte (placed t) b"
proof -
  have "placed t = placed (t\<lparr>tk_pos := tk_pos t + 1\<rparr>)" by (simp add: placed_def)
  then have "handle_character (placed t) b = placed (handle_character (t\<lparr>tk_pos := tk_pos t + 1\<rparr>) b)"
    by (simp only: handle_character_placed)
  then show ?thesis by (simp add: read_byte_def after_byte_def Let_def placed_def)
qed

lemma run_feed: "run t bs = Some u \<Longrightarrow> tk_feed (placed t) bs = Some (placed u)"
  by (induction t bs rule: run.induct) (auto simp: read_byte_placed split: if_splits)

abbreviation fresh_tokenizer :: tokenizer where
  "fresh_tokenizer \<equiv> allow_eof (tokenizer_new [])"

lemma fresh_start: "tk_state fresh_tokenizer = S_BeforeToken" "start_read fresh_tokenizer = fresh_tokenizer"
  "placed fresh_tokenizer = fresh_tokenizer" "tk_pos fresh_tokenizer = 0"
  by (simp_all add: start_read_def tk_reset_def allow_eof_def tokenizer_new_def placed_def)

lemma run_fresh_feed: "run (start_read fresh_tokenizer) bs = Some u \<Longrightarrow> tk_feed fresh_tokenizer bs = Some (placed u)"
  using run_feed [of fresh_tokenizer bs u] by (simp add: fresh_start)

lemma feed_space: "is_ws b \<Longrightarrow> after_byte fresh_tokenizer b = fresh_tokenizer"
  by (simp add: after_byte_def handle_character_def in_before_token_def allow_eof_def tokenizer_new_def Let_def)

lemma feed_mode:
  "tk_feed t bs = Some u \<Longrightarrow> tk_input u = tk_input t \<and> tk_pos u = tk_pos t \<and> tk_allow_eof u = tk_allow_eof t \<and>
   tk_include_ignorable u = tk_include_ignorable t \<and> tk_token_start u = tk_token_start t"
proof (induction t bs rule: tk_feed.induct)
  case (2 t b bs)
  then show ?case
    using present_character_frame [OF present_character_after [of t b]] by (auto split: if_splits)
qed simp

lemma feed_reset: "tk_feed fresh_tokenizer bs = Some u \<Longrightarrow> tk_reset u = fresh_tokenizer"
  by (drule feed_mode) (simp add: tk_reset_def allow_eof_def tokenizer_new_def)

section \<open>Sources\<close>

definition advanced :: "nat \<Rightarrow> live_source \<Rightarrow> live_source" where
  "advanced n s = s\<lparr>ls_input := (ls_input s)\<lparr>sl_position := ls_position s + n\<rparr>\<rparr>"

definition after_token :: "live_source \<Rightarrow> nat \<Rightarrow> nat \<Rightarrow> live_source" where
  "after_token s skip len = (advanced (skip + len) s)\<lparr>ls_last_offset := ls_position s + skip\<rparr>"

abbreviation rest_of :: "live_source \<Rightarrow> bytes" where
  "rest_of s \<equiv> drop (ls_position s) (ls_bytes s)"

lemma advanced_fields [simp]:
  "ls_bytes (advanced n s) = ls_bytes s" "ls_position (advanced n s) = ls_position s + n"
  "ls_tokenizer (advanced n s) = ls_tokenizer s" "ls_last_offset (advanced n s) = ls_last_offset s"
  by (simp_all add: advanced_def)

lemma advanced_0 [simp]: "advanced 0 s = s"
  by (simp add: advanced_def)

lemma advanced_advanced [simp]: "advanced m (advanced n s) = advanced (n + m) s"
  by (simp add: advanced_def ac_simps)

lemma advanced_update [simp]: "advanced n (s\<lparr>ls_tokenizer := t\<rparr>) = (advanced n s)\<lparr>ls_tokenizer := t\<rparr>"
  by (simp add: advanced_def)

lemma rest_advanced: "rest_of s = xs @ ys \<Longrightarrow> rest_of (advanced (length xs) s) = ys"
  by (simp add: drop_drop [symmetric] add.commute)

lemma present_next_byte:
  assumes "rest_of s = b # ys" "tk_state (ls_tokenizer s) \<noteq> S_TokenReady"
  shows "present_next s = Inr ((advanced 1 s)\<lparr>ls_tokenizer := after_byte (ls_tokenizer s) b\<rparr>)"
proof -
  have "ls_position s < length (ls_bytes s)" using assms(1) by (cases "ls_position s < length (ls_bytes s)") auto
  moreover from this have "ls_bytes s ! ls_position s = b" using assms(1) by (simp add: Cons_nth_drop_Suc [symmetric])
  ultimately show ?thesis
    using assms(2) by (simp add: present_next_def slice_read_byte_def present_character_after advanced_def)
qed

lemma fill_token_byte:
  assumes "rest_of s = b # ys" "tk_state (ls_tokenizer s) \<noteq> S_TokenReady"
  shows "fill_token s =
    (let s' = (advanced 1 s)\<lparr>ls_tokenizer := after_byte (ls_tokenizer s) b\<rparr>
     in if tk_state (ls_tokenizer s') = S_TokenReady then Inr s' else fill_token s')"
  using present_next_byte [OF assms] by (subst fill_token.simps) (simp add: Let_def)

lemma fill_token_spaces:
  "ls_tokenizer s = fresh_tokenizer \<Longrightarrow> list_all is_ws ws \<Longrightarrow> rest_of s = ws @ ys \<Longrightarrow>
   fill_token s = fill_token (advanced (length ws) s)"
proof (induction ws arbitrary: s)
  case (Cons w ws)
  let ?s = "(advanced 1 s)\<lparr>ls_tokenizer := fresh_tokenizer\<rparr>"
  have "fill_token s = fill_token ?s"
    using fill_token_byte [of s w "ws @ ys"] Cons.prems feed_space [of w] fresh_start(1) by (simp add: Let_def)
  also have "?s = advanced 1 s" using Cons.prems(1) by (simp add: advanced_def)
  also have "fill_token (advanced 1 s) = fill_token (advanced (length ws) (advanced 1 s))"
    using Cons.prems rest_advanced [of s "[w]" "ws @ ys"] by (intro Cons.IH) simp_all
  finally show ?case by simp
qed simp

lemma fill_token_feed:
  "tk_feed (ls_tokenizer s) bs = Some u \<Longrightarrow> bs \<noteq> [] \<Longrightarrow> rest_of s = bs @ ys \<Longrightarrow>
   fill_token s =
     (let s' = (advanced (length bs) s)\<lparr>ls_tokenizer := u\<rparr>
      in if tk_state u = S_TokenReady then Inr s' else fill_token s')"
proof (induction bs arbitrary: s)
  case (Cons b bs)
  let ?s = "(advanced 1 s)\<lparr>ls_tokenizer := after_byte (ls_tokenizer s) b\<rparr>"
  have nr: "tk_state (ls_tokenizer s) \<noteq> S_TokenReady" and f: "tk_feed (ls_tokenizer ?s) bs = Some u"
    using Cons.prems(1) by (auto split: if_splits)
  have byte: "fill_token s = (if tk_state (ls_tokenizer ?s) = S_TokenReady then Inr ?s else fill_token ?s)"
    using fill_token_byte [of s b "bs @ ys"] nr Cons.prems(3) by (simp add: Let_def)
  show ?case
  proof (cases "bs = []")
    case True
    then show ?thesis using f byte by (simp add: Let_def)
  next
    case False
    then have "tk_state (ls_tokenizer ?s) \<noteq> S_TokenReady" using f by (cases bs) auto
    moreover have "rest_of ?s = bs @ ys" using rest_advanced [of s "[b]" "bs @ ys"] Cons.prems(3) by simp
    ultimately show ?thesis using byte Cons.IH [OF f False] by (simp add: Let_def advanced_def)
  qed
qed simp

text \<open>A token complete with its last byte, and one that a delimiter or the end completes.\<close>

lemma fill_self_delimited:
  assumes "ls_tokenizer s = fresh_tokenizer" "tk_feed fresh_tokenizer tx = Some u" "tx \<noteq> []"
    "tk_state u = S_TokenReady" "list_all is_ws ws" "rest_of s = ws @ tx @ ys"
  shows "fill_token s = Inr ((advanced (length ws + length tx) s)\<lparr>ls_tokenizer := u\<rparr>)"
  using fill_token_spaces [OF assms(1,5,6)] fill_token_feed [of "advanced (length ws) s" tx u ys]
    rest_advanced [OF assms(6)] assms(1-4) by (simp add: Let_def)

lemma fill_delimited:
  assumes fresh: "ls_tokenizer s = fresh_tokenizer" and tx: "tk_feed fresh_tokenizer tx = Some u" "tx \<noteq> []"
    and st: "tk_state u \<in> {S_Name, S_Number, S_Real, S_Literal}" and ws: "list_all is_ws ws"
    and rest: "rest_of s = ws @ tx @ ys" "ys = [] \<or> is_token_delimiter (hd ys)"
    and ends: "\<And>d. is_token_delimiter d \<Longrightarrow> ends_token u ty d"
  shows "\<exists>w n. fill_token s = Inr ((advanced (length ws + length tx + n) s)\<lparr>ls_tokenizer := w\<rparr>) \<and>
    tk_state w = S_TokenReady \<and> tk_token_type w = ty \<and> tk_value w = tk_value u \<and> tk_raw w = tk_raw u \<and>
    tk_error_message w = tk_error_message u \<and> tk_reset w = fresh_tokenizer \<and>
    (n = 0 \<and> unread_byte w = None \<or> n = 1 \<and> unread_byte w \<noteq> None)"
proof -
  let ?s = "(advanced (length ws + length tx) s)\<lparr>ls_tokenizer := u\<rparr>"
  have nr: "tk_state u \<noteq> S_TokenReady" using st by auto
  have fill: "fill_token s = fill_token ?s"
    using fill_token_spaces [OF fresh ws rest(1)] fill_token_feed [of "advanced (length ws) s" tx u ys]
      rest_advanced [OF rest(1)] fresh tx nr by (simp add: Let_def)
  have resty: "rest_of ?s = ys"
    using rest_advanced [of s "ws @ tx" ys] rest(1) by simp
  have reset: "tk_reset w = fresh_tokenizer" if "tk_frame w = tk_frame u" for w
    using feed_mode [OF tx(1)] tk_frameD [OF that]
    by (simp add: tk_reset_def allow_eof_def tokenizer_new_def)
  show ?thesis
  proof (cases ys)
    case Nil
    let ?h = "handle_character u 0x0C"
    let ?w = "?h\<lparr>tk_in_token := True, tk_state := S_TokenReady\<rparr>"
    have h: "tk_state ?h = S_TokenReady" "\<not> tk_in_token ?h" "tk_token_type ?h = ty"
      "tk_value ?h = tk_value u" "tk_error_message ?h = tk_error_message u"
      using ends [OF form_feed(1)] by (simp_all add: ends_token_def Let_def)
    have char: "present_character u 0x0C = Inr ?h" using nr h(2) by (simp add: present_character_def Let_def)
    have "present_eof u = Inr ?w"
      using st unfolding present_eof_def char Let_def by (elim insertE) simp_all
    moreover have "\<not> ls_position ?s < length (ls_bytes ?s)" using resty Nil by simp
    ultimately have "present_next ?s = Inr (?s\<lparr>ls_tokenizer := ?w\<rparr>)"
      by (simp add: present_next_def slice_read_byte_def)
    then have "fill_token ?s = Inr ((advanced (length ws + length tx) s)\<lparr>ls_tokenizer := ?w\<rparr>)"
      by (subst fill_token.simps) simp
    then show ?thesis
      using fill h reset [of ?w]
      by (intro exI [of _ ?w] exI [of _ 0]) (simp add: unread_byte_def)
  next
    case (Cons d ys')
    let ?w = "handle_character u d"
    have d: "is_token_delimiter d" using Cons rest(2) by simp
    have h: "tk_state ?w = S_TokenReady" "\<not> tk_in_token ?w" "\<not> tk_before_token ?w" "tk_token_type ?w = ty"
      "tk_value ?w = tk_value u" "tk_error_message ?w = tk_error_message u"
      using ends [OF d] by (simp_all add: ends_token_def Let_def)
    have after: "after_byte u d = ?w" using h(2) by (simp add: after_byte_def Let_def)
    have unread: "tk_char_to_unread ?w \<noteq> None" using st h(1) d
      by (auto simp: handle_character_def in_name_def in_number_def in_real_def in_literal_def split: if_splits)
    have "fill_token ?s = Inr ((advanced (length ws + length tx + 1) s)\<lparr>ls_tokenizer := ?w\<rparr>)"
      using fill_token_byte [of ?s d ys'] resty Cons nr h(1) after by (simp add: Let_def)
    then show ?thesis
      using fill h unread reset [of ?w]
      by (intro exI [of _ ?w] exI [of _ 1]) (simp add: unread_byte_def)
  qed
qed

section \<open>Tokens\<close>

lemma with_token_offsets_at:
  assumes "ls_tokenizer s = fresh_tokenizer" "n = 0 \<and> unread = None \<or> n = 1 \<and> unread \<noteq> None"
  shows "with_token_offsets ((advanced (skip + len + n) s)\<lparr>ls_tokenizer := fresh_tokenizer\<rparr>) len unread f =
    Inr (f (ls_position s + skip) (ls_position s + skip + len), after_token s skip len)"
proof -
  have "s\<lparr>ls_tokenizer := fresh_tokenizer\<rparr> = s" using assms(1) by simp
  then have "set_token_offsets ((advanced (skip + len + n) s)\<lparr>ls_tokenizer := fresh_tokenizer\<rparr>) len unread =
      Inr ((ls_position s + skip, ls_position s + skip + len), advanced (skip + len) s)"
    using assms(2) by (auto simp: set_token_offsets_def slice_unread_byte_def advanced_def)
  then show ?thesis by (simp add: with_token_offsets_def after_token_def advanced_def)
qed

text \<open>Where a token is: after whitespace, and before a delimiter if it needs one.\<close>

definition token_ahead :: "live_source \<Rightarrow> bytes \<Rightarrow> bytes \<Rightarrow> bytes \<Rightarrow> bool" where
  "token_ahead s ws tx ys \<longleftrightarrow>
     ls_tokenizer s = fresh_tokenizer \<and> list_all is_ws ws \<and> rest_of s = ws @ tx @ ys"

abbreviation ends_here :: "bytes \<Rightarrow> bool" where
  "ends_here ys \<equiv> ys = [] \<or> is_token_delimiter (hd ys)"

lemma live_self_delimited:
  assumes "token_ahead s ws tx ys" "tk_feed fresh_tokenizer tx = Some u" "tx \<noteq> []" "tk_state u = S_TokenReady"
    "tk_in_token u" "tk_raw u = tx"
  shows "\<exists>w. fill_token s = Inr ((advanced (length ws + length tx + 0) s)\<lparr>ls_tokenizer := w\<rparr>) \<and>
    tk_state w = S_TokenReady \<and> tk_token_type w = tk_token_type u \<and> tk_value w = tk_value u \<and> tk_raw w = tx \<and>
    tk_error_message w = tk_error_message u \<and> tk_reset w = fresh_tokenizer \<and> unread_byte w = None"
  using fill_self_delimited [of s tx u ws ys] assms feed_reset [OF assms(2)]
  by (intro exI [of _ u]) (simp add: token_ahead_def unread_byte_def)

lemma live_simple:
  assumes "token_ahead s ws tx ys" "tk_feed fresh_tokenizer tx = Some u" "tx \<noteq> []" "tk_state u = S_TokenReady"
    "tk_in_token u" "tk_raw u = tx" "tk_token_type u \<in> {T_ArrayOpen, T_ArrayClose, T_DictOpen, T_DictClose}"
  shows "next_live_token s =
    Inr (PT_Simple (tk_token_type u) (ls_position s + length ws) (ls_position s + length ws + length tx),
      after_token s (length ws) (length tx))"
proof -
  obtain w where w: "fill_token s = Inr ((advanced (length ws + length tx + 0) s)\<lparr>ls_tokenizer := w\<rparr>)"
    "tk_state w = S_TokenReady" "tk_token_type w = tk_token_type u" "tk_raw w = tx" "tk_reset w = fresh_tokenizer"
    "unread_byte w = None"
    using live_self_delimited [OF assms(1-6)] by blast
  have "get_live_token w = Some (LiveSimple (tk_token_type u) (length tx) None, fresh_tokenizer)"
    using w(2-6) assms(7) by (auto simp: get_live_token_def Let_def)
  then show ?thesis
    using w(1) with_token_offsets_at [of s 0 None "length ws" "length tx" "PT_Simple (tk_token_type u)"] assms(1)
    by (simp add: next_live_token_def token_ahead_def)
qed

lemma feed_punctuation:
  "\<exists>u. tk_feed fresh_tokenizer (str ''['') = Some u \<and> tk_state u = S_TokenReady \<and> tk_in_token u \<and>
     tk_raw u = str ''['' \<and> tk_token_type u = T_ArrayOpen"
  "\<exists>u. tk_feed fresh_tokenizer (str '']'') = Some u \<and> tk_state u = S_TokenReady \<and> tk_in_token u \<and>
     tk_raw u = str '']'' \<and> tk_token_type u = T_ArrayClose"
  "\<exists>u. tk_feed fresh_tokenizer (str ''<<'') = Some u \<and> tk_state u = S_TokenReady \<and> tk_in_token u \<and>
     tk_raw u = str ''<<'' \<and> tk_token_type u = T_DictOpen"
  "\<exists>u. tk_feed fresh_tokenizer (str ''>>'') = Some u \<and> tk_state u = S_TokenReady \<and> tk_in_token u \<and>
     tk_raw u = str ''>>'' \<and> tk_token_type u = T_DictClose"
  by (simp_all add: str_def after_byte_def handle_character_def in_before_token_def in_top_def in_lt_def in_gt_def
      allow_eof_def tokenizer_new_def is_ws_def is_ascii_digit_def)

lemma str_not_Nil: "str (c # cs) \<noteq> []"
  by (simp add: str_def)

lemma live_array_open:
  "token_ahead s ws (str ''['') ys \<Longrightarrow> next_live_token s =
    Inr (PT_Simple T_ArrayOpen (ls_position s + length ws) (ls_position s + length ws + length (str ''['')),
      after_token s (length ws) (length (str ''['')))"
  using feed_punctuation(1) live_simple [of s ws "str ''[''" ys] str_not_Nil by fastforce

lemma live_array_close:
  "token_ahead s ws (str '']'') ys \<Longrightarrow> next_live_token s =
    Inr (PT_Simple T_ArrayClose (ls_position s + length ws) (ls_position s + length ws + length (str '']'')),
      after_token s (length ws) (length (str '']'')))"
  using feed_punctuation(2) live_simple [of s ws "str '']''" ys] str_not_Nil by fastforce

lemma live_dict_open:
  "token_ahead s ws (str ''<<'') ys \<Longrightarrow> next_live_token s =
    Inr (PT_Simple T_DictOpen (ls_position s + length ws) (ls_position s + length ws + length (str ''<<'')),
      after_token s (length ws) (length (str ''<<'')))"
  using feed_punctuation(3) live_simple [of s ws "str ''<<''" ys] str_not_Nil by fastforce

lemma live_dict_close:
  "token_ahead s ws (str ''>>'') ys \<Longrightarrow> next_live_token s =
    Inr (PT_Simple T_DictClose (ls_position s + length ws) (ls_position s + length ws + length (str ''>>'')),
      after_token s (length ws) (length (str ''>>'')))"
  using feed_punctuation(4) live_simple [of s ws "str ''>>''" ys] str_not_Nil by fastforce

text \<open>Delimited tokens.\<close>

lemma live_delimited:
  assumes "token_ahead s ws tx ys" "ends_here ys" "tk_feed fresh_tokenizer tx = Some u" "tx \<noteq> []"
    "tk_state u \<in> {S_Name, S_Number, S_Real, S_Literal}" "tk_raw u = tx"
    "\<And>d. is_token_delimiter d \<Longrightarrow> ends_token u ty d"
  shows "\<exists>w n. fill_token s = Inr ((advanced (length ws + length tx + n) s)\<lparr>ls_tokenizer := w\<rparr>) \<and>
    tk_state w = S_TokenReady \<and> tk_token_type w = ty \<and> tk_value w = tk_value u \<and> tk_raw w = tx \<and>
    tk_error_message w = tk_error_message u \<and> tk_reset w = fresh_tokenizer \<and>
    (n = 0 \<and> unread_byte w = None \<or> n = 1 \<and> unread_byte w \<noteq> None)"
  using fill_delimited [of s tx u ws ys ty] assms by (simp add: token_ahead_def)

lemma live_owned:
  assumes "token_ahead s ws tx ys" "ends_here ys" "tk_feed fresh_tokenizer tx = Some u" "tx \<noteq> []"
    "tk_state u \<in> {S_Name, S_Number, S_Real, S_Literal}" "tk_raw u = tx" "tk_error_message u = None"
    "\<And>d. is_token_delimiter d \<Longrightarrow> ends_token u ty d" "ty \<in> {T_Name, T_Real, T_Word}"
  shows "next_live_token s =
    Inr (PT_Owned (from_parts ty (if ty = T_Name then tk_value u else tx) [] None
        (ls_position s + length ws) (ls_position s + length ws + length tx)),
      after_token s (length ws) (length tx))"
proof -
  obtain w n where w: "fill_token s = Inr ((advanced (length ws + length tx + n) s)\<lparr>ls_tokenizer := w\<rparr>)"
    "tk_state w = S_TokenReady" "tk_token_type w = ty" "tk_value w = tk_value u" "tk_raw w = tx"
    "tk_error_message w = tk_error_message u" "tk_reset w = fresh_tokenizer"
    "n = 0 \<and> unread_byte w = None \<or> n = 1 \<and> unread_byte w \<noteq> None"
    using live_delimited [OF assms(1-6,8)] by blast
  have "get_live_token w =
      Some (LiveOwned ty (if ty = T_Name then tk_value u else tx) None (length tx) (unread_byte w), fresh_tokenizer)"
    using w(2-7) assms(7,9) by (auto simp: get_live_token_def Let_def)
  then show ?thesis
    using w(1) assms(1) with_token_offsets_at [OF _ w(8), of s "length ws" "length tx"
        "\<lambda>start end'. PT_Owned (from_parts ty (if ty = T_Name then tk_value u else tx) [] None start end')"]
    by (simp add: next_live_token_def token_ahead_def del: if_split)
qed

text \<open>Integers.\<close>

lemma placed_at: "(placed t)\<lparr>tk_pos := 0\<rparr> = placed t"
  by (simp add: placed_def)

lemma live_integer:
  assumes "token_ahead s ws (decimal_int i) ys" "ends_here ys" "- (2 ^ 63) \<le> i" "i < 2 ^ 63"
  shows "next_live_token s =
    Inr (PT_Integer i (ls_position s + length ws) (ls_position s + length ws + length (decimal_int i)),
      after_token s (length ws) (length (decimal_int i)))"
proof -
  obtain u where u: "run (start_read fresh_tokenizer) (decimal_int i) = Some u" "number_at 0 (decimal_int i) u"
    using number_run [OF fresh_start(1), of i] fresh_start(4) by auto
  let ?u = "placed u"
  have at: "number_at 0 (decimal_int i) ?u" using u(2) by (simp add: number_at_def)
  have tx: "decimal_int i \<noteq> []" using decimal_digits [of "nat \<bar>i\<bar>"] by (auto simp: decimal_int_def)
  have ends: "is_token_delimiter d \<Longrightarrow> ends_token ?u T_Integer d" for d
    using number_ends [OF at, of d 0] by (simp add: placed_at)
  obtain w n where w: "fill_token s = Inr ((advanced (length ws + length (decimal_int i) + n) s)\<lparr>ls_tokenizer := w\<rparr>)"
    "tk_state w = S_TokenReady" "tk_token_type w = T_Integer" "tk_raw w = decimal_int i" "tk_reset w = fresh_tokenizer"
    "n = 0 \<and> unread_byte w = None \<or> n = 1 \<and> unread_byte w \<noteq> None"
    using live_delimited [OF assms(1,2) run_fresh_feed [OF u(1)] tx _ _ ends] at by (auto simp: number_at_def)
  have "get_live_token w = Some (LiveInteger (Inr i) (length (decimal_int i)) (unread_byte w), fresh_tokenizer)"
    using w(2-5) parse_integer_decimal [OF assms(3,4)] by (simp add: get_live_token_def Let_def)
  then show ?thesis
    using w(1) assms(1) with_token_offsets_at [OF _ w(6), of s "length ws" "length (decimal_int i)" "\<lambda>start end'. (start, end')"]
    by (simp add: next_live_token_def token_ahead_def)
qed

text \<open>Names without the byte 0, in the writer's notation.\<close>

lemma live_name:
  assumes "token_ahead s ws (0x2F # write_name_escaped v) ys" "ends_here ys" "0 \<notin> set v"
  shows "next_live_token s =
    Inr (PT_Owned (from_parts T_Name (0x2F # v) [] None (ls_position s + length ws)
        (ls_position s + length ws + length (0x2F # write_name_escaped v))),
      after_token s (length ws) (length (0x2F # write_name_escaped v)))"
proof -
  have esc: "write_name_escaped v = concat (map name_escape v)" by (rule write_name_escaped_eq)
  obtain u where u: "run (start_read fresh_tokenizer) [0x2F] = Some u" "name_at 0 [0x2F] [0x2F] u"
    using name_open [OF fresh_start(1)] fresh_start(4) by auto
  obtain w where w: "run u (concat (map name_escape v)) = Some w"
    "name_at 0 ([0x2F] @ v) ([0x2F] @ concat (map name_escape v)) w"
    using name_chars [OF u(2) assms(3)] by blast
  have run: "run (start_read fresh_tokenizer) (0x2F # write_name_escaped v) = Some w"
    using run_append [of "start_read fresh_tokenizer" "[0x2F]" "write_name_escaped v"] u(1) w(1) esc by simp
  have at: "name_at 0 (0x2F # v) (0x2F # write_name_escaped v) (placed w)" using w(2) esc by (simp add: name_at_def)
  have ends: "is_token_delimiter d \<Longrightarrow> ends_token (placed w) T_Name d" for d
    using name_ends [OF at, of d 0] by (simp add: placed_at)
  show ?thesis
    using live_owned [OF assms(1,2) run_fresh_feed [OF run] _ _ _ _ ends] at by (simp add: name_at_def)
qed

text \<open>Strings, in the notation the writer picks.\<close>

lemma live_string_done:
  assumes "token_ahead s ws tx ys" "run (start_read fresh_tokenizer) tx = Some u" "string_done 0 v tx u" "tx \<noteq> []"
  shows "next_live_token s =
    Inr (PT_Owned (from_parts T_String v [] None (ls_position s + length ws) (ls_position s + length ws + length tx)),
      after_token s (length ws) (length tx))"
proof -
  obtain w where w: "fill_token s = Inr ((advanced (length ws + length tx + 0) s)\<lparr>ls_tokenizer := w\<rparr>)"
    "tk_state w = S_TokenReady" "tk_token_type w = T_String" "tk_value w = v" "tk_raw w = tx"
    "tk_error_message w = None" "tk_reset w = fresh_tokenizer" "unread_byte w = None"
    using live_self_delimited [OF assms(1) run_fresh_feed [OF assms(2)] assms(4)] assms(3)
    by (auto simp: string_done_def)
  have "get_live_token w = Some (LiveOwned T_String v None (length tx) None, fresh_tokenizer)"
    using w(2-8) by (simp add: get_live_token_def Let_def)
  then show ?thesis
    using w(1) assms(1) with_token_offsets_at [of s 0 None "length ws" "length tx"
        "\<lambda>start end'. PT_Owned (from_parts T_String v [] None start end')"]
    by (simp add: next_live_token_def token_ahead_def)
qed

lemma string_run:
  "\<exists>u. run (start_read fresh_tokenizer) (write_string_value v) = Some u \<and> string_done 0 v (write_string_value v) u"
  using hex_string_run [OF fresh_start(1), of v] literal_string_run [OF fresh_start(1), of v] fresh_start(4)
  by (simp add: write_string_value_def write_hex_string_def write_literal_string_def literal_char_eq [abs_def])

lemma live_string:
  assumes "token_ahead s ws (write_string_value v) ys"
  shows "next_live_token s =
    Inr (PT_Owned (from_parts T_String v [] None (ls_position s + length ws)
        (ls_position s + length ws + length (write_string_value v))),
      after_token s (length ws) (length (write_string_value v)))"
proof -
  obtain u where u: "run (start_read fresh_tokenizer) (write_string_value v) = Some u"
    "string_done 0 v (write_string_value v) u" using string_run by blast
  have "write_string_value v \<noteq> []"
    by (simp add: write_string_value_def write_hex_string_def write_literal_string_def)
  from live_string_done [OF assms u this] show ?thesis .
qed

lemma live_hex_string:
  assumes "token_ahead s ws (write_hex_string v) ys"
  shows "next_live_token s =
    Inr (PT_Owned (from_parts T_String v [] None (ls_position s + length ws)
        (ls_position s + length ws + length (write_hex_string v))),
      after_token s (length ws) (length (write_hex_string v)))"
proof -
  obtain u where u: "run (start_read fresh_tokenizer) (write_hex_string v) = Some u"
    "string_done 0 v (write_hex_string v) u"
    using hex_string_run [OF fresh_start(1), of v] fresh_start(4) by (auto simp: write_hex_string_def)
  have "write_hex_string v \<noteq> []" by (simp add: write_hex_string_def)
  from live_string_done [OF assms u this] show ?thesis .
qed

text \<open>Keywords.\<close>

definition literal_at :: "bytes \<Rightarrow> tokenizer \<Rightarrow> bool" where
  "literal_at raw t \<longleftrightarrow>
     tk_state t = S_Literal \<and> \<not> tk_before_token t \<and> tk_in_token t \<and> tk_raw t = raw \<and> tk_error_message t = None"

lemma literal_more:
  assumes "literal_at raw t" "list_all (\<lambda>b. \<not> is_token_delimiter b) bs"
  shows "\<exists>u. tk_feed t bs = Some u \<and> literal_at (raw @ bs) u"
  using assms
proof (induction bs arbitrary: raw t)
  case (Cons b bs)
  then have "literal_at (raw @ [b]) (after_byte t b)"
    by (simp add: literal_at_def after_byte_def handle_character_def in_literal_def)
  from Cons.IH [OF this] Cons.prems show ?case by (simp add: literal_at_def)
qed simp

lemma literal_feed:
  assumes "is_ascii_lower b \<or> is_ascii_upper b" "list_all (\<lambda>b. \<not> is_token_delimiter b) bs"
  shows "\<exists>u. tk_feed fresh_tokenizer (b # bs) = Some u \<and> literal_at (b # bs) u"
proof -
  have b: "\<not> is_ws b" "\<not> is_ascii_digit b" "b \<notin> {0x25, 0x28, 0x29, 0x2B, 0x2D, 0x2E, 0x2F, 0x3C, 0x3E, 0x5B, 0x5D, 0x7B, 0x7D}"
    using assms(1) by (auto simp: is_ascii_lower_def is_ascii_upper_def is_ws_def is_ascii_digit_def word_le_iff_unat)
  then have "literal_at [b] (after_byte fresh_tokenizer b)"
    by (simp add: literal_at_def after_byte_def handle_character_def in_before_token_def in_top_def
        allow_eof_def tokenizer_new_def)
  from literal_more [OF this assms(2)] show ?thesis by (simp add: fresh_start)
qed

definition keyword_type :: "bytes \<Rightarrow> token_type" where
  "keyword_type raw =
     (if raw = str ''true'' \<or> raw = str ''false'' then T_Bool else if raw = str ''null'' then T_Null else T_Word)"

lemma literal_ends: "literal_at raw u \<Longrightarrow> is_token_delimiter d \<Longrightarrow> ends_token u (keyword_type raw) d"
  by (simp add: ends_token_def handle_character_def in_literal_def literal_at_def keyword_type_def Let_def)

lemma live_word:
  assumes "token_ahead s ws (b # bs) ys" "ends_here ys" "is_ascii_lower b \<or> is_ascii_upper b"
    "list_all (\<lambda>b. \<not> is_token_delimiter b) bs" "keyword_type (b # bs) = T_Word"
  shows "next_live_token s =
    Inr (PT_Owned (from_parts T_Word (b # bs) [] None (ls_position s + length ws) (ls_position s + length ws + length (b # bs))),
      after_token s (length ws) (length (b # bs)))"
proof -
  obtain u where u: "tk_feed fresh_tokenizer (b # bs) = Some u" "literal_at (b # bs) u"
    using literal_feed [OF assms(3,4)] by blast
  show ?thesis
    using live_owned [OF assms(1,2) u(1) _ _ _ _ literal_ends [OF u(2), unfolded assms(5)]] u(2)
    by (simp add: literal_at_def)
qed

lemma live_null_bool:
  assumes "token_ahead s ws (b # bs) ys" "ends_here ys" "is_ascii_lower b \<or> is_ascii_upper b"
    "list_all (\<lambda>b. \<not> is_token_delimiter b) bs" "keyword_type (b # bs) \<noteq> T_Word"
  shows "next_live_token s =
    Inr (if b # bs = str ''null''
         then PT_Simple T_Null (ls_position s + length ws) (ls_position s + length ws + length (b # bs))
         else PT_Bool (b # bs = str ''true'') (ls_position s + length ws) (ls_position s + length ws + length (b # bs)),
      after_token s (length ws) (length (b # bs)))"
proof -
  obtain u where u: "tk_feed fresh_tokenizer (b # bs) = Some u" "literal_at (b # bs) u"
    using literal_feed [OF assms(3,4)] by blast
  obtain w n where w: "fill_token s = Inr ((advanced (length ws + length (b # bs) + n) s)\<lparr>ls_tokenizer := w\<rparr>)"
    "tk_state w = S_TokenReady" "tk_token_type w = keyword_type (b # bs)" "tk_raw w = b # bs" "tk_reset w = fresh_tokenizer"
    "n = 0 \<and> unread_byte w = None \<or> n = 1 \<and> unread_byte w \<noteq> None"
    using live_delimited [OF assms(1,2) u(1) _ _ _ literal_ends [OF u(2)]] u(2) by (auto simp: literal_at_def)
  have off: "with_token_offsets ((advanced (length ws + length (b # bs) + n) s)\<lparr>ls_tokenizer := fresh_tokenizer\<rparr>)
      (length (b # bs)) (unread_byte w) f =
    Inr (f (ls_position s + length ws) (ls_position s + length ws + length (b # bs)), after_token s (length ws) (length (b # bs)))"
    for f :: "nat \<Rightarrow> nat \<Rightarrow> parser_token"
    using with_token_offsets_at [OF _ w(6), of s "length ws" "length (b # bs)" f] assms(1) by (simp add: token_ahead_def)
  show ?thesis
  proof (cases "b # bs = str ''null''")
    case True
    then have "keyword_type (b # bs) = T_Null" by (simp add: keyword_type_def str_def)
    then have "get_live_token w = Some (LiveSimple T_Null (length (b # bs)) (unread_byte w), fresh_tokenizer)"
      using w(2-5) by (simp add: get_live_token_def Let_def)
    then show ?thesis using w(1) off [of "PT_Simple T_Null"] True by (simp add: next_live_token_def)
  next
    case False
    then have "keyword_type (b # bs) = T_Bool" using assms(5) by (simp add: keyword_type_def split: if_splits)
    then have "get_live_token w = Some (LiveBool (b # bs = str ''true'') (length (b # bs)) (unread_byte w), fresh_tokenizer)"
      using w(2-5) by (simp add: get_live_token_def Let_def)
    then show ?thesis using w(1) off [of "PT_Bool (b # bs = str ''true'')"] False by (simp add: next_live_token_def)
  qed
qed

lemma keyword_bytes:
  "is_ascii_lower 0x6E" "is_ascii_lower 0x74" "is_ascii_lower 0x66" "is_ascii_upper 0x52"
  "list_all (\<lambda>b. \<not> is_token_delimiter b) [0x75, 0x6C, 0x6C]" "list_all (\<lambda>b. \<not> is_token_delimiter b) [0x72, 0x75, 0x65]"
  "list_all (\<lambda>b. \<not> is_token_delimiter b) [0x61, 0x6C, 0x73, 0x65]"
  "keyword_type [0x6E, 0x75, 0x6C, 0x6C] = T_Null" "keyword_type [0x74, 0x72, 0x75, 0x65] = T_Bool"
  "keyword_type [0x66, 0x61, 0x6C, 0x73, 0x65] = T_Bool" "keyword_type [0x52] = T_Word"
  by code_simp+

lemma keyword_texts:
  "str ''null'' = [0x6E, 0x75, 0x6C, 0x6C]" "str ''true'' = [0x74, 0x72, 0x75, 0x65]"
  "str ''false'' = [0x66, 0x61, 0x6C, 0x73, 0x65]" "str ''R'' = [0x52]"
  by (simp_all add: str_def)

lemma live_null:
  assumes "token_ahead s ws (str ''null'') ys" "ends_here ys"
  shows "next_live_token s =
    Inr (PT_Simple T_Null (ls_position s + length ws) (ls_position s + length ws + length (str ''null'')),
      after_token s (length ws) (length (str ''null'')))"
  using live_null_bool [OF assms(1) [unfolded keyword_texts] assms(2)] keyword_bytes by (simp add: keyword_texts)

lemma live_bool:
  assumes "token_ahead s ws (if v then str ''true'' else str ''false'') ys" "ends_here ys"
  shows "next_live_token s =
    Inr (PT_Bool v (ls_position s + length ws) (ls_position s + length ws + length (if v then str ''true'' else str ''false'')),
      after_token s (length ws) (length (if v then str ''true'' else str ''false'')))"
proof (cases v)
  case True
  then have "token_ahead s ws [0x74, 0x72, 0x75, 0x65] ys" using assms(1) by (simp add: keyword_texts)
  from live_null_bool [OF this assms(2)] keyword_bytes True show ?thesis by (simp add: keyword_texts)
next
  case False
  then have "token_ahead s ws [0x66, 0x61, 0x6C, 0x73, 0x65] ys" using assms(1) by (simp add: keyword_texts)
  from live_null_bool [OF this assms(2)] keyword_bytes False show ?thesis by (simp add: keyword_texts)
qed

lemma live_R:
  assumes "token_ahead s ws (str ''R'') ys" "ends_here ys"
  shows "next_live_token s =
    Inr (PT_Owned (from_parts T_Word (str ''R'') [] None (ls_position s + length ws)
        (ls_position s + length ws + length (str ''R''))),
      after_token s (length ws) (length (str ''R'')))"
  using live_word [OF assms(1) [unfolded keyword_texts] assms(2)] keyword_bytes by (simp add: keyword_texts)

text \<open>Reals, as the parser keeps them: their text.\<close>

definition real_text :: "bytes \<Rightarrow> bool" where
  "real_text raw \<longleftrightarrow>
     (\<exists>sign a b. raw = sign @ a @ 0x2E # b \<and> sign \<in> {[], [0x2B], [0x2D]} \<and> list_all is_ascii_digit (a @ b) \<and> a @ b \<noteq> [])"

definition real_at :: "bytes \<Rightarrow> tokenizer \<Rightarrow> bool" where
  "real_at raw t \<longleftrightarrow>
     tk_state t = S_Real \<and> \<not> tk_before_token t \<and> tk_in_token t \<and> tk_raw t = raw \<and> tk_error_message t = None"

lemma real_digits:
  "real_at raw t \<Longrightarrow> list_all is_ascii_digit ds \<Longrightarrow> \<exists>u. tk_feed t ds = Some u \<and> real_at (raw @ ds) u"
proof (induction ds arbitrary: raw t)
  case (Cons d ds)
  then have "real_at (raw @ [d]) (after_byte t d)"
    by (simp add: real_at_def after_byte_def handle_character_def in_real_def)
  from Cons.IH [OF this] Cons.prems show ?case by (simp add: real_at_def)
qed simp

lemma real_ends: "real_at raw u \<Longrightarrow> is_token_delimiter d \<Longrightarrow> ends_token u T_Real d"
proof -
  assume u: "real_at raw u" and d: "is_token_delimiter d"
  have "\<not> is_ascii_digit d" using d
    by (auto simp: is_token_delimiter_def is_ws_def is_delimiter_def is_ascii_digit_def)
  then show ?thesis using u d by (simp add: ends_token_def handle_character_def in_real_def real_at_def Let_def)
qed

lemma tk_feed_append: "tk_feed t (xs @ ys) = (case tk_feed t xs of None \<Rightarrow> None | Some u \<Rightarrow> tk_feed u ys)"
  by (induction t xs rule: tk_feed.induct) auto

text \<open>Before the point: nothing, a sign, or an integer part.\<close>

lemma real_start:
  assumes "sign \<in> {[], [0x2B], [0x2D]}"
  shows "\<exists>u. tk_feed fresh_tokenizer (sign @ [0x2E]) = Some u \<and> tk_state u = S_Decimal \<and> \<not> tk_before_token u \<and>
    tk_in_token u \<and> tk_raw u = sign @ [0x2E] \<and> tk_error_message u = None"
  using assms
  by (elim insertE)
    (simp_all add: after_byte_def handle_character_def in_before_token_def in_top_def in_sign_def
      allow_eof_def tokenizer_new_def is_ws_def is_ascii_digit_def)

lemma signed_digit_feed:
  assumes "sign \<in> {[], [0x2B], [0x2D]}" "is_ascii_digit d"
  shows "\<exists>u. tk_feed fresh_tokenizer (sign @ [d]) = Some u \<and> number_at 0 (sign @ [d]) u"
proof -
  have d: "\<not> is_ws d" "in_top t d = t\<lparr>tk_state := S_Number\<rparr>" "d \<noteq> 0x25" for t
    using digit_not_top [OF assms(2)] assms(2) by (auto simp: in_top_def)
  show ?thesis
    using assms(1) d assms(2)
    by (elim insertE)
      (simp_all add: number_at_def after_byte_def handle_character_def in_before_token_def in_sign_def
        in_top_def [of _ "0x2B"] in_top_def [of _ "0x2D"] allow_eof_def tokenizer_new_def is_ws_def [of "0x2B"] is_ws_def [of "0x2D"]
        is_ascii_digit_def [of "0x2B"] is_ascii_digit_def [of "0x2D"])
qed

lemma number_more:
  "number_at p raw t \<Longrightarrow> list_all is_ascii_digit ds \<Longrightarrow> \<exists>u. tk_feed t ds = Some u \<and> number_at p (raw @ ds) u"
proof (induction ds arbitrary: raw t)
  case (Cons d ds)
  then have "number_at p (raw @ [d]) (after_byte t d)"
    by (simp add: number_at_def after_byte_def handle_character_def in_number_def)
  from Cons.IH [OF this] Cons.prems show ?case by (simp add: number_at_def)
qed simp

lemma real_feed:
  assumes "real_text raw"
  shows "\<exists>u. tk_feed fresh_tokenizer raw = Some u \<and> real_at raw u"
proof -
  obtain sign a b where raw: "raw = sign @ a @ 0x2E # b" "sign \<in> {[], [0x2B], [0x2D]}" "list_all is_ascii_digit (a @ b)" "a @ b \<noteq> []"
    using assms by (auto simp: real_text_def)
  show ?thesis
  proof (cases a)
    case Nil
    obtain u where u: "tk_feed fresh_tokenizer (sign @ [0x2E]) = Some u" "tk_state u = S_Decimal" "\<not> tk_before_token u"
      "tk_in_token u" "tk_raw u = sign @ [0x2E]" "tk_error_message u = None"
      using real_start [OF raw(2)] by blast
    obtain d ds where b: "b = d # ds" "is_ascii_digit d" "list_all is_ascii_digit ds"
      using raw(3,4) Nil by (cases b) auto
    have "real_at ((sign @ [0x2E]) @ [d]) (after_byte u d)"
      using u b(2) by (simp add: real_at_def after_byte_def handle_character_def in_decimal_def)
    from real_digits [OF this b(3)] show ?thesis
      using tk_feed_append [of fresh_tokenizer "sign @ [0x2E]" b] u(1,2) raw(1) Nil b(1) by simp
  next
    case (Cons d ds)
    obtain u where u: "tk_feed fresh_tokenizer (sign @ [d]) = Some u" "number_at 0 (sign @ [d]) u"
      using signed_digit_feed [OF raw(2), of d] raw(3) Cons by auto
    obtain v where v: "tk_feed u ds = Some v" "number_at 0 ((sign @ [d]) @ ds) v"
      using number_more [OF u(2), of ds] raw(3) Cons by auto
    have "\<not> is_ascii_digit 0x2E" by (simp add: is_ascii_digit_def)
    then have "real_at (((sign @ [d]) @ ds) @ [0x2E]) (after_byte v 0x2E)"
      using v(2) by (simp add: real_at_def number_at_def after_byte_def handle_character_def in_number_def)
    from real_digits [OF this, of b] obtain w
      where w: "tk_feed (after_byte v 0x2E) b = Some w" "real_at raw w" using raw(1,3) Cons by auto
    have "tk_state v \<noteq> S_TokenReady" using v(2) by (simp add: number_at_def)
    then have "tk_feed fresh_tokenizer raw = Some w"
      using tk_feed_append [of fresh_tokenizer "sign @ [d]" "ds @ 0x2E # b"] tk_feed_append [of u ds "0x2E # b"]
        u(1) v(1) w(1) raw(1) Cons by simp
    then show ?thesis using w(2) by blast
  qed
qed

lemma live_real:
  assumes "token_ahead s ws raw ys" "ends_here ys" "real_text raw"
  shows "next_live_token s =
    Inr (PT_Owned (from_parts T_Real raw [] None (ls_position s + length ws) (ls_position s + length ws + length raw)),
      after_token s (length ws) (length raw))"
proof -
  obtain u where u: "tk_feed fresh_tokenizer raw = Some u" "real_at raw u" using real_feed [OF assms(3)] by blast
  have "raw \<noteq> []" using assms(3) by (auto simp: real_text_def)
  then show ?thesis
    using live_owned [OF assms(1,2) u(1) _ _ _ _ real_ends [OF u(2)]] u(2) by (simp add: real_at_def)
qed

end
