(* ===== verification/Object_Parser.thy ===== *)
theory Object_Parser
  imports Live_Source Object_Model
begin

text \<open>
  The object parser of \<open>crates/flpdf/src/parser.rs\<close>: one object is read from a token source, with the open
  containers on an explicit stack of frames, a ring of at most two integers that may still become a
  reference, and recovery from damaged input by warnings. Panics are values here, so that their absence is a
  theorem; so is the fuel of the main loop.
\<close>

section \<open>Handle resolvers\<close>

text \<open>
  The methods of the trait \<open>HandleResolver\<close> as functions, with the document behind the handles. The document
  adapter of the reader is a parameter; \<open>DetachedHandles\<close> and \<open>OffsetHandleResolver\<close> are below.
\<close>

record handle_resolver =
  hr_indirect_handle_at :: "object_ref \<Rightarrow> int \<Rightarrow> handle"
  hr_direct_handle_at :: "object_value \<Rightarrow> int \<Rightarrow> handle"
  hr_warning_description :: "bytes option"
  hr_begin_parse :: "error option"
  hr_document :: document

definition default_direct_handle_at ::
  "(object_value \<Rightarrow> handle) \<Rightarrow> bytes option \<Rightarrow> object_value \<Rightarrow> int \<Rightarrow> handle" where
  "default_direct_handle_at direct template v offset =
     (case template of
        Some description \<Rightarrow> set_shared_description (direct v) description offset
      | None \<Rightarrow> set_parsed_offset_if_unset (direct v) offset)"

definition detached_handles :: "bytes option \<Rightarrow> bytes option \<Rightarrow> handle_resolver" where
  "detached_handles template warning_description =
     \<lparr>hr_indirect_handle_at = \<lambda>r offset. new_indirect_unresolved r no_parsed_offset,
      hr_direct_handle_at = default_direct_handle_at from_value template,
      hr_warning_description = warning_description, hr_begin_parse = None, hr_document = no_document\<rparr>"

text \<open>\<open>i64::saturating_add\<close>\<close>

definition saturating_add_i64 :: "int \<Rightarrow> int \<Rightarrow> int" where
  "saturating_add_i64 a b = max (- (2 ^ 63)) (min (2 ^ 63 - 1) (a + b))"

definition rebased_offset :: "int \<Rightarrow> int option \<Rightarrow> int \<Rightarrow> int" where
  "rebased_offset base_offset top_level_offset offset =
     (if top_level_offset \<noteq> None \<and> offset = 0
      then (case top_level_offset of None \<Rightarrow> offset | Some offset' \<Rightarrow> offset')
      else saturating_add_i64 base_offset offset)"

definition offset_handle_resolver :: "handle_resolver \<Rightarrow> int \<Rightarrow> int option \<Rightarrow> handle_resolver" where
  "offset_handle_resolver r base_offset top_level_offset =
     r\<lparr>hr_indirect_handle_at := \<lambda>og offset. hr_indirect_handle_at r og (rebased_offset base_offset top_level_offset offset),
       hr_direct_handle_at := \<lambda>v offset. hr_direct_handle_at r v (rebased_offset base_offset top_level_offset offset),
       hr_warning_description := None\<rparr>"

section \<open>The parser\<close>

datatype object_failure = PF_Error error | PF_Panic | PF_Fuel

record parse_context =
  pc_resolver :: handle_resolver
  pc_has_context :: bool
  pc_decrypter :: "(bytes \<Rightarrow> error + bytes) option"
  pc_content_stream :: bool

type_synonym pending_integer = "int \<times> nat"

record file_parser =
  fp_tokens :: live_source
  fp_integer_count :: nat
  fp_integer_buffer :: "pending_integer option \<times> pending_integer option"
  fp_diagnostics :: "(nat \<times> bytes) list"
  fp_good_count :: nat
  fp_bad_count :: nat
  fp_give_up :: bool

text \<open>An open container; the innermost one is the head of the stack.\<close>

datatype live_frame =
    FArray "handle list" nat
  | FDictionary "(bytes \<times> handle) list" "handle list" "bytes option" "(bytes \<times> int) option" nat nat

definition max_parse_depth :: nat where
  "max_parse_depth = 500"

text \<open>The \<open>?\<close> operator on \<open>&mut self\<close> methods.\<close>

definition bindp :: "'e + 'a \<times> 's \<Rightarrow> ('a \<Rightarrow> 's \<Rightarrow> 'e + 'b \<times> 's) \<Rightarrow> 'e + 'b \<times> 's" where
  "bindp m f = (case m of Inl e \<Rightarrow> Inl e | Inr (a, s) \<Rightarrow> f a s)"

lemma bindp_simps [simp]: "bindp (Inl e) f = Inl e" "bindp (Inr (a, s)) f = f a s"
  by (simp_all add: bindp_def)

lemma bindp_eq_Inr: "bindp m f = Inr r \<longleftrightarrow> (\<exists>a s. m = Inr (a, s) \<and> f a s = Inr r)"
  by (auto simp: bindp_def split: sum.splits)

lemma bindp_eq_Inl: "bindp m f = Inl e \<longleftrightarrow> m = Inl e \<or> (\<exists>a s. m = Inr (a, s) \<and> f a s = Inl e)"
  by (auto simp: bindp_def split: sum.splits)

lemma bindp_cong [fundef_cong]:
  "m = m' \<Longrightarrow> (\<And>a s. m' = Inr (a, s) \<Longrightarrow> f a s = g a s) \<Longrightarrow> bindp m f = bindp m' g"
  by (auto simp: bindp_def split: sum.splits)

text \<open>\<open>i64::try_from\<close> with the largest value instead of an error.\<close>

definition i64_of_usize :: "nat \<Rightarrow> int" where
  "i64_of_usize n = (if int n < 2 ^ 63 then int n else 2 ^ 63 - 1)"

text \<open>\<open>as i64\<close>\<close>

definition usize_as_i64 :: "nat \<Rightarrow> int" where
  "usize_as_i64 n = (int n + 2 ^ 63) mod 2 ^ 64 - 2 ^ 63"

definition fp_warn :: "parse_context \<Rightarrow> nat \<Rightarrow> bytes \<Rightarrow> file_parser \<Rightarrow> object_failure + unit \<times> file_parser" where
  "fp_warn c offset message p =
     (if \<not> pc_has_context c
      then Inl (PF_Error (QpdfExc (qpdf_exc_new E_DamagedPdf (str ''parsed object'')
        (case hr_warning_description (pc_resolver c) of None \<Rightarrow> [] | Some d \<Rightarrow> d) (i64_of_usize offset) message)))
      else Inr ((), p\<lparr>fp_diagnostics := fp_diagnostics p @ [(offset, message)]\<rparr>))"

definition fp_next_token :: "parse_context \<Rightarrow> file_parser \<Rightarrow> object_failure + parser_token \<times> file_parser" where
  "fp_next_token c p =
     (case next_live_token (fp_tokens p) of
        Inl e \<Rightarrow> Inl (PF_Error e)
      | Inr (tok, s) \<Rightarrow>
          (case tok of
             PT_Owned t \<Rightarrow>
               (case tok_error_message t of
                  Some message \<Rightarrow>
                    bindp (fp_warn c (tok_start t) message (p\<lparr>fp_tokens := s\<rparr>))
                      (\<lambda>_ p. Inr (PT_Owned (t\<lparr>tok_error_message := None\<rparr>), p))
                | None \<Rightarrow> Inr (tok, p\<lparr>fp_tokens := s\<rparr>))
           | _ \<Rightarrow> Inr (tok, p\<lparr>fp_tokens := s\<rparr>)))"

definition too_many_bad_tokens :: "parse_context \<Rightarrow> nat \<Rightarrow> file_parser \<Rightarrow> object_failure + unit \<times> file_parser" where
  "too_many_bad_tokens c offset p =
     bindp
       (if fp_good_count p \<le> 4 then
          let p = p\<lparr>fp_bad_count := fp_bad_count p + 1\<rparr>
          in if fp_bad_count p > 5
             then bindp (fp_warn c offset (str ''too many errors; giving up on reading object'') p)
               (\<lambda>_ p. Inr ((), p\<lparr>fp_give_up := True\<rparr>))
             else Inr ((), p)
        else Inr ((), p\<lparr>fp_bad_count := 1\<rparr>))
       (\<lambda>_ p. Inr ((), p\<lparr>fp_good_count := 0\<rparr>))"

definition direct_at :: "parse_context \<Rightarrow> object_value \<Rightarrow> int \<Rightarrow> handle" where
  "direct_at c v offset = hr_direct_handle_at (pc_resolver c) v offset"

definition direct :: "parse_context \<Rightarrow> object_value \<Rightarrow> nat \<Rightarrow> handle" where
  "direct c v offset = direct_at c v (i64_of_usize offset)"

section \<open>Frames\<close>

definition insert_dictionary_value ::
  "parse_context \<Rightarrow> (bytes \<times> handle) list \<Rightarrow> bytes \<Rightarrow> handle \<Rightarrow> nat \<Rightarrow> file_parser \<Rightarrow>
   object_failure + (bytes \<times> handle) list \<times> file_parser" where
  "insert_dictionary_value c values key v offset p =
     bindp
       (if map_of values key \<noteq> None
        then fp_warn c offset (str ''dictionary has duplicated key '' @ key @
          str ''; last occurrence overrides earlier ones'') p
        else Inr ((), p))
       (\<lambda>_ p. Inr (bt_insert key v values, p))"

definition add_to_frame ::
  "parse_context \<Rightarrow> live_frame \<Rightarrow> handle \<Rightarrow> file_parser \<Rightarrow> object_failure + live_frame \<times> file_parser" where
  "add_to_frame c frame v p =
     (case frame of
        FArray vs start \<Rightarrow> Inr (FArray (vs @ [v]) start, p)
      | FDictionary values orphans (Some key) contents start frame_offset \<Rightarrow>
          bindp (insert_dictionary_value c values key v frame_offset p)
            (\<lambda>values p. Inr (FDictionary values orphans None contents start frame_offset, p))
      | FDictionary values orphans None contents start frame_offset \<Rightarrow>
          Inr (FDictionary values (orphans @ [v]) None contents start frame_offset, p))"

definition add_to_top_frame ::
  "parse_context \<Rightarrow> live_frame list \<Rightarrow> handle \<Rightarrow> file_parser \<Rightarrow> object_failure + live_frame list \<times> file_parser" where
  "add_to_top_frame c frames v p =
     (case frames of
        [] \<Rightarrow> Inl PF_Panic
      | frame # rest \<Rightarrow> bindp (add_to_frame c frame v p) (\<lambda>frame p. Inr (frame # rest, p)))"

definition push_frame ::
  "parse_context \<Rightarrow> live_frame list \<Rightarrow> parser_token \<Rightarrow> file_parser \<Rightarrow>
   object_failure + (bool \<times> live_frame list) \<times> file_parser" where
  "push_frame c frames tok p =
     (if length frames \<ge> max_parse_depth
      then bindp (fp_warn c (pt_start tok) (str ''ignoring excessively deeply nested data structure'') p)
        (\<lambda>_ p. Inr ((False, frames), p\<lparr>fp_give_up := True\<rparr>))
      else if pt_type tok = T_ArrayOpen then Inr ((True, FArray [] (pt_start tok) # frames), p)
      else if pt_type tok = T_DictOpen
      then Inr ((True, FDictionary [] [] None None (pt_start tok) (pt_end tok) # frames), p)
      else Inl PF_Panic)"

section \<open>The integer ring\<close>

text \<open>\<open>usize::saturating_add(1)\<close>\<close>

definition saturating_succ :: "nat \<Rightarrow> nat" where
  "saturating_succ n = (if int n < 2 ^ 64 - 1 then n + 1 else n)"

definition ring_get :: "nat \<Rightarrow> 'a option \<times> 'a option \<Rightarrow> 'a option" where
  "ring_get i buf = (if i = 0 then fst buf else snd buf)"

definition ring_set :: "nat \<Rightarrow> 'a option \<Rightarrow> 'a option \<times> 'a option \<Rightarrow> 'a option \<times> 'a option" where
  "ring_set i x buf = (if i = 0 then (x, snd buf) else (fst buf, x))"

text \<open>\<open>take().expect(..)\<close>\<close>

definition take_pending :: "nat \<Rightarrow> file_parser \<Rightarrow> object_failure + pending_integer \<times> file_parser" where
  "take_pending i p =
     (case ring_get i (fp_integer_buffer p) of
        None \<Rightarrow> Inl PF_Panic
      | Some x \<Rightarrow> Inr (x, p\<lparr>fp_integer_buffer := ring_set i None (fp_integer_buffer p)\<rparr>))"

definition add_pending_integer ::
  "parse_context \<Rightarrow> pending_integer \<Rightarrow> live_frame list \<Rightarrow> file_parser \<Rightarrow> object_failure + live_frame list \<times> file_parser" where
  "add_pending_integer c x frames p = add_to_top_frame c frames (direct c (V_Integer (fst x)) (snd x)) p"

definition buffer_integer ::
  "parse_context \<Rightarrow> pending_integer \<Rightarrow> live_frame list \<Rightarrow> file_parser \<Rightarrow> object_failure + live_frame list \<times> file_parser" where
  "buffer_integer c x frames p =
     (let p = p\<lparr>fp_integer_count := saturating_succ (fp_integer_count p)\<rparr>;
          index = fp_integer_count p mod 2
      in bindp
           (if fp_integer_count p > 2
            then bindp (take_pending index p) (\<lambda>oldest p. add_pending_integer c oldest frames p)
            else Inr (frames, p))
           (\<lambda>frames p. Inr (frames, p\<lparr>fp_integer_buffer := ring_set index (Some x) (fp_integer_buffer p)\<rparr>)))"

definition flush_integer_buffer ::
  "parse_context \<Rightarrow> live_frame list \<Rightarrow> file_parser \<Rightarrow> object_failure + live_frame list \<times> file_parser" where
  "flush_integer_buffer c frames p =
     (if fp_integer_count p = 0 then Inr (frames, p)
      else
        bindp
          (if fp_integer_count p = 1
           then bindp (take_pending 1 p) (\<lambda>x p. add_pending_integer c x frames p)
           else
             let first_index = (if fp_integer_count p = 2 then 1 else (fp_integer_count p + 1) mod 2);
                 second_index = fp_integer_count p mod 2
             in bindp (take_pending first_index p) (\<lambda>first p.
                bindp (take_pending second_index p) (\<lambda>second p.
                bindp (add_pending_integer c first frames p) (\<lambda>frames p.
                add_pending_integer c second frames p))))
          (\<lambda>frames p. Inr (frames, p\<lparr>fp_integer_count := 0\<rparr>)))"

definition qpdf_int :: "int \<Rightarrow> nat \<Rightarrow> error + int" where
  "qpdf_int v offset =
     (if - (2 ^ 31) \<le> v \<and> v < 2 ^ 31 then Inr v
      else Inl (Parse offset (str ''integer out of range converting '' @ decimal_int v @
        str '' from a 8-byte signed type to a 4-byte signed type'')))"

definition finish_integer_reference ::
  "parse_context \<Rightarrow> live_frame list \<Rightarrow> file_parser \<Rightarrow> object_failure + live_frame list \<times> file_parser" where
  "finish_integer_reference c frames p =
     (let first_index = (if fp_integer_count p = 2 then 1 else (fp_integer_count p + 1) mod 2);
          second_index = fp_integer_count p mod 2
      in bindp (take_pending first_index p) (\<lambda>first p.
         bindp (take_pending second_index p) (\<lambda>second p.
           let p = p\<lparr>fp_integer_count := 0\<rparr>
           in if \<not> pc_has_context c
              then Inl (PF_Error (Internal (str
                ''QPDFParser::parse called without context on an object with indirect references'')))
              else case qpdf_int (fst first) (snd first) of
                Inl e \<Rightarrow> Inl (PF_Error e)
              | Inr number \<Rightarrow>
                  (case qpdf_int (fst second) (snd second) of
                     Inl e \<Rightarrow> Inl (PF_Error e)
                   | Inr generation \<Rightarrow>
                       add_to_top_frame c frames
                         (if number \<ge> 1 \<and> 0 \<le> generation \<and> generation < 65535
                          then hr_indirect_handle_at (pc_resolver c) (Object_Ref number generation) (usize_as_i64 (snd first))
                          else handle_null) p))))"

section \<open>Closing containers\<close>

definition finish_array :: "parse_context \<Rightarrow> handle list \<Rightarrow> nat \<Rightarrow> handle" where
  "finish_array c vs start = direct c (V_Array vs) start"

definition fake_candidate :: "nat \<Rightarrow> bytes" where
  "fake_candidate n = str ''/QPDFFake'' @ decimal n"

lemma decimal_inject:
  assumes "decimal m = decimal n"
  shows "m = n"
proof -
  have "int m = int n" using decimal_digits [of m] decimal_digits [of n] assms by metis
  then show ?thesis by simp
qed

text \<open>The first number from \<open>n\<close> on whose key is free.\<close>

function next_fake :: "bytes list \<Rightarrow> nat \<Rightarrow> nat" where
  "next_fake taken n = (if fake_candidate n \<in> set taken then next_fake taken (n + 1) else n)"
  by pat_completeness auto
termination
proof (relation "measure (\<lambda>(taken, n). card (set taken \<inter> fake_candidate ` {n..}))")
  fix taken :: "bytes list" and n
  assume taken: "fake_candidate n \<in> set taken"
  have "fake_candidate n \<notin> fake_candidate ` {n + 1..}"
    by (auto simp: fake_candidate_def dest!: decimal_inject)
  then have "set taken \<inter> fake_candidate ` {n + 1..} \<subset> set taken \<inter> fake_candidate ` {n..}"
    using taken by force
  then show "((taken, n + 1), (taken, n)) \<in> measure (\<lambda>(taken, n). card (set taken \<inter> fake_candidate ` {n..}))"
    by (simp add: psubset_card_mono)
qed simp

declare next_fake.simps [simp del]

fun insert_orphans ::
  "parse_context \<Rightarrow> nat \<Rightarrow> bytes list \<Rightarrow> nat \<Rightarrow> handle list \<Rightarrow> (bytes \<times> handle) list \<Rightarrow> file_parser \<Rightarrow>
   object_failure + (bytes \<times> handle) list \<times> file_parser" where
  "insert_orphans c frame_offset orphan_names fake [] values p = Inr (values, p)"
| "insert_orphans c frame_offset orphan_names fake (v # vs) values p =
     (let n = next_fake (map fst values @ orphan_names) fake; key = fake_candidate n
      in bindp (fp_warn c frame_offset
             (str ''expected dictionary key but found non-name object; inserting key '' @ key) p)
           (\<lambda>_ p. insert_orphans c frame_offset orphan_names (n + 1) vs (bt_insert key v values) p))"

definition lift_parse_error :: "error + 'a \<Rightarrow> file_parser \<Rightarrow> object_failure + 'a \<times> file_parser" where
  "lift_parse_error r p = (case r of Inl e \<Rightarrow> Inl (PF_Error e) | Inr x \<Rightarrow> Inr (x, p))"

lemma lift_parse_error_simps [simp]: "lift_parse_error (Inl e) p = Inl (PF_Error e)" "lift_parse_error (Inr x) p = Inr (x, p)"
  by (simp_all add: lift_parse_error_def)

text \<open>Whether the raw bytes of \<open>/Contents\<close> replace the decrypted ones.\<close>

definition restore_signature_contents :: "document \<Rightarrow> (bytes \<times> handle) list \<Rightarrow> error + bool" where
  "restore_signature_contents doc values =
     (case (case map_of values (str ''/Type'') of
              None \<Rightarrow> Inr False
            | Some ty \<Rightarrow> try_is_name_and_equals doc ty (str ''Sig'')) of
        Inl e \<Rightarrow> Inl e
      | Inr is_signature \<Rightarrow>
          let has_byte_range = map_of values (str ''/ByteRange'') \<noteq> None
          in if is_signature \<and> has_byte_range
             then (case map_of values (str ''/Contents'') of
                     None \<Rightarrow> Inr False
                   | Some contents \<Rightarrow> try_is_string doc contents)
             else Inr False)"

definition finish_dictionary ::
  "parse_context \<Rightarrow> (bytes \<times> handle) list \<Rightarrow> handle list \<Rightarrow> bytes option \<Rightarrow> (bytes \<times> int) option \<Rightarrow> nat \<Rightarrow> nat \<Rightarrow>
   file_parser \<Rightarrow> object_failure + handle \<times> file_parser" where
  "finish_dictionary c values orphans pending_key contents start frame_offset p =
     bindp
       (case pending_key of
          Some key \<Rightarrow>
            bindp (fp_warn c frame_offset
                (str ''dictionary ended prematurely; using null as value for last key'') p)
              (\<lambda>_ p. Inr (bt_insert key handle_null values, p))
        | None \<Rightarrow> Inr (values, p))
       (\<lambda>values p.
     bindp (insert_orphans c frame_offset (map (\<lambda>n. 0x2F # n) (List.map_filter as_name orphans)) 1 orphans values p)
       (\<lambda>values p.
     bindp
       (case contents of
          None \<Rightarrow> Inr (values, p)
        | Some (raw_contents, offset) \<Rightarrow>
            bindp (lift_parse_error (restore_signature_contents (hr_document (pc_resolver c)) values) p)
              (\<lambda>restore p.
                Inr (if restore then bt_insert (str ''/Contents'') (direct_at c (V_String raw_contents) offset) values
                     else values, p)))
       (\<lambda>values p. Inr (direct c (V_Dictionary values) start, p))))"

definition capture_raw_signature_contents :: "parse_context \<Rightarrow> live_frame list \<Rightarrow> parser_token \<Rightarrow> live_frame list" where
  "capture_raw_signature_contents c frames tok =
     (case (tok, frames) of
        (PT_Owned t, FDictionary values orphans pending_key contents start frame_offset # rest) \<Rightarrow>
          if pc_decrypter c = None \<or> tok_type t \<noteq> T_String then frames
          else if pending_key = Some (str ''/Contents'')
          then FDictionary values orphans pending_key (Some (tok_value t, usize_as_i64 (tok_start t))) start frame_offset # rest
          else frames
      | _ \<Rightarrow> frames)"

section \<open>Scalars\<close>

text \<open>A warning, a count against the budget, and a value in place of the token.\<close>

definition bad_token_as ::
  "parse_context \<Rightarrow> nat \<Rightarrow> bytes option \<Rightarrow> handle \<Rightarrow> file_parser \<Rightarrow> object_failure + handle \<times> file_parser" where
  "bad_token_as c start message v p =
     bindp (case message of None \<Rightarrow> Inr ((), p) | Some m \<Rightarrow> fp_warn c start m p)
       (\<lambda>_ p. bindp (too_many_bad_tokens c start p) (\<lambda>_ p. Inr (v, p)))"

definition parse_owned_scalar_token ::
  "parse_context \<Rightarrow> token \<Rightarrow> int \<Rightarrow> file_parser \<Rightarrow> object_failure + handle \<times> file_parser" where
  "parse_owned_scalar_token c t scalar_offset p =
     (case tok_type t of
        T_Name \<Rightarrow> Inr (direct_at c (V_Name (tl (tok_value t))) scalar_offset, p)
      | T_String \<Rightarrow>
          bindp (case pc_decrypter c of
                   None \<Rightarrow> Inr (tok_value t, p)
                 | Some decrypt \<Rightarrow> lift_parse_error (decrypt (tok_value t)) p)
            (\<lambda>v p. Inr (direct_at c (V_String v) scalar_offset, p))
      | T_Bool \<Rightarrow> Inr (direct_at c (V_Boolean (tok_value t = str ''true'')) scalar_offset, p)
      | T_Null \<Rightarrow> Inr (handle_null, p)
      | T_Integer \<Rightarrow> Inl PF_Panic
      | T_Real \<Rightarrow> Inr (direct_at c (V_Real (tok_value t)) scalar_offset, p)
      | T_Word \<Rightarrow>
          if pc_content_stream c then Inr (direct_at c (V_Operator (tok_value t)) scalar_offset, p)
          else bindp (fp_warn c (tok_start t) (str ''unknown token while reading object; treating as string'') p)
            (\<lambda>_ p. bindp (too_many_bad_tokens c (tok_start t) p)
            (\<lambda>_ p. Inr (direct_at c (V_String (tok_value t)) scalar_offset, p)))
      | T_Bad \<Rightarrow> bad_token_as c (tok_start t) None handle_null p
      | T_BraceOpen \<Rightarrow>
          bad_token_as c (tok_start t) (Some (str ''treating unexpected brace token as null'')) handle_null p
      | T_BraceClose \<Rightarrow>
          bad_token_as c (tok_start t) (Some (str ''treating unexpected brace token as null'')) handle_null p
      | T_ArrayClose \<Rightarrow>
          bad_token_as c (tok_start t) (Some (str ''treating unexpected array close token as null'')) handle_null p
      | T_DictClose \<Rightarrow>
          bad_token_as c (tok_start t) (Some (str ''unexpected dictionary close token'')) handle_null p
      | T_Eof \<Rightarrow> bindp (fp_warn c (tok_start t) (str ''unexpected EOF'') p) (\<lambda>_ p. Inr (handle_null, p))
      | T_Space \<Rightarrow>
          bad_token_as c (tok_start t) (Some (str ''treating unknown token type as null while reading object'')) handle_null p
      | T_Comment \<Rightarrow>
          bad_token_as c (tok_start t) (Some (str ''treating unknown token type as null while reading object'')) handle_null p
      | T_InlineImage \<Rightarrow>
          bad_token_as c (tok_start t) (Some (str ''treating unknown token type as null while reading object'')) handle_null p
      | T_DictOpen \<Rightarrow> Inl PF_Panic
      | T_ArrayOpen \<Rightarrow> Inl PF_Panic)"

definition parse_scalar_token ::
  "parse_context \<Rightarrow> parser_token \<Rightarrow> int \<Rightarrow> file_parser \<Rightarrow> object_failure + handle \<times> file_parser" where
  "parse_scalar_token c tok scalar_offset p =
     (case tok of
        PT_Integer v start end' \<Rightarrow> Inr (direct_at c (V_Integer v) scalar_offset, p)
      | PT_Bool v start end' \<Rightarrow> Inr (direct_at c (V_Boolean v) scalar_offset, p)
      | PT_Simple ty start end' \<Rightarrow>
          if ty = T_Null then Inr (handle_null, p)
          else parse_owned_scalar_token c (from_parts ty [] [] None start end') scalar_offset p
      | PT_Owned t \<Rightarrow> parse_owned_scalar_token c t scalar_offset p)"

section \<open>The main loop\<close>

text \<open>One round of the loop ends with the object, or goes on with other frames.\<close>

definition next_round :: "live_frame list \<Rightarrow> file_parser \<Rightarrow> object_failure + (handle + live_frame list) \<times> file_parser" where
  "next_round frames p = (if fp_give_up p then Inr (Inl handle_null, p) else Inr (Inr frames, p))"

definition close_container ::
  "parse_context \<Rightarrow> live_frame list \<Rightarrow> handle \<Rightarrow> file_parser \<Rightarrow>
   object_failure + (handle + live_frame list) \<times> file_parser" where
  "close_container c rest v p =
     (if rest = [] then Inr (Inl v, p) else bindp (add_to_top_frame c rest v p) next_round)"

definition scalar_round ::
  "parse_context \<Rightarrow> live_frame list \<Rightarrow> parser_token \<Rightarrow> file_parser \<Rightarrow>
   object_failure + (handle + live_frame list) \<times> file_parser" where
  "scalar_round c frames tok p =
     (let frames = capture_raw_signature_contents c frames tok
      in bindp (parse_scalar_token c tok (usize_as_i64 (pt_start tok)) p)
           (\<lambda>v p. if fp_give_up p then Inr (Inl handle_null, p)
                  else bindp (add_to_top_frame c frames v p) next_round))"

definition dispatch_token ::
  "parse_context \<Rightarrow> parser_token \<Rightarrow> live_frame list \<Rightarrow> file_parser \<Rightarrow>
   object_failure + (handle + live_frame list) \<times> file_parser" where
  "dispatch_token c tok frames p =
     (case pt_type tok of
        T_ArrayOpen \<Rightarrow>
          bindp (push_frame c frames tok p)
            (\<lambda>(pushed, frames) p. if pushed then next_round frames p else Inr (Inl handle_null, p))
      | T_DictOpen \<Rightarrow>
          bindp (push_frame c frames tok p)
            (\<lambda>(pushed, frames) p. if pushed then next_round frames p else Inr (Inl handle_null, p))
      | T_ArrayClose \<Rightarrow>
          (case frames of
             FArray vs start # rest \<Rightarrow> close_container c rest (finish_array c vs start) p
           | _ \<Rightarrow> scalar_round c frames tok p)
      | T_DictClose \<Rightarrow>
          (case frames of
             FDictionary values orphans pending_key contents start frame_offset # rest \<Rightarrow>
               bindp (finish_dictionary c values orphans pending_key contents start frame_offset p)
                 (close_container c rest)
           | _ \<Rightarrow> scalar_round c frames tok p)
      | T_Eof \<Rightarrow>
          bindp (fp_warn c (pt_start tok) (str ''parse error while reading object'') p)
            (\<lambda>_ p. if pc_content_stream c then Inr (Inl uninitialized, p)
              else bindp (fp_warn c (pt_start tok) (str ''unexpected EOF'') p) (\<lambda>_ p. Inr (Inl handle_null, p)))
      | T_Name \<Rightarrow>
          (case frames of
             FDictionary values orphans None contents start frame_offset # rest \<Rightarrow>
               (case tok of
                  PT_Owned t \<Rightarrow>
                    Inr (Inr (FDictionary values orphans (Some (tok_value t)) contents start frame_offset # rest), p)
                | _ \<Rightarrow> Inl PF_Panic)
           | _ \<Rightarrow>
               bindp (parse_scalar_token c tok (usize_as_i64 (pt_start tok)) p)
                 (\<lambda>v p. bindp (add_to_top_frame c frames v p) next_round))
      | _ \<Rightarrow> scalar_round c frames tok p)"

definition parse_object_round ::
  "parse_context \<Rightarrow> live_frame list \<Rightarrow> file_parser \<Rightarrow> object_failure + (handle + live_frame list) \<times> file_parser" where
  "parse_object_round c frames p =
     bindp (fp_next_token c p) (\<lambda>tok p.
       let p = p\<lparr>fp_good_count := fp_good_count p + 1\<rparr>
       in case tok of
            PT_Integer v start end' \<Rightarrow>
              if \<not> pc_content_stream c
              then bindp (buffer_integer c (v, start) frames p) (\<lambda>frames p. Inr (Inr frames, p))
              else dispatch_token c tok frames p
          | _ \<Rightarrow>
              if \<not> pc_content_stream c \<and> fp_integer_count p \<ge> 2 \<and> pt_is_word_value tok (str ''R'')
              then bindp (finish_integer_reference c frames p) (\<lambda>frames p. Inr (Inr frames, p))
              else bindp
                (if \<not> pc_content_stream c \<and> fp_integer_count p \<noteq> 0 then flush_integer_buffer c frames p
                 else Inr (frames, p))
                (dispatch_token c tok))"

fun parse_remainder ::
  "nat \<Rightarrow> parse_context \<Rightarrow> live_frame list \<Rightarrow> file_parser \<Rightarrow> object_failure + handle \<times> file_parser" where
  "parse_remainder 0 c frames p = Inl PF_Fuel"
| "parse_remainder (Suc fuel) c frames p =
     bindp (parse_object_round c frames p)
       (\<lambda>r p. case r of Inl v \<Rightarrow> Inr (v, p) | Inr frames \<Rightarrow> parse_remainder fuel c frames p)"

section \<open>Entry points\<close>

record live_parsed_object =
  lp_value :: handle
  lp_parsed_offset :: int
  lp_last_offset :: nat
  lp_next_offset :: nat
  lp_empty :: "nat option"
  lp_diagnostics :: "(nat \<times> bytes) list"

text \<open>Every round but the last takes a byte of the input.\<close>

definition remainder_fuel :: "file_parser \<Rightarrow> nat" where
  "remainder_fuel p = length (ls_bytes (fp_tokens p)) - ls_position (fp_tokens p) + 1"

definition parse_body :: "parse_context \<Rightarrow> file_parser \<Rightarrow> object_failure + live_parsed_object" where
  "parse_body c p =
     (let start_offset = i64_of_usize (ls_position (fp_tokens p))
      in map_sum id fst (bindp (fp_next_token c p) (\<lambda>tok p.
           if pc_content_stream c \<and> pt_type tok = T_Eof
           then Inr (\<lparr>lp_value = uninitialized, lp_parsed_offset = no_parsed_offset,
                      lp_last_offset = ls_last_offset (fp_tokens p), lp_next_offset = pt_start tok,
                      lp_empty = None, lp_diagnostics = fp_diagnostics p\<rparr>, p)
           else if \<not> pc_content_stream c \<and> pt_is_word_value tok (str ''endobj'')
           then bindp (lift_parse_error (live_seek (fp_tokens p) (pt_start tok)) p) (\<lambda>tokens p.
                Inr (\<lparr>lp_value = handle_null, lp_parsed_offset = no_parsed_offset,
                      lp_last_offset = ls_last_offset (fp_tokens p), lp_next_offset = pt_start tok,
                      lp_empty = Some (pt_start tok), lp_diagnostics = fp_diagnostics p\<rparr>, p\<lparr>fp_tokens := tokens\<rparr>))
           else
             bindp
               (if pt_type tok = T_ArrayOpen \<or> pt_type tok = T_DictOpen
                then bindp (push_frame c [] tok p)
                  (\<lambda>(pushed, frames) p. parse_remainder (remainder_fuel p) c frames p)
                else parse_scalar_token c tok start_offset p)
               (\<lambda>v p. Inr (\<lparr>lp_value = v, lp_parsed_offset = h_parsed_offset v,
                      lp_last_offset = ls_last_offset (fp_tokens p), lp_next_offset = ls_position (fp_tokens p),
                      lp_empty = None, lp_diagnostics = fp_diagnostics p\<rparr>, p)))))"

definition file_parser_new :: "slice_input \<Rightarrow> file_parser" where
  "file_parser_new inp =
     \<lparr>fp_tokens = live_source_new inp, fp_integer_count = 0, fp_integer_buffer = (None, None), fp_diagnostics = [],
      fp_good_count = 0, fp_bad_count = 0, fp_give_up = False\<rparr>"

definition parse_live_object_with_context ::
  "slice_input \<Rightarrow> handle_resolver \<Rightarrow> bool \<Rightarrow> (bytes \<Rightarrow> error + bytes) option \<Rightarrow> bool \<Rightarrow>
   object_failure + live_parsed_object" where
  "parse_live_object_with_context inp resolver has_context decrypter content_stream =
     (case hr_begin_parse resolver of
        Some e \<Rightarrow> Inl (PF_Error e)
      | None \<Rightarrow>
          parse_body \<lparr>pc_resolver = resolver, pc_has_context = has_context, pc_decrypter = decrypter,
            pc_content_stream = content_stream\<rparr> (file_parser_new inp))"

definition parse_live_file_object_with_decrypter ::
  "slice_input \<Rightarrow> handle_resolver \<Rightarrow> (bytes \<Rightarrow> error + bytes) option \<Rightarrow> object_failure + live_parsed_object" where
  "parse_live_file_object_with_decrypter inp resolver decrypter =
     parse_live_object_with_context inp resolver True decrypter False"

definition parse_live_file_object :: "slice_input \<Rightarrow> handle_resolver \<Rightarrow> object_failure + live_parsed_object" where
  "parse_live_file_object inp resolver = parse_live_object_with_context inp resolver True None False"

definition parse_live_content_stream_object ::
  "slice_input \<Rightarrow> handle_resolver \<Rightarrow> object_failure + live_parsed_object" where
  "parse_live_content_stream_object inp resolver = parse_live_object_with_context inp resolver True None True"

definition is_c_whitespace :: "byte \<Rightarrow> bool" where
  "is_c_whitespace b \<longleftrightarrow> b \<in> {0x20, 0x09, 0x0A, 0x0B, 0x0C, 0x0D}"

definition trailing_data_error :: "bytes \<Rightarrow> nat \<Rightarrow> nat \<Rightarrow> error option" where
  "trailing_data_error inp next_offset last_offset =
     (if next_offset \<le> length inp \<and> list_ex (\<lambda>b. \<not> is_c_whitespace b) (drop next_offset inp)
      then Some (Parse last_offset (str ''trailing data found parsing object from string'')) else None)"

definition parse_explicit_object_handle_with_description :: "bytes \<Rightarrow> bytes \<Rightarrow> object_failure + handle" where
  "parse_explicit_object_handle_with_description inp object_description =
     (case parse_live_object_with_context (slice_new inp)
        (detached_handles (Some (str ''parsed object, '' @ object_description @ str '' at offset $PO''))
          (Some object_description)) False None False of
        Inl e \<Rightarrow> Inl e
      | Inr parsed \<Rightarrow>
          (case trailing_data_error inp (lp_next_offset parsed) (lp_last_offset parsed) of
             Some e \<Rightarrow> Inl (PF_Error e)
           | None \<Rightarrow> Inr (lp_value parsed)))"

definition parse_explicit_object_handle :: "bytes \<Rightarrow> object_failure + handle" where
  "parse_explicit_object_handle inp = parse_explicit_object_handle_with_description inp []"

definition parse_object_handle_with_context :: "bytes \<Rightarrow> handle_resolver \<Rightarrow> object_failure + live_parsed_object" where
  "parse_object_handle_with_context inp resolver =
     parse_live_object_with_context (slice_new inp) resolver True None False"

text \<open>\<open>into_direct_value\<close> of an unshared handle.\<close>

definition into_direct_value :: "handle \<Rightarrow> (object_value \<times> int) option" where
  "into_direct_value h =
     (if is_indirect h \<or> h_value h \<in> {V_Unresolved, V_Reserved, V_Destroyed} then None
      else Some (h_value h, h_parsed_offset h))"

definition parse_qpdf_direct_object_handle_with_diagnostics ::
  "bytes \<Rightarrow> int \<Rightarrow> int option \<Rightarrow> handle_resolver \<Rightarrow>
   object_failure + object_value \<times> int \<times> (nat \<times> bytes) list" where
  "parse_qpdf_direct_object_handle_with_diagnostics inp base_offset top_level_offset resolver =
     (case parse_live_file_object (slice_new inp) (offset_handle_resolver resolver base_offset top_level_offset) of
        Inl e \<Rightarrow> Inl e
      | Inr parsed \<Rightarrow>
          (case lp_empty parsed of
             Some empty_offset \<Rightarrow> Inr (V_Null, no_parsed_offset, [(empty_offset, str ''empty object treated as null'')])
           | None \<Rightarrow>
               (case into_direct_value (lp_value parsed) of
                  None \<Rightarrow> Inl PF_Panic
                | Some (v, offset) \<Rightarrow> Inr (v, offset, lp_diagnostics parsed))))"

end
