(* ===== verification/Object_Parser_Safety.thy ===== *)
theory Object_Parser_Safety
  imports Object_Parser
begin

text \<open>
  Why the object parser never panics and always ends, and what it returns. The parser's state keeps a ring of
  pending integers, and every round but the last takes a byte of the input. What holds of every value built
  through a resolver is a contract of the resolver, the locale \<open>parsed_values\<close>.
\<close>

section \<open>Rules for fallible steps\<close>

text \<open>The errors that come from outside or from numbers that do not fit.\<close>

definition parse_error :: "parse_context \<Rightarrow> error \<Rightarrow> bool" where
  "parse_error c e \<longleftrightarrow>
     integer_overflow e \<or> (\<exists>v offset. qpdf_int v offset = Inl e) \<or>
     (\<exists>decrypt text. pc_decrypter c = Some decrypt \<and> decrypt text = Inl e) \<or>
     (pc_decrypter c \<noteq> None \<and> (\<exists>h. try_dereference (hr_document (pc_resolver c)) h = Inl e)) \<or>
     (\<not> pc_has_context c \<and>
        (e = Internal (str ''QPDFParser::parse called without context on an object with indirect references'') \<or>
         (\<exists>offset message. e = QpdfExc (qpdf_exc_new E_DamagedPdf (str ''parsed object'')
            (case hr_warning_description (pc_resolver c) of None \<Rightarrow> [] | Some d \<Rightarrow> d) (i64_of_usize offset) message))))"

definition okp :: "parse_context \<Rightarrow> object_failure + 'a \<times> 's \<Rightarrow> ('a \<Rightarrow> 's \<Rightarrow> bool) \<Rightarrow> bool" where
  "okp c m Q \<longleftrightarrow>
     (case m of Inr (a, p) \<Rightarrow> Q a p | Inl (PF_Error e) \<Rightarrow> parse_error c e | Inl PF_Panic \<Rightarrow> False | Inl PF_Fuel \<Rightarrow> False)"

lemma okp_simps [simp]:
  "okp c (Inr (a, p)) Q = Q a p"
  "okp c (Inl (PF_Error e)) Q = parse_error c e"
  "\<not> okp c (Inl PF_Panic) Q"
  "\<not> okp c (Inl PF_Fuel) Q"
  by (simp_all add: okp_def)

lemma okp_mono: "okp c m Q \<Longrightarrow> (\<And>a p. Q a p \<Longrightarrow> R a p) \<Longrightarrow> okp c m R"
  by (auto simp: okp_def split: sum.splits object_failure.splits)

lemma okp_bind:
  assumes "okp c m Q" "\<And>a p. Q a p \<Longrightarrow> okp c (f a p) R"
  shows "okp c (bindp m f) R"
proof (cases m)
  case (Inl x)
  then show ?thesis using assms(1) by (cases x) simp_all
next
  case (Inr r)
  then show ?thesis using assms by (cases r) simp
qed

lemma okp_cases:
  assumes "okp c m Q"
  obtains a p where "m = Inr (a, p)" "Q a p" | e where "m = Inl (PF_Error e)" "parse_error c e"
  using assms by (auto simp: okp_def split: sum.splits object_failure.splits)

text \<open>Steps that leave the tokens and the ring alone.\<close>

definition calm :: "file_parser \<Rightarrow> file_parser \<Rightarrow> bool" where
  "calm p p' \<longleftrightarrow>
     fp_tokens p' = fp_tokens p \<and> fp_integer_count p' = fp_integer_count p \<and> fp_integer_buffer p' = fp_integer_buffer p"

lemma calm_refl [simp]: "calm p p"
  by (simp add: calm_def)

lemma calm_trans: "calm p q \<Longrightarrow> calm q r \<Longrightarrow> calm p r"
  by (simp add: calm_def)

lemma fp_warn_ok: "okp c (fp_warn c offset message p) (\<lambda>_. calm p)"
  by (auto simp: fp_warn_def calm_def parse_error_def)

lemma too_many_ok: "okp c (too_many_bad_tokens c offset p) (\<lambda>_. calm p)"
  unfolding too_many_bad_tokens_def Let_def
  by (rule okp_bind [where Q = "\<lambda>_. calm p"])
    (auto intro!: okp_bind [OF fp_warn_ok] simp: calm_def)

lemma bad_token_ok: "okp c (bad_token_as c start message v p) (\<lambda>a p'. a = v \<and> calm p p')"
proof -
  have "okp c (case message of None \<Rightarrow> Inr ((), p) | Some m \<Rightarrow> fp_warn c start m p) (\<lambda>_. calm p)"
    by (simp add: fp_warn_ok split: option.split)
  then show ?thesis unfolding bad_token_as_def
    by (auto intro!: okp_bind [OF _ okp_bind [OF too_many_ok]] intro: calm_trans)
qed

text \<open>The ring: as many integers as the count says, up to two, and all of them 64 bits wide.\<close>

definition ring_ok :: "file_parser \<Rightarrow> bool" where
  "ring_ok p \<longleftrightarrow>
     (fp_integer_count p = 0 \<or> snd (fp_integer_buffer p) \<noteq> None) \<and>
     (2 \<le> fp_integer_count p \<longrightarrow> fst (fp_integer_buffer p) \<noteq> None) \<and>
     (\<forall>v offset. fst (fp_integer_buffer p) = Some (v, offset) \<or> snd (fp_integer_buffer p) = Some (v, offset) \<longrightarrow>
        - (2 ^ 63) \<le> v \<and> v < 2 ^ 63)"

lemma ring_ok_calm: "calm p p' \<Longrightarrow> ring_ok p \<Longrightarrow> ring_ok p'"
  by (simp add: calm_def ring_ok_def)

lemma take_pending_ring:
  assumes "ring_ok p" "2 \<le> fp_integer_count p \<or> i = 1 \<and> fp_integer_count p \<noteq> 0" "i < 2"
  obtains v offset where "ring_get i (fp_integer_buffer p) = Some (v, offset)" "- (2 ^ 63) \<le> v" "v < 2 ^ 63"
  using assms by (auto simp: ring_ok_def ring_get_def less_2_cases_iff)

text \<open>The token source after a token.\<close>

definition token_read_by :: "file_parser \<Rightarrow> parser_token \<Rightarrow> file_parser \<Rightarrow> bool" where
  "token_read_by p tok p' \<longleftrightarrow>
     token_shape tok \<and> source_ok (fp_tokens p') \<and> ls_bytes (fp_tokens p') = ls_bytes (fp_tokens p) \<and>
     ls_position (fp_tokens p) \<le> ls_position (fp_tokens p') \<and>
     (pt_type tok = T_Eof \<or> ls_position (fp_tokens p) < ls_position (fp_tokens p')) \<and>
     pt_start tok \<le> ls_position (fp_tokens p') \<and> ls_last_offset (fp_tokens p') = pt_start tok \<and>
     fp_integer_count p' = fp_integer_count p \<and> fp_integer_buffer p' = fp_integer_buffer p"

lemma fp_next_token_ok:
  assumes "source_ok (fp_tokens p)"
  shows "okp c (fp_next_token c p) (token_read_by p)"
proof (cases "next_live_token (fp_tokens p)")
  case (Inl e)
  then show ?thesis using next_live_token_errors [OF assms Inl] by (simp add: fp_next_token_def parse_error_def)
next
  case (Inr r)
  obtain tok s where r: "r = (tok, s)" by (cases r)
  have read: "token_read_by p tok (p\<lparr>fp_tokens := s\<rparr>)"
    using next_live_token_reads [OF assms, of tok s] Inr r by (simp add: token_read_by_def)
  show ?thesis
  proof (cases "\<exists>t m. tok = PT_Owned t \<and> tok_error_message t = Some m")
    case True
    then obtain t m where t: "tok = PT_Owned t" "tok_error_message t = Some m" by blast
    have "token_read_by p (PT_Owned (t\<lparr>tok_error_message := None\<rparr>)) p'" if "calm (p\<lparr>fp_tokens := s\<rparr>) p'" for p'
      using that read t(1) by (simp add: token_read_by_def calm_def token_shape_def)
    then show ?thesis using Inr r t by (auto simp: fp_next_token_def intro!: okp_bind [OF fp_warn_ok])
  next
    case False
    then have "fp_next_token c p = Inr (tok, p\<lparr>fp_tokens := s\<rparr>)"
      using Inr r by (cases tok) (auto simp: fp_next_token_def split: option.split)
    then show ?thesis using read by simp
  qed
qed

section \<open>The contract of a resolver\<close>

text \<open>
  \<open>V d h\<close>: what holds of a parsed handle with at most \<open>d\<close> nested containers.
\<close>

definition scalar_value :: "object_value \<Rightarrow> bool" where
  "scalar_value v \<longleftrightarrow>
     (case v of V_Boolean b \<Rightarrow> True | V_Integer i \<Rightarrow> - (2 ^ 63) \<le> i \<and> i < 2 ^ 63 | V_Real r \<Rightarrow> True | V_Name n \<Rightarrow> True
      | V_String s \<Rightarrow> True | V_Operator t \<Rightarrow> True | _ \<Rightarrow> False)"

definition entries_ok :: "(handle \<Rightarrow> bool) \<Rightarrow> (bytes \<times> handle) list \<Rightarrow> bool" where
  "entries_ok W m \<longleftrightarrow> bt_sorted m \<and> (\<forall>k \<in> fst ` set m. slashed k) \<and> (\<forall>h \<in> snd ` set m. W h)"

lemma entries_ok_Nil [simp]: "entries_ok W []"
  by (simp add: entries_ok_def)

lemma bt_insert_values: "snd ` set (bt_insert k v m) \<subseteq> insert v (snd ` set m)"
  by (induction k v m rule: bt_insert.induct) auto

lemma entries_ok_insert: "entries_ok W m \<Longrightarrow> slashed k \<Longrightarrow> W v \<Longrightarrow> entries_ok W (bt_insert k v m)"
  using bt_insert_values [of k v m]
  unfolding entries_ok_def bt_insert_keys by (blast intro: bt_insert_sorted)

locale parsed_values =
  fixes c :: parse_context
    and V :: "nat \<Rightarrow> handle \<Rightarrow> bool"
  assumes V_Suc: "V d h \<Longrightarrow> V (Suc d) h"
    and V_null: "V 0 handle_null"
    and V_uninitialized: "pc_content_stream c \<Longrightarrow> V 0 uninitialized"
    and V_scalar: "scalar_value v \<Longrightarrow> V 0 (hr_direct_handle_at (pc_resolver c) v offset)"
    and V_array: "list_all (V d) vs \<Longrightarrow> V (Suc d) (hr_direct_handle_at (pc_resolver c) (V_Array vs) offset)"
    and V_dictionary: "entries_ok (V d) m \<Longrightarrow> V (Suc d) (hr_direct_handle_at (pc_resolver c) (V_Dictionary m) offset)"
    and V_reference: "pc_has_context c \<Longrightarrow> 1 \<le> number \<Longrightarrow> number < 2 ^ 31 \<Longrightarrow> 0 \<le> generation \<Longrightarrow> generation < 65535 \<Longrightarrow>
      V 0 (hr_indirect_handle_at (pc_resolver c) (Object_Ref number generation) offset)"
begin

lemma V_any: "V 0 h \<Longrightarrow> V d h"
  by (induction d) (auto intro: V_Suc)

text \<open>The innermost of \<open>n\<close> open containers holds values of depth \<open>500 - n\<close>.\<close>

fun frame_ok :: "nat \<Rightarrow> live_frame \<Rightarrow> bool" where
  "frame_ok d (FArray vs start) = list_all (V d) vs"
| "frame_ok d (FDictionary values orphans pending_key contents start frame_offset) =
     (entries_ok (V d) values \<and> list_all (V d) orphans \<and> (\<forall>key. pending_key = Some key \<longrightarrow> slashed key) \<and>
      (contents \<noteq> None \<longrightarrow> pc_decrypter c \<noteq> None))"

fun frames_ok :: "live_frame list \<Rightarrow> bool" where
  "frames_ok [] = True"
| "frames_ok (frame # rest) = (frame_ok (499 - length rest) frame \<and> length rest < 500 \<and> frames_ok rest)"

lemma add_to_frame_ok:
  assumes "frame_ok d frame" "V d v"
  shows "okp c (add_to_frame c frame v p) (\<lambda>frame' p'. frame_ok d frame' \<and> calm p p')"
proof (cases frame)
  case (FArray vs start)
  then show ?thesis using assms by (simp add: add_to_frame_def)
next
  case (FDictionary entries orphans pending_key contents start frame_offset)
  show ?thesis
  proof (cases pending_key)
    case None
    then show ?thesis using FDictionary assms by (simp add: add_to_frame_def)
  next
    case (Some key)
    have "okp c (insert_dictionary_value c entries key v frame_offset p)
        (\<lambda>m p'. m = bt_insert key v entries \<and> calm p p')"
      unfolding insert_dictionary_value_def
      by (rule okp_bind [where Q = "\<lambda>_. calm p"]) (auto simp: fp_warn_ok)
    then show ?thesis using FDictionary Some assms unfolding add_to_frame_def
      by simp (erule okp_bind, simp add: entries_ok_insert)
  qed
qed

lemma add_to_top_frame_ok:
  assumes "frames_ok frames" "frames \<noteq> []" "V (500 - length frames) v"
  shows "okp c (add_to_top_frame c frames v p)
    (\<lambda>frames' p'. frames_ok frames' \<and> length frames' = length frames \<and> calm p p')"
proof (cases frames)
  case (Cons frame rest)
  then have "frame_ok (499 - length rest) frame" "V (499 - length rest) v" using assms by simp_all
  then show ?thesis using Cons assms(1) unfolding add_to_top_frame_def
    by (auto intro!: okp_bind [OF add_to_frame_ok])
qed (use assms in simp)

lemma push_frame_ok:
  assumes "frames_ok frames" "pt_type tok \<in> {T_ArrayOpen, T_DictOpen}"
  shows "okp c (push_frame c frames tok p)
    (\<lambda>(pushed, frames') p'. frames_ok frames' \<and> (pushed \<or> frames = [] \<longrightarrow> frames' \<noteq> []) \<and> calm p p')"
  using assms unfolding push_frame_def
  by (auto simp: max_parse_depth_def not_le calm_def intro!: okp_bind [OF fp_warn_ok])

section \<open>Closing containers\<close>

lemma finish_array_ok: "list_all (V d) vs \<Longrightarrow> V (Suc d) (finish_array c vs start)"
  by (simp add: finish_array_def direct_def direct_at_def V_array)

lemma fake_candidate_slashed: "slashed (fake_candidate n)"
  by (simp add: fake_candidate_def slashed_def str_def)

lemma insert_orphans_ok:
  "entries_ok (V d) m \<Longrightarrow> list_all (V d) orphans \<Longrightarrow>
   okp c (insert_orphans c frame_offset names fake orphans m p) (\<lambda>m' p'. entries_ok (V d) m' \<and> calm p p')"
proof (induction orphans arbitrary: fake m p)
  case (Cons v vs)
  show ?case
    unfolding insert_orphans.simps Let_def
  proof (rule okp_bind [OF fp_warn_ok])
    fix u p' assume "calm p p'"
    then show "okp c (insert_orphans c frame_offset names (next_fake (map fst m @ names) fake + 1) vs
        (bt_insert (fake_candidate (next_fake (map fst m @ names) fake)) v m) p')
        (\<lambda>m' p'. entries_ok (V d) m' \<and> calm p p')"
      using Cons.prems by (intro okp_mono [OF Cons.IH] entries_ok_insert fake_candidate_slashed) (auto intro: calm_trans)
  qed
qed simp

lemma restore_signature_error: "pc_decrypter c \<noteq> None \<Longrightarrow> restore_signature_contents (hr_document (pc_resolver c)) values = Inl e \<Longrightarrow> parse_error c e"
  by (auto simp: restore_signature_contents_def try_is_name_and_equals_def try_is_string_def parse_error_def Let_def
      map_sum_def split: option.splits sum.splits if_splits)

lemma finish_dictionary_ok:
  assumes "entries_ok (V d) values" "list_all (V d) orphans" "\<forall>key. pending_key = Some key \<longrightarrow> slashed key"
    "contents \<noteq> None \<longrightarrow> pc_decrypter c \<noteq> None"
  shows "okp c (finish_dictionary c values orphans pending_key contents start frame_offset p)
    (\<lambda>v p'. V (Suc d) v \<and> calm p p')"
  unfolding finish_dictionary_def
proof (rule okp_bind)
  show "okp c (case pending_key of
          Some key \<Rightarrow>
            bindp (fp_warn c frame_offset
                (str ''dictionary ended prematurely; using null as value for last key'') p)
              (\<lambda>_ p. Inr (bt_insert key handle_null values, p))
        | None \<Rightarrow> Inr (values, p)) (\<lambda>values' p'. entries_ok (V d) values' \<and> calm p p')"
    using assms(1,3) V_any [OF V_null, of d]
    by (auto split: option.split intro!: okp_bind [OF fp_warn_ok] entries_ok_insert)
next
  fix values' p' assume 1: "entries_ok (V d) values' \<and> calm p p'"
  show "okp c (bindp (insert_orphans c frame_offset (map (\<lambda>n. 0x2F # n) (List.map_filter as_name orphans)) 1 orphans values' p')
       (\<lambda>values p.
     bindp
       (case contents of
          None \<Rightarrow> Inr (values, p)
        | Some (raw_contents, offset) \<Rightarrow>
            bindp (lift_parse_error (restore_signature_contents (hr_document (pc_resolver c)) values) p)
              (\<lambda>restore p.
                Inr (if restore then bt_insert (str ''/Contents'') (direct_at c (V_String raw_contents) offset) values
                     else values, p)))
       (\<lambda>values p. Inr (direct c (V_Dictionary values) start, p)))) (\<lambda>v p'. V (Suc d) v \<and> calm p p')"
  proof (rule okp_bind)
    show "okp c (insert_orphans c frame_offset (map (\<lambda>n. 0x2F # n) (List.map_filter as_name orphans)) 1 orphans values' p')
        (\<lambda>values' p'. entries_ok (V d) values' \<and> calm p p')"
      by (rule okp_mono [OF insert_orphans_ok]) (use 1 assms(2) in \<open>auto intro: calm_trans\<close>)
  next
    fix entries q assume 2: "entries_ok (V d) entries \<and> calm p q"
    have raw: "V d (direct_at c (V_String raw) offset)" for raw offset
      by (rule V_any) (simp add: direct_at_def V_scalar scalar_value_def)
    have slash: "slashed (str ''/Contents'')" by (simp add: slashed_def str_def)
    show "okp c (bindp
       (case contents of
          None \<Rightarrow> Inr (entries, q)
        | Some (raw_contents, offset) \<Rightarrow>
            bindp (lift_parse_error (restore_signature_contents (hr_document (pc_resolver c)) entries) q)
              (\<lambda>restore p.
                Inr (if restore then bt_insert (str ''/Contents'') (direct_at c (V_String raw_contents) offset) entries
                     else entries, p)))
       (\<lambda>values p. Inr (direct c (V_Dictionary values) start, p))) (\<lambda>v p'. V (Suc d) v \<and> calm p p')"
    proof (rule okp_bind [where Q = "\<lambda>m p'. entries_ok (V d) m \<and> calm p p'"])
      show "okp c (case contents of
          None \<Rightarrow> Inr (entries, q)
        | Some (raw_contents, offset) \<Rightarrow>
            bindp (lift_parse_error (restore_signature_contents (hr_document (pc_resolver c)) entries) q)
              (\<lambda>restore p.
                Inr (if restore then bt_insert (str ''/Contents'') (direct_at c (V_String raw_contents) offset) entries
                     else entries, p))) (\<lambda>m p'. entries_ok (V d) m \<and> calm p p')"
      proof (cases contents)
        case (Some rc)
        then show ?thesis
          using 2 assms(4) entries_ok_insert [of "V d", OF _ slash raw] restore_signature_error [of entries]
          by (cases "restore_signature_contents (hr_document (pc_resolver c)) entries") (auto split: prod.split)
      qed (use 2 in simp)
    next
      fix m q' assume "entries_ok (V d) m \<and> calm p q'"
      then show "okp c (Inr (direct c (V_Dictionary m) start, q')) (\<lambda>v p'. V (Suc d) v \<and> calm p p')"
        by (simp add: direct_def direct_at_def V_dictionary)
    qed
  qed
qed

section \<open>Scalars\<close>

lemma parse_scalar_ok:
  assumes "token_shape tok" "pt_type tok \<notin> {T_ArrayOpen, T_DictOpen}"
  shows "okp c (parse_scalar_token c tok scalar_offset p) (\<lambda>v p'. V 0 v \<and> calm p p')"
proof -
  have bad: "okp c (bad_token_as c start message handle_null p) (\<lambda>v p'. V 0 v \<and> calm p p')" for start message
    by (rule okp_mono [OF bad_token_ok]) (simp add: V_null)
  note scalars = V_scalar scalar_value_def direct_at_def V_null
  have word: "okp c (bindp (fp_warn c (tok_start t) m p) (\<lambda>_ p. bindp (too_many_bad_tokens c (tok_start t) p)
      (\<lambda>_ p. Inr (direct_at c (V_String (tok_value t)) scalar_offset, p)))) (\<lambda>v p'. V 0 v \<and> calm p p')" for t m
    by (auto intro!: okp_bind [OF fp_warn_ok okp_bind [OF too_many_ok]] simp: scalars intro: calm_trans)
  have string: "okp c (bindp (case pc_decrypter c of
                   None \<Rightarrow> Inr (tok_value t, p)
                 | Some decrypt \<Rightarrow> lift_parse_error (decrypt (tok_value t)) p)
            (\<lambda>v p. Inr (direct_at c (V_String v) scalar_offset, p))) (\<lambda>v p'. V 0 v \<and> calm p p')" for t
  proof (cases "pc_decrypter c")
    case (Some decrypt)
    then show ?thesis by (cases "decrypt (tok_value t)") (auto simp: scalars parse_error_def)
  qed (simp add: scalars)
  have owned: "okp c (parse_owned_scalar_token c t scalar_offset p) (\<lambda>v p'. V 0 v \<and> calm p p')"
    if "tok_type t \<notin> {T_ArrayOpen, T_DictOpen, T_Integer}" for t
    using that bad word [of t] string [of t]
    by (cases "tok_type t") (auto simp: parse_owned_scalar_token_def scalars intro!: okp_bind [OF fp_warn_ok])
  show ?thesis
    using assms owned by (cases tok) (auto simp: parse_scalar_token_def token_shape_def scalars from_parts_def)
qed

section \<open>The integer ring\<close>

lemma add_pending_ok:
  assumes "frames_ok frames" "frames \<noteq> []" "- (2 ^ 63) \<le> v" "v < 2 ^ 63"
  shows "okp c (add_pending_integer c (v, offset) frames p)
    (\<lambda>frames' p'. frames_ok frames' \<and> length frames' = length frames \<and> calm p p')"
  unfolding add_pending_integer_def
  by (rule add_to_top_frame_ok [OF assms(1,2) V_any])
    (use assms in \<open>simp add: direct_def direct_at_def V_scalar scalar_value_def\<close>)

lemma buffer_integer_ok:
  assumes "frames_ok frames" "frames \<noteq> []" "ring_ok p" "- (2 ^ 63) \<le> v" "v < 2 ^ 63"
  shows "okp c (buffer_integer c (v, offset) frames p)
    (\<lambda>frames' p'. frames_ok frames' \<and> frames' \<noteq> [] \<and> fp_tokens p' = fp_tokens p \<and> ring_ok p')"
proof -
  let ?n = "saturating_succ (fp_integer_count p)"
  let ?q = "p\<lparr>fp_integer_count := ?n\<rparr>"
  have n: "?n = fp_integer_count p + 1 \<or> ?n = fp_integer_count p \<and> 2 < ?n"
    by (auto simp: saturating_succ_def)
  show ?thesis
  proof (cases "?n > 2")
    case True
    then have two: "2 \<le> fp_integer_count p" using n by auto
    have "?n mod 2 < 2" by simp
    obtain w off where w: "ring_get (?n mod 2) (fp_integer_buffer p) = Some (w, off)" "- (2 ^ 63) \<le> w" "w < 2 ^ 63"
      using take_pending_ring [OF assms(3), of "?n mod 2"] two by auto
    let ?r = "?q\<lparr>fp_integer_buffer := ring_set (?n mod 2) None (fp_integer_buffer p)\<rparr>"
    have "ring_ok (p'\<lparr>fp_integer_buffer := ring_set (?n mod 2) (Some (v, offset)) (fp_integer_buffer p')\<rparr>)"
      if "calm ?r p'" for p'
      using that two assms(3-5) by (auto simp: calm_def ring_ok_def ring_set_def)
    then show ?thesis
      using True w assms(2) unfolding buffer_integer_def Let_def
      by (auto simp: take_pending_def calm_def intro!: okp_bind [OF add_pending_ok [OF assms(1,2) w(2,3)]])
  next
    case False
    then have "fp_integer_count p = 0 \<and> ?n = 1 \<or> fp_integer_count p = 1 \<and> ?n = 2" using n by auto
    then have "ring_ok (?q\<lparr>fp_integer_buffer := ring_set (?n mod 2) (Some (v, offset)) (fp_integer_buffer p)\<rparr>)"
      using assms(3-5) by (auto simp: ring_ok_def ring_set_def)
    then show ?thesis using False assms(1,2) by (simp add: buffer_integer_def Let_def)
  qed
qed

text \<open>Both pending integers, the older one first.\<close>

lemma take_both:
  assumes "ring_ok p" "2 \<le> fp_integer_count p"
  shows "\<exists>v1 o1 v2 o2 r q.
    take_pending (if fp_integer_count p = 2 then 1 else (fp_integer_count p + 1) mod 2) p = Inr ((v1, o1), r) \<and>
    take_pending (fp_integer_count p mod 2) r = Inr ((v2, o2), q) \<and>
    fp_tokens q = fp_tokens p \<and> fp_integer_count r = fp_integer_count p \<and> fp_integer_count q = fp_integer_count p \<and>
    fp_integer_buffer q = (None, None) \<and>
    - (2 ^ 63) \<le> v1 \<and> v1 < 2 ^ 63 \<and> - (2 ^ 63) \<le> v2 \<and> v2 < 2 ^ 63"
proof -
  obtain a1 a2 b1 b2 where b: "fp_integer_buffer p = (Some (a1, a2), Some (b1, b2))"
    using assms by (cases "fp_integer_buffer p") (auto simp: ring_ok_def)
  have fits: "- (2 ^ 63) \<le> a1" "a1 < 2 ^ 63" "- (2 ^ 63) \<le> b1" "b1 < 2 ^ 63"
    using assms(1) b by (auto simp: ring_ok_def)
  show ?thesis
  proof (cases "fp_integer_count p mod 2 = 0")
    case True
    then have "(if fp_integer_count p = 2 then 1 else (fp_integer_count p + 1) mod 2) = 1" by presburger
    then show ?thesis using True b fits by (simp add: take_pending_def ring_get_def ring_set_def)
  next
    case False
    then have "(if fp_integer_count p = 2 then 1 else (fp_integer_count p + 1) mod 2) = 0"
      "fp_integer_count p mod 2 = 1" by presburger+
    then show ?thesis using b fits by (simp add: take_pending_def ring_get_def ring_set_def)
  qed
qed

text \<open>Both ways to empty the ring end with the count at zero.\<close>

lemma ring_emptied:
  assumes "okp c m (\<lambda>frames' p'. frames_ok frames' \<and> length frames' = length frames \<and> calm q p')"
    "frames \<noteq> []" "fp_tokens q = fp_tokens p" "ring_ok (q\<lparr>fp_integer_count := 0\<rparr>)"
  shows "okp c (bindp m (\<lambda>frames p. Inr (frames, p\<lparr>fp_integer_count := 0\<rparr>)))
    (\<lambda>frames' p'. frames_ok frames' \<and> frames' \<noteq> [] \<and> fp_tokens p' = fp_tokens p \<and> ring_ok p')"
proof (rule okp_bind [OF assms(1)])
  fix frames' p' assume a: "frames_ok frames' \<and> length frames' = length frames \<and> calm q p'"
  then have "ring_ok (p'\<lparr>fp_integer_count := 0\<rparr>)" "fp_tokens p' = fp_tokens p" "frames' \<noteq> []"
    using assms(2-4) by (auto simp: calm_def ring_ok_def)
  then show "okp c (Inr (frames', p'\<lparr>fp_integer_count := 0\<rparr>))
      (\<lambda>frames' p'. frames_ok frames' \<and> frames' \<noteq> [] \<and> fp_tokens p' = fp_tokens p \<and> ring_ok p')"
    using a by simp
qed

lemma flush_integer_ok:
  assumes "frames_ok frames" "frames \<noteq> []" "ring_ok p"
  shows "okp c (flush_integer_buffer c frames p)
    (\<lambda>frames' p'. frames_ok frames' \<and> frames' \<noteq> [] \<and> fp_tokens p' = fp_tokens p \<and> ring_ok p')"
proof -
  consider "fp_integer_count p = 0" | "fp_integer_count p = 1" | "2 \<le> fp_integer_count p" by linarith
  then show ?thesis
  proof cases
    case 1
    then show ?thesis using assms by (simp add: flush_integer_buffer_def)
  next
    case 2
    obtain v offset where v: "ring_get 1 (fp_integer_buffer p) = Some (v, offset)" "- (2 ^ 63) \<le> v" "v < 2 ^ 63"
      using take_pending_ring [OF assms(3), of 1] 2 by auto
    let ?q = "p\<lparr>fp_integer_buffer := ring_set 1 None (fp_integer_buffer p)\<rparr>"
    have "ring_ok (?q\<lparr>fp_integer_count := 0\<rparr>)"
      using assms(3) by (auto simp: ring_ok_def ring_set_def)
    then have "okp c (bindp (add_pending_integer c (v, offset) frames ?q) (\<lambda>frames p. Inr (frames, p\<lparr>fp_integer_count := 0\<rparr>)))
        (\<lambda>frames' p'. frames_ok frames' \<and> frames' \<noteq> [] \<and> fp_tokens p' = fp_tokens p \<and> ring_ok p')"
      by (intro ring_emptied [OF add_pending_ok [OF assms(1,2) v(2,3)] assms(2)]) simp_all
    then show ?thesis
      using 2 v(1) unfolding flush_integer_buffer_def by (simp add: take_pending_def)
  next
    case 3
    obtain v1 o1 v2 o2 r q where q:
      "take_pending (if fp_integer_count p = 2 then 1 else (fp_integer_count p + 1) mod 2) p = Inr ((v1, o1), r)"
      "take_pending (fp_integer_count p mod 2) r = Inr ((v2, o2), q)"
      "fp_tokens q = fp_tokens p" "fp_integer_count r = fp_integer_count p" "fp_integer_count q = fp_integer_count p"
      "fp_integer_buffer q = (None, None)"
      "- (2 ^ 63) \<le> v1" "v1 < 2 ^ 63" "- (2 ^ 63) \<le> v2" "v2 < 2 ^ 63"
      using take_both [OF assms(3) 3] by (elim exE conjE) (rule that)
    have second: "okp c (add_pending_integer c (v2, o2) frames' p')
        (\<lambda>frames'' p''. frames_ok frames'' \<and> length frames'' = length frames' \<and> calm q p'')"
      if "frames_ok frames' \<and> length frames' = length frames \<and> calm q p'" for frames' p'
      by (rule okp_mono [OF add_pending_ok]) (use that assms(2) q in \<open>auto intro: calm_trans\<close>)
    have both: "okp c (bindp (add_pending_integer c (v1, o1) frames q) (add_pending_integer c (v2, o2)))
        (\<lambda>frames' p'. frames_ok frames' \<and> length frames' = length frames \<and> calm q p')"
      by (rule okp_bind [OF add_pending_ok [OF assms(1,2) q(7,8)]], rule okp_mono [OF second]) simp_all
    have "okp c (bindp (bindp (add_pending_integer c (v1, o1) frames q) (add_pending_integer c (v2, o2)))
        (\<lambda>frames p. Inr (frames, p\<lparr>fp_integer_count := 0\<rparr>)))
        (\<lambda>frames' p'. frames_ok frames' \<and> frames' \<noteq> [] \<and> fp_tokens p' = fp_tokens p \<and> ring_ok p')"
      by (rule ring_emptied [OF both assms(2) q(3)]) (simp add: ring_ok_def q(6))
    then show ?thesis
      using 3 unfolding flush_integer_buffer_def Let_def by (simp add: q(1,2,4) del: One_nat_def)
  qed
qed

lemma finish_reference_ok:
  assumes "frames_ok frames" "frames \<noteq> []" "ring_ok p" "2 \<le> fp_integer_count p"
  shows "okp c (finish_integer_reference c frames p)
    (\<lambda>frames' p'. frames_ok frames' \<and> frames' \<noteq> [] \<and> fp_tokens p' = fp_tokens p \<and> ring_ok p')"
proof -
  obtain v1 o1 v2 o2 r q where q:
      "take_pending (if fp_integer_count p = 2 then 1 else (fp_integer_count p + 1) mod 2) p = Inr ((v1, o1), r)"
      "take_pending (fp_integer_count p mod 2) r = Inr ((v2, o2), q)"
    "fp_tokens q = fp_tokens p" "fp_integer_count r = fp_integer_count p" "fp_integer_count q = fp_integer_count p"
      "fp_integer_buffer q = (None, None)"
    "- (2 ^ 63) \<le> v1" "v1 < 2 ^ 63" "- (2 ^ 63) \<le> v2" "v2 < 2 ^ 63"
    using take_both [OF assms(3,4)] by (elim exE conjE) (rule that)
  let ?q = "q\<lparr>fp_integer_count := 0\<rparr>"
  have add: "okp c (add_to_top_frame c frames h ?q)
      (\<lambda>frames' p'. frames_ok frames' \<and> frames' \<noteq> [] \<and> fp_tokens p' = fp_tokens p \<and> ring_ok p')" if "V 0 h" for h
  proof (rule okp_mono [OF add_to_top_frame_ok [OF assms(1,2) V_any [OF that]]])
    fix frames' p' assume a: "frames_ok frames' \<and> length frames' = length frames \<and> calm ?q p'"
    have "ring_ok ?q" by (simp add: ring_ok_def q(6))
    then have "ring_ok p'" using a ring_ok_calm by blast
    then show "frames_ok frames' \<and> frames' \<noteq> [] \<and> fp_tokens p' = fp_tokens p \<and> ring_ok p'"
      using a assms(2) q(3) by (auto simp: calm_def)
  qed
  have fits: "qpdf_int v off = Inr w \<Longrightarrow> w = v \<and> v < 2 ^ 31" for v off w
    by (auto simp: qpdf_int_def split: if_splits)
  show ?thesis
  proof (cases "pc_has_context c")
    case False
    then show ?thesis unfolding finish_integer_reference_def Let_def by (simp add: q(1,2,4) parse_error_def)
  next
    case True
    show ?thesis
    proof (cases "qpdf_int v1 o1")
      case (Inl e)
      then show ?thesis using True unfolding finish_integer_reference_def Let_def
        by (auto simp: q(1,2,4) parse_error_def)
    next
      case (Inr n)
      show ?thesis
      proof (cases "qpdf_int v2 o2")
        case (Inl e)
        then show ?thesis using True \<open>qpdf_int v1 o1 = Inr n\<close> unfolding finish_integer_reference_def Let_def
          by (auto simp: q(1,2,4) parse_error_def)
      next
        case (Inr g)
        moreover have "n < 2 ^ 31" using fits [OF \<open>qpdf_int v1 o1 = Inr n\<close>] by simp
        ultimately show ?thesis
          using True \<open>qpdf_int v1 o1 = Inr n\<close> add [OF V_null] add [OF V_reference [OF True, of n g "usize_as_i64 o1"]]
          unfolding finish_integer_reference_def Let_def by (simp add: q(1,2,4))
      qed
    qed
  qed
qed

section \<open>The main loop\<close>

definition round_result :: "parser_token \<Rightarrow> handle + live_frame list \<Rightarrow> bool" where
  "round_result tok r \<longleftrightarrow>
     (case r of Inl v \<Rightarrow> V 500 v | Inr frames \<Rightarrow> frames_ok frames \<and> frames \<noteq> [] \<and> pt_type tok \<noteq> T_Eof)"

lemma next_round_ok:
  assumes "frames_ok frames" "frames \<noteq> []" "calm p p'" "pt_type tok \<noteq> T_Eof"
  shows "okp c (next_round frames p') (\<lambda>r q. round_result tok r \<and> calm p q)"
  using assms by (simp add: next_round_def round_result_def V_any V_null)

lemma add_and_go_on:
  assumes "frames_ok frames" "frames \<noteq> []" "V (500 - length frames) v" "calm p p'" "pt_type tok \<noteq> T_Eof"
  shows "okp c (bindp (add_to_top_frame c frames v p') next_round) (\<lambda>r q. round_result tok r \<and> calm p q)"
proof (rule okp_bind [OF add_to_top_frame_ok [OF assms(1-3)]])
  fix frames' q assume "frames_ok frames' \<and> length frames' = length frames \<and> calm p' q"
  then show "okp c (next_round frames' q) (\<lambda>r q. round_result tok r \<and> calm p q)"
    using assms(2,4,5) by (intro next_round_ok) (auto intro: calm_trans)
qed

lemma close_container_ok:
  assumes "frames_ok rest" "length rest < 500" "V (500 - length rest) v" "calm p p'" "pt_type tok \<noteq> T_Eof"
  shows "okp c (close_container c rest v p') (\<lambda>r q. round_result tok r \<and> calm p q)"
  using assms add_and_go_on [OF assms(1) _ assms(3-5)]
  by (cases "rest = []") (simp_all add: close_container_def round_result_def)

lemma capture_ok: "frames_ok frames \<Longrightarrow> frames_ok (capture_raw_signature_contents c frames tok)"
  "(capture_raw_signature_contents c frames tok = []) = (frames = [])"
  by (auto simp: capture_raw_signature_contents_def split: parser_token.split list.split live_frame.split)

lemma scalar_round_ok:
  assumes "frames_ok frames" "frames \<noteq> []" "token_shape tok" "pt_type tok \<notin> {T_ArrayOpen, T_DictOpen, T_Eof}"
  shows "okp c (scalar_round c frames tok p) (\<lambda>r q. round_result tok r \<and> calm p q)"
  unfolding scalar_round_def Let_def
proof (rule okp_bind [OF parse_scalar_ok [OF assms(3)]])
  show "pt_type tok \<notin> {T_ArrayOpen, T_DictOpen}" using assms(4) by simp
  fix v p' assume v: "V 0 v \<and> calm p p'"
  let ?frames = "capture_raw_signature_contents c frames tok"
  have "okp c (bindp (add_to_top_frame c ?frames v p') next_round) (\<lambda>r q. round_result tok r \<and> calm p q)"
    using assms v by (intro add_and_go_on) (auto simp: capture_ok V_any)
  then show "okp c (if fp_give_up p' then Inr (Inl handle_null, p')
      else bindp (add_to_top_frame c ?frames v p') next_round) (\<lambda>r q. round_result tok r \<and> calm p q)"
    using v by (simp add: round_result_def V_any V_null)
qed

lemma dispatch_ok:
  assumes "frames_ok frames" "frames \<noteq> []" "token_shape tok"
  shows "okp c (dispatch_token c tok frames p) (\<lambda>r q. round_result tok r \<and> calm p q)"
proof -
  note scalar = scalar_round_ok [OF assms]
  have push: "okp c (bindp (push_frame c frames tok p)
      (\<lambda>(pushed, frames) p. if pushed then next_round frames p else Inr (Inl handle_null, p)))
      (\<lambda>r q. round_result tok r \<and> calm p q)" if "pt_type tok \<in> {T_ArrayOpen, T_DictOpen}"
  proof (rule okp_bind [OF push_frame_ok [OF assms(1) that]])
    fix a p' assume a: "(case a of (pushed, frames') \<Rightarrow>
        \<lambda>p'. frames_ok frames' \<and> (pushed \<or> frames = [] \<longrightarrow> frames' \<noteq> []) \<and> calm p p') p'"
    obtain pushed frames' where [simp]: "a = (pushed, frames')" by (cases a)
    show "okp c ((case a of (pushed, frames) \<Rightarrow> \<lambda>p. if pushed then next_round frames p else Inr (Inl handle_null, p)) p')
        (\<lambda>r q. round_result tok r \<and> calm p q)"
      using a that next_round_ok [of frames' p p' tok] by (auto simp: round_result_def V_any V_null)
  qed
  have eof: "okp c (bindp (fp_warn c (pt_start tok) m p) (\<lambda>_ p. if pc_content_stream c then Inr (Inl uninitialized, p)
      else bindp (fp_warn c (pt_start tok) m' p) (\<lambda>_ p. Inr (Inl handle_null, p))))
      (\<lambda>r q. round_result tok r \<and> calm p q)" for m m'
    by (auto intro!: okp_bind [OF fp_warn_ok] simp: round_result_def V_any V_null V_uninitialized) (erule (1) calm_trans)
  show ?thesis
  proof (cases "pt_type tok")
    case T_ArrayClose
    show ?thesis
    proof (cases "\<exists>vs start rest. frames = FArray vs start # rest")
      case True
      then obtain vs start rest where f: "frames = FArray vs start # rest" by blast
      then have "V (Suc (499 - length rest)) (finish_array c vs start)" "length rest < 500" "frames_ok rest"
        using assms(1) by (auto intro: finish_array_ok)
      then show ?thesis using T_ArrayClose f close_container_ok [of rest "finish_array c vs start" p p tok]
        by (simp add: dispatch_token_def Suc_diff_le [symmetric] del: diff_Suc_Suc)
    next
      case False
      then have "dispatch_token c tok frames p = scalar_round c frames tok p"
        using T_ArrayClose by (auto simp: dispatch_token_def split: list.split live_frame.split)
      then show ?thesis using scalar T_ArrayClose by simp
    qed
  next
    case T_DictClose
    show ?thesis
    proof (cases "\<exists>m orphans key contents start off rest. frames = FDictionary m orphans key contents start off # rest")
      case True
      then obtain m orphans key contents start off rest
        where f: "frames = FDictionary m orphans key contents start off # rest" by blast
      then have ok: "entries_ok (V (499 - length rest)) m" "list_all (V (499 - length rest)) orphans"
        "\<forall>k. key = Some k \<longrightarrow> slashed k"
        "contents \<noteq> None \<longrightarrow> pc_decrypter c \<noteq> None" and rest: "length rest < 500" "frames_ok rest"
        using assms(1) by auto
      have "okp c (bindp (finish_dictionary c m orphans key contents start off p) (close_container c rest))
          (\<lambda>r q. round_result tok r \<and> calm p q)"
        by (rule okp_bind [OF finish_dictionary_ok [OF ok]], rule close_container_ok)
          (use rest T_DictClose in \<open>simp_all add: Suc_diff_le [symmetric] del: diff_Suc_Suc\<close>)
      then show ?thesis using T_DictClose f by (simp add: dispatch_token_def)
    next
      case False
      then have "dispatch_token c tok frames p = scalar_round c frames tok p"
        using T_DictClose by (auto simp: dispatch_token_def split: list.split live_frame.split)
      then show ?thesis using scalar T_DictClose by simp
    qed
  next
    case T_Name
    then obtain t where t: "tok = PT_Owned t" "slashed (tok_value t)"
      using assms(3) by (cases tok) (auto simp: token_shape_def)
    show ?thesis
    proof (cases "\<exists>m orphans contents start off rest. frames = FDictionary m orphans None contents start off # rest")
      case True
      then show ?thesis using T_Name t assms(1) by (auto simp: dispatch_token_def round_result_def)
    next
      case False
      then have "dispatch_token c tok frames p = bindp (parse_scalar_token c tok (usize_as_i64 (pt_start tok)) p)
                 (\<lambda>v p. bindp (add_to_top_frame c frames v p) next_round)"
        using T_Name by (auto simp: dispatch_token_def split: list.split live_frame.split option.split)
      moreover have "okp c (bindp (parse_scalar_token c tok (usize_as_i64 (pt_start tok)) p)
                 (\<lambda>v p. bindp (add_to_top_frame c frames v p) next_round)) (\<lambda>r q. round_result tok r \<and> calm p q)"
        by (rule okp_bind [OF parse_scalar_ok [OF assms(3)]])
          (use T_Name assms(1,2) in \<open>auto intro!: add_and_go_on V_any\<close>)
      ultimately show ?thesis by simp
    qed
  qed (use push eof scalar in \<open>simp_all add: dispatch_token_def\<close>)
qed

text \<open>A round reads a token; unless it ends the object, it takes a byte of the input.\<close>

definition round_done :: "file_parser \<Rightarrow> handle + live_frame list \<Rightarrow> file_parser \<Rightarrow> bool" where
  "round_done p r q \<longleftrightarrow>
     source_ok (fp_tokens q) \<and> ls_bytes (fp_tokens q) = ls_bytes (fp_tokens p) \<and> ring_ok q \<and>
     ls_position (fp_tokens p) \<le> ls_position (fp_tokens q) \<and> ls_last_offset (fp_tokens q) \<le> ls_position (fp_tokens q) \<and>
     (case r of Inl v \<Rightarrow> V 500 v
      | Inr frames \<Rightarrow> frames_ok frames \<and> frames \<noteq> [] \<and> ls_position (fp_tokens p) < ls_position (fp_tokens q))"

lemma parse_round_ok:
  assumes "source_ok (fp_tokens p)" "ring_ok p" "frames_ok frames" "frames \<noteq> []"
  shows "okp c (parse_object_round c frames p) (round_done p)"
  unfolding parse_object_round_def
proof (rule okp_bind [OF fp_next_token_ok [OF assms(1)]])
  fix tok p1 assume read: "token_read_by p tok p1"
  let ?p = "p1\<lparr>fp_good_count := fp_good_count p1 + 1\<rparr>"
  have ring: "ring_ok ?p" and shape: "token_shape tok"
    using read assms(2) by (auto simp: token_read_by_def ring_ok_def)
  have fin: "round_done p r q" if "round_result tok r" "fp_tokens q = fp_tokens p1" "ring_ok q" for r q
    using read that by (auto simp: token_read_by_def round_done_def round_result_def split: sum.splits)
  have framed: "okp c (bindp m (\<lambda>frames p. Inr (Inr frames, p))) (round_done p)"
    if "okp c m (\<lambda>frames' p'. frames_ok frames' \<and> frames' \<noteq> [] \<and> fp_tokens p' = fp_tokens ?p \<and> ring_ok p')"
      "pt_type tok \<noteq> T_Eof" for m
    by (rule okp_bind [OF that(1)]) (use that(2) in \<open>auto intro!: fin simp: round_result_def\<close>)
  have dispatch: "okp c (dispatch_token c tok frames' q) (round_done p)"
    if "frames_ok frames'" "frames' \<noteq> []" "fp_tokens q = fp_tokens ?p" "ring_ok q" for frames' q
    by (rule okp_mono [OF dispatch_ok [OF that(1,2) shape]])
      (use that(3,4) in \<open>auto intro!: fin ring_ok_calm [of q] simp: calm_def\<close>)
  have flushed: "okp c (bindp (if g then flush_integer_buffer c frames ?p else Inr (frames, ?p)) (dispatch_token c tok))
      (round_done p)" for g
    by (rule okp_bind [where Q = "\<lambda>frames' p'. frames_ok frames' \<and> frames' \<noteq> [] \<and> fp_tokens p' = fp_tokens ?p \<and> ring_ok p'"])
      (use flush_integer_ok [OF assms(3,4) ring] assms(3,4) ring dispatch in simp_all)
  show "okp c (let p = ?p in case tok of
            PT_Integer v start end' \<Rightarrow>
              if \<not> pc_content_stream c
              then bindp (buffer_integer c (v, start) frames p) (\<lambda>frames p. Inr (Inr frames, p))
              else dispatch_token c tok frames p
          | _ \<Rightarrow>
              if \<not> pc_content_stream c \<and> fp_integer_count p \<ge> 2 \<and> pt_is_word_value tok (str ''R'')
              then bindp (finish_integer_reference c frames p) (\<lambda>frames p. Inr (Inr frames, p))
              else bindp
                (if \<not> pc_content_stream c \<and> fp_integer_count p \<noteq> 0 then flush_integer_buffer c frames p
                 else Inr (frames, p))
                (dispatch_token c tok)) (round_done p)"
  proof (cases "\<exists>v start end'. tok = PT_Integer v start end'")
    case True
    then obtain v start end' where tok: "tok = PT_Integer v start end'" by blast
    then have "okp c (buffer_integer c (v, start) frames ?p)
        (\<lambda>frames' p'. frames_ok frames' \<and> frames' \<noteq> [] \<and> fp_tokens p' = fp_tokens ?p \<and> ring_ok p')"
      using shape by (intro buffer_integer_ok [OF assms(3,4) ring]) (simp_all add: token_shape_def)
    then show ?thesis using tok framed dispatch [OF assms(3,4) _ ring] by (simp add: Let_def)
  next
    case False
    let ?R = "\<not> pc_content_stream c \<and> fp_integer_count ?p \<ge> 2 \<and> pt_is_word_value tok (str ''R'')"
    have R: "okp c (bindp (finish_integer_reference c frames ?p) (\<lambda>frames p. Inr (Inr frames, p))) (round_done p)" if ?R
    proof (rule framed [OF finish_reference_ok [OF assms(3,4) ring]])
      show "pt_type tok \<noteq> T_Eof" using that shape by (cases tok) (auto simp: pt_is_word_value_def token_shape_def)
    qed (use that in simp)
    have "okp c (if ?R then bindp (finish_integer_reference c frames ?p) (\<lambda>frames p. Inr (Inr frames, p))
        else bindp (if \<not> pc_content_stream c \<and> fp_integer_count ?p \<noteq> 0 then flush_integer_buffer c frames ?p
                 else Inr (frames, ?p)) (dispatch_token c tok)) (round_done p)"
      using R flushed by presburger
    then show ?thesis using False unfolding Let_def by (cases tok) simp_all
  qed
qed

definition object_read :: "file_parser \<Rightarrow> handle \<Rightarrow> file_parser \<Rightarrow> bool" where
  "object_read p v q \<longleftrightarrow>
     V 500 v \<and> source_ok (fp_tokens q) \<and> ls_bytes (fp_tokens q) = ls_bytes (fp_tokens p) \<and>
     ls_position (fp_tokens p) \<le> ls_position (fp_tokens q) \<and> ls_last_offset (fp_tokens q) \<le> ls_position (fp_tokens q)"

lemma parse_remainder_ok:
  "source_ok (fp_tokens p) \<Longrightarrow> ring_ok p \<Longrightarrow> frames_ok frames \<Longrightarrow> frames \<noteq> [] \<Longrightarrow>
   length (ls_bytes (fp_tokens p)) - ls_position (fp_tokens p) < fuel \<Longrightarrow>
   okp c (parse_remainder fuel c frames p) (object_read p)"
proof (induction fuel arbitrary: frames p)
  case (Suc fuel)
  show ?case
    unfolding parse_remainder.simps
  proof (rule okp_bind [OF parse_round_ok [OF Suc.prems(1-4)]])
    fix r q assume step: "round_done p r q"
    show "okp c (case r of Inl v \<Rightarrow> Inr (v, q) | Inr frames \<Rightarrow> parse_remainder fuel c frames q) (object_read p)"
    proof (cases r)
      case (Inl v)
      then show ?thesis using step by (simp add: round_done_def object_read_def)
    next
      case (Inr frames')
      then have "okp c (parse_remainder fuel c frames' q) (object_read q)"
        using step Suc.prems(5) by (intro Suc.IH) (auto simp: round_done_def source_ok_def)
      then show ?thesis using Inr step
        by simp (erule okp_mono, simp add: object_read_def round_done_def)
    qed
  qed
qed simp

section \<open>The whole object\<close>

definition parsed_ok :: "nat \<Rightarrow> object_failure + live_parsed_object \<Rightarrow> bool" where
  "parsed_ok len r \<longleftrightarrow>
     (case r of
        Inr parsed \<Rightarrow>
          V 500 (lp_value parsed) \<and> lp_last_offset parsed \<le> lp_next_offset parsed \<and> lp_next_offset parsed \<le> len
      | Inl (PF_Error e) \<Rightarrow> parse_error c e
      | Inl PF_Panic \<Rightarrow> False
      | Inl PF_Fuel \<Rightarrow> False)"

lemma parsed_okI:
  assumes "okp c m (\<lambda>parsed p. parsed_ok len (Inr parsed))"
  shows "parsed_ok len (map_sum id fst m)"
  using assms by (cases rule: okp_cases) (simp_all add: parsed_ok_def)

lemma parse_body_ok:
  assumes "source_ok (fp_tokens p)" "ring_ok p"
  shows "parsed_ok (length (ls_bytes (fp_tokens p))) (parse_body c p)"
  unfolding parse_body_def Let_def
proof (rule parsed_okI, rule okp_bind [OF fp_next_token_ok [OF assms(1)]])
  let ?len = "length (ls_bytes (fp_tokens p))"
  let ?start = "i64_of_usize (ls_position (fp_tokens p))"
  fix tok q assume read: "token_read_by p tok q"
  have ok: "source_ok (fp_tokens q)" "ring_ok q" "token_shape tok" "ls_bytes (fp_tokens q) = ls_bytes (fp_tokens p)"
    "ls_position (fp_tokens q) \<le> ?len" "pt_start tok \<le> ls_position (fp_tokens q)" "ls_last_offset (fp_tokens q) = pt_start tok"
    using read assms(2) by (auto simp: token_read_by_def ring_ok_def source_ok_def)
  have seek: "live_seek (fp_tokens q) (pt_start tok) = Inr ((fp_tokens q)\<lparr>ls_input := (ls_input (fp_tokens q))\<lparr>sl_position := pt_start tok\<rparr>\<rparr>)"
    using ok by (simp add: live_seek_def slice_seek_def)
  have body: "okp c (if pt_type tok = T_ArrayOpen \<or> pt_type tok = T_DictOpen
                then bindp (push_frame c [] tok q)
                  (\<lambda>(pushed, frames) p. parse_remainder (remainder_fuel p) c frames p)
                else parse_scalar_token c tok ?start q) (object_read q)"
  proof (cases "pt_type tok = T_ArrayOpen \<or> pt_type tok = T_DictOpen")
    case True
    have "okp c (bindp (push_frame c [] tok q) (\<lambda>(pushed, frames) p. parse_remainder (remainder_fuel p) c frames p))
        (object_read q)"
    proof (rule okp_bind [OF push_frame_ok])
      show "frames_ok []" "pt_type tok \<in> {T_ArrayOpen, T_DictOpen}" using True by auto
      fix a q' assume a: "(case a of (pushed, frames') \<Rightarrow>
          \<lambda>p'. frames_ok frames' \<and> (pushed \<or> [] = [] \<longrightarrow> frames' \<noteq> []) \<and> calm q p') q'"
      obtain pushed frames' where [simp]: "a = (pushed, frames')" by (cases a)
      have "okp c (parse_remainder (remainder_fuel q') c frames' q') (object_read q')"
        using a ok(1,2) ring_ok_calm by (intro parse_remainder_ok) (auto simp: remainder_fuel_def calm_def)
      then show "okp c ((case a of (pushed, frames) \<Rightarrow> \<lambda>p. parse_remainder (remainder_fuel p) c frames p) q') (object_read q)"
        using a by (simp add: object_read_def [abs_def] calm_def)
    qed
    then show ?thesis using True by simp
  next
    case False
    have "okp c (parse_scalar_token c tok ?start q) (object_read q)"
      by (rule okp_mono [OF parse_scalar_ok [OF ok(3)]])
        (use False ok in \<open>simp_all add: object_read_def calm_def V_any\<close>)
    then show ?thesis using False by simp
  qed
  have final: "okp c (bindp
      (if pt_type tok = T_ArrayOpen \<or> pt_type tok = T_DictOpen
       then bindp (push_frame c [] tok q) (\<lambda>(pushed, frames) p. parse_remainder (remainder_fuel p) c frames p)
       else parse_scalar_token c tok ?start q)
      (\<lambda>v p. Inr (\<lparr>lp_value = v, lp_parsed_offset = h_parsed_offset v,
                      lp_last_offset = ls_last_offset (fp_tokens p), lp_next_offset = ls_position (fp_tokens p),
                      lp_empty = None, lp_diagnostics = fp_diagnostics p\<rparr>, p))) (\<lambda>parsed p. parsed_ok ?len (Inr parsed))"
    by (rule okp_bind [OF body]) (use ok in \<open>auto simp: parsed_ok_def object_read_def source_ok_def\<close>)
  show "okp c (if pc_content_stream c \<and> pt_type tok = T_Eof
           then Inr (\<lparr>lp_value = uninitialized, lp_parsed_offset = no_parsed_offset,
                      lp_last_offset = ls_last_offset (fp_tokens q), lp_next_offset = pt_start tok,
                      lp_empty = None, lp_diagnostics = fp_diagnostics q\<rparr>, q)
           else if \<not> pc_content_stream c \<and> pt_is_word_value tok (str ''endobj'')
           then bindp (lift_parse_error (live_seek (fp_tokens q) (pt_start tok)) q) (\<lambda>tokens p.
                Inr (\<lparr>lp_value = handle_null, lp_parsed_offset = no_parsed_offset,
                      lp_last_offset = ls_last_offset (fp_tokens p), lp_next_offset = pt_start tok,
                      lp_empty = Some (pt_start tok), lp_diagnostics = fp_diagnostics p\<rparr>, p\<lparr>fp_tokens := tokens\<rparr>))
           else
             bindp
               (if pt_type tok = T_ArrayOpen \<or> pt_type tok = T_DictOpen
                then bindp (push_frame c [] tok q)
                  (\<lambda>(pushed, frames) p. parse_remainder (remainder_fuel p) c frames p)
                else parse_scalar_token c tok ?start q)
               (\<lambda>v p. Inr (\<lparr>lp_value = v, lp_parsed_offset = h_parsed_offset v,
                      lp_last_offset = ls_last_offset (fp_tokens p), lp_next_offset = ls_position (fp_tokens p),
                      lp_empty = None, lp_diagnostics = fp_diagnostics p\<rparr>, p))) (\<lambda>parsed p. parsed_ok ?len (Inr parsed))"
    using ok seek final by (auto simp: parsed_ok_def V_any V_null V_uninitialized)
qed

lemma parse_object_ok:
  assumes "c = \<lparr>pc_resolver = r, pc_has_context = has_context, pc_decrypter = decrypter, pc_content_stream = cs\<rparr>"
    "hr_begin_parse r = None" "sl_position inp \<le> length (sl_bytes inp)"
  shows "parsed_ok (length (sl_bytes inp)) (parse_live_object_with_context inp r has_context decrypter cs)"
  using parse_body_ok [of "file_parser_new inp"] assms
  by (simp add: parse_live_object_with_context_def file_parser_new_def source_ok_def source_idle_def
      live_source_new_def ring_ok_def)

end

text \<open>A resolver that shifts the offsets keeps every contract.\<close>

lemma offset_resolver_values:
  assumes "parsed_values (c\<lparr>pc_resolver := r\<rparr>) V"
  shows "parsed_values (c\<lparr>pc_resolver := offset_handle_resolver r base_offset top_level_offset\<rparr>) V"
  using assms by (simp add: parsed_values_def offset_handle_resolver_def)

text \<open>Whatever the resolver does, the parser neither panics nor runs out of fuel.\<close>

interpretation any_values: parsed_values c "\<lambda>d h. True" for c
  by unfold_locales simp_all

text \<open>C3: for every input, resolver, decrypter and mode, reading an object ends and reaches none of the parser's
  panics (a missing frame, an empty ring slot, a token kind the dispatch excludes).\<close>

theorem parser_never_panics:
  "parse_live_object_with_context (slice_new bs) r has_context decrypter cs \<notin> {Inl PF_Panic, Inl PF_Fuel}"
proof (cases "hr_begin_parse r")
  case None
  then show ?thesis
    using any_values.parse_object_ok [OF refl None, of "slice_new bs" has_context decrypter cs]
    by (auto simp: any_values.parsed_ok_def slice_new_def split: sum.splits)
qed (simp add: parse_live_object_with_context_def)





end
