(* ===== verification/Object_Types.thy ===== *)
theory Object_Types
  imports Object_Parser_Safety
begin

text \<open>
  What the parser may return: values of the syntax of a file, with integers of 64 bits, ordered dictionaries
  whose keys start with a slash, references in the range of a cross-reference table, and at most 500 nested
  containers.
\<close>

definition reference_ok :: "int \<Rightarrow> int \<Rightarrow> bool" where
  "reference_ok number generation \<longleftrightarrow> 1 \<le> number \<and> number < 2 ^ 31 \<and> 0 \<le> generation \<and> generation < 65535"

fun well_typed :: "bool \<Rightarrow> nat \<Rightarrow> pdf_object \<Rightarrow> bool" where
  "well_typed refs d O_Null = True"
| "well_typed refs d (O_Boolean b) = True"
| "well_typed refs d (O_Integer i) = (- (2 ^ 63) \<le> i \<and> i < 2 ^ 63)"
| "well_typed refs d (O_Real r) = True"
| "well_typed refs d (O_Name n) = True"
| "well_typed refs d (O_String s) = True"
| "well_typed refs d (O_Operator p) = True"
| "well_typed refs d (O_InlineImage i) = False"
| "well_typed refs d (O_Array xs) = (d > 0 \<and> (\<forall>x \<in> set xs. well_typed refs (d - 1) x))"
| "well_typed refs d (O_Dictionary m) =
     (d > 0 \<and> bt_sorted m \<and> (\<forall>k \<in> fst ` set m. slashed k) \<and> (\<forall>x \<in> snd ` set m. well_typed refs (d - 1) x))"
| "well_typed refs d (O_Stream x) = False"
| "well_typed refs d (O_Reference number generation) = (refs \<and> reference_ok number generation)"
| "well_typed refs d (O_Sentinel n) = False"

lemma well_typed_Suc: "well_typed refs d x \<Longrightarrow> well_typed refs (Suc d) x"
proof (induction refs d x rule: well_typed.induct)
  case (9 refs d xs)
  then have "well_typed refs d x" if "x \<in> set xs" for x
    using that by (cases d) auto
  then show ?case by simp
next
  case (10 refs d m)
  then have "well_typed refs d x" if "x \<in> snd ` set m" for x
    using that by (cases d) auto
  then show ?case using 10 by simp
qed simp_all

definition value_typed :: "bool \<Rightarrow> nat \<Rightarrow> handle \<Rightarrow> bool" where
  "value_typed refs d h \<longleftrightarrow> well_typed refs d (content h)"

lemma content_direct_at [simp]:
  "content (default_direct_handle_at from_value template v offset) = content (from_value v)"
  by (simp add: default_direct_handle_at_def split: option.split)

lemma canonical_slashed: "\<forall>k \<in> fst ` set m. slashed k \<Longrightarrow> canonicalize_object_value (V_Dictionary m) = V_Dictionary m"
  by (auto simp: canonicalize_object_value_def list_all_iff slashed_def neq_Nil_conv)

lemma content_from_value: "canonicalize_object_value v = v \<Longrightarrow> content (from_value v) = value_content v"
  by (simp add: from_value_def content_new_direct)

lemma bt_sorted_map: "bt_sorted (map (map_prod id f) m) = bt_sorted m"
  by (simp add: bt_sorted_def)

text \<open>The handles without a document.\<close>

interpretation detached: parsed_values
  "\<lparr>pc_resolver = detached_handles template warning_description, pc_has_context = has_context, pc_decrypter = decrypter,
    pc_content_stream = False\<rparr>" "value_typed has_context"
  for template warning_description has_context decrypter
proof (unfold_locales, goal_cases)
  case (1 d h)
  then show ?case by (simp add: value_typed_def well_typed_Suc)
next
  case 2
  then show ?case by (simp add: value_typed_def)
next
  case 3
  then show ?case by simp
next
  case (4 v offset)
  then show ?case
    by (cases v) (auto simp: value_typed_def detached_handles_def scalar_value_def content_from_value
        canonicalize_object_value_def)
next
  case (5 d vs offset)
  then show ?case
    by (auto simp: value_typed_def detached_handles_def content_from_value canonicalize_object_value_def list_all_iff)
next
  case (6 d m offset)
  then show ?case
    by (auto simp: value_typed_def detached_handles_def content_from_value canonical_slashed entries_ok_def bt_sorted_map)
next
  case (7 number generation offset)
  then show ?case
    by (auto simp: value_typed_def detached_handles_def new_indirect_unresolved_def try_from_object_ref_def
        og_is_indirect_def reference_ok_def)
qed

text \<open>C2: what the parser returns for an object is well typed: integers fit 64 bits, dictionary keys are distinct,
  ordered and start with a slash, references are in range, and containers nest at most 500 deep, for every
  input and every shift of the offsets.\<close>

theorem parsed_object_well_typed:
  assumes "parse_live_file_object_with_decrypter (slice_new bs)
    (offset_handle_resolver (detached_handles template warning_description) base_offset top_level_offset) decrypter =
    Inr parsed"
  shows "well_typed True 500 (content (lp_value parsed))"
proof -
  let ?r = "offset_handle_resolver (detached_handles template warning_description) base_offset top_level_offset"
  let ?c = "\<lparr>pc_resolver = ?r, pc_has_context = True, pc_decrypter = decrypter, pc_content_stream = False\<rparr>"
  have "parsed_values (?c\<lparr>pc_resolver := detached_handles template warning_description\<rparr>) (value_typed True)"
    using detached.parsed_values_axioms [of template warning_description True decrypter] by simp
  from offset_resolver_values [OF this, of base_offset top_level_offset] have V: "parsed_values ?c (value_typed True)"
    by simp
  have "hr_begin_parse ?r = None" by (simp add: offset_handle_resolver_def detached_handles_def)
  then show ?thesis
    using parsed_values.parse_object_ok [OF V refl, of "slice_new bs"] assms
    by (simp add: parse_live_file_object_with_decrypter_def parsed_values.parsed_ok_def [OF V] slice_new_def value_typed_def)
qed

lemma parsed_object_well_typed_witness:
  "case parse_live_file_object_with_decrypter (slice_new (str ''<</K [-7 5 0 R]/A(x)>>''))
     (offset_handle_resolver (detached_handles None None) 100 None) None of
     Inr parsed \<Rightarrow> well_typed True 500 (content (lp_value parsed))
   | Inl f \<Rightarrow> False"
proof -
  let ?p = "parse_live_file_object_with_decrypter (slice_new (str ''<</K [-7 5 0 R]/A(x)>>''))
     (offset_handle_resolver (detached_handles None None) 100 None) None"
  have "case ?p of Inr parsed \<Rightarrow> True | Inl f \<Rightarrow> False" by code_simp
  then obtain parsed where p: "?p = Inr parsed" by (auto split: sum.splits)
  show ?thesis using parsed_object_well_typed [OF p] p by simp
qed

text \<open>C13: without a document an object is read only if it is free of references: the result
  has none at any depth, and is well typed.\<close>

theorem explicit_object_direct:
  assumes "parse_explicit_object_handle_with_description bs description = Inr h"
  shows "well_typed False 500 (content h)"
proof -
  let ?r = "detached_handles (Some (str ''parsed object, '' @ description @ str '' at offset $PO'')) (Some description)"
  obtain parsed where parsed: "parse_live_object_with_context (slice_new bs) ?r False None False = Inr parsed"
    "lp_value parsed = h"
    using assms by (auto simp: parse_explicit_object_handle_with_description_def split: sum.splits option.splits)
  have "hr_begin_parse ?r = None" by (simp add: detached_handles_def)
  from detached.parse_object_ok [OF refl this, where inp = "slice_new bs" and has_context = False and decrypter = None] show ?thesis
    using parsed by (simp add: detached.parsed_ok_def slice_new_def value_typed_def)
qed

lemma explicit_object_direct_witness:
  "case parse_explicit_object_handle_with_description (str ''[1 /A (x)]'') (str ''sample'') of
     Inr h \<Rightarrow> well_typed False 500 (content h) | Inl f \<Rightarrow> False"
proof -
  let ?p = "parse_explicit_object_handle_with_description (str ''[1 /A (x)]'') (str ''sample'')"
  have "case ?p of Inr h \<Rightarrow> True | Inl f \<Rightarrow> False" by code_simp
  then obtain h where p: "?p = Inr h" by (auto split: sum.splits)
  show ?thesis using explicit_object_direct [OF p] p by simp
qed

end
