(* ===== verification/Object_Reading.thy ===== *)
theory Object_Reading
  imports Live_Reading Object_Types Pdf_Syntax
begin

text \<open>
  What the object parser makes of well-formed text. A layout of an object is any text with white space before
  every element, key, value and closing bracket, which all printers of the program produce. Reading a layout
  gives the object back, by steps of the parser's main loop on an abstract view of its state: the content of
  the innermost frame with the pending integers of the ring already added.
\<close>

section \<open>Layouts\<close>

definition spaces :: "bytes \<Rightarrow> bool" where
  "spaces ws \<longleftrightarrow> ws \<noteq> [] \<and> list_all is_ws ws"

inductive scalar_text :: "pdf_object \<Rightarrow> bytes \<Rightarrow> bool" where
  null: "scalar_text O_Null (str ''null'')"
| bool: "scalar_text (O_Boolean b) (if b then str ''true'' else str ''false'')"
| real: "real_text r \<Longrightarrow> scalar_text (O_Real r) r"
| name: "0 \<notin> set n \<Longrightarrow> scalar_text (O_Name n) (0x2F # write_name_escaped n)"
| string: "scalar_text (O_String s) (write_string_value s)"
| hex_string: "scalar_text (O_String s) (write_hex_string s)"

inductive lays :: "pdf_object \<Rightarrow> bytes \<Rightarrow> bool"
  and lays_items :: "pdf_object list \<Rightarrow> bytes \<Rightarrow> bool"
  and lays_entries :: "(bytes \<times> pdf_object) list \<Rightarrow> bytes \<Rightarrow> bool" where
  scalar: "scalar_text x tx \<Longrightarrow> lays x tx"
| integer: "lays (O_Integer i) (decimal_int i)"
| reference: "lays (O_Reference n g) (reference_text (Qpdf_Obj_Gen n g))"
| array: "lays_items xs t \<Longrightarrow> spaces ws \<Longrightarrow> lays (O_Array xs) (str ''['' @ t @ ws @ str '']'')"
| dictionary: "lays_entries m t \<Longrightarrow> spaces ws \<Longrightarrow> lays (O_Dictionary m) (str ''<<'' @ t @ ws @ str ''>>'')"
| no_items: "lays_items [] []"
| item: "spaces ws \<Longrightarrow> lays x t \<Longrightarrow> lays_items xs ts \<Longrightarrow> lays_items (x # xs) (ws @ t @ ts)"
| no_entries: "lays_entries [] []"
| entry: "spaces ws \<Longrightarrow> 0 \<notin> set k \<Longrightarrow> spaces ws' \<Longrightarrow> lays x t \<Longrightarrow> lays_entries m ts \<Longrightarrow>
    lays_entries ((0x2F # k, x) # m) (ws @ (0x2F # write_name_escaped k) @ ws' @ t @ ts)"

lemma ws_ends_token: "is_ws b \<Longrightarrow> is_token_delimiter b"
  by (simp add: is_token_delimiter_def)

lemma spaces_cases:
  assumes "spaces ws"
  obtains b bs where "ws = b # bs" "is_token_delimiter b"
  using assms by (cases ws) (auto simp: spaces_def ws_ends_token)

lemma spaces_end: "spaces ws \<Longrightarrow> ends_here (ws @ ys)"
  by (cases ws) (auto simp: spaces_def ws_ends_token)

lemma items_end: "lays_items xs t \<Longrightarrow> ends_here ys \<Longrightarrow> ends_here (t @ ys)"
  by (cases rule: lays_items.cases) (auto elim!: spaces_cases)

lemma entries_end: "lays_entries m t \<Longrightarrow> ends_here ys \<Longrightarrow> ends_here (t @ ys)"
  by (cases rule: lays_entries.cases) (auto elim!: spaces_cases)

section \<open>The abstract view of a frame\<close>

datatype slot = Slot_Array "pdf_object list" | Slot_Dictionary "(bytes \<times> pdf_object) list" "bytes option"

fun slot_of :: "live_frame \<Rightarrow> slot" where
  "slot_of (FArray vs start) = Slot_Array (map content vs)"
| "slot_of (FDictionary values orphans key contents start frame_offset) = Slot_Dictionary (map (map_prod id content) values) key"

fun slot_add :: "slot \<Rightarrow> pdf_object \<Rightarrow> slot" where
  "slot_add (Slot_Array xs) x = Slot_Array (xs @ [x])"
| "slot_add (Slot_Dictionary m (Some k)) x = Slot_Dictionary (bt_insert k x m) None"
| "slot_add (Slot_Dictionary m None) x = Slot_Dictionary m None"

fun slot_accepts :: "slot \<Rightarrow> bool" where
  "slot_accepts (Slot_Array xs) = True"
| "slot_accepts (Slot_Dictionary m key) = (key \<noteq> None)"

fun frame_clean :: "live_frame \<Rightarrow> bool" where
  "frame_clean (FArray vs start) = True"
| "frame_clean (FDictionary values orphans key contents start frame_offset) = (orphans = [] \<and> contents = None)"

fun slot_room :: "slot \<Rightarrow> nat \<Rightarrow> bool" where
  "slot_room (Slot_Array xs) n = True"
| "slot_room (Slot_Dictionary m key) n = (n \<le> (if key = None then 0 else 1))"

abbreviation slot_adds :: "slot \<Rightarrow> pending_integer list \<Rightarrow> slot" where
  "slot_adds S ps \<equiv> foldl slot_add S (map (\<lambda>x. O_Integer (fst x)) ps)"

lemma bt_insert_map_prod: "bt_insert k (f v) (map (map_prod id f) m) = map (map_prod id f) (bt_insert k v m)"
  by (induction k v m rule: bt_insert.induct) auto

lemma accepts_adds: "slot_accepts (slot_adds S ps) \<Longrightarrow> slot_room S (length ps) \<Longrightarrow> S = Slot_Dictionary m key \<Longrightarrow> ps = []"
  by (cases ps) (auto split: if_splits)

lemma accepts_room: "slot_accepts S \<Longrightarrow> slot_room S 1"
  by (cases S) auto

text \<open>Steps that change neither tokens nor ring nor the decision to go on.\<close>

definition quiet :: "file_parser \<Rightarrow> file_parser \<Rightarrow> bool" where
  "quiet p p' \<longleftrightarrow> calm p p' \<and> fp_give_up p' = fp_give_up p"

lemma quiet_refl [simp]: "quiet p p"
  by (simp add: quiet_def)

lemma quiet_trans: "quiet p q \<Longrightarrow> quiet q r \<Longrightarrow> quiet p r"
  by (auto simp: quiet_def calm_def)

lemma warn_in_context: "pc_has_context c \<Longrightarrow> \<exists>p'. fp_warn c offset m p = Inr ((), p') \<and> quiet p p'"
  by (simp add: fp_warn_def quiet_def calm_def)

lemma add_to_top_view:
  assumes "pc_has_context c" "frame_clean f" "slot_accepts (slot_of f)"
  shows "\<exists>f' p'. add_to_top_frame c (f # rest) v p = Inr (f' # rest, p') \<and> quiet p p' \<and> frame_clean f' \<and>
    slot_of f' = slot_add (slot_of f) (content v)"
proof (cases f)
  case (FArray vs start)
  then show ?thesis by (simp add: add_to_top_frame_def add_to_frame_def)
next
  case (FDictionary m orphans key contents start off)
  then obtain k where k: "key = Some k" using assms(3) by auto
  obtain q where "fp_warn c off (str ''dictionary has duplicated key '' @ k @
          str ''; last occurrence overrides earlier ones'') p = Inr ((), q)" "quiet p q"
    using warn_in_context [OF assms(1)] by blast
  then obtain p' where "insert_dictionary_value c m k v off p = Inr (bt_insert k v m, p')" "quiet p p'"
    by (cases "map_of m k = None") (auto simp: insert_dictionary_value_def)
  then show ?thesis
    using FDictionary k assms(2) by (simp add: add_to_top_frame_def add_to_frame_def bt_insert_map_prod)
qed

section \<open>The ring as a list\<close>

definition ring_holds :: "file_parser \<Rightarrow> pending_integer list \<Rightarrow> bool" where
  "ring_holds p ps \<longleftrightarrow>
     (ps = [] \<and> fp_integer_count p = 0) \<or>
     (\<exists>a. ps = [a] \<and> fp_integer_count p = 1 \<and> snd (fp_integer_buffer p) = Some a) \<or>
     (\<exists>a b. ps = [a, b] \<and> 2 \<le> fp_integer_count p \<and>
        fp_integer_buffer p = (if fp_integer_count p mod 2 = 0 then (Some b, Some a) else (Some a, Some b)))"

lemma ring_holds_quiet: "quiet p p' \<Longrightarrow> ring_holds p ps \<Longrightarrow> ring_holds p' ps"
  by (simp add: quiet_def calm_def ring_holds_def)

lemma take_both_holds:
  assumes "ring_holds p [a, b]"
  shows "\<exists>q. (\<exists>r. take_pending (if fp_integer_count p = 2 then 1 else (fp_integer_count p + 1) mod 2) p = Inr (a, r) \<and>
      take_pending (fp_integer_count p mod 2) r = Inr (b, q)) \<and>
    fp_tokens q = fp_tokens p \<and> fp_integer_count q = fp_integer_count p \<and> fp_give_up q = fp_give_up p"
proof (cases "fp_integer_count p mod 2 = 0")
  case True
  then have "(if fp_integer_count p = 2 then 1 else (fp_integer_count p + 1) mod 2) = 1" by presburger
  then show ?thesis using True assms by (simp add: ring_holds_def take_pending_def ring_get_def ring_set_def)
next
  case False
  then have "(if fp_integer_count p = 2 then 1 else (fp_integer_count p + 1) mod 2) = 0"
    "fp_integer_count p mod 2 = 1" using assms by (auto simp: ring_holds_def) presburger+
  then show ?thesis using assms by (simp add: ring_holds_def take_pending_def ring_get_def ring_set_def)
qed

text \<open>A parse that gave \<open>x\<close> and stopped at offset \<open>n\<close>.\<close>

definition object_at :: "pdf_object \<Rightarrow> nat \<Rightarrow> object_failure + live_parsed_object \<Rightarrow> bool" where
  "object_at x n r \<longleftrightarrow>
     (\<exists>parsed. r = Inr parsed \<and> content (lp_value parsed) = x \<and> lp_next_offset parsed = n \<and> lp_empty parsed = None)"

section \<open>Resolvers that keep the content\<close>

text \<open>A reader of plain files: handles stand for the values and identities they were made of.\<close>

locale faithful_handles =
  fixes c :: parse_context
  assumes in_context: "pc_has_context c"
    and not_content_stream: "\<not> pc_content_stream c"
    and not_encrypted: "pc_decrypter c = None"
    and direct_content: "canonicalize_object_value v = v \<Longrightarrow>
      content (hr_direct_handle_at (pc_resolver c) v offset) = value_content v"
    and indirect_content: "reference_ok n g \<Longrightarrow>
      content (hr_indirect_handle_at (pc_resolver c) (Object_Ref n g) offset) = O_Reference n g"
begin

lemma direct_at_content [simp]: "canonicalize_object_value v = v \<Longrightarrow> content (direct_at c v offset) = value_content v"
  by (simp add: direct_at_def direct_content)

lemma pending_content [simp]: "content (direct c (V_Integer i) offset) = O_Integer i"
  by (simp add: direct_def canonicalize_object_value_def)

lemmas add_view = add_to_top_view [OF in_context]

lemma buffer_view:
  assumes "frame_clean f" "ring_holds p ps" "fp_integer_count p < 2 ^ 63" "length ps = 2 \<longrightarrow> slot_accepts (slot_of f)"
  shows "\<exists>f' p' qs. buffer_integer c x (f # rest) p = Inr (f' # rest, p') \<and> frame_clean f' \<and>
    fp_tokens p' = fp_tokens p \<and> fp_give_up p' = fp_give_up p \<and> fp_integer_count p' = fp_integer_count p + 1 \<and>
    ring_holds p' (qs @ [x]) \<and>
    (if length ps = 2 then qs = tl ps \<and> slot_of f' = slot_add (slot_of f) (O_Integer (fst (hd ps)))
     else qs = ps \<and> f' = f)"
proof -
  let ?n = "fp_integer_count p + 1"
  have succ: "saturating_succ (fp_integer_count p) = ?n"
    using assms(3) by (simp add: saturating_succ_def)
  show ?thesis
  proof (cases "length ps = 2")
    case True
    then obtain a b where ps: "ps = [a, b]" by (metis length_0_conv length_Suc_conv numeral_2_eq_2)
    then have two: "2 \<le> fp_integer_count p"
      and buf: "fp_integer_buffer p = (if fp_integer_count p mod 2 = 0 then (Some b, Some a) else (Some a, Some b))"
      using assms(2) by (auto simp: ring_holds_def)
    let ?q = "p\<lparr>fp_integer_count := ?n, fp_integer_buffer := ring_set (?n mod 2) None (fp_integer_buffer p)\<rparr>"
    have take: "take_pending (?n mod 2) (p\<lparr>fp_integer_count := ?n\<rparr>) = Inr (a, ?q)"
      using buf by (cases "fp_integer_count p mod 2 = 0") (auto simp: take_pending_def ring_get_def mod_Suc)
    obtain f' p' where add: "add_to_top_frame c (f # rest) (direct c (V_Integer (fst a)) (snd a)) ?q = Inr (f' # rest, p')"
      "quiet ?q p'" "frame_clean f'" "slot_of f' = slot_add (slot_of f) (O_Integer (fst a))"
      using add_view [of f rest "direct c (V_Integer (fst a)) (snd a)" ?q] assms(1,4) True by auto
    let ?p = "p'\<lparr>fp_integer_buffer := ring_set (?n mod 2) (Some x) (fp_integer_buffer p')\<rparr>"
    have "buffer_integer c x (f # rest) p = Inr (f' # rest, ?p)"
      using two add(1) take by (simp add: buffer_integer_def Let_def succ add_pending_integer_def)
    moreover have "ring_holds ?p [b, x]"
      using add(2) two buf
      by (cases "fp_integer_count p mod 2 = 0") (auto simp: quiet_def calm_def ring_holds_def ring_set_def mod_Suc)
    ultimately show ?thesis
      using add ps by (intro exI [of _ f'] exI [of _ ?p] exI [of _ "[b]"]) (simp add: quiet_def calm_def)
  next
    case False
    then have small: "ps = [] \<and> ?n = 1 \<or> (\<exists>a. ps = [a] \<and> ?n = 2 \<and> snd (fp_integer_buffer p) = Some a)"
      using assms(2) by (auto simp: ring_holds_def)
    let ?p = "p\<lparr>fp_integer_count := ?n, fp_integer_buffer := ring_set (?n mod 2) (Some x) (fp_integer_buffer p)\<rparr>"
    have "buffer_integer c x (f # rest) p = Inr (f # rest, ?p)"
      using small by (auto simp: buffer_integer_def Let_def succ)
    moreover have "ring_holds ?p (ps @ [x])"
      using small by (auto simp: ring_holds_def ring_set_def)
    ultimately show ?thesis
      using assms(1) False by (intro exI [of _ f] exI [of _ ?p] exI [of _ ps]) simp
  qed
qed

lemma flush_view:
  assumes "frame_clean f" "ring_holds p ps" "slot_room (slot_of f) (length ps)"
  shows "\<exists>f' p'. flush_integer_buffer c (f # rest) p = Inr (f' # rest, p') \<and> frame_clean f' \<and>
    fp_tokens p' = fp_tokens p \<and> fp_give_up p' = fp_give_up p \<and> fp_integer_count p' = 0 \<and>
    slot_of f' = slot_adds (slot_of f) ps"
proof -
  consider "ps = []" "fp_integer_count p = 0" | a where "ps = [a]" "fp_integer_count p = 1" "snd (fp_integer_buffer p) = Some a"
    | a b where "ps = [a, b]" "2 \<le> fp_integer_count p"
    using assms(2) by (auto simp: ring_holds_def)
  then show ?thesis
  proof cases
    case 1
    then show ?thesis using assms(1) by (simp add: flush_integer_buffer_def)
  next
    case 2
    then have acc: "slot_accepts (slot_of f)" using assms(3) by (cases "slot_of f") (auto split: if_splits)
    let ?q = "p\<lparr>fp_integer_buffer := ring_set 1 None (fp_integer_buffer p)\<rparr>"
    obtain f' p' where add: "add_to_top_frame c (f # rest) (direct c (V_Integer (fst a)) (snd a)) ?q = Inr (f' # rest, p')"
      "quiet ?q p'" "frame_clean f'" "slot_of f' = slot_add (slot_of f) (O_Integer (fst a))"
      using add_view [OF assms(1) acc, of rest "direct c (V_Integer (fst a)) (snd a)" ?q] by auto
    then show ?thesis
      using 2 by (simp add: flush_integer_buffer_def take_pending_def ring_get_def add_pending_integer_def quiet_def calm_def)
  next
    case 3
    obtain zs where zs: "slot_of f = Slot_Array zs" using assms(3) 3(1) by (cases "slot_of f") (auto split: if_splits)
    obtain r q where q: "take_pending (if fp_integer_count p = 2 then 1 else (fp_integer_count p + 1) mod 2) p = Inr (a, r)"
      "take_pending (fp_integer_count p mod 2) r = Inr (b, q)" "fp_tokens q = fp_tokens p" "fp_give_up q = fp_give_up p"
      using take_both_holds [of p a b] assms(2) 3(1) by auto
    obtain f1 p1 where f1: "add_to_top_frame c (f # rest) (direct c (V_Integer (fst a)) (snd a)) q = Inr (f1 # rest, p1)"
      "quiet q p1" "frame_clean f1" "slot_of f1 = slot_add (slot_of f) (O_Integer (fst a))"
      using add_view [of f rest "direct c (V_Integer (fst a)) (snd a)" q] assms(1) zs by auto
    obtain f2 p2 where f2: "add_to_top_frame c (f1 # rest) (direct c (V_Integer (fst b)) (snd b)) p1 = Inr (f2 # rest, p2)"
      "quiet p1 p2" "frame_clean f2" "slot_of f2 = slot_add (slot_of f1) (O_Integer (fst b))"
      using add_view [of f1 rest "direct c (V_Integer (fst b)) (snd b)" p1] f1 zs by auto
    have "fp_integer_count r = fp_integer_count p"
      using q(1) by (auto simp: take_pending_def split: option.splits)
    then show ?thesis
      using 3 q f1 f2 unfolding flush_integer_buffer_def Let_def
      by (simp add: add_pending_integer_def quiet_def calm_def del: One_nat_def)
  qed
qed

section \<open>Rounds\<close>

definition parser_ready :: "bytes \<Rightarrow> file_parser \<Rightarrow> bytes \<Rightarrow> bool" where
  "parser_ready bs p ys \<longleftrightarrow>
     \<not> fp_give_up p \<and> ls_tokenizer (fp_tokens p) = fresh_tokenizer \<and> ls_bytes (fp_tokens p) = bs \<and>
     drop (ls_position (fp_tokens p)) bs = ys \<and> ls_position (fp_tokens p) \<le> length bs \<and>
     fp_integer_count p \<le> ls_position (fp_tokens p) \<and> int (length bs) < 2 ^ 63"

definition viewed :: "bytes \<Rightarrow> slot \<Rightarrow> live_frame list \<Rightarrow> bytes \<Rightarrow> live_frame list \<times> file_parser \<Rightarrow> bool" where
  "viewed bs S rest ys st \<longleftrightarrow>
     (\<exists>f ps. fst st = f # rest \<and> frame_clean f \<and> ring_holds (snd st) ps \<and> slot_room (slot_of f) (length ps) \<and>
        S = slot_adds (slot_of f) ps \<and> parser_ready bs (snd st) ys)"

definition round_to :: "live_frame list \<times> file_parser \<Rightarrow> live_frame list \<times> file_parser \<Rightarrow> bool" where
  "round_to st st' \<longleftrightarrow> parse_object_round c (fst st) (snd st) = Inr (Inr (fst st'), snd st')"

definition silent :: "parser_token \<Rightarrow> bool" where
  "silent tok \<longleftrightarrow> (\<forall>t. tok = PT_Owned t \<longrightarrow> tok_error_message t = None)"

lemma ready_ahead:
  "parser_ready bs p (ws @ tx @ ys) \<Longrightarrow> list_all is_ws ws \<Longrightarrow> token_ahead (fp_tokens p) ws tx ys"
  by (auto simp: parser_ready_def token_ahead_def)

lemma read_token_ahead:
  assumes "parser_ready bs p (ws @ tx @ ys)" "tx \<noteq> []" "silent tok"
    "next_live_token (fp_tokens p) = Inr (tok, after_token (fp_tokens p) (length ws) (length tx))"
  shows "\<exists>q. fp_next_token c p = Inr (tok, q) \<and> (\<forall>n. parser_ready bs (q\<lparr>fp_good_count := n\<rparr>) ys) \<and>
    fp_integer_count q = fp_integer_count p \<and> fp_integer_buffer q = fp_integer_buffer p \<and>
    fp_integer_count q + 1 \<le> ls_position (fp_tokens q)"
proof -
  let ?q = "p\<lparr>fp_tokens := after_token (fp_tokens p) (length ws) (length tx)\<rparr>"
  have len: "ls_position (fp_tokens p) + (length ws + length tx) \<le> length bs"
  proof -
    have "length (drop (ls_position (fp_tokens p)) bs) = length (ws @ tx @ ys)"
      using assms(1) by (simp add: parser_ready_def)
    moreover have "ls_position (fp_tokens p) \<le> length bs" using assms(1) by (simp add: parser_ready_def)
    ultimately show ?thesis by simp
  qed
  have "drop (ls_position (fp_tokens p) + (length ws + length tx)) bs = ys"
  proof -
    have "drop (length ws + length tx) (drop (ls_position (fp_tokens p)) bs) = ys"
      using assms(1) by (simp add: parser_ready_def)
    then show ?thesis by (simp add: add.commute)
  qed
  then have "\<forall>n. parser_ready bs (?q\<lparr>fp_good_count := n\<rparr>) ys"
    using assms(1) len by (simp add: parser_ready_def after_token_def)
  moreover have "fp_next_token c p = Inr (tok, ?q)"
    using assms(3,4) by (auto simp: fp_next_token_def silent_def split: parser_token.split option.split)
  moreover have "fp_integer_count ?q + 1 \<le> ls_position (fp_tokens ?q)"
    using assms(1,2) by (cases tx) (auto simp: parser_ready_def after_token_def)
  ultimately show ?thesis by (intro exI [of _ ?q]) simp
qed

text \<open>A token that is neither an integer nor the end of a reference goes to a frame without pending integers.\<close>

lemma other_round:
  assumes "viewed bs S rest (ws @ tx @ ys) (frames, p)" "tx \<noteq> []" "silent tok"
    "next_live_token (fp_tokens p) = Inr (tok, after_token (fp_tokens p) (length ws) (length tx))"
    "\<nexists>v start end'. tok = PT_Integer v start end'" "\<not> pt_is_word_value tok (str ''R'')"
  shows "\<exists>f q. frame_clean f \<and> slot_of f = S \<and> parser_ready bs q ys \<and> fp_integer_count q = 0 \<and>
    parse_object_round c frames p = dispatch_token c tok (f # rest) q"
proof -
  obtain f ps where f: "frames = f # rest" "frame_clean f" "ring_holds p ps" "slot_room (slot_of f) (length ps)"
    "S = slot_adds (slot_of f) ps" "parser_ready bs p (ws @ tx @ ys)"
    using assms(1) by (auto simp: viewed_def)
  obtain q where q: "fp_next_token c p = Inr (tok, q)" "parser_ready bs (q\<lparr>fp_good_count := fp_good_count q + 1\<rparr>) ys"
    "fp_integer_count q = fp_integer_count p" "fp_integer_buffer q = fp_integer_buffer p"
    using read_token_ahead [OF f(6) assms(2-4)] by blast
  let ?q = "q\<lparr>fp_good_count := fp_good_count q + 1\<rparr>"
  have "ring_holds ?q ps" using f(3) q(3,4) by (simp add: ring_holds_def)
  then obtain f' r where r: "flush_integer_buffer c (f # rest) ?q = Inr (f' # rest, r)" "frame_clean f'"
    "fp_tokens r = fp_tokens ?q" "fp_give_up r = fp_give_up ?q" "fp_integer_count r = 0"
    "slot_of f' = slot_adds (slot_of f) ps"
    using flush_view [OF f(2) _ f(4), of ?q rest] by blast
  have parser_ready: "parser_ready bs r ys" using q(2) r(3-5) by (simp add: parser_ready_def)
  have "parse_object_round c frames p = dispatch_token c tok (f' # rest) r"
  proof (cases "fp_integer_count ?q = 0")
    case True
    then have "f' = f" "r = ?q" using r(1) by (simp_all add: flush_integer_buffer_def)
    then show ?thesis
      using True assms(5,6) not_content_stream q(1) f(1)
      by (cases tok) (auto simp: parse_object_round_def Let_def)
  next
    case False
    then show ?thesis
      using r(1) assms(5,6) not_content_stream q(1) f(1)
      by (cases tok) (auto simp: parse_object_round_def Let_def)
  qed
  then show ?thesis using r f(5) parser_ready by blast
qed

lemma integer_round:
  assumes "parser_ready bs p (ws @ decimal_int i @ ys)" "list_all is_ws ws" "ends_here ys" "- (2 ^ 63) \<le> i" "i < 2 ^ 63"
    "frame_clean f" "ring_holds p ps" "length ps = 2 \<longrightarrow> slot_accepts (slot_of f)"
  shows "\<exists>f' q qs off. parse_object_round c (f # rest) p = Inr (Inr (f' # rest), q) \<and> frame_clean f' \<and> parser_ready bs q ys \<and>
    ring_holds q (qs @ [(i, off)]) \<and>
    (if length ps = 2 then qs = tl ps \<and> slot_of f' = slot_add (slot_of f) (O_Integer (fst (hd ps)))
     else qs = ps \<and> f' = f)"
proof -
  let ?start = "ls_position (fp_tokens p) + length ws"
  let ?tok = "PT_Integer i ?start (?start + length (decimal_int i))"
  have live: "next_live_token (fp_tokens p) = Inr (?tok, after_token (fp_tokens p) (length ws) (length (decimal_int i)))"
    by (rule live_integer [OF ready_ahead [OF assms(1,2)] assms(3-5)])
  have "decimal_int i \<noteq> []" using decimal_digits [of "nat i"] by (simp add: decimal_int_def)
  then obtain q where q: "fp_next_token c p = Inr (?tok, q)" "parser_ready bs (q\<lparr>fp_good_count := fp_good_count q + 1\<rparr>) ys"
    "fp_integer_count q = fp_integer_count p" "fp_integer_buffer q = fp_integer_buffer p"
    "fp_integer_count q + 1 \<le> ls_position (fp_tokens q)"
    using read_token_ahead [OF assms(1) _ _ live] by (auto simp: silent_def)
  let ?q = "q\<lparr>fp_good_count := fp_good_count q + 1\<rparr>"
  have ring: "ring_holds ?q ps" using assms(7) q(3,4) by (simp add: ring_holds_def)
  have small: "fp_integer_count ?q < 2 ^ 63" using q(2) by (simp add: parser_ready_def)
  obtain f' r qs where r: "buffer_integer c (i, ?start) (f # rest) ?q = Inr (f' # rest, r)" "frame_clean f'"
    "fp_tokens r = fp_tokens ?q" "fp_give_up r = fp_give_up ?q" "fp_integer_count r = fp_integer_count ?q + 1"
    "ring_holds r (qs @ [(i, ?start)])"
    "if length ps = 2 then qs = tl ps \<and> slot_of f' = slot_add (slot_of f) (O_Integer (fst (hd ps))) else qs = ps \<and> f' = f"
    using buffer_view [OF assms(6) ring small assms(8), of "(i, ?start)" rest] by blast
  have "parser_ready bs r ys" using q(2,5) r(3-5) by (simp add: parser_ready_def)
  moreover have "parse_object_round c (f # rest) p = Inr (Inr (f' # rest), r)"
    using q(1) r(1) not_content_stream by (simp add: parse_object_round_def Let_def)
  ultimately show ?thesis using r(2,6,7) by blast
qed

section \<open>Elements\<close>

lemma viewedI:
  "frames = f # rest \<Longrightarrow> frame_clean f \<Longrightarrow> ring_holds p ps \<Longrightarrow> slot_room (slot_of f) (length ps) \<Longrightarrow>
   S = slot_adds (slot_of f) ps \<Longrightarrow> parser_ready bs p ys \<Longrightarrow> viewed bs S rest ys (frames, p)"
  by (auto simp: viewed_def)

lemma viewed_settled:
  "frame_clean f \<Longrightarrow> parser_ready bs p ys \<Longrightarrow> fp_integer_count p = 0 \<Longrightarrow> viewed bs (slot_of f) rest ys (f # rest, p)"
  by (rule viewedI [where ps = "[]"]) (simp_all add: ring_holds_def, cases "slot_of f", simp_all)

lemma ready_quiet: "quiet p p' \<Longrightarrow> parser_ready bs p ys \<Longrightarrow> parser_ready bs p' ys"
  by (simp add: quiet_def calm_def parser_ready_def)

text \<open>A value goes to a frame that accepts it.\<close>

lemma add_and_next:
  assumes "frame_clean f" "slot_accepts (slot_of f)" "parser_ready bs p ys" "fp_integer_count p = 0"
  shows "\<exists>f' p'. bindp (add_to_top_frame c (f # rest) v p) next_round = Inr (Inr (f' # rest), p') \<and>
    viewed bs (slot_add (slot_of f) (content v)) rest ys (f' # rest, p')"
proof -
  obtain f' p' where add: "add_to_top_frame c (f # rest) v p = Inr (f' # rest, p')" "quiet p p'" "frame_clean f'"
    "slot_of f' = slot_add (slot_of f) (content v)"
    using add_view [OF assms(1,2)] by blast
  have parser_ready: "parser_ready bs p' ys" "fp_integer_count p' = 0"
    using ready_quiet [OF add(2) assms(3)] add(2) assms(4) by (simp_all add: quiet_def calm_def)
  have "bindp (add_to_top_frame c (f # rest) v p) next_round = Inr (Inr (f' # rest), p')"
    using add(1) parser_ready(1) by (simp add: next_round_def parser_ready_def)
  then show ?thesis using viewed_settled [OF add(3) parser_ready] add(4) by metis
qed

text \<open>Tokens that are values of their own.\<close>

definition value_token :: "parser_token \<Rightarrow> pdf_object \<Rightarrow> bool" where
  "value_token tok x \<longleftrightarrow>
     silent tok \<and> pt_type tok \<in> {T_Null, T_Bool, T_Real, T_Name, T_String} \<and>
     (\<forall>offset p. \<exists>v. parse_scalar_token c tok offset p = Inr (v, p) \<and> content v = x)"

lemma value_token_shape:
  "value_token tok x \<Longrightarrow> (\<nexists>v start end'. tok = PT_Integer v start end') \<and> \<not> pt_is_word_value tok w"
  by (cases tok) (auto simp: value_token_def pt_is_word_value_def is_word_value_def is_word_def)

lemma scalar_token:
  assumes "scalar_text x tx" "token_ahead s ws tx ys" "ends_here ys"
  shows "tx \<noteq> [] \<and> (\<exists>tok. next_live_token s = Inr (tok, after_token s (length ws) (length tx)) \<and> value_token tok x)"
  using assms(1)
proof cases
  case null
  then show ?thesis
    using live_null [of s ws ys] assms(2,3)
    by (auto simp: value_token_def silent_def parse_scalar_token_def str_def)
next
  case (bool b)
  then show ?thesis
    using live_bool [of s ws b ys] assms(2,3)
    by (auto simp: value_token_def silent_def parse_scalar_token_def str_def canonicalize_object_value_def)
next
  case real
  then have "tx \<noteq> []" by (auto simp: real_text_def)
  then show ?thesis
    using live_real [of s ws tx ys] assms(2,3) real
    by (auto simp: value_token_def silent_def parse_scalar_token_def parse_owned_scalar_token_def from_parts_def
        canonicalize_object_value_def)
next
  case (name n)
  then show ?thesis
    using live_name [of s ws n ys] assms(2,3)
    by (auto simp: value_token_def silent_def parse_scalar_token_def parse_owned_scalar_token_def from_parts_def
        canonicalize_object_value_def)
next
  case (string v)
  have "tx \<noteq> []"
    using string by (simp add: write_string_value_def write_hex_string_def write_literal_string_def)
  then show ?thesis
    using live_string [of s ws v ys] assms(2) string not_encrypted
    by (auto simp: value_token_def silent_def parse_scalar_token_def parse_owned_scalar_token_def from_parts_def
        canonicalize_object_value_def)
next
  case (hex_string v)
  have "tx \<noteq> []" using hex_string by (simp add: write_hex_string_def)
  then show ?thesis
    using live_hex_string [of s ws v ys] assms(2) hex_string not_encrypted
    by (auto simp: value_token_def silent_def parse_scalar_token_def parse_owned_scalar_token_def from_parts_def
        canonicalize_object_value_def)
qed

lemma capture_plain: "capture_raw_signature_contents c frames tok = frames"
  using not_encrypted
  by (auto simp: capture_raw_signature_contents_def split: parser_token.split list.split live_frame.split)

lemma scalar_step:
  assumes "viewed bs S rest (ws @ tx @ ys) st" "list_all is_ws ws" "scalar_text x tx" "ends_here ys" "slot_accepts S"
  shows "\<exists>st'. round_to st st' \<and> viewed bs (slot_add S x) rest ys st'"
proof -
  obtain frames p where st: "st = (frames, p)" by (cases st)
  have ahead: "token_ahead (fp_tokens p) ws tx ys"
    using assms(1,2) st ready_ahead by (auto simp: viewed_def)
  obtain tok where tok: "next_live_token (fp_tokens p) = Inr (tok, after_token (fp_tokens p) (length ws) (length tx))"
    "value_token tok x" "tx \<noteq> []"
    using scalar_token [OF assms(3) ahead assms(4)] by blast
  have shape: "\<nexists>v start end'. tok = PT_Integer v start end'" "\<not> pt_is_word_value tok (str ''R'')"
    using value_token_shape [OF tok(2)] by blast+
  obtain f q where f: "frame_clean f" "slot_of f = S" "parser_ready bs q ys" "fp_integer_count q = 0"
    "parse_object_round c frames p = dispatch_token c tok (f # rest) q"
    using other_round [OF assms(1) [unfolded st] tok(3) _ tok(1) shape] tok(2) by (auto simp: value_token_def)
  obtain v where v: "parse_scalar_token c tok (usize_as_i64 (pt_start tok)) q = Inr (v, q)" "content v = x"
    using tok(2) by (auto simp: value_token_def)
  obtain f' q' where add: "bindp (add_to_top_frame c (f # rest) v q) next_round = Inr (Inr (f' # rest), q')"
    "viewed bs (slot_add S x) rest ys (f' # rest, q')"
    using add_and_next [OF f(1) _ f(3,4), of rest v] f(2) v(2) assms(5) by auto
  have "scalar_round c (f # rest) tok q = Inr (Inr (f' # rest), q')"
    using v(1) add(1) f(3) by (simp add: scalar_round_def capture_plain parser_ready_def)
  moreover have "dispatch_token c tok (f # rest) q = scalar_round c (f # rest) tok q" if "pt_type tok \<noteq> T_Name"
    using tok(2) that by (auto simp: dispatch_token_def value_token_def)
  moreover have "dispatch_token c tok (f # rest) q = Inr (Inr (f' # rest), q')" if "pt_type tok = T_Name"
  proof -
    have "\<nexists>m orphans contents start off. f = FDictionary m orphans None contents start off"
      using f(2) assms(5) by auto
    then show ?thesis
      using that v(1) add(1) by (cases f) (auto simp: dispatch_token_def split: option.split)
  qed
  ultimately have "dispatch_token c tok (f # rest) q = Inr (Inr (f' # rest), q')" by metis
  then show ?thesis using f(5) add(2) st by (intro exI [of _ "(f' # rest, q')"]) (simp add: round_to_def)
qed

text \<open>An integer goes to the ring, and what it pushes out to the frame.\<close>

lemma integer_any:
  assumes "frame_clean f" "ring_holds p ps" "slot_room (slot_of f) (length ps)" "slot_accepts (slot_adds (slot_of f) ps)"
    "parser_ready bs p (ws @ decimal_int i @ ys)" "list_all is_ws ws" "ends_here ys" "- (2 ^ 63) \<le> i" "i < 2 ^ 63"
  shows "\<exists>f' q qs off. parse_object_round c (f # rest) p = Inr (Inr (f' # rest), q) \<and> frame_clean f' \<and> parser_ready bs q ys \<and>
    ring_holds q (qs @ [(i, off)]) \<and> slot_adds (slot_of f') qs = slot_adds (slot_of f) ps \<and>
    slot_room (slot_of f') (length qs + 1) \<and> slot_accepts (slot_of f') \<and> length qs \<le> 1"
proof -
  have dict: "ps = []" if "slot_of f = Slot_Dictionary m key" for m key
    using accepts_adds [OF assms(4,3) that] .
  have acc: "slot_accepts (slot_of f)" using assms(4) dict by (cases "slot_of f") auto
  obtain f' q qs off where r: "parse_object_round c (f # rest) p = Inr (Inr (f' # rest), q)" "frame_clean f'" "parser_ready bs q ys"
    "ring_holds q (qs @ [(i, off)])"
    "if length ps = 2 then qs = tl ps \<and> slot_of f' = slot_add (slot_of f) (O_Integer (fst (hd ps))) else qs = ps \<and> f' = f"
    using integer_round [OF assms(5-9,1,2)] acc by blast
  have short: "length qs \<le> 1" using r(4) by (auto simp: ring_holds_def)
  show ?thesis
  proof (cases "length ps = 2")
    case True
    then obtain a b where ps: "ps = [a, b]" by (metis length_0_conv length_Suc_conv numeral_2_eq_2)
    then obtain xs where xs: "slot_of f = Slot_Array xs" using dict by (cases "slot_of f") auto
    then have "slot_of f' = Slot_Array (xs @ [O_Integer (fst a)])" "qs = [b]" using r(5) ps by auto
    then show ?thesis using r(1-4) short ps xs by (intro exI [of _ f'] exI [of _ q] exI [of _ qs] exI [of _ off]) simp
  next
    case False
    then have "qs = ps" "f' = f" using r(5) by simp_all
    then show ?thesis
      using r(1-4) short dict acc
      by (intro exI [of _ f'] exI [of _ q] exI [of _ qs] exI [of _ off]) (cases "slot_of f"; simp)
  qed
qed

lemma integer_step:
  assumes "viewed bs S rest (ws @ decimal_int i @ ys) st" "list_all is_ws ws" "ends_here ys" "slot_accepts S"
    "- (2 ^ 63) \<le> i" "i < 2 ^ 63"
  shows "\<exists>st'. round_to st st' \<and> viewed bs (slot_add S (O_Integer i)) rest ys st'"
proof -
  obtain f ps p where f: "st = (f # rest, p)" "frame_clean f" "ring_holds p ps" "slot_room (slot_of f) (length ps)"
    "S = slot_adds (slot_of f) ps" "parser_ready bs p (ws @ decimal_int i @ ys)"
    using assms(1) by (cases st) (auto simp: viewed_def)
  obtain f' q qs off where r: "parse_object_round c (f # rest) p = Inr (Inr (f' # rest), q)" "frame_clean f'" "parser_ready bs q ys"
    "ring_holds q (qs @ [(i, off)])" "slot_adds (slot_of f') qs = S" "slot_room (slot_of f') (length qs + 1)"
    using integer_any [OF f(2-4) _ f(6) assms(2,3,5,6), of rest] f(5) assms(4) by auto
  have "viewed bs (slot_add S (O_Integer i)) rest ys (f' # rest, q)"
    using r(2-4,6) by (intro viewedI [where ps = "qs @ [(i, off)]"]) (simp_all add: r(5) [symmetric])
  then show ?thesis using r(1) f(1) by (intro exI [of _ "(f' # rest, q)"]) (simp add: round_to_def)
qed

lemma R_word: "pt_is_word_value (PT_Owned (from_parts T_Word (str ''R'') [] None start end')) (str ''R'')"
  by (simp add: pt_is_word_value_def is_word_value_def is_word_def from_parts_def)

lemma reference_steps:
  assumes "viewed bs S rest (ws @ reference_text (Qpdf_Obj_Gen n g) @ ys) st" "list_all is_ws ws" "ends_here ys"
    "slot_accepts S" "reference_ok n g"
  shows "\<exists>st'. round_to\<^sup>*\<^sup>* st st' \<and> viewed bs (slot_add S (O_Reference n g)) rest ys st'"
proof -
  let ?R = "str '' '' @ str ''R'' @ ys"
  let ?g = "str '' '' @ decimal_int g @ ?R"
  have shape: "ws @ reference_text (Qpdf_Obj_Gen n g) @ ys = ws @ decimal_int n @ ?g"
    by (simp add: reference_text_def str_def)
  have space: "list_all is_ws (str '' '')" "ends_here (str '' '' @ zs)" for zs
    by (simp_all add: str_def is_ws_def is_token_delimiter_def)
  have fits: "- (2 ^ 63) \<le> n" "n < 2 ^ 63" "- (2 ^ 63) \<le> g" "g < 2 ^ 63" using assms(5) by (simp_all add: reference_ok_def)
  obtain f ps p where f: "st = (f # rest, p)" "frame_clean f" "ring_holds p ps" "slot_room (slot_of f) (length ps)"
    "S = slot_adds (slot_of f) ps" "parser_ready bs p (ws @ decimal_int n @ ?g)"
    using assms(1) unfolding shape by (cases st) (auto simp: viewed_def)
  obtain f1 q1 qs1 off1 where r1: "parse_object_round c (f # rest) p = Inr (Inr (f1 # rest), q1)" "frame_clean f1" "parser_ready bs q1 ?g"
    "ring_holds q1 (qs1 @ [(n, off1)])" "slot_adds (slot_of f1) qs1 = S" "slot_accepts (slot_of f1)" "length qs1 \<le> 1"
    using integer_any [OF f(2-4) _ f(6) assms(2) space(2) fits(1,2), of rest] f(5) assms(4) by auto
  obtain f2 q2 qs2 off2 where r2: "parse_object_round c (f1 # rest) q1 = Inr (Inr (f2 # rest), q2)" "frame_clean f2"
    "parser_ready bs q2 ?R" "ring_holds q2 (qs2 @ [(g, off2)])"
    "if length (qs1 @ [(n, off1)]) = 2
     then qs2 = tl (qs1 @ [(n, off1)]) \<and> slot_of f2 = slot_add (slot_of f1) (O_Integer (fst (hd (qs1 @ [(n, off1)]))))
     else qs2 = qs1 @ [(n, off1)] \<and> f2 = f1"
    using integer_round [OF r1(3) space fits(3,4) r1(2,4)] r1(6) by blast
  have f2: "qs2 = [(n, off1)]" "slot_of f2 = S"
  proof -
    consider "qs1 = []" | a where "qs1 = [a]" using r1(7) by (cases qs1) auto
    then have "qs2 = [(n, off1)] \<and> slot_of f2 = S"
      using r2(5) r1(5) by cases auto
    then show "qs2 = [(n, off1)]" "slot_of f2 = S" by simp_all
  qed
  let ?start = "ls_position (fp_tokens q2) + length (str '' '')"
  let ?tok = "PT_Owned (from_parts T_Word (str ''R'') [] None ?start (?start + length (str ''R'')))"
  have live: "next_live_token (fp_tokens q2) = Inr (?tok, after_token (fp_tokens q2) (length (str '' '')) (length (str ''R'')))"
    by (rule live_R [OF ready_ahead [OF r2(3) space(1)] assms(3)])
  obtain q3 where q3: "fp_next_token c q2 = Inr (?tok, q3)" "parser_ready bs (q3\<lparr>fp_good_count := fp_good_count q3 + 1\<rparr>) ys"
    "fp_integer_count q3 = fp_integer_count q2" "fp_integer_buffer q3 = fp_integer_buffer q2"
    using read_token_ahead [OF r2(3) _ _ live] by (auto simp: silent_def str_not_Nil from_parts_def)
  let ?q3 = "q3\<lparr>fp_good_count := fp_good_count q3 + 1\<rparr>"
  have ring: "ring_holds ?q3 [(n, off1), (g, off2)]" using r2(4) f2(1) q3(3,4) by (simp add: ring_holds_def)
  then have two: "2 \<le> fp_integer_count ?q3" by (simp add: ring_holds_def)
  obtain r q where q: "take_pending (if fp_integer_count ?q3 = 2 then 1 else (fp_integer_count ?q3 + 1) mod 2) ?q3 = Inr ((n, off1), r)"
    "take_pending (fp_integer_count ?q3 mod 2) r = Inr ((g, off2), q)" "fp_tokens q = fp_tokens ?q3"
    "fp_give_up q = fp_give_up ?q3"
    using take_both_holds [OF ring] by blast
  have count: "fp_integer_count r = fp_integer_count ?q3" using q(1) by (auto simp: take_pending_def split: option.splits)
  let ?v = "hr_indirect_handle_at (pc_resolver c) (Object_Ref n g) (usize_as_i64 off1)"
  let ?q = "q\<lparr>fp_integer_count := 0\<rparr>"
  have parser_ready: "parser_ready bs ?q ys" using q3(2) q(3,4) by (simp add: parser_ready_def)
  obtain f4 q4 where add: "add_to_top_frame c (f2 # rest) ?v ?q = Inr (f4 # rest, q4)" "quiet ?q q4" "frame_clean f4"
    "slot_of f4 = slot_add S (O_Reference n g)"
    using add_view [OF r2(2), of rest ?v ?q] f2(2) assms(4) indirect_content [OF assms(5)] by auto
  have int: "qpdf_int n o' = Inr n" "qpdf_int g o' = Inr g" for o' using assms(5) by (simp_all add: qpdf_int_def reference_ok_def)
  have range': "1 \<le> n \<and> 0 \<le> g \<and> g < 65535" using assms(5) by (simp add: reference_ok_def)
  have "finish_integer_reference c (f2 # rest) ?q3 = Inr (f4 # rest, q4)"
    using q(1,2) count add(1) in_context int range' unfolding finish_integer_reference_def Let_def
    by (simp del: One_nat_def)
  then have "parse_object_round c (f2 # rest) q2 = Inr (Inr (f4 # rest), q4)"
    using q3(1) two not_content_stream R_word by (simp add: parse_object_round_def Let_def)
  moreover have "viewed bs (slot_add S (O_Reference n g)) rest ys (f4 # rest, q4)"
    using viewed_settled [OF add(3) ready_quiet [OF add(2) parser_ready]] add(2,4) by (simp add: quiet_def calm_def)
  ultimately have "round_to (f2 # rest, q2) (f4 # rest, q4)" "viewed bs (slot_add S (O_Reference n g)) rest ys (f4 # rest, q4)"
    "round_to st (f1 # rest, q1)" "round_to (f1 # rest, q1) (f2 # rest, q2)"
    using f(1) r1(1) r2(1) by (simp_all add: round_to_def)
  then show ?thesis by (meson converse_rtranclp_into_rtranclp rtranclp.rtrancl_refl)
qed

section \<open>Keys and brackets\<close>

lemma key_step:
  assumes "viewed bs (Slot_Dictionary m None) rest (ws @ (0x2F # write_name_escaped k) @ ys) st" "list_all is_ws ws"
    "ends_here ys" "0 \<notin> set k"
  shows "\<exists>st'. round_to st st' \<and> viewed bs (Slot_Dictionary m (Some (0x2F # k))) rest ys st'"
proof -
  obtain frames p where st: "st = (frames, p)" by (cases st)
  let ?tx = "0x2F # write_name_escaped k"
  let ?start = "ls_position (fp_tokens p) + length ws"
  let ?tok = "PT_Owned (from_parts T_Name (0x2F # k) [] None ?start (?start + length ?tx))"
  have ahead: "token_ahead (fp_tokens p) ws ?tx ys"
    using assms(1,2) st by (intro ready_ahead) (auto simp: viewed_def)
  obtain f q where f: "frame_clean f" "slot_of f = Slot_Dictionary m None" "parser_ready bs q ys" "fp_integer_count q = 0"
    "parse_object_round c frames p = dispatch_token c ?tok (f # rest) q"
    using other_round [OF assms(1) [unfolded st] _ _ live_name [OF ahead assms(3,4)]]
    by (auto simp: silent_def from_parts_def pt_is_word_value_def is_word_value_def is_word_def)
  then obtain vs start off where fr: "f = FDictionary vs [] None None start off" by (cases f) auto
  let ?f = "FDictionary vs [] (Some (0x2F # k)) None start off"
  have "round_to st (?f # rest, q)"
    using f(5) fr st by (simp add: round_to_def dispatch_token_def from_parts_def)
  moreover have "viewed bs (Slot_Dictionary m (Some (0x2F # k))) rest ys (?f # rest, q)"
    using viewed_settled [of ?f bs q ys rest] f(2-4) fr by simp
  ultimately show ?thesis by blast
qed

lemma bracket_token:
  assumes "viewed bs S rest (ws @ tx @ ys) (frames, p)" "tx \<noteq> []"
    "next_live_token (fp_tokens p) = Inr (PT_Simple ty start end', after_token (fp_tokens p) (length ws) (length tx))"
  shows "\<exists>f q. frame_clean f \<and> slot_of f = S \<and> parser_ready bs q ys \<and> fp_integer_count q = 0 \<and>
    parse_object_round c frames p = dispatch_token c (PT_Simple ty start end') (f # rest) q"
  using other_round [OF assms(1,2) _ assms(3)] by (auto simp: silent_def pt_is_word_value_def)

text \<open>An opening bracket puts a frame on top of the one the container goes to.\<close>

definition opens :: "slot \<Rightarrow> bytes \<Rightarrow> bool" where
  "opens S tx \<longleftrightarrow> S = Slot_Array [] \<and> tx = str ''['' \<or> S = Slot_Dictionary [] None \<and> tx = str ''<<''"

lemma open_token:
  assumes "opens S tx" "token_ahead s ws tx ys"
  obtains ty start end' where "next_live_token s = Inr (PT_Simple ty start end', after_token s (length ws) (length tx))"
    "ty = (if S = Slot_Array [] then T_ArrayOpen else T_DictOpen)" "tx \<noteq> []"
  using assms live_array_open [of s ws ys] live_dict_open [of s ws ys] by (auto simp: opens_def str_not_Nil)

lemma push_view:
  assumes "S = Slot_Array [] \<and> ty = T_ArrayOpen \<or> S = Slot_Dictionary [] None \<and> ty = T_DictOpen"
    "length frames < 500" "parser_ready bs p ys" "fp_integer_count p = 0"
  shows "\<exists>f. push_frame c frames (PT_Simple ty start end') p = Inr ((True, f # frames), p) \<and>
    viewed bs S frames ys (f # frames, p)"
proof -
  let ?f = "if ty = T_ArrayOpen then FArray [] start else FDictionary [] [] None None start end'"
  have "push_frame c frames (PT_Simple ty start end') p = Inr ((True, ?f # frames), p)"
    using assms(1,2) by (auto simp: push_frame_def max_parse_depth_def)
  moreover have "viewed bs (slot_of ?f) frames ys (?f # frames, p)"
    using assms(3,4) by (intro viewed_settled) simp_all
  ultimately show ?thesis using assms(1) by auto
qed

lemma open_step:
  assumes "viewed bs S' rest (ws @ tx @ ys) st" "list_all is_ws ws" "opens S tx" "length rest + 1 < 500"
  shows "\<exists>f st'. round_to st st' \<and> viewed bs S (f # rest) ys st' \<and> frame_clean f \<and> slot_of f = S'"
proof -
  obtain frames p where st: "st = (frames, p)" by (cases st)
  have ahead: "token_ahead (fp_tokens p) ws tx ys"
    using assms(1,2) st by (intro ready_ahead) (auto simp: viewed_def)
  obtain ty start end' where tok:
    "next_live_token (fp_tokens p) = Inr (PT_Simple ty start end', after_token (fp_tokens p) (length ws) (length tx))"
    "ty = (if S = Slot_Array [] then T_ArrayOpen else T_DictOpen)" "tx \<noteq> []"
    by (rule open_token [OF assms(3) ahead])
  obtain f q where f: "frame_clean f" "slot_of f = S'" "parser_ready bs q ys" "fp_integer_count q = 0"
    "parse_object_round c frames p = dispatch_token c (PT_Simple ty start end') (f # rest) q"
    using bracket_token [OF assms(1) [unfolded st] tok(3,1)] by blast
  obtain g where g: "push_frame c (f # rest) (PT_Simple ty start end') q = Inr ((True, g # f # rest), q)"
    "viewed bs S (f # rest) ys (g # f # rest, q)"
    using push_view [of S ty "f # rest" bs q ys start end'] assms(3,4) tok(2) f(3,4) by (auto simp: opens_def)
  have "dispatch_token c (PT_Simple ty start end') (f # rest) q = Inr (Inr (g # f # rest), q)"
    using g(1) f(3) tok(2) by (cases "S = Slot_Array []") (simp_all add: dispatch_token_def next_round_def parser_ready_def)
  then show ?thesis
    using f g(2) st by (intro exI [of _ f] exI [of _ "(g # f # rest, q)"]) (simp add: round_to_def)
qed

text \<open>A closing bracket makes a value of the innermost frame.\<close>

fun closed_by :: "slot \<Rightarrow> bytes \<Rightarrow> pdf_object \<Rightarrow> bool" where
  "closed_by (Slot_Array xs) tx x = (tx = str '']'' \<and> x = O_Array xs)"
| "closed_by (Slot_Dictionary m key) tx x =
     (key = None \<and> tx = str ''>>'' \<and> x = O_Dictionary m \<and> (\<forall>k \<in> fst ` set m. slashed k))"

lemma close_dispatch:
  assumes "viewed bs S rest (ws @ tx @ ys) (frames, p)" "list_all is_ws ws" "closed_by S tx x"
  shows "\<exists>v q. parser_ready bs q ys \<and> fp_integer_count q = 0 \<and> content v = x \<and>
    parse_object_round c frames p = close_container c rest v q"
proof -
  have ahead: "token_ahead (fp_tokens p) ws tx ys"
    using assms(1,2) by (intro ready_ahead) (auto simp: viewed_def)
  show ?thesis
  proof (cases S)
    case (Slot_Array xs)
    then have tx: "tx = str '']''" "x = O_Array xs" using assms(3) by simp_all
    obtain f q start end' where f: "frame_clean f" "slot_of f = S" "parser_ready bs q ys" "fp_integer_count q = 0"
      "parse_object_round c frames p = dispatch_token c (PT_Simple T_ArrayClose start end') (f # rest) q"
      using bracket_token [OF assms(1) _ live_array_close [OF ahead [unfolded tx(1)], folded tx(1)]] tx(1)
      by (auto simp: str_not_Nil)
    then obtain vs off where fr: "f = FArray vs off" "map content vs = xs" using Slot_Array by (cases f) auto
    have "content (finish_array c vs off) = x"
      using fr(2) tx(2) by (simp add: finish_array_def direct_def canonicalize_object_value_def)
    moreover have "parse_object_round c frames p = close_container c rest (finish_array c vs off) q"
      using f(5) fr(1) by (simp add: dispatch_token_def)
    ultimately show ?thesis using f(3,4) by blast
  next
    case (Slot_Dictionary m key)
    then have tx: "tx = str ''>>''" "x = O_Dictionary m" "key = None" "\<forall>k \<in> fst ` set m. slashed k"
      using assms(3) by simp_all
    obtain f q start end' where f: "frame_clean f" "slot_of f = S" "parser_ready bs q ys" "fp_integer_count q = 0"
      "parse_object_round c frames p = dispatch_token c (PT_Simple T_DictClose start end') (f # rest) q"
      using bracket_token [OF assms(1) _ live_dict_close [OF ahead [unfolded tx(1)], folded tx(1)]] tx(1)
      by (auto simp: str_not_Nil)
    then obtain vs off foff where fr: "f = FDictionary vs [] None None off foff" "map (map_prod id content) vs = m"
      using Slot_Dictionary tx(3) by (cases f) auto
    have "\<forall>k \<in> fst ` set vs. slashed k" using tx(4) fr(2) [symmetric] by (auto simp: image_image)
    then have "content (direct c (V_Dictionary vs) off) = x"
      using fr(2) tx(2) by (simp add: direct_def canonical_slashed)
    moreover have "parse_object_round c frames p = close_container c rest (direct c (V_Dictionary vs) off) q"
      using f(5) fr(1) by (simp add: dispatch_token_def finish_dictionary_def)
    ultimately show ?thesis using f(3,4) by blast
  qed
qed

lemma close_step:
  assumes "viewed bs S (f # rest) (ws @ tx @ ys) st" "list_all is_ws ws" "closed_by S tx x" "frame_clean f"
    "slot_accepts (slot_of f)"
  shows "\<exists>st'. round_to st st' \<and> viewed bs (slot_add (slot_of f) x) rest ys st'"
proof -
  obtain frames p where st: "st = (frames, p)" by (cases st)
  obtain v q where v: "parser_ready bs q ys" "fp_integer_count q = 0" "content v = x"
    "parse_object_round c frames p = close_container c (f # rest) v q"
    using close_dispatch [OF assms(1) [unfolded st] assms(2,3)] by blast
  obtain f' q' where "bindp (add_to_top_frame c (f # rest) v q) next_round = Inr (Inr (f' # rest), q')"
    "viewed bs (slot_add (slot_of f) x) rest ys (f' # rest, q')"
    using add_and_next [OF assms(4,5) v(1,2), of rest v] v(3) by auto
  then show ?thesis
    using v(4) st by (intro exI [of _ "(f' # rest, q')"]) (simp add: round_to_def close_container_def)
qed

section \<open>Layouts are read\<close>

lemma layout_steps:
  "lays x t \<Longrightarrow> well_typed True d x \<Longrightarrow> list_all is_ws ws \<Longrightarrow> ends_here ys \<Longrightarrow> slot_accepts S \<Longrightarrow>
     length rest + 1 + d \<le> 500 \<Longrightarrow> viewed bs S rest (ws @ t @ ys) st \<Longrightarrow>
     \<exists>st'. round_to\<^sup>*\<^sup>* st st' \<and> viewed bs (slot_add S x) rest ys st'"
  "lays_items xs t \<Longrightarrow> \<forall>x \<in> set xs. well_typed True d x \<Longrightarrow> ends_here ys \<Longrightarrow> length rest + 1 + d \<le> 500 \<Longrightarrow>
     viewed bs (Slot_Array zs) rest (t @ ys) st \<Longrightarrow>
     \<exists>st'. round_to\<^sup>*\<^sup>* st st' \<and> viewed bs (Slot_Array (zs @ xs)) rest ys st'"
  "lays_entries m t \<Longrightarrow> \<forall>x \<in> snd ` set m. well_typed True d x \<Longrightarrow> ends_here ys \<Longrightarrow> length rest + 1 + d \<le> 500 \<Longrightarrow>
     bt_sorted (m0 @ m) \<Longrightarrow> viewed bs (Slot_Dictionary m0 None) rest (t @ ys) st \<Longrightarrow>
     \<exists>st'. round_to\<^sup>*\<^sup>* st st' \<and> viewed bs (Slot_Dictionary (m0 @ m) None) rest ys st'"
proof (induction arbitrary: d ws ys S rest st and d ys zs rest st and d ys m0 rest st
    rule: lays_lays_items_lays_entries.inducts)
  case (scalar x tx)
  obtain st' where "round_to st st'" "viewed bs (slot_add S x) rest ys st'"
    using scalar_step [OF scalar.prems(6,2) scalar.hyps scalar.prems(3,4)] by blast
  then show ?case by (blast intro: r_into_rtranclp)
next
  case (integer i)
  have fits: "- (2 ^ 63) \<le> i" "i < 2 ^ 63" using integer.prems(1) by simp_all
  obtain st' where "round_to st st'" "viewed bs (slot_add S (O_Integer i)) rest ys st'"
    using integer_step [OF integer.prems(6,2-4) fits] by blast
  then show ?case by (blast intro: r_into_rtranclp)
next
  case (reference n g)
  have "reference_ok n g" using reference.prems(1) by simp
  then show ?case using reference_steps [OF reference.prems(6,2-4)] by blast
next
  case (array xs t ws')
  have ws': "list_all is_ws ws'" "ends_here (ws' @ str '']'' @ ys)"
    using array.hyps spaces_end by (auto simp: spaces_def)
  have d: "0 < d" "\<forall>x \<in> set xs. well_typed True (d - 1) x" using array.prems(1) by simp_all
  obtain f st1 where st1: "round_to st st1" "viewed bs (Slot_Array []) (f # rest) (t @ ws' @ str '']'' @ ys) st1"
    "frame_clean f" "slot_of f = S"
    using open_step [of bs S rest ws "str ''[''" "t @ ws' @ str '']'' @ ys" st "Slot_Array []"] array.prems(2,5,6) d(1)
    by (auto simp: opens_def)
  obtain st2 where st2: "round_to\<^sup>*\<^sup>* st1 st2" "viewed bs (Slot_Array ([] @ xs)) (f # rest) (ws' @ str '']'' @ ys) st2"
    using array.IH [OF d(2) ws'(2) _ st1(2)] array.prems(5) d(1) by auto
  obtain st3 where "round_to st2 st3" "viewed bs (slot_add S (O_Array xs)) rest ys st3"
    using close_step [OF st2(2) ws'(1), of "O_Array xs"] st1(3,4) array.prems(4) by auto
  then show ?case
    using st1(1) st2(1) by (meson converse_rtranclp_into_rtranclp rtranclp.rtrancl_into_rtrancl)
next
  case (dictionary m t ws')
  have ws': "list_all is_ws ws'" "ends_here (ws' @ str ''>>'' @ ys)"
    using dictionary.hyps spaces_end by (auto simp: spaces_def)
  have d: "0 < d" "\<forall>x \<in> snd ` set m. well_typed True (d - 1) x" "bt_sorted ([] @ m)" "\<forall>k \<in> fst ` set m. slashed k"
    using dictionary.prems(1) by simp_all
  obtain f st1 where st1: "round_to st st1" "viewed bs (Slot_Dictionary [] None) (f # rest) (t @ ws' @ str ''>>'' @ ys) st1"
    "frame_clean f" "slot_of f = S"
    using open_step [of bs S rest ws "str ''<<''" "t @ ws' @ str ''>>'' @ ys" st "Slot_Dictionary [] None"]
      dictionary.prems(2,5,6) d(1)
    by (auto simp: opens_def)
  obtain st2 where st2: "round_to\<^sup>*\<^sup>* st1 st2" "viewed bs (Slot_Dictionary ([] @ m) None) (f # rest) (ws' @ str ''>>'' @ ys) st2"
    using dictionary.IH [OF d(2) ws'(2) _ d(3) st1(2)] dictionary.prems(5) d(1) by auto
  obtain st3 where "round_to st2 st3" "viewed bs (slot_add S (O_Dictionary m)) rest ys st3"
    using close_step [OF st2(2) ws'(1), of "O_Dictionary m"] st1(3,4) dictionary.prems(4) d(4) by auto
  then show ?case
    using st1(1) st2(1) by (meson converse_rtranclp_into_rtranclp rtranclp.rtrancl_into_rtrancl)
next
  case no_items
  then show ?case by (intro exI [of _ st]) simp
next
  case (item ws x t xs ts)
  have ends: "ends_here (ts @ ys)" by (rule items_end [OF item.hyps(3) item.prems(2)])
  obtain st1 where st1: "round_to\<^sup>*\<^sup>* st st1" "viewed bs (Slot_Array (zs @ [x])) rest (ts @ ys) st1"
    using item.IH(1) [of d ws "ts @ ys" "Slot_Array zs" rest st] item.hyps(1) item.prems ends by (auto simp: spaces_def)
  obtain st2 where "round_to\<^sup>*\<^sup>* st1 st2" "viewed bs (Slot_Array ((zs @ [x]) @ xs)) rest ys st2"
    using item.IH(2) [OF _ item.prems(2,3) st1(2)] item.prems(1) by (metis list.set_intros(2))
  then show ?case using rtranclp_trans [OF st1(1)] by (intro exI [of _ st2]) simp
next
  case no_entries
  then show ?case by (intro exI [of _ st]) simp
next
  case (entry ws k ws' x t m ts)
  have ws': "list_all is_ws ws" "list_all is_ws ws'" "ends_here (ws' @ t @ ts @ ys)"
    using entry.hyps spaces_end by (auto simp: spaces_def)
  have ends: "ends_here (ts @ ys)" using entries_end entry.hyps entry.prems(2) by blast
  have last: "\<forall>k' \<in> fst ` set m0. k' < 0x2F # k"
    using entry.prems(4) by (auto simp: bt_sorted_def sorted_wrt_append)
  obtain st1 where st1: "round_to st st1" "viewed bs (Slot_Dictionary m0 (Some (0x2F # k))) rest (ws' @ t @ ts @ ys) st1"
    using key_step [of bs m0 rest ws k "ws' @ t @ ts @ ys" st] ws' entry.hyps(2) entry.prems(5) by auto
  obtain st2 where st2: "round_to\<^sup>*\<^sup>* st1 st2" "viewed bs (Slot_Dictionary (m0 @ [(0x2F # k, x)]) None) rest (ts @ ys) st2"
    using entry.IH(1) [OF _ ws'(2) ends _ entry.prems(3) st1(2)] entry.prems(1) bt_insert_last [OF last, of x] by auto
  have "\<forall>x \<in> snd ` set m. well_typed True d x" "bt_sorted ((m0 @ [(0x2F # k, x)]) @ m)"
    using entry.prems(1,4) by simp_all
  then obtain st3 where "round_to\<^sup>*\<^sup>* st2 st3"
    "viewed bs (Slot_Dictionary ((m0 @ [(0x2F # k, x)]) @ m) None) rest ys st3"
    using entry.IH(2) [OF _ entry.prems(2,3) _ st2(2)] by blast
  then show ?case
    using rtranclp_trans [OF converse_rtranclp_into_rtranclp [of round_to, OF st1(1) st2(1)]] by (intro exI [of _ st3]) simp
qed

section \<open>The whole object\<close>

lemma rounds_remainder:
  assumes "round_to\<^sup>*\<^sup>* st st'"
  shows "\<exists>k. \<forall>fuel. parse_remainder (fuel + k) c (fst st) (snd st) = parse_remainder fuel c (fst st') (snd st')"
  using assms
proof (induction rule: converse_rtranclp_induct)
  case base
  show ?case by (intro exI [of _ 0]) simp
next
  case (step st st1)
  then obtain k where k: "\<forall>fuel. parse_remainder (fuel + k) c (fst st1) (snd st1) = parse_remainder fuel c (fst st') (snd st')"
    by blast
  then show ?case
    using step(1) by (intro exI [of _ "Suc k"]) (simp add: round_to_def)
qed

lemma more_fuel:
  "parse_remainder fuel c frames p \<noteq> Inl PF_Fuel \<Longrightarrow> parse_remainder (fuel + k) c frames p = parse_remainder fuel c frames p"
proof (induction fuel arbitrary: frames p)
  case (Suc fuel)
  then show ?case
    by (cases "parse_object_round c frames p") (auto split: sum.splits prod.splits)
qed simp

text \<open>A root container: the last closing bracket ends the object.\<close>

lemma root_container:
  assumes "viewed bs S [] ys0 (frames, p)" "round_to\<^sup>*\<^sup>* (frames, p) st" "viewed bs S' [] (ws @ tx @ ys) st"
    "list_all is_ws ws" "closed_by S' tx x" "source_ok (fp_tokens p)" "ring_ok p" "any_values.frames_ok c frames"
  shows "\<exists>v q. parse_remainder (remainder_fuel p) c frames p = Inr (v, q) \<and> content v = x \<and> parser_ready bs q ys"
proof -
  obtain frames' p' where st: "st = (frames', p')" by (cases st)
  obtain v q where v: "parser_ready bs q ys" "content v = x" "parse_object_round c frames' p' = Inr (Inl v, q)"
    using close_dispatch [OF assms(3) [unfolded st] assms(4,5)] by (auto simp: close_container_def)
  obtain k where k: "\<forall>fuel. parse_remainder (fuel + k) c frames p = parse_remainder fuel c frames' p'"
    using rounds_remainder [OF assms(2)] st by auto
  let ?n = "remainder_fuel p"
  have frames: "frames \<noteq> []" using assms(1) by (auto simp: viewed_def)
  have "parse_remainder ?n c frames p \<noteq> Inl PF_Fuel"
    using any_values.parse_remainder_ok [OF assms(6-8) frames, of ?n] by (auto simp: remainder_fuel_def)
  from more_fuel [OF this, of "k + 1"] have "parse_remainder ?n c frames p = parse_remainder (?n + 1 + k) c frames p"
    by (simp add: add.commute add.left_commute)
  also have "\<dots> = parse_remainder (?n + 1) c frames' p'" using k by blast
  also have "\<dots> = Inr (v, q)" using v(3) by simp
  finally show ?thesis using v by blast
qed

lemma ready_position: "parser_ready bs p ys \<Longrightarrow> ls_position (fp_tokens p) = length bs - length ys"
  by (auto simp: parser_ready_def)

lemma ready_start: "int (length bs) < 2 ^ 63 \<Longrightarrow> parser_ready bs (file_parser_new (slice_new bs)) bs"
  by (simp add: parser_ready_def file_parser_new_def slice_new_def live_source_new_def)

text \<open>A root that is one token.\<close>

lemma root_token:
  assumes "parser_ready (ws @ tx @ ys) p (ws @ tx @ ys)" "tx \<noteq> []" "silent tok"
    "next_live_token (fp_tokens p) = Inr (tok, after_token (fp_tokens p) (length ws) (length tx))"
    "pt_type tok \<notin> {T_ArrayOpen, T_DictOpen, T_Eof}" "\<not> pt_is_word_value tok (str ''endobj'')"
    "\<And>offset p. \<exists>v. parse_scalar_token c tok offset p = Inr (v, p) \<and> content v = x"
  shows "object_at x (length (ws @ tx)) (parse_body c p)"
proof -
  obtain q where q: "fp_next_token c p = Inr (tok, q)" "parser_ready (ws @ tx @ ys) (q\<lparr>fp_good_count := 0\<rparr>) ys"
    using read_token_ahead [OF assms(1-4)] by blast
  obtain v where v: "parse_scalar_token c tok (i64_of_usize (ls_position (fp_tokens p))) q = Inr (v, q)" "content v = x"
    using assms(7) by blast
  show ?thesis
    using q v assms(5,6) ready_position [OF q(2)] by (simp add: parse_body_def object_at_def Let_def)
qed

lemma root_open:
  assumes "parser_ready (ws @ tx @ zs) p (ws @ tx @ zs)" "list_all is_ws ws" "opens S tx" "fp_integer_count p = 0" "fp_integer_buffer p = (None, None)"
  shows "\<exists>f q. viewed (ws @ tx @ zs) S [] zs ([f], q) \<and> source_ok (fp_tokens q) \<and> ring_ok q \<and>
    any_values.frames_ok c [f] \<and>
    (\<forall>v r. parse_remainder (remainder_fuel q) c [f] q = Inr (v, r) \<longrightarrow>
      object_at (content v) (ls_position (fp_tokens r)) (parse_body c p))"
proof -
  have ahead: "token_ahead (fp_tokens p) ws tx zs" by (rule ready_ahead [OF assms(1,2)])
  obtain ty start end' where tok:
    "next_live_token (fp_tokens p) = Inr (PT_Simple ty start end', after_token (fp_tokens p) (length ws) (length tx))"
    "ty = (if S = Slot_Array [] then T_ArrayOpen else T_DictOpen)" "tx \<noteq> []"
    by (rule open_token [OF assms(3) ahead])
  obtain q where q: "fp_next_token c p = Inr (PT_Simple ty start end', q)"
    "\<forall>n. parser_ready (ws @ tx @ zs) (q\<lparr>fp_good_count := n\<rparr>) zs" "fp_integer_count q = 0"
    "fp_integer_buffer q = (None, None)"
    using read_token_ahead [OF assms(1) tok(3) _ tok(1)] assms(4,5) by (auto simp: silent_def)
  have "parser_ready (ws @ tx @ zs) q zs" using q(2) by (simp add: parser_ready_def)
  then obtain f where f: "push_frame c [] (PT_Simple ty start end') q = Inr ((True, [f]), q)"
    "viewed (ws @ tx @ zs) S [] zs ([f], q)"
    using push_view [of S ty "[]" "ws @ tx @ zs" q zs start end'] assms(3) tok(2) q(3) by (auto simp: opens_def)
  have "any_values.frames_ok c [f]"
    using f(1) by (auto simp: push_frame_def max_parse_depth_def split: if_splits)
  moreover have "source_ok (fp_tokens q)"
    using \<open>parser_ready (ws @ tx @ zs) q zs\<close> by (simp add: parser_ready_def source_ok_def source_idle_def)
  moreover have "ring_ok q" using q(3,4) by (simp add: ring_ok_def)
  moreover have "object_at (content v) (ls_position (fp_tokens r)) (parse_body c p)"
    if "parse_remainder (remainder_fuel q) c [f] q = Inr (v, r)" for v r
    using that q(1) f(1) tok(2) by (auto simp: parse_body_def object_at_def pt_is_word_value_def Let_def)
  ultimately show ?thesis using f(2) by blast
qed

lemma root_bracketed:
  assumes "parser_ready bs p bs" "bs = ws @ tx @ t @ ws' @ tx' @ ys" "list_all is_ws ws" "opens S tx" "spaces ws'"
    "fp_integer_count p = 0" "fp_integer_buffer p = (None, None)" "closed_by S' tx' x"
    "\<And>f q. viewed bs S [] (t @ ws' @ tx' @ ys) ([f], q) \<Longrightarrow>
      \<exists>st. round_to\<^sup>*\<^sup>* ([f], q) st \<and> viewed bs S' [] (ws' @ tx' @ ys) st"
  shows "object_at x (length (ws @ tx @ t @ ws' @ tx')) (parse_body c p)"
proof -
  obtain f q where f: "viewed bs S [] (t @ ws' @ tx' @ ys) ([f], q)" "source_ok (fp_tokens q)" "ring_ok q"
    "any_values.frames_ok c [f]"
    "\<forall>v r. parse_remainder (remainder_fuel q) c [f] q = Inr (v, r) \<longrightarrow>
      object_at (content v) (ls_position (fp_tokens r)) (parse_body c p)"
    using root_open [of ws tx "t @ ws' @ tx' @ ys" p S] assms(1-4,6,7) by auto
  obtain st where st: "round_to\<^sup>*\<^sup>* ([f], q) st" "viewed bs S' [] (ws' @ tx' @ ys) st"
    using assms(9) [OF f(1)] by blast
  have ws': "list_all is_ws ws'" using assms(5) by (simp add: spaces_def)
  obtain v r where v: "parse_remainder (remainder_fuel q) c [f] q = Inr (v, r)" "content v = x" "parser_ready bs r ys"
    using root_container [OF f(1) st ws' assms(8) f(2-4)] by blast
  then show ?thesis using f(5) ready_position [OF v(3)] assms(2) by auto
qed

text \<open>Reading a layout gives the object back, and goes on right behind it.\<close>

lemma layout_read:
  assumes "lays x t" "well_typed True 500 x" "\<And>n g. x \<noteq> O_Reference n g" "list_all is_ws ws" "ends_here ys"
    "int (length (ws @ t @ ys)) < 2 ^ 63"
  shows "object_at x (length (ws @ t)) (parse_body c (file_parser_new (slice_new (ws @ t @ ys))))"
proof -
  let ?bs = "ws @ t @ ys"
  let ?p = "file_parser_new (slice_new ?bs)"
  have start: "parser_ready ?bs ?p ?bs" by (rule ready_start [OF assms(6)])
  have empty: "fp_integer_count ?p = 0" "fp_integer_buffer ?p = (None, None)" by (simp_all add: file_parser_new_def)
  have ahead: "token_ahead (fp_tokens ?p) ws t ys" by (rule ready_ahead [OF start assms(4)])
  show ?thesis
    using assms(1)
  proof cases
    case scalar
    obtain tok where tok: "next_live_token (fp_tokens ?p) = Inr (tok, after_token (fp_tokens ?p) (length ws) (length t))"
      "value_token tok x" "t \<noteq> []"
      using scalar_token [OF scalar ahead assms(5)] by blast
    show ?thesis
      by (rule root_token [OF start tok(3) _ tok(1)])
        (use tok(2) value_token_shape [OF tok(2)] in \<open>auto simp: value_token_def\<close>)
  next
    case (integer i)
    have fits: "- (2 ^ 63) \<le> i" "i < 2 ^ 63" using assms(2) integer by simp_all
    have "t \<noteq> []" using integer decimal_digits [of "nat i"] by (simp add: decimal_int_def)
    then show ?thesis
      using root_token [OF start _ _ live_integer [OF ahead [unfolded integer(2)] assms(5) fits, folded integer(2)], of x] integer
      by (auto simp: silent_def pt_is_word_value_def parse_scalar_token_def canonicalize_object_value_def)
  next
    case (reference n g)
    then show ?thesis using assms(3) by blast
  next
    case (array xs u ws')
    have xs: "\<forall>x \<in> set xs. well_typed True 499 x" using assms(2) array by simp
    have "object_at x (length (ws @ str ''['' @ u @ ws' @ str '']'')) (parse_body c ?p)"
    proof (rule root_bracketed [OF start])
      fix f q assume view: "viewed ?bs (Slot_Array []) [] (u @ ws' @ str '']'' @ ys) ([f], q)"
      show "\<exists>st. round_to\<^sup>*\<^sup>* ([f], q) st \<and> viewed ?bs (Slot_Array xs) [] (ws' @ str '']'' @ ys) st"
        using layout_steps(2) [OF array(3) xs spaces_end [OF array(4)] _ view] by simp
    qed (use array assms(4) empty in \<open>simp_all add: opens_def\<close>)
    then show ?thesis using array(2) by simp
  next
    case (dictionary m u ws')
    have m: "\<forall>x \<in> snd ` set m. well_typed True 499 x" "bt_sorted ([] @ m)" "\<forall>k \<in> fst ` set m. slashed k"
      using assms(2) dictionary by simp_all
    have "object_at x (length (ws @ str ''<<'' @ u @ ws' @ str ''>>'')) (parse_body c ?p)"
    proof (rule root_bracketed [OF start])
      fix f q assume view: "viewed ?bs (Slot_Dictionary [] None) [] (u @ ws' @ str ''>>'' @ ys) ([f], q)"
      show "\<exists>st. round_to\<^sup>*\<^sup>* ([f], q) st \<and> viewed ?bs (Slot_Dictionary m None) [] (ws' @ str ''>>'' @ ys) st"
        using layout_steps(3) [OF dictionary(3) m(1) spaces_end [OF dictionary(4)] _ m(2) view] by simp
    qed (use dictionary assms(4) empty m in \<open>simp_all add: opens_def\<close>)
    then show ?thesis using dictionary(2) by simp
  qed
qed

end

end
