(* ===== verification/Object_Writer.thy ===== *)
theory Object_Writer
  imports Object_Model Pdf_Syntax
begin

text \<open>
  The printers of objects: \<open>unparse_resolved\<close> of \<open>crates/flpdf/src/object_handle.rs\<close>, and of
  \<open>crates/flpdf/src/writer/object.rs\<close> the compact printer, its variant that renumbers references and drops
  removed ones, the variant of the writer proper with a string writer, and the printer of the QDF layout. A
  printer that fails leaves a partial text behind, which its callers discard; the text is the result here.

  A handle that resolves to a stream is printed through its dictionary handle, which may resolve again, so
  nothing in the code bounds the walk. Each walk has fuel; only the walk, not the functions it is made of.
\<close>

section \<open>Results\<close>

text \<open>\<open>None\<close> is a walk out of fuel.\<close>

type_synonym 'a printed = "(error + 'a) option"

abbreviation wrote :: "'a \<Rightarrow> 'a printed" where
  "wrote x \<equiv> Some (Inr x)"

abbreviation failed :: "error \<Rightarrow> 'a printed" where
  "failed e \<equiv> Some (Inl e)"

definition and_then :: "'a printed \<Rightarrow> ('a \<Rightarrow> 'b printed) \<Rightarrow> 'b printed" where
  "and_then m f = (case m of None \<Rightarrow> None | Some (Inl e) \<Rightarrow> Some (Inl e) | Some (Inr x) \<Rightarrow> f x)"

lemma and_then_simps [simp]:
  "and_then None f = None" "and_then (failed e) f = failed e" "and_then (wrote x) f = f x"
  by (simp_all add: and_then_def)

lemma and_then_wrote: "and_then m f = wrote y \<longleftrightarrow> (\<exists>x. m = wrote x \<and> f x = wrote y)"
  by (auto simp: and_then_def split: option.splits sum.splits)

text \<open>A loop over elements, each of which writes some text.\<close>

fun emit_all :: "('a \<Rightarrow> bytes printed) \<Rightarrow> 'a list \<Rightarrow> bytes printed" where
  "emit_all f [] = wrote []"
| "emit_all f (x # xs) = and_then (f x) (\<lambda>t. and_then (emit_all f xs) (\<lambda>u. wrote (t @ u)))"

text \<open>\<open>Ok(true)\<close> with the text written, or \<open>Ok(false)\<close>.\<close>

definition or_else :: "bytes option printed \<Rightarrow> bytes printed \<Rightarrow> bytes printed" where
  "or_else m d = and_then m (\<lambda>r. case r of Some t \<Rightarrow> wrote t | None \<Rightarrow> d)"

section \<open>Decimal numbers\<close>

text \<open>The loop fills a buffer of twenty bytes from its end.\<close>

function decimal_loop :: "nat \<Rightarrow> bytes \<Rightarrow> bytes" where
  "decimal_loop magnitude encoded =
     (let encoded = (0x30 + of_nat (magnitude mod 10)) # encoded
      in if magnitude div 10 = 0 then encoded else decimal_loop (magnitude div 10) encoded)"
  by pat_completeness auto
termination by (relation "measure fst") auto

declare decimal_loop.simps [simp del]

definition write_decimal_u64 :: "nat \<Rightarrow> bytes" where
  "write_decimal_u64 v = decimal_loop v []"

definition write_decimal_i64 :: "int \<Rightarrow> bytes" where
  "write_decimal_i64 v =
     (let encoded = decimal_loop (nat \<bar>v\<bar>) [] in if v < 0 then 0x2D # encoded else encoded)"

definition write_qpdf_object_gen :: "qpdf_obj_gen \<Rightarrow> bytes" where
  "write_qpdf_object_gen og = write_decimal_i64 (get_obj og) @ str '' '' @ write_decimal_i64 (get_gen og) @ str '' R''"

definition write_object_ref :: "object_ref \<Rightarrow> bytes" where
  "write_object_ref r =
     write_decimal_u64 (nat (ref_number r)) @ str '' '' @ write_decimal_u64 (nat (ref_generation r)) @ str '' R''"

definition to_object_ref :: "qpdf_obj_gen \<Rightarrow> object_ref option" where
  "to_object_ref og =
     (if \<not> og_is_indirect og \<or> get_obj og < 1 \<or> \<not> (0 \<le> get_gen og \<and> get_gen og < 65535) then None
      else Some (Object_Ref (get_obj og) (get_gen og)))"

definition handle_object_ref :: "handle \<Rightarrow> object_ref option" where
  "handle_object_ref h = Option.bind (h_obj_gen h) to_object_ref"

section \<open>Scalars, keys and errors\<close>

definition reserved_unparse_error :: error where
  "reserved_unparse_error = System (str ''QPDFObjectHandle: attempting to unparse a reserved object'')"

definition unresolved_unparse_error :: error where
  "unresolved_unparse_error = Internal (str ''attempted to unparse an unresolved QPDFObjectHandle'')"

definition destroyed_unparse_error :: error where
  "destroyed_unparse_error = Internal (str ''attempted to unparse a QPDFObjectHandle from a destroyed QPDF'')"

definition write_unparse_dictionary_key :: "bytes \<Rightarrow> bytes" where
  "write_unparse_dictionary_key key = (case key of [] \<Rightarrow> [] | first # tail \<Rightarrow> first # write_name_escaped tail)"

definition write_object_key :: "bytes \<Rightarrow> bytes" where
  "write_object_key key =
     (if take 1 key = [0x2F] then 0x2F # write_name_escaped (drop 1 key) else write_name_escaped key)"

section \<open>The resolved form\<close>

definition unparse_resolved_child :: "(handle \<Rightarrow> bytes printed) \<Rightarrow> handle \<Rightarrow> bytes printed" where
  "unparse_resolved_child resolved h =
     (case h_obj_gen h of
        Some og \<Rightarrow> if og_is_indirect og then wrote (reference_text og) else resolved h
      | None \<Rightarrow> resolved h)"

definition unparse_resolved_value :: "document \<Rightarrow> (handle \<Rightarrow> bytes printed) \<Rightarrow> object_value \<Rightarrow> bytes printed" where
  "unparse_resolved_value doc resolved v =
     (case v of
        V_Null \<Rightarrow> wrote (str ''null'')
      | V_Unresolved \<Rightarrow> failed unresolved_unparse_error
      | V_Reserved \<Rightarrow> failed reserved_unparse_error
      | V_Destroyed \<Rightarrow> failed destroyed_unparse_error
      | V_Boolean b \<Rightarrow> wrote (if b then str ''true'' else str ''false'')
      | V_Integer i \<Rightarrow> wrote (decimal_int i)
      | V_Real r \<Rightarrow> wrote r
      | V_Name n \<Rightarrow> wrote (0x2F # write_name_escaped n)
      | V_String s \<Rightarrow> wrote (write_string_value s)
      | V_Operator t \<Rightarrow> wrote t
      | V_InlineImage t \<Rightarrow> wrote t
      | V_Array cs \<Rightarrow>
          and_then (emit_all (\<lambda>c. and_then (unparse_resolved_child resolved c) (\<lambda>t. wrote (t @ str '' ''))) cs)
            (\<lambda>t. wrote (str ''[ '' @ t @ str '']''))
      | V_Dictionary m \<Rightarrow>
          and_then
            (emit_all (\<lambda>(key, c).
               and_then (Some (try_is_null doc c)) (\<lambda>null.
                 if null then wrote []
                 else and_then (unparse_resolved_child resolved c)
                   (\<lambda>t. wrote (write_unparse_dictionary_key key @ str '' '' @ t @ str '' '')))) m)
            (\<lambda>t. wrote (str ''<< '' @ t @ str ''>>''))
      | V_Stream d \<Rightarrow> failed (Internal (str ''attempted to unparse a stream without an object identity'')))"

definition is_stream :: "object_value \<Rightarrow> bool" where
  "is_stream v = (case v of V_Stream d \<Rightarrow> True | _ \<Rightarrow> False)"

fun unparse_resolved_into :: "nat \<Rightarrow> document \<Rightarrow> handle \<Rightarrow> bytes printed" where
  "unparse_resolved_into 0 doc h = None"
| "unparse_resolved_into (Suc n) doc h =
     and_then (Some (try_dereference doc h)) (\<lambda>v.
       if is_indirect h \<and> is_stream v
       then wrote (case h_obj_gen h of None \<Rightarrow> [] | Some og \<Rightarrow> reference_text og)
       else unparse_resolved_value doc (unparse_resolved_into n doc) v)"

definition unparse_resolved :: "nat \<Rightarrow> document \<Rightarrow> handle \<Rightarrow> bytes printed" where
  "unparse_resolved fuel doc h = unparse_resolved_into fuel doc h"

definition unparse :: "nat \<Rightarrow> document \<Rightarrow> handle \<Rightarrow> bytes printed" where
  "unparse fuel doc h =
     (case h_obj_gen h of
        Some og \<Rightarrow> if og_is_indirect og then wrote (reference_text og) else unparse_resolved fuel doc h
      | None \<Rightarrow> unparse_resolved fuel doc h)"

section \<open>Visible entries and signatures\<close>

fun visible_dict_entries :: "document \<Rightarrow> (bytes \<times> handle) list \<Rightarrow> (bytes \<times> handle) list printed" where
  "visible_dict_entries doc [] = wrote []"
| "visible_dict_entries doc ((key, c) # m) =
     and_then (Some (try_is_null doc c)) (\<lambda>null.
     and_then (visible_dict_entries doc m) (\<lambda>visible. wrote (if null then visible else (key, c) # visible)))"

definition dict_is_sig_with_byte_range :: "document \<Rightarrow> (bytes \<times> handle) list \<Rightarrow> error + bool" where
  "dict_is_sig_with_byte_range doc entries =
     (case map_of entries (str ''/Type'') of
        None \<Rightarrow> Inr False
      | Some ty \<Rightarrow>
          (case try_dereference doc ty of
             Inl e \<Rightarrow> Inl e
           | Inr v \<Rightarrow>
               if v \<noteq> V_Name (str ''Sig'') then Inr False
               else (case map_of entries (str ''/ByteRange'') of
                  None \<Rightarrow> Inr False
                | Some ranges \<Rightarrow> map_sum id Not (try_is_null doc ranges))))"

definition try_write_sig_contents_hex_string :: "document \<Rightarrow> handle \<Rightarrow> bool \<Rightarrow> bytes option printed" where
  "try_write_sig_contents_hex_string doc h force_hex_string =
     (if \<not> force_hex_string \<or> is_indirect h then wrote None
      else and_then (Some (try_dereference doc h)) (\<lambda>v.
        case v of V_String s \<Rightarrow> wrote (Some (write_hex_string s)) | _ \<Rightarrow> wrote None))"

definition sig_contents :: "document \<Rightarrow> (bytes \<times> handle) list \<Rightarrow> bytes \<Rightarrow> error + bool" where
  "sig_contents doc entries key =
     (if key = str ''/Contents'' then dict_is_sig_with_byte_range doc entries else Inr False)"

section \<open>The compact form\<close>

text \<open>
  \<open>unparse_object_value\<close> without its container arms: its callers hand it scalars, and each printer has the arms
  in its container function.
\<close>

definition unparse_object_value :: "(object_value \<Rightarrow> bytes printed) \<Rightarrow> object_value \<Rightarrow> bytes printed" where
  "unparse_object_value container v =
     (case v of
        V_Null \<Rightarrow> wrote (str ''null'')
      | V_Unresolved \<Rightarrow> failed unresolved_unparse_error
      | V_Reserved \<Rightarrow> failed reserved_unparse_error
      | V_Destroyed \<Rightarrow> failed destroyed_unparse_error
      | V_Boolean b \<Rightarrow> wrote (if b then str ''true'' else str ''false'')
      | V_Integer i \<Rightarrow> wrote (write_decimal_i64 i)
      | V_Real r \<Rightarrow> wrote r
      | V_Name n \<Rightarrow> wrote (0x2F # write_name_escaped n)
      | V_String s \<Rightarrow> wrote (write_string_value s)
      | V_Operator t \<Rightarrow> wrote t
      | V_InlineImage t \<Rightarrow> wrote t
      | _ \<Rightarrow> container v)"

definition is_container :: "object_value \<Rightarrow> bool" where
  "is_container v = (case v of V_Array cs \<Rightarrow> True | V_Dictionary m \<Rightarrow> True | V_Stream d \<Rightarrow> True | _ \<Rightarrow> False)"

definition write_direct_child :: "handle \<Rightarrow> bytes option printed" where
  "write_direct_child h =
     (if is_container (h_value h) then wrote None
      else and_then (unparse_object_value (\<lambda>v. None) (h_value h)) (\<lambda>t. wrote (Some t)))"

text \<open>The check of a handle before its value is looked at.\<close>

definition after_initialized :: "document \<Rightarrow> handle \<Rightarrow> 'a printed \<Rightarrow> 'a printed" where
  "after_initialized doc h m =
     (if h_initialized h then m else and_then (Some (try_dereference doc h)) (\<lambda>v. m))"

definition unparse_child :: "document \<Rightarrow> (handle \<Rightarrow> bytes printed) \<Rightarrow> handle \<Rightarrow> bytes printed" where
  "unparse_child doc walk h =
     (case h_obj_gen h of
        Some og \<Rightarrow>
          if og_is_indirect og then wrote (write_qpdf_object_gen og)
          else after_initialized doc h (or_else (write_direct_child h) (walk h))
      | None \<Rightarrow> after_initialized doc h (or_else (write_direct_child h) (walk h)))"

definition spaced_entry :: "bytes \<Rightarrow> bytes \<Rightarrow> bytes" where
  "spaced_entry key t = str '' '' @ write_object_key key @ str '' '' @ t"

definition unparse_dict_entries ::
  "document \<Rightarrow> (handle \<Rightarrow> bytes printed) \<Rightarrow> (bytes \<times> handle) list \<Rightarrow> bytes printed" where
  "unparse_dict_entries doc walk entries =
     and_then (visible_dict_entries doc entries) (\<lambda>visible.
     and_then
       (emit_all (\<lambda>(key, c).
          and_then (Some (sig_contents doc entries key)) (\<lambda>force_hex_string.
          and_then (or_else (try_write_sig_contents_hex_string doc c force_hex_string) (unparse_child doc walk c))
            (\<lambda>t. wrote (spaced_entry key t)))) visible)
       (\<lambda>t. wrote (str ''<<'' @ t @ str '' >>'')))"

definition unparse_container :: "document \<Rightarrow> (handle \<Rightarrow> bytes printed) \<Rightarrow> object_value \<Rightarrow> bytes printed" where
  "unparse_container doc walk v =
     (case v of
        V_Array cs \<Rightarrow>
          and_then (emit_all (\<lambda>c. and_then (unparse_child doc walk c) (\<lambda>t. wrote (str '' '' @ t))) cs)
            (\<lambda>t. wrote (str ''['' @ t @ str '' ]''))
      | V_Dictionary m \<Rightarrow> unparse_dict_entries doc walk m
      | V_Stream d \<Rightarrow> walk d
      | _ \<Rightarrow> None)"

fun unparse_object_walk :: "nat \<Rightarrow> document \<Rightarrow> handle \<Rightarrow> bytes printed" where
  "unparse_object_walk 0 doc h = None"
| "unparse_object_walk (Suc n) doc h =
     (if is_reserved h then failed reserved_unparse_error
      else and_then (Some (try_dereference doc h))
        (unparse_object_value (unparse_container doc (unparse_object_walk n doc))))"

section \<open>Renumbered references\<close>

definition next_dictionary_entry_for_live_walk ::
  "(bytes \<times> handle) list \<Rightarrow> bytes option \<Rightarrow> (bytes \<times> handle) option" where
  "next_dictionary_entry_for_live_walk entries after =
     (case after of
        Some key \<Rightarrow> bt_next_after key entries
      | None \<Rightarrow> (case entries of [] \<Rightarrow> None | e # _ \<Rightarrow> Some e))"

lemma bt_next_after_larger: "bt_next_after k m = Some (k', v) \<Longrightarrow> k < k' \<and> (k', v) \<in> set m"
  by (induction k m rule: bt_next_after.induct) (auto split: if_splits)

function live_walk ::
  "(bytes \<times> handle \<Rightarrow> bytes printed) \<Rightarrow> (bytes \<times> handle) list \<Rightarrow> bytes option \<Rightarrow> bytes printed" where
  "live_walk f entries after =
     (case next_dictionary_entry_for_live_walk entries after of
        None \<Rightarrow> wrote []
      | Some (key, c) \<Rightarrow>
          and_then (f (key, c)) (\<lambda>t. and_then (live_walk f entries (Some key)) (\<lambda>u. wrote (t @ u))))"
  by pat_completeness auto
termination
proof (relation "measure (\<lambda>(f, entries, after).
    case after of None \<Rightarrow> Suc (card (fst ` set entries)) | Some k \<Rightarrow> card {k' \<in> fst ` set entries. k < k'})", simp)
  fix f :: "bytes \<times> handle \<Rightarrow> bytes printed" and entries :: "(bytes \<times> handle) list" and after e key c
  assume e: "next_dictionary_entry_for_live_walk entries after = Some e" "(key, c) = e"
  have "card {k' \<in> fst ` set entries. key < k'} < (case after of None \<Rightarrow> Suc (card (fst ` set entries))
      | Some k \<Rightarrow> card {k' \<in> fst ` set entries. k < k'})"
  proof (cases after)
    case None
    then show ?thesis by (simp add: less_Suc_eq_le card_mono)
  next
    case (Some k)
    then have "k < key" "key \<in> fst ` set entries"
      using e bt_next_after_larger [of k entries key c] by (auto simp: next_dictionary_entry_for_live_walk_def intro: rev_image_eqI)
    then have "{k' \<in> fst ` set entries. key < k'} \<subset> {k' \<in> fst ` set entries. k < k'}" by force
    then show ?thesis using Some by (simp add: psubset_card_mono)
  qed
  then show "((f, entries, Some key), f, entries, after) \<in> measure (\<lambda>(f, entries, after).
    case after of None \<Rightarrow> Suc (card (fst ` set entries)) | Some k \<Rightarrow> card {k' \<in> fst ` set entries. k < k'})"
    by simp
qed

declare live_walk.simps [simp del]

definition dict_is_sig_with_byte_range_handle :: "document \<Rightarrow> (bytes \<times> handle) list \<Rightarrow> error + bool" where
  "dict_is_sig_with_byte_range_handle doc entries =
     (let key_of = (\<lambda>key. case map_of entries key of Some c \<Rightarrow> c | None \<Rightarrow> handle_null)
      in case try_is_name_and_equals doc (key_of (str ''/Type'')) (str ''Sig'') of
        Inl e \<Rightarrow> Inl e
      | Inr is_sig \<Rightarrow>
          if \<not> is_sig then Inr False else map_sum id Not (try_is_null doc (key_of (str ''/ByteRange''))))"

definition unparse_child_with_ref_map ::
  "document \<Rightarrow> (qpdf_obj_gen \<Rightarrow> error + object_ref) \<Rightarrow> qpdf_obj_gen set \<Rightarrow> (handle \<Rightarrow> bytes printed) \<Rightarrow> handle \<Rightarrow>
   bytes printed" where
  "unparse_child_with_ref_map doc renumber removed_refs walk h =
     (case h_obj_gen h of
        Some og \<Rightarrow>
          if \<not> og_is_indirect og \<or> og \<in> removed_refs then wrote (str ''null'')
          else and_then (Some (renumber og)) (\<lambda>mapped. wrote (write_object_ref mapped))
      | None \<Rightarrow> after_initialized doc h (or_else (write_direct_child h) (walk h)))"

definition unparse_array_with_ref_map ::
  "document \<Rightarrow> (qpdf_obj_gen \<Rightarrow> error + object_ref) \<Rightarrow> qpdf_obj_gen set \<Rightarrow> (handle \<Rightarrow> bytes printed) \<Rightarrow>
   handle list \<Rightarrow> bytes printed" where
  "unparse_array_with_ref_map doc renumber removed_refs walk cs =
     and_then
       (emit_all (\<lambda>c. and_then (unparse_child_with_ref_map doc renumber removed_refs walk c) (\<lambda>t. wrote (str '' '' @ t))) cs)
       (\<lambda>t. wrote (str ''['' @ t @ str '' ]''))"

definition unparse_dictionary_with_ref_map ::
  "document \<Rightarrow> (qpdf_obj_gen \<Rightarrow> error + object_ref) \<Rightarrow> qpdf_obj_gen set \<Rightarrow> (handle \<Rightarrow> bytes printed) \<Rightarrow>
   (bytes \<times> handle) list \<Rightarrow> bytes printed" where
  "unparse_dictionary_with_ref_map doc renumber removed_refs walk entries =
     and_then
       (live_walk (\<lambda>(key, c).
          and_then (Some (try_is_null doc c)) (\<lambda>is_null.
            if is_null \<or> (\<exists>og \<in> set_option (h_obj_gen c). og \<in> removed_refs) then wrote []
            else
              and_then
                (Some (if key = str ''/Contents'' then dict_is_sig_with_byte_range_handle doc entries else Inr False))
                (\<lambda>force_hex_string.
              and_then
                (or_else (try_write_sig_contents_hex_string doc c force_hex_string)
                  (unparse_child_with_ref_map doc renumber removed_refs walk c))
                (\<lambda>t. wrote (spaced_entry key t))))) entries None)
       (\<lambda>t. wrote (str ''<<'' @ t @ str '' >>''))"

definition unparse_container_with_ref_map ::
  "document \<Rightarrow> (qpdf_obj_gen \<Rightarrow> error + object_ref) \<Rightarrow> qpdf_obj_gen set \<Rightarrow> (handle \<Rightarrow> bytes printed) \<Rightarrow>
   object_value \<Rightarrow> bytes printed" where
  "unparse_container_with_ref_map doc renumber removed_refs walk v =
     (case v of
        V_Array cs \<Rightarrow> unparse_array_with_ref_map doc renumber removed_refs walk cs
      | V_Dictionary m \<Rightarrow> unparse_dictionary_with_ref_map doc renumber removed_refs walk m
      | V_Stream d \<Rightarrow> walk d
      | _ \<Rightarrow> None)"

fun unparse_object_walk_with_ref_map ::
  "nat \<Rightarrow> document \<Rightarrow> (qpdf_obj_gen \<Rightarrow> error + object_ref) \<Rightarrow> qpdf_obj_gen set \<Rightarrow> handle \<Rightarrow> bytes printed" where
  "unparse_object_walk_with_ref_map 0 doc renumber removed_refs h = None"
| "unparse_object_walk_with_ref_map (Suc n) doc renumber removed_refs h =
     (if is_reserved h then failed reserved_unparse_error
      else and_then (Some (try_dereference doc h))
        (unparse_object_value
          (unparse_container_with_ref_map doc renumber removed_refs
            (unparse_object_walk_with_ref_map n doc renumber removed_refs))))"

section \<open>The printer of the writer\<close>

text \<open>
  References go through \<open>renumber\<close>, strings through \<open>write_string\<close>, and streams inside containers through
  \<open>direct_stream\<close>, the writer's hook for their framing.
\<close>

record dynamic_writer =
  dw_renumber :: "handle \<Rightarrow> error + object_ref"
  dw_removed_refs :: "object_ref set"
  dw_write_string :: "bytes \<Rightarrow> error + bytes"
  dw_direct_stream :: "handle \<Rightarrow> bytes printed"

definition is_direct_scalar_value :: "object_value \<Rightarrow> bool" where
  "is_direct_scalar_value v =
     (case v of V_Null \<Rightarrow> True | V_Boolean b \<Rightarrow> True | V_Integer i \<Rightarrow> True | V_Real r \<Rightarrow> True | V_Name n \<Rightarrow> True
      | V_String s \<Rightarrow> True | V_Operator t \<Rightarrow> True | V_InlineImage t \<Rightarrow> True | _ \<Rightarrow> False)"

definition is_direct_scalar_handle :: "handle \<Rightarrow> bool" where
  "is_direct_scalar_handle h \<longleftrightarrow> h_obj_gen h = None \<and> is_direct_scalar_value (h_value h)"

definition value_with_string_writer :: "dynamic_writer \<Rightarrow> (object_value \<Rightarrow> bytes printed) \<Rightarrow> object_value \<Rightarrow> bytes printed" where
  "value_with_string_writer w container v =
     (case v of V_String s \<Rightarrow> Some (dw_write_string w s) | _ \<Rightarrow> unparse_object_value container v)"

definition write_direct_scalar_with_string_writer :: "dynamic_writer \<Rightarrow> handle \<Rightarrow> bytes printed" where
  "write_direct_scalar_with_string_writer w h = value_with_string_writer w (\<lambda>v. None) (h_value h)"

text \<open>The fast path for containers of scalars: no child is resolved.\<close>

definition try_write_direct_scalar_container :: "dynamic_writer \<Rightarrow> object_value \<Rightarrow> bytes option printed" where
  "try_write_direct_scalar_container w v =
     (case v of
        V_Array cs \<Rightarrow>
          if list_all is_direct_scalar_handle cs
          then and_then
            (emit_all (\<lambda>c. and_then (write_direct_scalar_with_string_writer w c) (\<lambda>t. wrote (str '' '' @ t))) cs)
            (\<lambda>t. wrote (Some (str ''['' @ t @ str '' ]'')))
          else wrote None
      | V_Dictionary entries \<Rightarrow>
          if list_all (\<lambda>(key, c). is_direct_scalar_handle c) entries
          then
            let is_signature = (case map_of entries (str ''/Type'') of None \<Rightarrow> False
                  | Some c \<Rightarrow> as_name c = Some (str ''Sig''));
                has_byte_range = (is_signature \<and> (case map_of entries (str ''/ByteRange'') of None \<Rightarrow> False
                  | Some c \<Rightarrow> \<not> handle_is_null c));
                force_hex_contents = (is_signature \<and> has_byte_range)
            in and_then
              (emit_all (\<lambda>(key, c).
                 if handle_is_null c then wrote []
                 else
                   case (if force_hex_contents \<and> key = str ''/Contents'' then as_string c else None) of
                     Some s \<Rightarrow> wrote (spaced_entry key (write_hex_string s))
                   | None \<Rightarrow> and_then (write_direct_scalar_with_string_writer w c) (\<lambda>t. wrote (spaced_entry key t)))
                 entries)
              (\<lambda>t. wrote (Some (str ''<<'' @ t @ str '' >>'')))
          else wrote None
      | _ \<Rightarrow> wrote None)"

definition unparse_child_dynamic :: "document \<Rightarrow> dynamic_writer \<Rightarrow> (handle \<Rightarrow> bytes printed) \<Rightarrow> handle \<Rightarrow> bytes printed" where
  "unparse_child_dynamic doc w walk h =
     (case h_obj_gen h of
        Some og \<Rightarrow>
          if \<not> og_is_indirect og \<or> (\<exists>r \<in> set_option (to_object_ref og). r \<in> dw_removed_refs w)
          then wrote (str ''null'')
          else and_then (Some (dw_renumber w h)) (\<lambda>r. wrote (write_object_ref r))
      | None \<Rightarrow>
          after_initialized doc h
            (if is_stream (h_value h) then dw_direct_stream w h
             else if is_container (h_value h) then walk h
             else value_with_string_writer w (\<lambda>v. None) (h_value h)))"

definition is_removed_reference :: "dynamic_writer \<Rightarrow> handle \<Rightarrow> bool" where
  "is_removed_reference w h \<longleftrightarrow> (\<exists>r \<in> set_option (handle_object_ref h). r \<in> dw_removed_refs w)"

definition unparse_dict_entries_dynamic ::
  "document \<Rightarrow> dynamic_writer \<Rightarrow> (handle \<Rightarrow> bytes printed) \<Rightarrow> (bytes \<times> handle) list \<Rightarrow> bytes printed" where
  "unparse_dict_entries_dynamic doc w walk entries =
     and_then (visible_dict_entries doc entries) (\<lambda>visible.
     and_then
       (emit_all (\<lambda>(key, c).
          if is_removed_reference w c then wrote []
          else
            and_then (Some (sig_contents doc entries key)) (\<lambda>force_hex_string.
            and_then (or_else (try_write_sig_contents_hex_string doc c force_hex_string) (unparse_child_dynamic doc w walk c))
              (\<lambda>t. wrote (spaced_entry key t)))) visible)
       (\<lambda>t. wrote (str ''<<'' @ t @ str '' >>'')))"

definition unparse_container_dynamic ::
  "document \<Rightarrow> dynamic_writer \<Rightarrow> (handle \<Rightarrow> bytes printed) \<Rightarrow> object_value \<Rightarrow> bytes printed" where
  "unparse_container_dynamic doc w walk v =
     (case v of
        V_Array cs \<Rightarrow>
          and_then (emit_all (\<lambda>c. and_then (unparse_child_dynamic doc w walk c) (\<lambda>t. wrote (str '' '' @ t))) cs)
            (\<lambda>t. wrote (str ''['' @ t @ str '' ]''))
      | V_Dictionary m \<Rightarrow> unparse_dict_entries_dynamic doc w walk m
      | V_Stream d \<Rightarrow> walk d
      | _ \<Rightarrow> None)"

fun unparse_object_walk_dynamic :: "nat \<Rightarrow> document \<Rightarrow> dynamic_writer \<Rightarrow> handle \<Rightarrow> bytes printed" where
  "unparse_object_walk_dynamic 0 doc w h = None"
| "unparse_object_walk_dynamic (Suc n) doc w h =
     (if is_reserved h then failed reserved_unparse_error
      else and_then (Some (try_dereference doc h)) (\<lambda>v.
        or_else (try_write_direct_scalar_container w v)
          (value_with_string_writer w (unparse_container_dynamic doc w (unparse_object_walk_dynamic n doc w)) v)))"

section \<open>The QDF form\<close>

text \<open>Blocks of 64 spaces, and the rest of a block.\<close>

fun push_spaces :: "nat \<Rightarrow> bytes" where
  "push_spaces n = (if n \<ge> 64 then replicate 64 0x20 @ push_spaces (n - 64) else replicate n 0x20)"

declare push_spaces.simps [simp del]

definition unparse_child_qdf :: "(handle \<Rightarrow> bytes printed) \<Rightarrow> handle \<Rightarrow> bytes printed" where
  "unparse_child_qdf walk h =
     (case h_obj_gen h of
        Some og \<Rightarrow> if og_is_indirect og then wrote (write_qpdf_object_gen og) else walk h
      | None \<Rightarrow> walk h)"

definition unparse_dict_entries_qdf ::
  "document \<Rightarrow> (nat \<Rightarrow> handle \<Rightarrow> bytes printed) \<Rightarrow> nat \<Rightarrow> (bytes \<times> handle) list \<Rightarrow> bytes printed" where
  "unparse_dict_entries_qdf doc walk indent entries =
     and_then (visible_dict_entries doc entries) (\<lambda>visible.
     and_then
       (emit_all (\<lambda>(key, c).
          and_then (Some (sig_contents doc entries key)) (\<lambda>force_hex_string.
          and_then
            (or_else (try_write_sig_contents_hex_string doc c force_hex_string) (unparse_child_qdf (walk (indent + 2)) c))
            (\<lambda>t. wrote (push_spaces (indent + 2) @ write_object_key key @ str '' '' @ t @ [0x0A])))) visible)
       (\<lambda>t. wrote (str ''<<'' @ [0x0A] @ t @ push_spaces indent @ str ''>>'')))"

definition unparse_container_qdf ::
  "document \<Rightarrow> (nat \<Rightarrow> handle \<Rightarrow> bytes printed) \<Rightarrow> nat \<Rightarrow> object_value \<Rightarrow> bytes printed" where
  "unparse_container_qdf doc walk indent v =
     (case v of
        V_Array cs \<Rightarrow>
          and_then
            (emit_all (\<lambda>c.
               and_then (unparse_child_qdf (walk (indent + 2)) c) (\<lambda>t. wrote (push_spaces (indent + 2) @ t @ [0x0A]))) cs)
            (\<lambda>t. wrote (str ''['' @ [0x0A] @ t @ push_spaces indent @ str '']''))
      | V_Dictionary m \<Rightarrow> unparse_dict_entries_qdf doc walk indent m
      | V_Stream d \<Rightarrow> walk indent d
      | _ \<Rightarrow> None)"

fun unparse_object_walk_qdf :: "nat \<Rightarrow> document \<Rightarrow> nat \<Rightarrow> handle \<Rightarrow> bytes printed" where
  "unparse_object_walk_qdf 0 doc indent h = None"
| "unparse_object_walk_qdf (Suc n) doc indent h =
     (if is_reserved h then failed reserved_unparse_error
      else and_then (Some (try_dereference doc h))
        (unparse_object_value (unparse_container_qdf doc (unparse_object_walk_qdf n doc) indent)))"

section \<open>Numbers and spaces\<close>

lemma decimal_loop_eq: "decimal_loop n acc = decimal n @ acc"
proof (induction n acc rule: decimal_loop.induct)
  case (1 n acc)
  then show ?case
    by (subst decimal_loop.simps, subst decimal.simps) (auto simp: Let_def div_eq_0_iff)
qed

lemma write_decimal_u64_eq: "write_decimal_u64 v = decimal v"
  by (simp add: write_decimal_u64_def decimal_loop_eq)

lemma write_decimal_i64_eq: "write_decimal_i64 v = decimal_int v"
  by (simp add: write_decimal_i64_def decimal_loop_eq decimal_int_def)

lemma write_qpdf_object_gen_eq: "write_qpdf_object_gen og = reference_text og"
  by (simp add: write_qpdf_object_gen_def reference_text_def write_decimal_i64_eq)

lemma push_spaces_eq: "push_spaces n = replicate n 0x20"
proof (induction n rule: push_spaces.induct)
  case (1 n)
  then show ?case
    by (subst push_spaces.simps) (auto simp: replicate_add [symmetric])
qed

section \<open>Visible entries\<close>

lemma live_walk_sorted:
  assumes "bt_sorted (xs @ ys)"
  shows "live_walk f (xs @ ys) (if xs = [] then None else Some (fst (last xs))) = emit_all f ys"
  using assms
proof (induction ys arbitrary: xs)
  case Nil
  then show ?case
  proof (cases xs rule: rev_cases)
    case (snoc zs z)
    then show ?thesis
      using Nil btree.step_next [of zs "fst z" "snd z" "[]"]
      by (simp add: live_walk.simps next_dictionary_entry_for_live_walk_def)
  qed (simp add: live_walk.simps next_dictionary_entry_for_live_walk_def)
next
  case (Cons y ys)
  have next': "next_dictionary_entry_for_live_walk (xs @ y # ys) (if xs = [] then None else Some (fst (last xs))) = Some y"
  proof (cases xs rule: rev_cases)
    case (snoc zs z)
    then show ?thesis
      using Cons.prems btree.step_next [of zs "fst z" "snd z" "y # ys"]
      by (simp add: next_dictionary_entry_for_live_walk_def)
  qed (simp add: next_dictionary_entry_for_live_walk_def)
  have "live_walk f (xs @ y # ys) (Some (fst y)) = emit_all f ys"
    using Cons.IH [of "xs @ [y]"] Cons.prems by simp
  then show ?case using next' by (cases y, subst live_walk.simps) simp
qed

lemma live_walk_entries: "bt_sorted m \<Longrightarrow> live_walk f m None = emit_all f m"
  using live_walk_sorted [of "[]" m f] by simp

lemma emit_all_cong: "(\<And>x. x \<in> set xs \<Longrightarrow> f x = g x) \<Longrightarrow> emit_all f xs = emit_all g xs"
  by (induction xs) simp_all

lemma emit_all_filter: "emit_all f (filter P xs) = emit_all (\<lambda>x. if P x then f x else wrote []) xs"
proof (induction xs)
  case (Cons x xs)
  have "and_then m (\<lambda>u. wrote ([] @ u)) = m" for m :: "bytes printed"
    by (simp add: and_then_def split: option.split sum.split)
  then show ?case using Cons by simp
qed simp

text \<open>When every check succeeds the visible entries are the ones that are not null.\<close>

lemma visible_entries_checked:
  assumes "\<And>key c. (key, c) \<in> set m \<Longrightarrow> try_is_null doc c = Inr (is_null c)"
  shows "visible_dict_entries doc m = wrote (filter (\<lambda>(key, c). \<not> is_null c) m)"
  using assms
proof (induction m)
  case (Cons e m)
  obtain key c where e: "e = (key, c)" by (cases e)
  have "visible_dict_entries doc m = wrote (filter (\<lambda>(key, c). \<not> is_null c) m)"
    using Cons by (intro Cons.IH) auto
  moreover have "try_is_null doc c = Inr (is_null c)" using Cons.prems [of key c] e by simp
  ultimately show ?case using e by simp
qed simp

section \<open>The fast path is the slow path\<close>

definition value_children :: "object_value \<Rightarrow> handle list" where
  "value_children v = (case v of V_Array cs \<Rightarrow> cs | V_Dictionary m \<Rightarrow> map snd m | _ \<Rightarrow> [])"

lemma direct_scalar_child:
  assumes "is_direct_scalar_handle c" "h_initialized c"
  shows "unparse_child_dynamic doc w walk c = write_direct_scalar_with_string_writer w c"
    "try_dereference doc c = Inr (h_value c)" "try_is_null doc c = Inr (handle_is_null c)"
    "\<not> is_removed_reference w c" "\<not> is_indirect c"
  using assms
  by (auto simp: unparse_child_dynamic_def is_direct_scalar_handle_def is_direct_scalar_value_def after_initialized_def
      write_direct_scalar_with_string_writer_def try_dereference_def try_is_null_def handle_is_null_def
      is_removed_reference_def handle_object_ref_def is_indirect_def is_stream_def is_container_def
      split: object_value.splits)

lemma scalar_dict_sig:
  assumes "list_all (\<lambda>(key, c). is_direct_scalar_handle c \<and> h_initialized c) m"
  shows "dict_is_sig_with_byte_range doc m = Inr
    ((case map_of m (str ''/Type'') of None \<Rightarrow> False | Some c \<Rightarrow> as_name c = Some (str ''Sig'')) \<and>
     (case map_of m (str ''/ByteRange'') of None \<Rightarrow> False | Some c \<Rightarrow> \<not> handle_is_null c))"
proof -
  have ok: "is_direct_scalar_handle c \<and> h_initialized c" if "map_of m key = Some c" for key c
    using assms map_of_SomeD [OF that] by (auto simp: list_all_iff)
  have name: "(h_value c = V_Name n) = (as_name c = Some n)" for c n
    by (auto simp: as_name_def split: object_value.splits)
  show ?thesis
    using ok by (auto simp: dict_is_sig_with_byte_range_def direct_scalar_child name split: option.split)
qed

lemma or_else_same:
  "or_else (and_then m (\<lambda>t. wrote (Some (g t)))) (and_then m (\<lambda>t. wrote (g t))) = and_then m (\<lambda>t. wrote (g t))"
  by (simp add: or_else_def and_then_def split: option.split sum.split)

lemma scalar_dictionary_fast_path:
  assumes ok: "list_all (\<lambda>(key, c). is_direct_scalar_handle c \<and> h_initialized c) m"
  shows "or_else (try_write_direct_scalar_container w (V_Dictionary m)) (unparse_container_dynamic doc w walk (V_Dictionary m)) =
    unparse_container_dynamic doc w walk (V_Dictionary m)"
proof -
  have scalars: "list_all (\<lambda>(key, c). is_direct_scalar_handle c) m" using ok by (auto simp: list_all_iff)
  have child: "is_direct_scalar_handle c" "h_initialized c" if "(key, c) \<in> set m" for key c
    using ok that by (auto simp: list_all_iff)
  have visible: "visible_dict_entries doc m = wrote (filter (\<lambda>(key, c). \<not> handle_is_null c) m)"
    by (rule visible_entries_checked) (simp add: direct_scalar_child child)
  define sig where "sig \<longleftrightarrow>
    (case map_of m (str ''/Type'') of None \<Rightarrow> False | Some c \<Rightarrow> as_name c = Some (str ''Sig'')) \<and>
    (case map_of m (str ''/ByteRange'') of None \<Rightarrow> False | Some c \<Rightarrow> \<not> handle_is_null c)"
  have sig_of: "dict_is_sig_with_byte_range doc m = Inr sig"
    using scalar_dict_sig [OF ok] by (simp add: sig_def)
  let ?fast = "\<lambda>(key, c). if handle_is_null c then wrote []
      else case (if sig \<and> key = str ''/Contents'' then as_string c else None) of
             Some s \<Rightarrow> wrote (spaced_entry key (write_hex_string s))
           | None \<Rightarrow> and_then (write_direct_scalar_with_string_writer w c) (\<lambda>t. wrote (spaced_entry key t))"
  let ?slow = "\<lambda>(key, c). if is_removed_reference w c then wrote []
      else and_then (Some (sig_contents doc m key)) (\<lambda>force_hex_string.
        and_then (or_else (try_write_sig_contents_hex_string doc c force_hex_string) (unparse_child_dynamic doc w walk c))
          (\<lambda>t. wrote (spaced_entry key t)))"
  have entry: "?fast (key, c) = (if \<not> handle_is_null c then ?slow (key, c) else wrote [])" if "(key, c) \<in> set m" for key c
  proof -
    note c = direct_scalar_child [OF child [OF that]]
    show ?thesis
      using c by (auto simp: sig_contents_def sig_of or_else_def try_write_sig_contents_hex_string_def as_string_def
          split: object_value.split)
  qed
  have "emit_all ?fast m = emit_all ?slow (filter (\<lambda>(key, c). \<not> handle_is_null c) m)"
    unfolding emit_all_filter
  proof (rule emit_all_cong)
    fix e assume "e \<in> set m"
    moreover obtain key c where "e = (key, c)" by (cases e)
    ultimately show "?fast e = (if (case e of (key, c) \<Rightarrow> \<not> handle_is_null c) then ?slow e else wrote [])"
      using entry [of key c] by (simp only: prod.case)
  qed
  moreover have "try_write_direct_scalar_container w (V_Dictionary m) =
      and_then (emit_all ?fast m) (\<lambda>t. wrote (Some (str ''<<'' @ t @ str '' >>'')))"
    unfolding try_write_direct_scalar_container_def object_value.case Let_def sig_def
    by (simp only: scalars conj_left_absorb if_True)
  moreover have "unparse_container_dynamic doc w walk (V_Dictionary m) =
      and_then (emit_all ?slow (filter (\<lambda>(key, c). \<not> handle_is_null c) m)) (\<lambda>t. wrote (str ''<<'' @ t @ str '' >>''))"
    using visible by (simp add: unparse_container_dynamic_def unparse_dict_entries_dynamic_def)
  ultimately show ?thesis by (simp only: or_else_same)
qed

text \<open>C11: the fast path of the writer for arrays and dictionaries of scalars, which resolves no child, writes what
  the general path writes: the same entries are dropped, the same strings are hexadecimal, the same errors
  come from the string writer.\<close>

theorem scalar_container_fast_path:
  assumes "\<forall>c \<in> set (value_children v). h_initialized c"
  shows "or_else (try_write_direct_scalar_container w v) (unparse_container_dynamic doc w walk v) =
    unparse_container_dynamic doc w walk v"
proof (cases v)
  case (V_Array cs)
  show ?thesis
  proof (cases "list_all is_direct_scalar_handle cs")
    case True
    have "emit_all (\<lambda>c. and_then (write_direct_scalar_with_string_writer w c) (\<lambda>t. wrote (str '' '' @ t))) cs =
        emit_all (\<lambda>c. and_then (unparse_child_dynamic doc w walk c) (\<lambda>t. wrote (str '' '' @ t))) cs"
      using True assms V_Array
      by (intro emit_all_cong) (simp add: direct_scalar_child value_children_def list_all_iff)
    then show ?thesis
      using True V_Array
      by (simp add: try_write_direct_scalar_container_def unparse_container_dynamic_def or_else_same)
  qed (use V_Array in \<open>simp add: try_write_direct_scalar_container_def or_else_def\<close>)
next
  case (V_Dictionary m)
  show ?thesis
  proof (cases "list_all (\<lambda>(key, c). is_direct_scalar_handle c) m")
    case True
    then have ok: "list_all (\<lambda>(key, c). is_direct_scalar_handle c \<and> h_initialized c) m"
      using assms V_Dictionary by (auto simp: list_all_iff value_children_def)
    from scalar_dictionary_fast_path [OF ok] show ?thesis unfolding V_Dictionary .
  qed (use V_Dictionary in \<open>simp add: try_write_direct_scalar_container_def or_else_def\<close>)
qed (simp_all add: try_write_direct_scalar_container_def or_else_def)

lemma scalar_container_fast_path_witness:
  "try_write_direct_scalar_container
     \<lparr>dw_renumber = \<lambda>h. Inl (Internal []), dw_removed_refs = {}, dw_write_string = Inr, dw_direct_stream = \<lambda>h. None\<rparr>
     (V_Array [from_value (V_Integer 7), from_value V_Null]) = wrote (Some (str ''[ 7 null ]'')) \<and>
   unparse_container_dynamic no_document
     \<lparr>dw_renumber = \<lambda>h. Inl (Internal []), dw_removed_refs = {}, dw_write_string = Inr, dw_direct_stream = \<lambda>h. None\<rparr>
     (\<lambda>h. None) (V_Array [from_value (V_Integer 7), from_value V_Null]) = wrote (str ''[ 7 null ]'')"
proof -
  let ?w = "\<lparr>dw_renumber = \<lambda>h. Inl (Internal []), dw_removed_refs = {}, dw_write_string = Inr, dw_direct_stream = \<lambda>h. None\<rparr>"
  let ?v = "V_Array [from_value (V_Integer 7), from_value V_Null]"
  have f: "try_write_direct_scalar_container ?w ?v = wrote (Some (str ''[ 7 null ]''))" by code_simp
  have "\<forall>c \<in> set (value_children ?v). h_initialized c" by code_simp
  from scalar_container_fast_path [OF this, of ?w no_document "\<lambda>h. None"] show ?thesis
    using f by (simp add: or_else_def)
qed

end
