(* ===== verification/Object_Roundtrip.thy ===== *)
theory Object_Roundtrip
  imports Object_Reading Object_Writer
begin

text \<open>
  Printing and reading are inverse. The printers of objects share a contract, the locale \<open>object_printer\<close>: what
  they write is a layout of the object, without the dictionary entries that resolve to null. The parser reads
  layouts, so it gives back what was printed.
\<close>

section \<open>What is printed\<close>

text \<open>The content of a handle without the entries a printer drops.\<close>

definition entry_kept :: "document \<Rightarrow> bytes \<times> handle \<Rightarrow> bool" where
  "entry_kept doc e \<longleftrightarrow> try_is_null doc (snd e) \<noteq> Inr True"

fun emitted :: "document \<Rightarrow> handle \<Rightarrow> pdf_object" and emitted_value :: "document \<Rightarrow> object_value \<Rightarrow> pdf_object" where
  "emitted doc (Handle i og v off d) =
     (if \<not> i then O_Sentinel 0
      else case og of
        None \<Rightarrow> emitted_value doc v
      | Some og \<Rightarrow> if og_is_indirect og then O_Reference (get_obj og) (get_gen og) else emitted_value doc v)"
| "emitted_value doc V_Null = O_Null"
| "emitted_value doc V_Unresolved = O_Sentinel 13"
| "emitted_value doc V_Reserved = O_Sentinel 1"
| "emitted_value doc V_Destroyed = O_Sentinel 14"
| "emitted_value doc (V_Boolean b) = O_Boolean b"
| "emitted_value doc (V_Integer i) = O_Integer i"
| "emitted_value doc (V_Real r) = O_Real r"
| "emitted_value doc (V_Name n) = O_Name n"
| "emitted_value doc (V_String s) = O_String s"
| "emitted_value doc (V_Operator p) = O_Operator p"
| "emitted_value doc (V_InlineImage d) = O_InlineImage d"
| "emitted_value doc (V_Array cs) = O_Array (map (emitted doc) cs)"
| "emitted_value doc (V_Dictionary m) = O_Dictionary (map (\<lambda>e. (fst e, emitted doc (snd e))) (filter (entry_kept doc) m))"
| "emitted_value doc (V_Stream d) = O_Stream (emitted doc d)"

text \<open>Objects whose text is in the grammar the tokenizer keeps: no NUL in names, reals that are reals.\<close>

fun writable :: "pdf_object \<Rightarrow> bool" where
  "writable O_Null = True"
| "writable (O_Boolean b) = True"
| "writable (O_Integer i) = True"
| "writable (O_Real r) = real_text r"
| "writable (O_Name n) = (0 \<notin> set n)"
| "writable (O_String s) = True"
| "writable (O_Operator p) = False"
| "writable (O_InlineImage i) = False"
| "writable (O_Array xs) = (\<forall>x \<in> set xs. writable x)"
| "writable (O_Dictionary m) = ((\<forall>k \<in> fst ` set m. 0 \<notin> set k) \<and> (\<forall>x \<in> snd ` set m. writable x))"
| "writable (O_Stream x) = False"
| "writable (O_Reference number generation) = True"
| "writable (O_Sentinel n) = False"

definition printable :: "nat \<Rightarrow> pdf_object \<Rightarrow> bool" where
  "printable d x \<longleftrightarrow> writable x \<and> well_typed True d x"

lemma printable_array: "printable d (O_Array xs) \<Longrightarrow> x \<in> set xs \<Longrightarrow> printable (d - 1) x"
  by (simp add: printable_def)

lemma printable_entry:
  assumes "printable d (O_Dictionary m)" "(k, x) \<in> set m"
  shows "printable (d - 1) x" "\<exists>k'. k = 0x2F # k' \<and> 0 \<notin> set k'"
proof -
  show "printable (d - 1) x" using assms by (force simp: printable_def)
  have "slashed k" "0 \<notin> set k" using assms by (force simp: printable_def)+
  then show "\<exists>k'. k = 0x2F # k' \<and> 0 \<notin> set k'" by (cases k) (auto simp: slashed_def)
qed

lemma emitted_direct: "\<not> is_indirect h \<Longrightarrow> h_initialized h \<Longrightarrow> emitted doc h = emitted_value doc (h_value h)"
  by (cases h) (auto simp: is_indirect_def split: option.split)

lemma printable_initialized: "printable d (emitted doc h) \<Longrightarrow> h_initialized h"
  by (cases h) (auto simp: printable_def split: if_splits)

lemma deref_printable:
  assumes "\<not> is_indirect h" "try_dereference doc h = Inr v" "printable d (emitted doc h)"
  shows "v = h_value h" "emitted doc h = emitted_value doc v"
proof -
  have "h_value h \<noteq> V_Unresolved"
    using assms(3) emitted_direct [OF assms(1) printable_initialized [OF assms(3)], of doc] by (auto simp: printable_def)
  then show "v = h_value h"
    using assms(2) by (auto simp: try_dereference_def split: option.splits if_splits)
  then show "emitted doc h = emitted_value doc v"
    using emitted_direct [OF assms(1) printable_initialized [OF assms(3)]] by simp
qed

section \<open>Containers are laid out\<close>

text \<open>Each element between \<open>pre\<close> and \<open>post\<close>; the white space between two of them is both.\<close>

lemma items_layout:
  assumes "emit_all f cs = wrote u" "spaces (post @ pre)"
    "\<And>c s. c \<in> set cs \<Longrightarrow> f c = wrote s \<Longrightarrow> \<exists>t. s = pre @ t @ post \<and> lays (g c) t"
  shows "\<exists>s. lays_items (map g cs) s \<and> post @ u = s @ post"
  using assms(1,3)
proof (induction cs arbitrary: u)
  case Nil
  then show ?case by (auto intro: no_items)
next
  case (Cons c cs)
  obtain s u' where s: "f c = wrote s" "emit_all f cs = wrote u'" "u = s @ u'"
    using Cons.prems(1) by (auto simp: and_then_wrote)
  obtain t where t: "s = pre @ t @ post" "lays (g c) t" using Cons.prems(2) s(1) by auto
  obtain s' where s': "lays_items (map g cs) s'" "post @ u' = s' @ post"
    using Cons.IH [OF s(2)] Cons.prems(2) by auto
  have "lays_items (map g (c # cs)) ((post @ pre) @ t @ s')"
    using item [OF assms(2) t(2) s'(1)] by simp
  moreover have "post @ u = ((post @ pre) @ t @ s') @ post" using s(3) t(1) s'(2) by simp
  ultimately show ?case by blast
qed

lemma entries_layout:
  assumes "emit_all f es = wrote u" "spaces (post @ pre)" "spaces sp"
    "\<And>k c s. (k, c) \<in> set es \<Longrightarrow> f (k, c) = wrote s \<Longrightarrow>
      \<exists>t k'. k = 0x2F # k' \<and> 0 \<notin> set k' \<and> s = pre @ (0x2F # write_name_escaped k') @ sp @ t @ post \<and> lays (g c) t"
  shows "\<exists>s. lays_entries (map (\<lambda>e. (fst e, g (snd e))) es) s \<and> post @ u = s @ post"
  using assms(1,4)
proof (induction es arbitrary: u)
  case Nil
  then show ?case by (auto intro: no_entries)
next
  case (Cons e es)
  obtain k c where e: "e = (k, c)" by (cases e)
  obtain s u' where s: "f e = wrote s" "emit_all f es = wrote u'" "u = s @ u'"
    using Cons.prems(1) by (auto simp: and_then_wrote)
  obtain t k' where t: "k = 0x2F # k'" "0 \<notin> set k'" "s = pre @ (0x2F # write_name_escaped k') @ sp @ t @ post" "lays (g c) t"
    using Cons.prems(2) [of k c s] s(1) e by auto
  obtain s' where s': "lays_entries (map (\<lambda>e. (fst e, g (snd e))) es) s'" "post @ u' = s' @ post"
    using Cons.IH [OF s(2)] Cons.prems(2) by auto
  have "lays_entries (map (\<lambda>e. (fst e, g (snd e))) (e # es)) ((post @ pre) @ (0x2F # write_name_escaped k') @ sp @ t @ s')"
    using entry [OF assms(2) t(2) assms(3) t(4) s'(1)] e t(1) by simp
  moreover have "post @ u = ((post @ pre) @ (0x2F # write_name_escaped k') @ sp @ t @ s') @ post"
    using s(3) t(3) s'(2) by simp
  ultimately show ?case by blast
qed

lemma array_layout:
  assumes "lays_items xs s" "post @ u = s @ post" "spaces (post @ close)"
  shows "lays (O_Array xs) (str ''['' @ post @ u @ close @ str '']'')"
  using array [OF assms(1,3)] assms(2) by (metis append.assoc)

lemma dictionary_layout:
  assumes "lays_entries m s" "post @ u = s @ post" "spaces (post @ close)"
  shows "lays (O_Dictionary m) (str ''<<'' @ post @ u @ close @ str ''>>'')"
  using dictionary [OF assms(1,3)] assms(2) by (metis append.assoc)

lemma visible_entries: "visible_dict_entries doc m = wrote es \<Longrightarrow> es = filter (entry_kept doc) m"
proof (induction m arbitrary: es)
  case (Cons e m)
  then show ?case by (cases e) (auto simp: and_then_wrote entry_kept_def)
qed simp

lemma space_spaces [simp]: "spaces (str '' '')" "spaces [0x20]" "spaces (0x0A # replicate n 0x20)" "spaces [0x0A]"
  by (auto simp: spaces_def str_def is_ws_def list_all_iff)

lemma both_keys:
  "write_unparse_dictionary_key (0x2F # k) = 0x2F # write_name_escaped k"
  "write_object_key (0x2F # k) = 0x2F # write_name_escaped k"
  by (simp_all add: write_unparse_dictionary_key_def write_object_key_def)

text \<open>The texts of scalars, as both families of printers write them.\<close>

lemma scalar_lays:
  "lays O_Null (str ''null'')" "lays (O_Boolean True) (str ''true'')" "lays (O_Boolean False) (str ''false'')"
  "lays (O_Integer i) (decimal_int i)" "real_text r \<Longrightarrow> lays (O_Real r) r"
  "0 \<notin> set n \<Longrightarrow> lays (O_Name n) (0x2F # write_name_escaped n)" "lays (O_String s) (write_string_value s)"
  using bool [of True] bool [of False] by (auto intro: scalar integer null real name string)

lemma scalar_layout:
  assumes "unparse_object_value container v = wrote t" "\<not> is_container v" "printable d (emitted_value doc v)"
  shows "lays (emitted_value doc v) t"
  using assms
proof (cases v)
  case (V_Boolean b)
  then show ?thesis using assms(1) scalar_lays(2,3) by (cases b) (simp_all add: unparse_object_value_def)
qed (auto simp: unparse_object_value_def is_container_def printable_def write_decimal_i64_eq scalar_lays)

section \<open>The printers\<close>

text \<open>A child is a reference, or a value of its own.\<close>

lemma child_layout:
  assumes "c_text = wrote t" "printable d (emitted doc h)"
    "\<And>og. h_obj_gen h = Some og \<Longrightarrow> og_is_indirect og \<Longrightarrow> c_text = wrote (reference_text og)"
    "\<not> is_indirect h \<Longrightarrow> lays (emitted doc h) t"
  shows "lays (emitted doc h) t"
proof (cases "is_indirect h")
  case True
  then obtain og where og: "h_obj_gen h = Some og" "og_is_indirect og" by (auto simp: is_indirect_def split: option.splits)
  then have "emitted doc h = O_Reference (get_obj og) (get_gen og)"
    using printable_initialized [OF assms(2)] by (cases h) simp
  moreover have "t = reference_text og" using assms(1,3) og by simp
  ultimately show ?thesis using reference [of "get_obj og" "get_gen og"] by simp
qed (use assms(4) in simp)

lemma contents_layout:
  assumes "or_else (try_write_sig_contents_hex_string doc c force) child = wrote t" "printable d (emitted doc c)"
    "child = wrote t \<Longrightarrow> lays (emitted doc c) t"
  shows "lays (emitted doc c) t"
proof (cases "try_write_sig_contents_hex_string doc c force = wrote None")
  case True
  then show ?thesis using assms(1,3) by (simp add: or_else_def)
next
  case False
  then have c: "force" "\<not> is_indirect c"
    by (simp_all add: try_write_sig_contents_hex_string_def split: if_splits)
  obtain v where v: "try_dereference doc c = Inr v"
    using assms(1) c by (cases "try_dereference doc c") (simp_all add: try_write_sig_contents_hex_string_def or_else_def)
  then obtain s where s: "v = V_String s" "t = write_hex_string s"
    using assms(1) False c by (cases v) (simp_all add: try_write_sig_contents_hex_string_def or_else_def)
  then show ?thesis
    using deref_printable(2) [OF c(2) v assms(2)] by (simp add: scalar hex_string)
qed

lemma resolved_layout:
  "unparse_resolved_into n doc h = wrote t \<Longrightarrow> try_dereference doc h = Inr v \<Longrightarrow> printable d (emitted_value doc v) \<Longrightarrow>
   lays (emitted_value doc v) t"
proof (induction n arbitrary: h t v d)
  case (Suc n)
  let ?rec = "unparse_resolved_into n doc"
  have "\<not> is_stream v" using Suc.prems(3) by (cases v) (auto simp: is_stream_def printable_def)
  then have v: "unparse_resolved_value doc ?rec v = wrote t" using Suc.prems(1,2) by simp
  have child: "lays (emitted doc c) s"
    if "unparse_resolved_child ?rec c = wrote s" "printable d' (emitted doc c)" for c s d'
  proof (rule child_layout [OF that])
    fix og assume "h_obj_gen c = Some og" "og_is_indirect og"
    then show "unparse_resolved_child ?rec c = wrote (reference_text og)" by (simp add: unparse_resolved_child_def)
  next
    assume c: "\<not> is_indirect c"
    then have rec: "?rec c = wrote s"
      using that(1) by (auto simp: unparse_resolved_child_def is_indirect_def split: option.splits if_splits)
    then obtain w where w: "try_dereference doc c = Inr w" by (cases n) (auto simp: and_then_wrote)
    then show "lays (emitted doc c) s"
      using Suc.IH [OF rec w, of d'] deref_printable [OF c w that(2)] that(2) by simp
  qed
  show ?case
  proof (cases v)
    case (V_Array cs)
    obtain u where u: "emit_all (\<lambda>c. and_then (unparse_resolved_child ?rec c) (\<lambda>t. wrote (t @ str '' ''))) cs = wrote u"
      "t = str ''['' @ str '' '' @ u @ [] @ str '']''"
      using v V_Array by (auto simp: unparse_resolved_value_def and_then_wrote str_def)
    obtain s where "lays_items (map (emitted doc) cs) s" "str '' '' @ u = s @ str '' ''"
    proof -
      have "\<exists>s. lays_items (map (emitted doc) cs) s \<and> str '' '' @ u = s @ str '' ''"
      proof (rule items_layout [OF u(1), of "str '' ''" "[]"])
        fix c s assume "c \<in> set cs" "and_then (unparse_resolved_child ?rec c) (\<lambda>t. wrote (t @ str '' '')) = wrote s"
        then show "\<exists>t. s = [] @ t @ str '' '' \<and> lays (emitted doc c) t"
          using child printable_array [of d "map (emitted doc) cs" "emitted doc c"] Suc.prems(3) V_Array
          by (auto simp: and_then_wrote)
      qed simp
      then show thesis using that by blast
    qed
    then show ?thesis using array_layout [of _ _ "str '' ''" u "[]"] u(2) V_Array by simp
  next
    case (V_Dictionary m)
    let ?f = "\<lambda>(key, c). and_then (unparse_resolved_child ?rec c)
      (\<lambda>t. wrote (write_unparse_dictionary_key key @ str '' '' @ t @ str '' ''))"
    obtain u where u: "emit_all (\<lambda>(key, c).
               and_then (Some (try_is_null doc c)) (\<lambda>null. if null then wrote [] else ?f (key, c))) m = wrote u"
      "t = str ''<<'' @ str '' '' @ u @ [] @ str ''>>''"
      using v V_Dictionary by (auto simp: unparse_resolved_value_def and_then_wrote str_def)
    have "emit_all ?f (filter (entry_kept doc) m) = wrote u"
      using u(1)
    proof (induction m arbitrary: u)
      case (Cons e m)
      then show ?case by (cases e) (auto simp: and_then_wrote entry_kept_def split: if_splits)
    qed simp
    moreover have entries: "printable d (O_Dictionary (map (\<lambda>e. (fst e, emitted doc (snd e))) (filter (entry_kept doc) m)))"
      using Suc.prems(3) V_Dictionary by simp
    ultimately obtain s where "lays_entries (map (\<lambda>e. (fst e, emitted doc (snd e))) (filter (entry_kept doc) m)) s"
      "str '' '' @ u = s @ str '' ''"
    proof -
      assume f: "emit_all ?f (filter (entry_kept doc) m) = wrote u"
      have "\<exists>s. lays_entries (map (\<lambda>e. (fst e, emitted doc (snd e))) (filter (entry_kept doc) m)) s \<and> str '' '' @ u = s @ str '' ''"
      proof (rule entries_layout [OF f, of "str '' ''" "[]" "str '' ''"])
        fix k c s assume kc: "(k, c) \<in> set (filter (entry_kept doc) m)" "?f (k, c) = wrote s"
        then have "(k, emitted doc c) \<in> set (map (\<lambda>e. (fst e, emitted doc (snd e))) (filter (entry_kept doc) m))" by force
        from printable_entry [OF entries this] obtain k' where k: "k = 0x2F # k'" "0 \<notin> set k'" "printable (d - 1) (emitted doc c)"
          by blast
        obtain t where "unparse_resolved_child ?rec c = wrote t" "s = write_unparse_dictionary_key k @ str '' '' @ t @ str '' ''"
          using kc(2) by (auto simp: and_then_wrote)
        then show "\<exists>t k'. k = 0x2F # k' \<and> 0 \<notin> set k' \<and> s = [] @ (0x2F # write_name_escaped k') @ str '' '' @ t @ str '' '' \<and>
            lays (emitted doc c) t"
          using child k by (auto simp: both_keys)
      qed simp_all
      then show thesis using that by blast
    qed
    then show ?thesis using dictionary_layout [of _ _ "str '' ''" u "[]"] u(2) V_Dictionary by simp
  qed (use v Suc.prems(3) in \<open>auto simp: unparse_resolved_value_def printable_def scalar_lays\<close>)
qed simp

text \<open>The compact and the QDF printer differ in the white space and in how a child is written.\<close>

lemma children_layout:
  assumes "emit_all (\<lambda>c. and_then (child c) (\<lambda>t. wrote (pre @ t @ post))) cs = wrote u" "spaces (post @ pre)"
    "printable d (emitted_value doc (V_Array cs))"
    "\<And>c t d'. child c = wrote t \<Longrightarrow> printable d' (emitted doc c) \<Longrightarrow> lays (emitted doc c) t"
  shows "\<exists>s. lays_items (map (emitted doc) cs) s \<and> post @ u = s @ post"
proof (rule items_layout [OF assms(1,2)])
  fix c s assume c: "c \<in> set cs" "and_then (child c) (\<lambda>t. wrote (pre @ t @ post)) = wrote s"
  then show "\<exists>t. s = pre @ t @ post \<and> lays (emitted doc c) t"
    using assms(4) printable_array [of d "map (emitted doc) cs" "emitted doc c"] assms(3) by (auto simp: and_then_wrote)
qed

lemma entries_written_layout:
  assumes "emit_all (\<lambda>(key, c). and_then (Some (sig_contents doc m key)) (\<lambda>force_hex_string.
      and_then (or_else (try_write_sig_contents_hex_string doc c force_hex_string) (child c))
        (\<lambda>t. wrote (pre @ write_object_key key @ str '' '' @ t @ post)))) (filter (entry_kept doc) m) = wrote u"
    "spaces (post @ pre)" "printable d (emitted_value doc (V_Dictionary m))"
    "\<And>c t d'. child c = wrote t \<Longrightarrow> printable d' (emitted doc c) \<Longrightarrow> lays (emitted doc c) t"
  shows "\<exists>s. lays_entries (map (\<lambda>e. (fst e, emitted doc (snd e))) (filter (entry_kept doc) m)) s \<and> post @ u = s @ post"
proof (rule entries_layout [OF assms(1,2), of "str '' ''"])
  fix k c s
  assume kc: "(k, c) \<in> set (filter (entry_kept doc) m)" "(case (k, c) of (key, c) \<Rightarrow>
      and_then (Some (sig_contents doc m key)) (\<lambda>force_hex_string.
        and_then (or_else (try_write_sig_contents_hex_string doc c force_hex_string) (child c))
          (\<lambda>t. wrote (pre @ write_object_key key @ str '' '' @ t @ post)))) = wrote s"
  have entries: "printable d (O_Dictionary (map (\<lambda>e. (fst e, emitted doc (snd e))) (filter (entry_kept doc) m)))"
    using assms(3) by simp
  have "(k, emitted doc c) \<in> set (map (\<lambda>e. (fst e, emitted doc (snd e))) (filter (entry_kept doc) m))" using kc(1) by force
  from printable_entry [OF entries this] obtain k' where k: "k = 0x2F # k'" "0 \<notin> set k'" "printable (d - 1) (emitted doc c)"
    by blast
  obtain force t where t: "or_else (try_write_sig_contents_hex_string doc c force) (child c) = wrote t"
    "s = pre @ write_object_key k @ str '' '' @ t @ post"
    using kc(2) by (auto simp: and_then_wrote)
  have "lays (emitted doc c) t" by (rule contents_layout [OF t(1) k(3)]) (use assms(4) k(3) in blast)
  then show "\<exists>t k'. k = 0x2F # k' \<and> 0 \<notin> set k' \<and> s = pre @ (0x2F # write_name_escaped k') @ str '' '' @ t @ post \<and>
      lays (emitted doc c) t"
    using k(1,2) t(2) by (auto simp: both_keys)
qed simp

lemma compact_layout:
  "unparse_object_walk n doc h = wrote t \<Longrightarrow> try_dereference doc h = Inr v \<Longrightarrow> printable d (emitted_value doc v) \<Longrightarrow>
   lays (emitted_value doc v) t"
proof (induction n arbitrary: h t v d)
  case (Suc n)
  let ?walk = "unparse_object_walk n doc"
  have v: "unparse_object_value (unparse_container doc ?walk) v = wrote t"
    using Suc.prems(1,2) by (simp split: if_splits)
  have child: "lays (emitted doc c) s" if "unparse_child doc ?walk c = wrote s" "printable d' (emitted doc c)" for c s d'
  proof (rule child_layout [OF that])
    fix og assume "h_obj_gen c = Some og" "og_is_indirect og"
    then show "unparse_child doc ?walk c = wrote (reference_text og)" by (simp add: unparse_child_def write_qpdf_object_gen_eq)
  next
    assume c: "\<not> is_indirect c"
    then have w: "after_initialized doc c (or_else (write_direct_child c) (?walk c)) = wrote s"
      using that(1) by (auto simp: unparse_child_def is_indirect_def split: option.splits if_splits)
    then have w': "or_else (write_direct_child c) (?walk c) = wrote s"
      by (auto simp: after_initialized_def and_then_wrote split: if_splits)
    have emitted: "emitted doc c = emitted_value doc (h_value c)" 
      by (rule emitted_direct [OF c printable_initialized [OF that(2)]])
    show "lays (emitted doc c) s"
    proof (cases "is_container (h_value c)")
      case True
      then have rec: "?walk c = wrote s" using w' by (simp add: write_direct_child_def or_else_def)
      then obtain w where w: "try_dereference doc c = Inr w" by (cases n) (auto simp: and_then_wrote split: if_splits)
      then show ?thesis using Suc.IH [OF rec w, of d'] deref_printable [OF c w that(2)] that(2) by simp
    next
      case False
      then have "unparse_object_value (\<lambda>v. None) (h_value c) = wrote s"
        using w' by (auto simp: write_direct_child_def or_else_def and_then_wrote)
      then show ?thesis using scalar_layout [OF _ False, of "\<lambda>v. None" s d' doc] that(2) emitted by simp
    qed
  qed
  show ?case
  proof (cases v)
    case (V_Array cs)
    obtain u where u: "emit_all (\<lambda>c. and_then (unparse_child doc ?walk c) (\<lambda>t. wrote (str '' '' @ t @ []))) cs = wrote u"
      "t = str ''['' @ [] @ u @ str '' '' @ str '']''"
      using v V_Array by (auto simp: unparse_object_value_def unparse_container_def and_then_wrote str_def)
    then show ?thesis
      using children_layout [OF u(1) _ _ child, of d] Suc.prems(3) V_Array array_layout [of _ _ "[]" u "str '' ''"] by auto
  next
    case (V_Dictionary m)
    obtain es u where es: "visible_dict_entries doc m = wrote es" and
      u: "emit_all (\<lambda>(key, c). and_then (Some (sig_contents doc m key)) (\<lambda>force_hex_string.
        and_then (or_else (try_write_sig_contents_hex_string doc c force_hex_string) (unparse_child doc ?walk c))
        (\<lambda>t. wrote (str '' '' @ write_object_key key @ str '' '' @ t @ [])))) es = wrote u"
      "t = str ''<<'' @ [] @ u @ str '' '' @ str ''>>''"
      using v V_Dictionary
      by (auto simp: unparse_object_value_def unparse_container_def unparse_dict_entries_def spaced_entry_def and_then_wrote str_def)
    from visible_entries [OF es] u have
      "emit_all (\<lambda>(key, c). and_then (Some (sig_contents doc m key)) (\<lambda>force_hex_string.
        and_then (or_else (try_write_sig_contents_hex_string doc c force_hex_string) (unparse_child doc ?walk c))
        (\<lambda>t. wrote (str '' '' @ write_object_key key @ str '' '' @ t @ [])))) (filter (entry_kept doc) m) = wrote u" by simp
    from entries_written_layout [OF this _ _ child, of d] show ?thesis
      using u(2) Suc.prems(3) V_Dictionary dictionary_layout [of _ _ "[]" u "str '' ''"] by auto
  next
    case (V_Stream dict)
    then show ?thesis using Suc.prems(3) by (simp add: printable_def)
  qed (use v Suc.prems(3) scalar_layout [OF v, of d doc] in \<open>simp_all add: is_container_def\<close>)
qed simp

lemma qdf_layout:
  "unparse_object_walk_qdf n doc indent h = wrote t \<Longrightarrow> try_dereference doc h = Inr v \<Longrightarrow>
   printable d (emitted_value doc v) \<Longrightarrow> lays (emitted_value doc v) t"
proof (induction n arbitrary: indent h t v d)
  case (Suc n)
  let ?walk = "unparse_object_walk_qdf n doc"
  have v: "unparse_object_value (unparse_container_qdf doc ?walk indent) v = wrote t"
    using Suc.prems(1,2) by (simp split: if_splits)
  have child: "lays (emitted doc c) s"
    if "unparse_child_qdf (?walk (indent + 2)) c = wrote s" "printable d' (emitted doc c)" for c s d'
  proof (rule child_layout [OF that])
    fix og assume "h_obj_gen c = Some og" "og_is_indirect og"
    then show "unparse_child_qdf (?walk (indent + 2)) c = wrote (reference_text og)"
      by (simp add: unparse_child_qdf_def write_qpdf_object_gen_eq)
  next
    assume c: "\<not> is_indirect c"
    then have rec: "?walk (indent + 2) c = wrote s"
      using that(1) by (auto simp: unparse_child_qdf_def is_indirect_def split: option.splits if_splits)
    then obtain w where w: "try_dereference doc c = Inr w" by (cases n) (auto simp: and_then_wrote split: if_splits)
    then show "lays (emitted doc c) s"
      using Suc.IH [OF rec w, of d'] deref_printable [OF c w that(2)] that(2) by simp
  qed
  have pad: "spaces ([0x0A] @ push_spaces k)" for k by (simp add: push_spaces_eq)
  show ?case
  proof (cases v)
    case (V_Array cs)
    obtain u where u: "emit_all (\<lambda>c. and_then (unparse_child_qdf (?walk (indent + 2)) c)
        (\<lambda>t. wrote (push_spaces (indent + 2) @ t @ [0x0A]))) cs = wrote u"
      "t = str ''['' @ [0x0A] @ u @ push_spaces indent @ str '']''"
      using v V_Array by (auto simp: unparse_object_value_def unparse_container_qdf_def and_then_wrote)
    have "printable d (emitted_value doc (V_Array cs))" using Suc.prems(3) V_Array by simp
    from children_layout [OF u(1) pad this] child obtain s where
      s: "lays_items (map (emitted doc) cs) s" "[0x0A] @ u = s @ [0x0A]" by blast
    have "spaces ([0x0A] @ push_spaces indent)" by (rule pad)
    from array_layout [OF s this] show ?thesis unfolding u(2) V_Array by simp
  next
    case (V_Dictionary m)
    obtain es u where es: "visible_dict_entries doc m = wrote es" and
      u: "emit_all (\<lambda>(key, c). and_then (Some (sig_contents doc m key)) (\<lambda>force_hex_string.
        and_then (or_else (try_write_sig_contents_hex_string doc c force_hex_string) (unparse_child_qdf (?walk (indent + 2)) c))
        (\<lambda>t. wrote (push_spaces (indent + 2) @ write_object_key key @ str '' '' @ t @ [0x0A])))) es = wrote u"
      "t = str ''<<'' @ [0x0A] @ u @ push_spaces indent @ str ''>>''"
      using v V_Dictionary
      by (auto simp: unparse_object_value_def unparse_container_qdf_def unparse_dict_entries_qdf_def and_then_wrote)
    from visible_entries [OF es] u have
      "emit_all (\<lambda>(key, c). and_then (Some (sig_contents doc m key)) (\<lambda>force_hex_string.
        and_then (or_else (try_write_sig_contents_hex_string doc c force_hex_string) (unparse_child_qdf (?walk (indent + 2)) c))
        (\<lambda>t. wrote (push_spaces (indent + 2) @ write_object_key key @ str '' '' @ t @ [0x0A])))) (filter (entry_kept doc) m) = wrote u"
      by simp
    moreover have "printable d (emitted_value doc (V_Dictionary m))" using Suc.prems(3) V_Dictionary by simp
    ultimately obtain s where
      s: "lays_entries (map (\<lambda>e. (fst e, emitted doc (snd e))) (filter (entry_kept doc) m)) s" "[0x0A] @ u = s @ [0x0A]"
      using entries_written_layout [OF _ pad] child by blast
    have "spaces ([0x0A] @ push_spaces indent)" by (rule pad)
    from dictionary_layout [OF s this] show ?thesis unfolding u(2) V_Dictionary by simp
  next
    case (V_Stream dict)
    then show ?thesis using Suc.prems(3) by (simp add: printable_def)
  qed (use v Suc.prems(3) scalar_layout [OF v, of d doc] in \<open>simp_all add: is_container_def\<close>)
qed simp

section \<open>Printing succeeds\<close>

text \<open>Where the document resolves every identity, printing a printable value needs one step of fuel for each level.\<close>

definition resolves_all :: "document \<Rightarrow> bool" where
  "resolves_all doc \<longleftrightarrow> (\<forall>og. \<exists>v. doc og = Inr v)"

lemma try_dereference_total: "resolves_all doc \<Longrightarrow> h_initialized h \<Longrightarrow> \<exists>v. try_dereference doc h = Inr v"
  by (auto simp: try_dereference_def resolves_all_def split: option.split)

lemma try_is_null_total: "resolves_all doc \<Longrightarrow> \<exists>b. try_is_null doc h = Inr b"
  using try_dereference_total [of doc h] by (auto simp: try_is_null_def)

lemma emit_all_total: "(\<And>x. x \<in> set xs \<Longrightarrow> \<exists>t. f x = wrote t) \<Longrightarrow> \<exists>t. emit_all f xs = wrote t"
proof (induction xs)
  case (Cons x xs)
  obtain t where "f x = wrote t" using Cons.prems [of x] by auto
  moreover obtain u where "emit_all f xs = wrote u" using Cons.IH Cons.prems by auto
  ultimately show ?case by simp
qed simp

lemma visible_entries_total: "resolves_all doc \<Longrightarrow> visible_dict_entries doc m = wrote (filter (entry_kept doc) m)"
proof (induction m)
  case (Cons e m)
  then show ?case using try_is_null_total [of doc "snd e"] by (cases e) (auto simp: entry_kept_def)
qed simp

lemma printable_nonzero: "printable d (O_Array xs) \<Longrightarrow> d > 0" "printable d (O_Dictionary m) \<Longrightarrow> d > 0"
  by (simp_all add: printable_def)

lemma kept_entry:
  assumes "printable d (emitted_value doc (V_Dictionary m))" "(k, c) \<in> set (filter (entry_kept doc) m)"
  shows "printable (d - 1) (emitted doc c)"
proof -
  have entries: "printable d (O_Dictionary (map (\<lambda>e. (fst e, emitted doc (snd e))) (filter (entry_kept doc) m)))"
    using assms(1) by simp
  have "(k, emitted doc c) \<in> set (map (\<lambda>e. (fst e, emitted doc (snd e))) (filter (entry_kept doc) m))" using assms(2) by force
  then show ?thesis by (rule printable_entry(1) [OF entries])
qed

lemma entry_resolves:
  assumes "resolves_all doc" "printable d (emitted_value doc (V_Dictionary m))" "(k, c) \<in> set m"
  shows "\<exists>v. try_dereference doc c = Inr v"
proof (cases "entry_kept doc (k, c)")
  case True
  then have "(k, c) \<in> set (filter (entry_kept doc) m)" using assms(3) by simp
  from printable_initialized [OF kept_entry [OF assms(2) this]] show ?thesis
    by (rule try_dereference_total [OF assms(1)])
next
  case False
  then show ?thesis by (cases "try_dereference doc c") (auto simp: entry_kept_def try_is_null_def split: if_splits)
qed

lemma sig_contents_total:
  assumes "resolves_all doc" "printable d (emitted_value doc (V_Dictionary m))"
  shows "\<exists>b. sig_contents doc m key = Inr b"
proof (cases "map_of m (str ''/Type'')")
  case (Some ty)
  then obtain v where "try_dereference doc ty = Inr v" using entry_resolves [OF assms map_of_SomeD] by blast
  moreover have "\<exists>b. try_is_null doc ranges = Inr b" for ranges by (rule try_is_null_total [OF assms(1)])
  ultimately show ?thesis
    using Some by (auto simp: sig_contents_def dict_is_sig_with_byte_range_def map_sum_def split: option.split sum.split) (metis Inl_Inr_False)+
qed (simp add: sig_contents_def dict_is_sig_with_byte_range_def, blast)

text \<open>A child is written when its printer writes direct children.\<close>

lemma direct_child_total:
  assumes "resolves_all doc" "printable d (emitted doc c)" "\<not> is_indirect c" "d < n"
    "\<And>h v d. try_dereference doc h = Inr v \<Longrightarrow> printable d (emitted_value doc v) \<Longrightarrow> d < n \<Longrightarrow> \<exists>t. walk h = wrote t"
  shows "\<exists>t. walk c = wrote t"
proof -
  obtain w where w: "try_dereference doc c = Inr w"
    using try_dereference_total [OF assms(1) printable_initialized [OF assms(2)]] by blast
  show ?thesis using assms(5) [OF w _ assms(4)] deref_printable(2) [OF assms(3) w assms(2)] assms(2) by simp
qed

lemma resolved_total:
  "try_dereference doc h = Inr v \<Longrightarrow> printable d (emitted_value doc v) \<Longrightarrow> d < n \<Longrightarrow> resolves_all doc \<Longrightarrow>
   \<exists>t. unparse_resolved_into n doc h = wrote t"
proof (induction n arbitrary: h v d)
  case (Suc n)
  let ?rec = "unparse_resolved_into n doc"
  have "\<not> is_stream v" using Suc.prems(2) by (cases v) (auto simp: is_stream_def printable_def)
  then have start: "unparse_resolved_into (Suc n) doc h = unparse_resolved_value doc ?rec v" using Suc.prems(1) by simp
  have child: "\<exists>t. unparse_resolved_child ?rec c = wrote t" if "printable (d - 1) (emitted doc c)" "d > 0" for c
  proof (cases "is_indirect c")
    case True
    then show ?thesis by (auto simp: is_indirect_def unparse_resolved_child_def split: option.splits)
  next
    case False
    have "d - 1 < n" using that(2) Suc.prems(3) by simp
    from direct_child_total [OF Suc.prems(4) that(1) False this, of ?rec] Suc.IH Suc.prems(4)
    obtain t where "?rec c = wrote t" by blast
    then show ?thesis using False by (auto simp: is_indirect_def unparse_resolved_child_def split: option.splits)
  qed
  show ?case
  proof (cases v)
    case (V_Array cs)
    have "\<exists>u. emit_all (\<lambda>c. and_then (unparse_resolved_child ?rec c) (\<lambda>t. wrote (t @ str '' ''))) cs = wrote u"
    proof (rule emit_all_total)
      fix c assume "c \<in> set cs"
      then have "printable (d - 1) (emitted doc c)" "d > 0"
        using Suc.prems(2) V_Array printable_array [of d "map (emitted doc) cs" "emitted doc c"]
          printable_nonzero(1) [of d "map (emitted doc) cs"] by simp_all
      from child [OF this] show "\<exists>t. and_then (unparse_resolved_child ?rec c) (\<lambda>t. wrote (t @ str '' '')) = wrote t" by force
    qed
    then show ?thesis using start V_Array by (auto simp: unparse_resolved_value_def)
  next
    case (V_Dictionary m)
    have p: "printable d (emitted_value doc (V_Dictionary m))" using Suc.prems(2) V_Dictionary by simp
    let ?f = "\<lambda>(key, c). and_then (Some (try_is_null doc c)) (\<lambda>null. if null then wrote []
      else and_then (unparse_resolved_child ?rec c) (\<lambda>t. wrote (write_unparse_dictionary_key key @ str '' '' @ t @ str '' '')))"
    have "\<exists>u. emit_all ?f m = wrote u"
    proof (rule emit_all_total)
      fix e assume e: "e \<in> set m"
      obtain k c where kc: "e = (k, c)" by (cases e)
      obtain b where b: "try_is_null doc c = Inr b" using try_is_null_total [OF Suc.prems(4)] by blast
      show "\<exists>t. ?f e = wrote t"
      proof (cases b)
        case False
        then have "printable (d - 1) (emitted doc c)" using kept_entry [OF p, of k c] e kc b by (simp add: entry_kept_def)
        from child [OF this] obtain t where "unparse_resolved_child ?rec c = wrote t"
          using p printable_nonzero(2) by auto
        then show ?thesis using b kc False by simp
      qed (use b kc in simp)
    qed
    then show ?thesis using start V_Dictionary by (auto simp: unparse_resolved_value_def)
  qed (use start Suc.prems(2) in \<open>simp_all add: unparse_resolved_value_def printable_def\<close>)
qed simp

lemma contents_total:
  assumes "resolves_all doc" "h_initialized c" "\<exists>t. child = wrote t"
  shows "\<exists>t. or_else (try_write_sig_contents_hex_string doc c force) child = wrote t"
proof -
  obtain v where "try_dereference doc c = Inr v" using try_dereference_total [OF assms(1,2)] by blast
  then show ?thesis
    using assms(3) by (cases v) (auto simp: or_else_def try_write_sig_contents_hex_string_def)
qed

lemma children_total:
  assumes "printable d (emitted_value doc (V_Array cs))"
    "\<And>c. printable (d - 1) (emitted doc c) \<Longrightarrow> d > 0 \<Longrightarrow> \<exists>t. child c = wrote t"
  shows "\<exists>u. emit_all (\<lambda>c. and_then (child c) (\<lambda>t. wrote (pre @ t @ post))) cs = wrote u"
proof (rule emit_all_total)
  fix c assume "c \<in> set cs"
  then have "printable (d - 1) (emitted doc c)" "d > 0"
    using assms(1) printable_array [of d "map (emitted doc) cs" "emitted doc c"]
      printable_nonzero(1) [of d "map (emitted doc) cs"] by simp_all
  from assms(2) [OF this] show "\<exists>t. and_then (child c) (\<lambda>t. wrote (pre @ t @ post)) = wrote t" by force
qed

lemma entries_total:
  assumes "resolves_all doc" "printable d (emitted_value doc (V_Dictionary m))"
    "\<And>c. printable (d - 1) (emitted doc c) \<Longrightarrow> d > 0 \<Longrightarrow> \<exists>t. child c = wrote t"
  shows "\<exists>u. emit_all (\<lambda>(key, c). and_then (Some (sig_contents doc m key)) (\<lambda>force_hex_string.
      and_then (or_else (try_write_sig_contents_hex_string doc c force_hex_string) (child c))
        (\<lambda>t. wrote (pre @ write_object_key key @ str '' '' @ t @ post)))) (filter (entry_kept doc) m) = wrote u"
    (is "\<exists>u. emit_all ?f _ = wrote u")
proof (rule emit_all_total)
  fix e assume e: "e \<in> set (filter (entry_kept doc) m)"
  obtain k c where kc: "e = (k, c)" by (cases e)
  have p: "printable (d - 1) (emitted doc c)" using kept_entry [OF assms(2)] e kc by simp
  have "d > 0" using assms(2) printable_nonzero(2) by simp
  from assms(3) [OF p this] have child: "\<exists>t. child c = wrote t" .
  obtain b where b: "sig_contents doc m k = Inr b" using sig_contents_total [OF assms(1,2)] by blast
  obtain t where "or_else (try_write_sig_contents_hex_string doc c b) (child c) = wrote t"
    using contents_total [OF assms(1) printable_initialized [OF p] child] by blast
  then show "\<exists>t. ?f e = wrote t" using b kc by simp
qed

lemma not_reserved:
  "try_dereference doc h = Inr v \<Longrightarrow> printable d (emitted_value doc v) \<Longrightarrow> \<not> is_reserved h"
  by (auto simp: is_reserved_def try_dereference_def printable_def split: if_splits option.splits)

lemma compact_total:
  "try_dereference doc h = Inr v \<Longrightarrow> printable d (emitted_value doc v) \<Longrightarrow> d < n \<Longrightarrow> resolves_all doc \<Longrightarrow>
   \<exists>t. unparse_object_walk n doc h = wrote t"
proof (induction n arbitrary: h v d)
  case (Suc n)
  let ?walk = "unparse_object_walk n doc"
  have start: "unparse_object_walk (Suc n) doc h = unparse_object_value (unparse_container doc ?walk) v"
    using Suc.prems(1) not_reserved [OF Suc.prems(1,2)] by simp
  have child: "\<exists>t. unparse_child doc ?walk c = wrote t" if p: "printable (d - 1) (emitted doc c)" and "d > 0" for c
  proof (cases "is_indirect c")
    case True
    then show ?thesis by (auto simp: is_indirect_def unparse_child_def split: option.splits)
  next
    case False
    have "d - 1 < n" using that(2) Suc.prems(3) by simp
    from direct_child_total [OF Suc.prems(4) p False this, of ?walk] Suc.IH Suc.prems(4)
    obtain t where "?walk c = wrote t" by blast
    then have "unparse_child doc ?walk c = or_else (write_direct_child c) (wrote t)"
      using False printable_initialized [OF p]
      by (auto simp: is_indirect_def unparse_child_def after_initialized_def split: option.splits)
    moreover have "printable (d - 1) (emitted_value doc (h_value c))"
      using p emitted_direct [OF False printable_initialized [OF p]] by simp
    then have "\<exists>t. or_else (write_direct_child c) (wrote s) = wrote t" for s
      by (cases "h_value c")
        (simp_all add: write_direct_child_def or_else_def is_container_def unparse_object_value_def printable_def)
    ultimately show ?thesis by simp
  qed
  show ?case
  proof (cases v)
    case (V_Array cs)
    have p: "printable d (emitted_value doc (V_Array cs))" using Suc.prems(2) V_Array by simp
    obtain u where "emit_all (\<lambda>c. and_then (unparse_child doc ?walk c) (\<lambda>t. wrote (str '' '' @ t @ []))) cs = wrote u"
      using children_total [OF p, of "unparse_child doc ?walk" "str '' ''" "[]"] child by blast
    then show ?thesis using start V_Array by (simp add: unparse_object_value_def unparse_container_def)
  next
    case (V_Dictionary m)
    have p: "printable d (emitted_value doc (V_Dictionary m))" using Suc.prems(2) V_Dictionary by simp
    obtain u where "emit_all (\<lambda>(key, c). and_then (Some (sig_contents doc m key)) (\<lambda>force_hex_string.
        and_then (or_else (try_write_sig_contents_hex_string doc c force_hex_string) (unparse_child doc ?walk c))
        (\<lambda>t. wrote (str '' '' @ write_object_key key @ str '' '' @ t @ [])))) (filter (entry_kept doc) m) = wrote u"
      using entries_total [OF Suc.prems(4) p, of "unparse_child doc ?walk" "str '' ''" "[]"] child by blast
    then show ?thesis using start V_Dictionary
      by (simp add: unparse_object_value_def unparse_container_def unparse_dict_entries_def spaced_entry_def
          visible_entries_total [OF Suc.prems(4)])
  qed (use start Suc.prems(2) in \<open>simp_all add: unparse_object_value_def printable_def\<close>)
qed simp

lemma qdf_total:
  "try_dereference doc h = Inr v \<Longrightarrow> printable d (emitted_value doc v) \<Longrightarrow> d < n \<Longrightarrow> resolves_all doc \<Longrightarrow>
   \<exists>t. unparse_object_walk_qdf n doc indent h = wrote t"
proof (induction n arbitrary: h v d indent)
  case (Suc n)
  let ?walk = "unparse_object_walk_qdf n doc"
  have start: "unparse_object_walk_qdf (Suc n) doc indent h = unparse_object_value (unparse_container_qdf doc ?walk indent) v"
    using Suc.prems(1) not_reserved [OF Suc.prems(1,2)] by simp
  have child: "\<exists>t. unparse_child_qdf (?walk (indent + 2)) c = wrote t"
    if p: "printable (d - 1) (emitted doc c)" and "d > 0" for c
  proof (cases "is_indirect c")
    case True
    then show ?thesis by (auto simp: is_indirect_def unparse_child_qdf_def split: option.splits)
  next
    case False
    have "d - 1 < n" using that(2) Suc.prems(3) by simp
    from direct_child_total [OF Suc.prems(4) p False this, of "?walk (indent + 2)"] Suc.IH Suc.prems(4)
    obtain t where "?walk (indent + 2) c = wrote t" by blast
    then show ?thesis using False by (auto simp: is_indirect_def unparse_child_qdf_def split: option.splits)
  qed
  show ?case
  proof (cases v)
    case (V_Array cs)
    have p: "printable d (emitted_value doc (V_Array cs))" using Suc.prems(2) V_Array by simp
    obtain u where "emit_all (\<lambda>c. and_then (unparse_child_qdf (?walk (indent + 2)) c)
        (\<lambda>t. wrote (push_spaces (indent + 2) @ t @ [0x0A]))) cs = wrote u"
      using children_total [OF p, of "unparse_child_qdf (?walk (indent + 2))" "push_spaces (indent + 2)" "[0x0A]"] child by blast
    then show ?thesis using start V_Array by (simp add: unparse_object_value_def unparse_container_qdf_def)
  next
    case (V_Dictionary m)
    have p: "printable d (emitted_value doc (V_Dictionary m))" using Suc.prems(2) V_Dictionary by simp
    obtain u where "emit_all (\<lambda>(key, c). and_then (Some (sig_contents doc m key)) (\<lambda>force_hex_string.
        and_then (or_else (try_write_sig_contents_hex_string doc c force_hex_string) (unparse_child_qdf (?walk (indent + 2)) c))
        (\<lambda>t. wrote (push_spaces (indent + 2) @ write_object_key key @ str '' '' @ t @ [0x0A])))) (filter (entry_kept doc) m) = wrote u"
      using entries_total [OF Suc.prems(4) p, of "unparse_child_qdf (?walk (indent + 2))" "push_spaces (indent + 2)" "[0x0A]"] child
      by blast
    then show ?thesis using start V_Dictionary
      by (simp add: unparse_object_value_def unparse_container_qdf_def unparse_dict_entries_qdf_def
          visible_entries_total [OF Suc.prems(4)])
  qed (use start Suc.prems(2) in \<open>simp_all add: unparse_object_value_def printable_def\<close>)
qed simp

section \<open>The contract of a printer\<close>

text \<open>What a printer promises: the text of a printable value is a layout of it, and with fuel there is a text.\<close>

locale object_printer =
  fixes pr :: "nat \<Rightarrow> document \<Rightarrow> handle \<Rightarrow> bytes printed"
  assumes pr_layout: "pr n doc h = wrote t \<Longrightarrow> try_dereference doc h = Inr v \<Longrightarrow> printable d (emitted_value doc v) \<Longrightarrow>
      lays (emitted_value doc v) t"
    and pr_resolves: "pr n doc h = wrote t \<Longrightarrow> \<exists>v. try_dereference doc h = Inr v"
    and pr_total: "try_dereference doc h = Inr v \<Longrightarrow> printable d (emitted_value doc v) \<Longrightarrow> d < n \<Longrightarrow> resolves_all doc \<Longrightarrow>
      \<exists>t. pr n doc h = wrote t"

text \<open>The handles a file is read with, detached or shifted, are faithful.\<close>

interpretation file_handles: faithful_handles
  "\<lparr>pc_resolver = detached_handles template warning_description, pc_has_context = True, pc_decrypter = None,
    pc_content_stream = False\<rparr>"
  for template warning_description
  by unfold_locales
    (auto simp: detached_handles_def content_from_value new_indirect_unresolved_def try_from_object_ref_def
      og_is_indirect_def reference_ok_def)

lemma emitted_value_not_reference: "emitted_value doc v \<noteq> O_Reference n g"
  by (cases v) simp_all

context object_printer begin

lemma read_back:
  assumes "pr n doc h = wrote t" "try_dereference doc h = Inr v" "printable 500 (emitted_value doc v)"
    "list_all is_ws ws" "ends_here ys" "int (length (ws @ t @ ys)) < 2 ^ 63"
  shows "object_at (emitted_value doc v) (length (ws @ t))
    (parse_live_file_object (slice_new (ws @ t @ ys)) (detached_handles template warning_description))"
proof -
  have "well_typed True 500 (emitted_value doc v)" using assms(3) by (simp add: printable_def)
  from file_handles.layout_read [OF pr_layout [OF assms(1-3)] this emitted_value_not_reference assms(4-6)]
  show ?thesis
    by (simp add: parse_live_file_object_def parse_live_object_with_context_def detached_handles_def)
qed

end

interpretation resolved_printer: object_printer unparse_resolved_into
proof unfold_locales
  show "\<exists>v. try_dereference doc h = Inr v" if "unparse_resolved_into n doc h = wrote t" for n doc h t
    using that by (cases n) (auto simp: and_then_wrote)
qed (fact resolved_layout resolved_total)+

interpretation compact_printer: object_printer unparse_object_walk
proof unfold_locales
  show "\<exists>v. try_dereference doc h = Inr v" if "unparse_object_walk n doc h = wrote t" for n doc h t
    using that by (cases n) (auto simp: and_then_wrote split: if_splits)
qed (fact compact_layout compact_total)+

interpretation qdf_printer: object_printer "\<lambda>n doc. unparse_object_walk_qdf n doc indent" for indent
proof unfold_locales
  show "\<exists>v. try_dereference doc h = Inr v" if "unparse_object_walk_qdf n doc indent h = wrote t" for n doc h t
    using that by (cases n) (auto simp: and_then_wrote split: if_splits)
qed (fact qdf_layout qdf_total)+

section \<open>Properties\<close>

definition printers :: "nat \<Rightarrow> (nat \<Rightarrow> document \<Rightarrow> handle \<Rightarrow> bytes printed) set" where
  "printers indent =
     {unparse_resolved_into, unparse_object_walk, \<lambda>n doc. unparse_object_walk_qdf n doc indent}"

lemma printers_keep_contract: "pr \<in> printers indent \<Longrightarrow> object_printer pr"
  using resolved_printer.object_printer_axioms compact_printer.object_printer_axioms qdf_printer.object_printer_axioms
  by (auto simp: printers_def)

text \<open>C1: printing and reading are inverse. What the resolved, the compact or the QDF printer writes for a
  handle (names without NUL, reals in their syntax, at most 500 levels) is read back by the parser of file
  objects as the same object, references included, less the dictionary entries that resolve to null. The
  parser stops exactly where the text ends, whatever white space is before it and whatever comes after it.\<close>

theorem printed_object_read_back:
  assumes "pr \<in> printers indent" "pr n doc h = wrote t" "try_dereference doc h = Inr v"
    "printable 500 (emitted_value doc v)" "list_all is_ws ws" "ends_here ys" "int (length (ws @ t @ ys)) < 2 ^ 63"
  shows "\<exists>parsed.
    parse_live_file_object (slice_new (ws @ t @ ys)) (detached_handles template warning_description) = Inr parsed \<and>
    content (lp_value parsed) = emitted_value doc v \<and> lp_next_offset parsed = length (ws @ t)"
  using object_printer.read_back [OF printers_keep_contract [OF assms(1)] assms(2-7)]
  by (auto simp: object_at_def)

definition sample_handle :: handle where
  "sample_handle = from_value (V_Dictionary
     [(str ''/A'', from_value (V_Array [from_value (V_Integer (-7)), new_indirect_unresolved (Object_Ref 5 0) 0])),
      (str ''/B'', from_value V_Null), (str ''/C'', from_value (V_String (str ''x'')))])"

lemma sample_printed:
  "unparse_object_walk 3 no_document sample_handle = wrote (str ''<< /A [ -7 5 0 R ] /C (x) >>'')"
  by code_simp

lemma sample_emitted:
  "try_dereference no_document sample_handle = Inr (h_value sample_handle) \<and>
   printable 500 (emitted_value no_document (h_value sample_handle))"
proof -
  have "emitted_value no_document (h_value sample_handle) =
    O_Dictionary [(str ''/A'', O_Array [O_Integer (-7), O_Reference 5 0]), (str ''/C'', O_String (str ''x''))]" by code_simp
  moreover have "bt_sorted [(str ''/A'', O_Array [O_Integer (-7), O_Reference 5 0]), (str ''/C'', O_String (str ''x''))]"
    "slashed (str ''/A'')" "slashed (str ''/C'')" "0 \<notin> set (str ''/A'')" "0 \<notin> set (str ''/C'')" by code_simp+
  moreover have "try_dereference no_document sample_handle = Inr (h_value sample_handle)" by code_simp
  moreover have "printable 500 (O_Dictionary [(str ''/A'', O_Array [O_Integer (-7), O_Reference 5 0]), (str ''/C'', O_String (str ''x''))])"
    using calculation(2-6) by (simp add: printable_def reference_ok_def)
  ultimately show ?thesis by (simp only: simp_thms)
qed

lemma printed_object_read_back_witness:
  "\<exists>parsed.
    parse_live_file_object (slice_new (str '' << /A [ -7 5 0 R ] /C (x) >> 1'')) (detached_handles None None) = Inr parsed \<and>
    content (lp_value parsed) = emitted_value no_document (h_value sample_handle) \<and> lp_next_offset parsed = 29"
proof -
  let ?t = "str ''<< /A [ -7 5 0 R ] /C (x) >>''"
  have whole: "str '' << /A [ -7 5 0 R ] /C (x) >> 1'' = [0x20] @ ?t @ str '' 1''" by code_simp
  have pr: "unparse_object_walk \<in> printers 0" by (simp add: printers_def)
  have rest: "list_all is_ws [0x20 :: byte]" "ends_here (str '' 1'')" by code_simp+
  have len: "length ([0x20] @ ?t) = 29" "length ([0x20] @ ?t @ str '' 1'') = 31" by code_simp+
  then have "int (length ([0x20] @ ?t @ str '' 1'')) < 2 ^ 63" by simp
  from printed_object_read_back [OF pr sample_printed sample_emitted [THEN conjunct1] sample_emitted [THEN conjunct2] rest this]
  show ?thesis unfolding whole len .
qed

text \<open>C12: where the document resolves every reference, each printer writes a text for a handle that is printable
  within \<open>d\<close> levels, with \<open>d + 1\<close> steps of fuel: it neither fails nor runs out.\<close>

theorem printable_object_printed:
  assumes "pr \<in> printers indent" "resolves_all doc" "try_dereference doc h = Inr v"
    "printable d (emitted_value doc v)" "d < n"
  shows "\<exists>t. pr n doc h = wrote t"
  using object_printer.pr_total [OF printers_keep_contract [OF assms(1)] assms(3-5,2)] .

lemma printable_object_printed_witness:
  "\<exists>t. unparse_object_walk_qdf 501 (\<lambda>og. Inr V_Null) 4 (new_indirect_unresolved (Object_Ref 5 0) 0) = wrote t"
proof -
  have h: "try_dereference (\<lambda>og. Inr V_Null) (new_indirect_unresolved (Object_Ref 5 0) 0) = Inr V_Null" by code_simp
  show ?thesis
    by (rule printable_object_printed [where pr = "\<lambda>n doc. unparse_object_walk_qdf n doc 4" and indent = 4 and d = 500, OF _ _ h])
      (simp_all add: printers_def resolves_all_def printable_def)
qed

end
