(* ===== verification/Spec2Isabelle.thy ===== *)
theory Spec2Isabelle
  imports Prelude Pipeline Ascii_Hex Ascii85 Run_Length Base64 Rc4 Bit_Stream Pdf_Syntax Rust_Std Errors Lzw Qutil
    Page_Range Pdf_Version Permissions Row_Stage Png_Filter
    Tokenizer Tokenizer_Lossless Tokenizer_Roundtrip Token_Pipeline
    Utf8 Unicode Password Btree_Map Json_Value Json_Writer Json_Parser Json_Total Json_Lexing Json_Words Json_Roundtrip
    Object_Model Live_Source Live_Reading Object_Parser Object_Parser_Safety Object_Types Object_Reading Object_Writer Object_Roundtrip
begin

text \<open>
  A model of the byte-level core of \<open>flpdf\<close>, a library that reads, writes and transforms PDF files
  (\<open>crates/flpdf/src\<close>), with the theorems that make it correct.

  The parts and how they interact. A file is read through the tokenizer, whose tokens the object parser makes
  into handles; handles are resolved by their document and printed by the writer. Streams run through a chain of
  pipeline stages (each stage is handed bytes by \<open>write\<close>, sends bytes to its successor and is closed by
  \<open>finish\<close>). Numbers, page ranges, versions and
  permissions of the command line and of dictionaries have small languages of their own.

  Conventions. A Rust method on \<open>&mut self\<close> that may fail is a function from the state to an
  \<open>outcome\<close>, which carries the state left behind also when it fails; \<open>seq\<close> is the operator \<open>?\<close>. The
  successor of a stage is a parameter \<open>p :: 'd pipeline\<close> over an arbitrary state. A \<open>u8\<close> is an 8-bit word;
  \<open>usize\<close> positions and lengths are natural numbers where memory bounds them, and words or explicit casts
  where the code wraps, saturates or checks. Strings are their UTF-8 bytes. Fields that only label a stage in
  error messages are left out where no message uses them.

  The theories.
  \<^item> \<open>Prelude\<close>: bytes, outcomes, the loop over a slice, facts on words and lists; \<open>Rust_Std\<close>: integer
    parsing and printing and UTF-8 of the standard library.
  \<^item> \<open>Pipeline\<close>: \<open>pipeline.rs\<close> with the sinks and pass-through stages, and the locales \<open>split_stage\<close> and
    \<open>chunked_stage\<close>: how the data is cut into writes does not matter. \<open>Row_Stage\<close> states the same contract for
    stages that work row by row under an invariant.
  \<^item> \<open>Ascii_Hex\<close>, \<open>Ascii85\<close>, \<open>Run_Length\<close>, \<open>Base64\<close>, \<open>Lzw\<close>, \<open>Png_Filter\<close>: the stages of
    \<open>pipeline/\<close> of those names, each with its invariant, its agreement with a reference codec on whole inputs and
    its round trip; the encoder half of \<open>run_length.rs\<close> and \<open>pack_codes\<close> of \<open>lzw.rs\<close> are compiled for tests
    only. \<open>Lzw\<close> proves that the cyclic buffer of three bytes refines a queue of bits. \<open>Rc4\<close>:
    \<open>encryption/rc4.rs\<close> and \<open>pipeline/rc4.rs\<close>.
  \<^item> \<open>Bit_Stream\<close>: \<open>bit_stream.rs\<close> and \<open>bit_writer.rs\<close>, fields of bits written and read back.
  \<^item> \<open>Errors\<close>: \<open>error.rs\<close>, \<open>diagnostics.rs\<close>, and the rendering of system errors of \<open>qutil.rs\<close>.
  \<^item> \<open>Pdf_Syntax\<close>: \<open>pdf_syntax.rs\<close>, names and strings as printed. \<open>Tokenizer\<close>: \<open>tokenizer.rs\<close>, the state
    machine byte by byte and the cursor around it; \<open>Tokenizer_Lossless\<close> shows that tokens cover the input,
    \<open>Tokenizer_Roundtrip\<close> that printed names, strings and integers are read back; \<open>Token_Pipeline\<close> is the
    stage \<open>pipeline/qpdf_tokenizer.rs\<close> with \<open>token_filter.rs\<close> and \<open>content_normalizer.rs\<close>.
  \<^item> \<open>Qutil\<close>: the numeric conversions and \<open>parse_numrange\<close> of \<open>qutil.rs\<close>; \<open>Page_Range\<close>:
    \<open>job/page_range.rs\<close> and \<open>job/rotate_spec.rs\<close>; \<open>Pdf_Version\<close>: \<open>pdf_version.rs\<close>; \<open>Permissions\<close>:
    \<open>encryption/permissions.rs\<close>.
  \<^item> \<open>Unicode\<close>: code points, UTF-8 and UTF-16; \<open>Password\<close>: \<open>encryption/password.rs\<close>, passwords in the
    encodings of the command line, shown to be found whatever encoding the user typed.
  \<^item> \<open>Json_Value\<close>: \<open>json/value.rs\<close>, shared values as cells of an explicit heap over ordered maps (locale
    \<open>ordered_map\<close>); \<open>Json_Writer\<close>: \<open>json/writer.rs\<close>, with the trees that cells represent and their text;
    \<open>Json_Parser\<close> (with \<open>Utf8\<close>): \<open>json/parser.rs\<close>, the lexer byte by byte, the parser token by token and the
    reactor's events. \<open>Json_Total\<close> shows that the parser returns and never panics; \<open>Json_Lexing\<close>,
    \<open>Json_Words\<close> and \<open>Json_Roundtrip\<close> that it reads back what the writer wrote.
  \<^item> \<open>Btree_Map\<close>: ordered maps as sorted lists. \<open>Object_Model\<close>: identities, values and handles of
    \<open>object_ref.rs\<close>, \<open>qpdf_obj_gen.rs\<close> and \<open>object_handle.rs\<close>, with their resolution by a document, a
    function from identities to values, and \<open>content\<close>, the object of the syntax a handle stands for.
  \<^item> \<open>Live_Source\<close>: the live token source of \<open>parser.rs\<close> over a slice; \<open>Live_Reading\<close>: it reads each printed
    token. \<open>Object_Parser\<close>: the rest of the parser of single objects in \<open>parser.rs\<close>, its frames, the ring of
    two pending integers, recovery with warnings, and the entry points. A step that fails gives
    an error of the code, a panic (\<open>PF_Panic\<close>) or a lack of fuel (\<open>PF_Fuel\<close>).
  \<^item> \<open>Object_Parser_Safety\<close>: a logic of the parser's steps for any invariant on values (locale
    \<open>parsed_values\<close>): no panic, no lack of fuel, the errors there are, the offsets. \<open>Object_Types\<close> takes the
    types of values as the invariant. \<open>Object_Reading\<close>: the parser reads every layout of an object (the relation
    \<open>lays\<close>), for resolvers that keep the content of handles (locale \<open>faithful_handles\<close>).
  \<^item> \<open>Object_Writer\<close>: the printers of \<open>object_handle.rs\<close>, \<open>writer/object.rs\<close> and \<open>writer/output.rs\<close>: resolved,
    compact, renumbering, dynamic with its fast path, and QDF. \<open>Object_Roundtrip\<close>: three of them write layouts
    (locale \<open>object_printer\<close>), so printing and reading are inverse.

  Loops. Every loop over a slice is structural or has a termination proof. The token loops take fuel: one read
  consumes a byte or ends at most twice at the end of the input, so \<open>token_fuel\<close>, twice the length plus two,
  is enough, and \<open>Token_Pipeline\<close> proves that they return. The JSON parser takes one
  round per byte and one more, and the JSON writer a bound on the nesting, as handles may form cycles; both are
  shown to be enough. The object parser takes one round per remaining byte and one more, which
  \<open>Object_Parser_Safety\<close> shows to be enough for every input; the printers, whose walk the code does not bound,
  one step per level, enough for printable objects by \<open>Object_Roundtrip\<close>. The row loop of \<open>Png_Filter\<close> tests that the row
  length is positive, which holds for every stage the constructor makes.

  Not modelled. The mutation of shared values, the data of streams and the document-wide cache of
  \<open>object_handle.rs\<close>, and what is built on them: indirect objects with their streams, cross-reference tables, the
  resolver, the plans of the writer, linearization, trees, pages, forms and jobs; they need an explicit store of
  objects. The document is therefore a parameter of what resolves, and a parser's resolver a record of functions.
  The stages around third-party code (AES, zlib, JPEG, digests) and plain input and output. The constructors of
  single errors and the getters, which are record construction and selection.
\<close>

section \<open>Properties across the stages\<close>

text \<open>
  C25: how a caller cuts the encoded data into writes does not matter to any of the decoders: the
  bytes sent on, the state left behind and the error, if any, are those of a single write.
\<close>

theorem decoders_ignore_chunking:
  "feed (ascii_hex_write p) hs writes = ascii_hex_write p hs (concat writes) \<and>
   feed (ascii85_write p) as writes = ascii85_write p as (concat writes) \<and>
   feed (run_length_write p) rs writes = run_length_write p rs (concat writes) \<and>
   feed (base64_write p) bs (c # writes) = base64_write p bs (concat (c # writes))"
  by (intro conjI ascii_hex.feed_concat ascii85.feed_concat run_length.feed_concat
      base64.feed_concat_Cons)

end
